(* ===== verification/Prelude.thy ===== *)
theory Prelude
  imports Main "HOL-Library.Word"
begin

text \<open>
  What every component shares: the machine types, undefined behaviour as a value, the
  errno values the code tests, and the generic lemmas on lists and ring buffers.

  The program is C.  A function whose execution can leave the language (a read past an
  allocation, a dereference of a null or freed pointer, a signed overflow) has a result of
  type \<open>ub + 'r\<close>: \<open>Inl\<close> names what went wrong and \<open>Inr\<close> carries what the function
  returns together with the state it leaves.  An error code the source returns (\<open>-1\<close>,
  \<open>-2\<close>, an errno) is an ordinary \<open>Inr\<close> value.
\<close>

section \<open>Machine types\<close>

type_synonym u8 = "8 word"
type_synonym u32 = "32 word"
type_synonym u64 = "64 word"

text \<open>\<open>intptr_t\<close>, and every pointer the data structures store without looking at it.\<close>

type_synonym intptr = "64 word"

section \<open>Undefined behaviour as a value\<close>

datatype ub =
    OutOfBounds    \<comment> \<open>access past an allocation\<close>
  | NullDeref      \<comment> \<open>access through a null pointer\<close>
  | BadPointer     \<comment> \<open>access through a pointer that is not (or no longer) allocated\<close>
  | IntOverflow    \<comment> \<open>signed arithmetic outside the range of its type\<close>
  | BadShift       \<comment> \<open>shift by the width of the type or more\<close>
  | Uninitialised  \<comment> \<open>use of a variable that was never set\<close>
  | DivByZero      \<comment> \<open>division by zero\<close>
  | OutOfFuel      \<comment> \<open>a loop that has not ended within its fuel\<close>
  | Deadlock       \<comment> \<open>waiting for a lock that nobody will release\<close>

definition bindE :: "'e + 'a \<Rightarrow> ('a \<Rightarrow> 'e + 'b) \<Rightarrow> 'e + 'b" where
  "bindE m f = (case m of Inl e \<Rightarrow> Inl e | Inr x \<Rightarrow> f x)"

lemma bindE_Inl [simp]: "bindE (Inl e) f = Inl e"
  by (simp add: bindE_def)

lemma bindE_Inr [simp]: "bindE (Inr x) f = f x"
  by (simp add: bindE_def)

lemma bindE_cong [fundef_cong]:
  "m = m' \<Longrightarrow> (\<And>x. m' = Inr x \<Longrightarrow> f x = g x) \<Longrightarrow> bindE m f = bindE m' g"
  by (cases m') auto

lemma bindE_eq_Inr_iff: "bindE m f = Inr y \<longleftrightarrow> (\<exists>x. m = Inr x \<and> f x = Inr y)"
  by (cases m) auto

lemma bindE_split:
  "P (bindE m f) \<longleftrightarrow> (\<forall>e. m = Inl e \<longrightarrow> P (Inl e)) \<and> (\<forall>x. m = Inr x \<longrightarrow> P (f x))"
  by (cases m) auto

text \<open>
  \<open>barring e P m\<close>: \<open>m\<close> either yields a result with the property \<open>P\<close> or fails with exactly
  \<open>e\<close>.  The rule for a sequence of two operations is that of a weakest precondition.
\<close>

definition barring :: "'e \<Rightarrow> ('a \<Rightarrow> bool) \<Rightarrow> 'e + 'a \<Rightarrow> bool" where
  "barring e P m \<longleftrightarrow> (case m of Inl e' \<Rightarrow> e' = e | Inr x \<Rightarrow> P x)"

lemma barring_Inr [simp]: "barring e P (Inr x) = P x"
  by (simp add: barring_def)

lemma barring_Inl [simp]: "barring e P (Inl e') = (e' = e)"
  by (simp add: barring_def)

lemma barring_bindE [simp]: "barring e P (bindE m f) = barring e (\<lambda>x. barring e P (f x)) m"
  by (cases m) auto

lemma barring_mono: "barring e P m \<Longrightarrow> (\<And>x. m = Inr x \<Longrightarrow> P x \<Longrightarrow> Q x) \<Longrightarrow> barring e Q m"
  by (cases m) auto

section \<open>Values of errno\<close>

abbreviation (input) ENOENT :: int where "ENOENT \<equiv> 2"
abbreviation (input) EINTR :: int where "EINTR \<equiv> 4"
abbreviation (input) EAGAIN :: int where "EAGAIN \<equiv> 11"
abbreviation (input) ENOMEM :: int where "ENOMEM \<equiv> 12"
abbreviation (input) EINVAL :: int where "EINVAL \<equiv> 22"

section \<open>Ring buffers over a list\<close>

text \<open>
  \<open>ring xs r n\<close> is the sequence of \<open>n\<close> cells of \<open>xs\<close> that starts at index \<open>r\<close> and wraps
  around at the end: what a ring buffer with its read index at \<open>r\<close> holds.
\<close>

named_theorems ring_simps \<open>facts that compute the contents of a ring buffer\<close>

definition ring :: "'a list \<Rightarrow> nat \<Rightarrow> nat \<Rightarrow> 'a list" where
  "ring xs r n = map (\<lambda>i. xs ! ((r + i) mod length xs)) [0..<n]"

lemma length_ring [simp]: "length (ring xs r n) = n"
  by (simp add: ring_def)

lemma ring_0 [simp]: "ring xs r 0 = []"
  by (simp add: ring_def)

lemma ring_nth: "i < n \<Longrightarrow> ring xs r n ! i = xs ! ((r + i) mod length xs)"
  by (simp add: ring_def)

lemma mod_add_left_cancel_nat:
  fixes a i j m :: nat
  assumes "(a + i) mod m = (a + j) mod m" and "i < m" and "j < m"
  shows "i = j"
proof -
  have "int m dvd (int a + int i) - (int a + int j)"
    using assms(1) by (metis mod_eq_dvd_iff of_nat_add zmod_int)
  then have "int m dvd int i - int j" by (simp add: algebra_simps)
  then have "int i mod int m = int j mod int m" by (simp add: mod_eq_dvd_iff)
  with assms(2,3) show ?thesis by simp
qed

lemma ring_snoc [ring_simps]:
  assumes "n < length xs"
  shows "ring (xs[(r + n) mod length xs := d]) r (Suc n) = ring xs r n @ [d]"
proof (rule nth_equalityI)
  fix i assume "i < length (ring (xs[(r + n) mod length xs := d]) r (Suc n))"
  then have i: "i < Suc n" by simp
  show "ring (xs[(r + n) mod length xs := d]) r (Suc n) ! i = (ring xs r n @ [d]) ! i"
  proof (cases "i = n")
    case True
    from assms have "(r + n) mod length xs < length xs" by (intro mod_less_divisor) linarith
    with True show ?thesis by (simp add: ring_nth nth_append)
  next
    case False
    with i have less: "i < n" by simp
    then have "(r + n) mod length xs \<noteq> (r + i) mod length xs"
      using mod_add_left_cancel_nat [of r n "length xs" i] assms by auto
    with less show ?thesis by (simp add: ring_nth nth_append)
  qed
qed simp

lemma ring_Cons [ring_simps]:
  "ring xs r (Suc n) = xs ! (r mod length xs) # ring xs (Suc r mod length xs) n"
proof (rule nth_equalityI)
  fix i assume i: "i < length (ring xs r (Suc n))"
  show "ring xs r (Suc n) ! i = (xs ! (r mod length xs) # ring xs (Suc r mod length xs) n) ! i"
    using i by (cases i) (simp_all add: ring_nth mod_add_left_eq)
qed simp

lemma ring_mod [simp]: "ring xs (r mod length xs) n = ring xs r n"
  by (simp add: ring_def mod_add_left_eq)

text \<open>The two shapes of the occupied part: one run, or a tail followed by a head.\<close>

lemma ring_straight: "r + n \<le> length xs \<Longrightarrow> ring xs r n = take n (drop r xs)"
  by (rule nth_equalityI) (simp_all add: ring_nth)

lemma ring_wrapped:
  assumes "r \<le> length xs" and "n \<le> length xs" and "length xs \<le> r + n"
  shows "ring xs r n = drop r xs @ take (r + n - length xs) xs"
proof (rule nth_equalityI)
  show "length (ring xs r n) = length (drop r xs @ take (r + n - length xs) xs)"
    using assms by simp
  fix i assume "i < length (ring xs r n)"
  then have i: "i < n" by simp
  show "ring xs r n ! i = (drop r xs @ take (r + n - length xs) xs) ! i"
  proof (cases "r + i < length xs")
    case True
    then have "i < length xs - r" by simp
    with True show ?thesis using i by (simp add: ring_nth nth_append)
  next
    case False
    then have "(r + i) mod length xs = r + i - length xs"
      using assms i by (subst le_mod_geq) simp_all
    moreover have "i - (length xs - r) = r + i - length xs"
      using False assms by simp
    moreover have "\<not> i < length xs - r" using False assms by linarith
    ultimately show ?thesis using i by (simp add: ring_nth nth_append)
  qed
qed

section \<open>Positions and sums\<close>

text \<open>The first position whose element satisfies a predicate.\<close>

primrec index_of :: "('a \<Rightarrow> bool) \<Rightarrow> 'a list \<Rightarrow> nat option" where
  "index_of P [] = None"
| "index_of P (x # xs) = (if P x then Some 0 else map_option Suc (index_of P xs))"

lemma index_of_None: "index_of P xs = None \<longleftrightarrow> (\<forall>x\<in>set xs. \<not> P x)"
  by (induction xs) auto

lemma index_of_Some: "index_of P xs = Some i \<Longrightarrow> i < length xs \<and> P (xs ! i)"
  by (induction xs arbitrary: i) (auto split: if_splits)

lemma sum_list_upd:
  fixes f :: "'a \<Rightarrow> 'b :: comm_monoid_add"
  assumes "k < length xs"
  shows "sum_list (map f (xs[k := x])) + f (xs ! k) = sum_list (map f xs) + f x"
proof -
  have "xs = take k xs @ xs ! k # drop (Suc k) xs" using assms by (rule id_take_nth_drop)
  then have "sum_list (map f xs) = sum_list (map f (take k xs @ xs ! k # drop (Suc k) xs))" by simp
  with assms show ?thesis by (simp add: upd_conv_take_nth_drop ac_simps)
qed

section \<open>Words read as numbers\<close>

lemma unat_Suc_less: "(a :: 'a::len word) < b \<Longrightarrow> unat (a + 1) = Suc (unat a)"
proof -
  assume "a < b"
  then have "Suc (unat a) \<le> unat b" by (simp add: word_less_nat_alt)
  then have "Suc (unat a) < 2 ^ LENGTH('a)"
    by (meson le_less_trans unsigned_less)
  then show ?thesis by (simp add: unat_word_ariths)
qed

lemma unat_Suc_not_max: "(a :: 'a::len word) \<noteq> - 1 \<Longrightarrow> unat (a + 1) = Suc (unat a)"
  by (metis add.commute add_eq_0_iff minus_equation_iff unatSuc)

lemma unat_pred_word: "(a :: 'a::len word) \<noteq> 0 \<Longrightarrow> unat (a - 1) = unat a - 1"
  by (simp add: unat_minus_one)

lemma unat_less_iff_uint: "unat (x :: 'a::len word) < numeral n \<longleftrightarrow> uint x < numeral n"
  by (simp add: nat_less_iff flip: nat_uint_eq)

lemma uint_less_int_iff: "uint (x :: 'a::len word) < int n \<longleftrightarrow> unat x < n"
  by (simp add: nat_less_iff flip: nat_uint_eq)

lemma unat_u32_less: "unat (x :: u32) < 4294967296"
  by (rule order_less_le_trans [OF unsigned_less]) simp

lemma sint_u32_small: "unat (x :: u32) < 2147483648 \<Longrightarrow> sint x = int (unat x)"
proof -
  assume "unat x < 2147483648"
  then have "uint x < 2 ^ 31" by (simp add: unat_less_iff_uint)
  then have "signed_take_bit 31 (uint x) = uint x"
    using uint_ge_0 [of x] by (intro signed_take_bit_int_eq_self) linarith+
  then show ?thesis by (simp add: sint_uint)
qed

text \<open>Truncating a difference of pointers to 32 bits.\<close>

lemma take_bit_32_64_diff:
  "take_bit 32 (take_bit 64 p - take_bit 64 q) = take_bit 32 (p - q :: int)"
proof -
  have "take_bit 32 (take_bit 64 p - take_bit 64 q)
      = take_bit 32 (take_bit 32 (take_bit 64 p) - take_bit 32 (take_bit 64 q))"
    by (rule take_bit_diff [symmetric])
  also have "\<dots> = take_bit 32 (take_bit 32 p - take_bit 32 q)" by simp
  finally show ?thesis by (simp only: take_bit_diff)
qed

lemma ucast_u32_diff: "(ucast (p - q :: u64) :: u32) = ucast p - ucast q"
  by transfer (simp add: take_bit_32_64_diff)

section \<open>Text\<close>

text \<open>The conversions \<open>%zu\<close> and \<open>%d\<close> of \<open>printf\<close>, and the bytes of a string.\<close>

fun show_nat :: "nat \<Rightarrow> string" where
  "show_nat n = (if n < 10 then [char_of (48 + n)]
                 else show_nat (n div 10) @ [char_of (48 + n mod 10)])"

declare show_nat.simps [simp del]

definition show_int :: "int \<Rightarrow> string" where
  "show_int i = (if i < 0 then CHR ''-'' # show_nat (nat (- i)) else show_nat (nat i))"

definition ascii :: "string \<Rightarrow> u8 list" where
  "ascii s = map of_char s"

lemma length_ascii [simp]: "length (ascii s) = length s"
  by (simp add: ascii_def)

lemma show_nat_nonempty: "show_nat n \<noteq> []"
  by (subst show_nat.simps) simp

lemma show_int_nonempty: "show_int i \<noteq> []"
  by (simp add: show_int_def show_nat_nonempty)

lemma length_show_nat: "n < 10 ^ k \<Longrightarrow> 0 < k \<Longrightarrow> length (show_nat n) \<le> k"
proof (induction k arbitrary: n)
  case 0
  then show ?case by simp
next
  case (Suc k)
  show ?case
  proof (cases "n < 10")
    case True
    then show ?thesis by (subst show_nat.simps) simp
  next
    case False
    then have "0 < k" using Suc.prems by (cases k) auto
    moreover have "n div 10 < 10 ^ k" using Suc.prems by (simp add: less_mult_imp_div_less mult.commute)
    ultimately show ?thesis using Suc.IH [of "n div 10"] False by (subst show_nat.simps) simp
  qed
qed

end
