(* ===== verification/Queue_Interface.thy ===== *)
theory Queue_Interface
  imports Prelude
begin

text \<open>
  The contract of \<open>ds_queue.h\<close> as its clients rely on it: a bounded queue of pointers with a
  non-blocking enqueue and a non-blocking dequeue.  An operation returns the C return value
  (\<open>0\<close> or \<open>-1\<close>), the value it stored through its out parameter (\<open>None\<close>: nothing was
  stored) and the queue it leaves.

  The clients' loop \<open>while (queue_dequeue_nb(q, &x) == 0) use(x);\<close> (\<open>thr_maintainer\<close> and
  \<open>dungeon_delete\<close>) is \<open>queue_drain\<close> below, over any dequeue operation; its fuel is the number
  of iterations it may make.
\<close>

primrec queue_drain ::
  "('q \<Rightarrow> ub + (int \<times> 'a option \<times> 'q)) \<Rightarrow> nat \<Rightarrow> 'q \<Rightarrow> ub + ('a list \<times> 'q) option" where
  "queue_drain deq 0 q = Inr None"
| "queue_drain deq (Suc fuel) q =
     bindE (deq q) (\<lambda>(ret, out, q').
       if ret = 0
       then bindE (queue_drain deq fuel q') (\<lambda>res.
              Inr (case res of None \<Rightarrow> None
                   | Some (xs, q'') \<Rightarrow> Some (case out of None \<Rightarrow> xs | Some x \<Rightarrow> x # xs, q'')))
       else Inr (Some ([], q')))"

text \<open>Enqueueing a batch, one call after the other.\<close>

primrec queue_fill :: "('q \<Rightarrow> 'a \<Rightarrow> ub + (int \<times> 'q)) \<Rightarrow> 'q \<Rightarrow> 'a list \<Rightarrow> ub + 'q" where
  "queue_fill enq q [] = Inr q"
| "queue_fill enq q (x # xs) = bindE (enq q x) (\<lambda>(ret, q'). queue_fill enq q' xs)"

section \<open>What can be dequeued\<close>

locale fifo_source =
  fixes contents :: "'q \<Rightarrow> 'a list"
    and wf :: "'q \<Rightarrow> bool"
    and deq :: "'q \<Rightarrow> ub + (int \<times> 'a option \<times> 'q)"
  assumes deq_empty: "wf q \<Longrightarrow> contents q = [] \<Longrightarrow> deq q = Inr (-1, None, q)"
    and deq_item: "wf q \<Longrightarrow> contents q = x # xs \<Longrightarrow>
          \<exists>q'. deq q = Inr (0, Some x, q') \<and> wf q' \<and> contents q' = xs"
begin

text \<open>
  The draining loop returns, with one iteration more than there are items as its bound, every
  item in queue order, and leaves the queue empty.
\<close>

lemma drain_all:
  "wf q \<Longrightarrow> length (contents q) < fuel \<Longrightarrow>
     \<exists>q'. queue_drain deq fuel q = Inr (Some (contents q, q')) \<and> wf q' \<and> contents q' = []"
proof (induction fuel arbitrary: q)
  case 0
  then show ?case by simp
next
  case (Suc fuel)
  show ?case
  proof (cases "contents q")
    case Nil
    with Suc.prems deq_empty show ?thesis by auto
  next
    case (Cons x xs)
    with deq_item [OF Suc.prems(1)] obtain q1 where
      q1: "deq q = Inr (0, Some x, q1)" "wf q1" "contents q1 = xs"
      by blast
    with Cons Suc.prems have "length (contents q1) < fuel" by simp
    from Suc.IH [OF q1(2) this] q1 Cons show ?thesis by auto
  qed
qed

text \<open>What a single dequeue does, by cases on its return value.\<close>

lemma deq_outcome:
  assumes "wf q"
  obtains (empty) "contents q = []" "deq q = Inr (-1, None, q)"
    | (item) x q' where "contents q = x # contents q'" "deq q = Inr (0, Some x, q')" "wf q'"
  using deq_empty [OF assms] deq_item [OF assms] by (cases "contents q") auto

end

section \<open>Bounded queues\<close>

locale bounded_queue = fifo_source +
  fixes cap :: "'q \<Rightarrow> nat"
    and enq :: "'q \<Rightarrow> 'a \<Rightarrow> ub + (int \<times> 'q)"
  assumes contents_le_cap: "wf q \<Longrightarrow> length (contents q) \<le> cap q"
    and enq_full: "wf q \<Longrightarrow> length (contents q) = cap q \<Longrightarrow> enq q x = Inr (-1, q)"
    and enq_room: "wf q \<Longrightarrow> length (contents q) < cap q \<Longrightarrow>
          \<exists>q'. enq q x = Inr (0, q') \<and> wf q' \<and> cap q' = cap q \<and> contents q' = contents q @ [x]"
    and deq_cap: "wf q \<Longrightarrow> deq q = Inr (ret, out, q') \<Longrightarrow> cap q' = cap q"
begin

text \<open>Enqueueing a whole batch that fits succeeds at every step and appends it in order.\<close>

lemma fill_room:
  "wf q \<Longrightarrow> length (contents q) + length xs \<le> cap q \<Longrightarrow>
     \<exists>q'. queue_fill enq q xs = Inr q' \<and> wf q' \<and> cap q' = cap q \<and> contents q' = contents q @ xs"
proof (induction xs arbitrary: q)
  case Nil
  then show ?case by simp
next
  case (Cons x xs)
  from Cons.prems have "length (contents q) < cap q" by simp
  with enq_room [OF Cons.prems(1)] obtain q1 where
    q1: "enq q x = Inr (0, q1)" "wf q1" "cap q1 = cap q" "contents q1 = contents q @ [x]"
    by blast
  with Cons.prems have "length (contents q1) + length xs \<le> cap q1" by simp
  from Cons.IH [OF q1(2) this] q1 show ?case by auto
qed

text \<open>First in, first out: a batch that fits comes back in its order after what was there.\<close>

lemma fifo_batch:
  assumes "wf q" and "length (contents q) + length xs \<le> cap q"
  shows "\<exists>q1 q2. queue_fill enq q xs = Inr q1
     \<and> queue_drain deq (Suc (cap q)) q1 = Inr (Some (contents q @ xs, q2)) \<and> contents q2 = []"
proof -
  from fill_room [OF assms] obtain q1 where
    q1: "queue_fill enq q xs = Inr q1" "wf q1" "cap q1 = cap q" "contents q1 = contents q @ xs"
    by blast
  with contents_le_cap [OF q1(2)] have "length (contents q1) < Suc (cap q)" by simp
  from drain_all [OF q1(2) this] q1 show ?thesis by auto
qed

end

section \<open>Bounded lists that allocate\<close>

text \<open>
  The contract of \<open>ds_llist.h\<close>: appending takes what \<open>malloc\<close> returned for the new node, which
  is not null and not in use (\<open>fresh\<close>); the head can be read without being removed.
\<close>

locale alloc_queue = fifo_source +
  fixes cap :: "'q \<Rightarrow> nat"
    and fresh :: "'q \<Rightarrow> 'p \<Rightarrow> bool"
    and append :: "'q \<Rightarrow> 'a \<Rightarrow> 'p option \<Rightarrow> ub + (int \<times> 'q)"
    and head :: "'q \<Rightarrow> ub + (int \<times> 'a option)"
  assumes contents_cap: "wf q \<Longrightarrow> length (contents q) \<le> cap q"
    and append_full: "wf q \<Longrightarrow> length (contents q) = cap q \<Longrightarrow> append q x mem = Inr (-1, q)"
    and append_nomem: "wf q \<Longrightarrow> append q x None = Inr (-1, q)"
    and append_room: "wf q \<Longrightarrow> length (contents q) < cap q \<Longrightarrow> fresh q p \<Longrightarrow>
          \<exists>q'. append q x (Some p) = Inr (0, q') \<and> wf q' \<and> cap q' = cap q
             \<and> contents q' = contents q @ [x]"
    and head_empty: "wf q \<Longrightarrow> contents q = [] \<Longrightarrow> head q = Inr (-1, None)"
    and head_item: "wf q \<Longrightarrow> contents q = x # xs \<Longrightarrow> head q = Inr (0, Some x)"
    and deq_same_cap: "wf q \<Longrightarrow> deq q = Inr (ret, out, q') \<Longrightarrow> cap q' = cap q"
begin

text \<open>Reading the head and then dequeueing yields the same item.\<close>

lemma head_then_deq:
  assumes "wf q" and "head q = Inr (0, Some x)"
  shows "\<exists>q'. deq q = Inr (0, Some x, q') \<and> wf q' \<and> cap q' = cap q \<and> contents q = x # contents q'"
proof (cases "contents q")
  case Nil
  with assms head_empty show ?thesis by auto
next
  case (Cons y ys)
  with assms head_item have "y = x" by auto
  with Cons deq_item [OF assms(1)] deq_same_cap [OF assms(1)] show ?thesis by fastforce
qed

text \<open>An append whose allocation may fail either leaves everything alone or appends.\<close>

lemma append_outcome:
  assumes "wf q" and "\<And>p. mem = Some p \<Longrightarrow> fresh q p"
  obtains (refused) "append q x mem = Inr (-1, q)" "length (contents q) = cap q \<or> mem = None"
    | (appended) q' where "append q x mem = Inr (0, q')" "wf q'" "cap q' = cap q"
        "contents q' = contents q @ [x]"
proof (cases mem)
  case None
  with append_nomem [OF assms(1)] that(1) show ?thesis by simp
next
  case (Some p)
  show ?thesis
  proof (cases "length (contents q) = cap q")
    case True
    with append_full [OF assms(1)] that(1) show ?thesis by blast
  next
    case False
    with contents_cap [OF assms(1)] have "length (contents q) < cap q" by simp
    with append_room [OF assms(1) this assms(2) [OF Some]] that(2) Some show ?thesis by blast
  qed
qed

end

end
