(* ===== verification/Queue2.thy ===== *)
theory Queue2
  imports Queue_Interface
begin

text \<open>
  \<open>src/src/ds_queue2.c\<close>: the bounded pointer queue the program is built with (the run queue
  and the terminated queue of \<open>dungeon_t\<close>).  A ring buffer of \<open>max\<close> cells under a mutex, with
  one condition variable for producers and one for consumers.

  The record is \<open>struct queue_st\<close> without the mutex and the condition variables; every
  non-blocking operation is one critical section, so it is a function of the record.  The
  blocking operations and their condition variables are in theory \<open>Queue2_Monitor\<close>.
  All fields are \<open>uint32_t\<close> and stay at their width.
\<close>

record 'a queue_st =
  q_max :: u32
  q_nr :: u32
  en_count :: u32
  de_count :: u32
  rindex :: u32
  windex :: u32
  bucket :: "'a list"

section \<open>Operations\<close>

text \<open>\<open>static uint32_t next(uint32_t n, uint32_t max)\<close>\<close>

definition queue_next :: "u32 \<Rightarrow> u32 \<Rightarrow> u32" where
  "queue_next n mx = (let n = n + 1 in if n \<ge> mx then 0 else n)"

text \<open>
  \<open>q->bucket[i]\<close>.  The flexible array holds \<open>max\<close> cells (\<open>queue_new\<close> allocates exactly
  that many), so any other index is an access past the allocation.
\<close>

definition bucket_get :: "'a queue_st \<Rightarrow> int \<Rightarrow> ub + 'a" where
  "bucket_get q i =
     (if 0 \<le> i \<and> i < int (length (bucket q)) then Inr (bucket q ! nat i) else Inl OutOfBounds)"

definition bucket_put :: "'a queue_st \<Rightarrow> int \<Rightarrow> 'a \<Rightarrow> ub + 'a queue_st" where
  "bucket_put q i d =
     (if 0 \<le> i \<and> i < int (length (bucket q)) then Inr (q\<lparr>bucket := (bucket q)[nat i := d]\<rparr>)
      else Inl OutOfBounds)"

text \<open>
  \<open>queue_new\<close>.  \<open>mem\<close> is what \<open>malloc\<close> returns: \<open>None\<close> for \<open>NULL\<close>, or a block
  whose cells hold whatever was there.
\<close>

definition queue_new :: "u32 \<Rightarrow> 'a list option \<Rightarrow> 'a queue_st option" where
  "queue_new mx mem =
     (case mem of None \<Rightarrow> None
      | Some cells \<Rightarrow> Some \<lparr>q_max = mx, q_nr = 0, en_count = 0, de_count = 0,
                           rindex = 0, windex = 0, bucket = cells\<rparr>)"

text \<open>The store common to all enqueue operations.\<close>

definition queue_store :: "'a queue_st \<Rightarrow> 'a \<Rightarrow> ub + 'a queue_st" where
  "queue_store q data =
     bindE (bucket_put q (uint (windex q)) data) (\<lambda>q.
       Inr (q\<lparr>windex := queue_next (windex q) (q_max q),
             q_nr := q_nr q + 1, en_count := en_count q + 1\<rparr>))"

definition queue_enqueue_nb :: "'a queue_st \<Rightarrow> 'a \<Rightarrow> ub + (int \<times> 'a queue_st)" where
  "queue_enqueue_nb q data =
     (if q_nr q \<ge> q_max q then Inr (-1, q)
      else bindE (queue_store q data) (\<lambda>q. Inr (0, q)))"

definition queue_take :: "'a queue_st \<Rightarrow> ub + ('a \<times> 'a queue_st)" where
  "queue_take q =
     bindE (bucket_get q (uint (rindex q))) (\<lambda>x.
       Inr (x, q\<lparr>rindex := queue_next (rindex q) (q_max q),
                q_nr := q_nr q - 1, de_count := de_count q + 1\<rparr>))"

definition queue_dequeue_nb :: "'a queue_st \<Rightarrow> ub + (int \<times> 'a option \<times> 'a queue_st)" where
  "queue_dequeue_nb q =
     (if q_nr q \<le> 0 then Inr (-1, None, q)
      else bindE (queue_take q) (\<lambda>(x, q). Inr (0, Some x, q)))"

text \<open>
  The scanning loop \<open>for (i = from; i < limit; ++i) if (q->bucket[i] == data) goto over;\<close>
  of \<open>queue_enqueue_uniq_nb\<close>.  \<open>i\<close> is declared \<open>int\<close>: it indexes as a signed number, it is
  compared with the \<open>uint32_t\<close> limit as an unsigned one, and incrementing \<open>INT_MAX\<close>
  overflows.  The flag \<open>incl\<close> is set for the loop whose condition is written with
  \<open>i <= q->max\<close>.  The result tells whether \<open>data\<close> was found.
\<close>

function scan :: "'a queue_st \<Rightarrow> 'a \<Rightarrow> bool \<Rightarrow> u32 \<Rightarrow> u32 \<Rightarrow> ub + bool" where
  "scan q data incl i limit =
     (if (if incl then i \<le> limit else i < limit)
      then bindE (bucket_get q (sint i)) (\<lambda>x.
             if x = data then Inr True
             else if i = 0x7FFFFFFF then Inl IntOverflow
             else scan q data incl (i + 1) limit)
      else Inr False)"
  by pat_completeness auto
termination
proof (relation "measure (\<lambda>(q, data, incl, i, limit). 2 ^ 32 - unat i)")
  fix q :: "'a queue_st" and data :: 'a and incl :: bool and i limit :: u32 and x :: 'a
  assume get: "bucket_get q (sint i) = Inr x"
  have "i \<noteq> - 1" using get by (auto simp: bucket_get_def)
  then have "unat (i + 1) = Suc (unat i)" by (rule unat_Suc_not_max)
  then show "((q, data, incl, i + 1, limit), (q, data, incl, i, limit))
      \<in> measure (\<lambda>(q, data, incl, i, limit). 2 ^ 32 - unat i)"
    using unat_u32_less [of i] by simp
qed simp

declare scan.simps [simp del]

text \<open>
  The branch \<open>rindex <= windex\<close> scans the one run of occupied cells, the other branch scans
  from \<open>rindex\<close> to the end of the bucket and then the head of the bucket.
\<close>

definition queue_scan :: "'a queue_st \<Rightarrow> 'a \<Rightarrow> ub + bool" where
  "queue_scan q data =
     (if rindex q \<le> windex q
      then scan q data False (rindex q) (windex q)
      else bindE (scan q data True (rindex q) (q_max q)) (\<lambda>found.
             if found then Inr True else scan q data False 0 (windex q)))"

definition queue_enqueue_uniq_nb :: "'a queue_st \<Rightarrow> 'a \<Rightarrow> ub + (int \<times> 'a queue_st)" where
  "queue_enqueue_uniq_nb q data =
     (if q_nr q \<ge> q_max q then Inr (-1, q)
      else bindE (queue_scan q data) (\<lambda>found.
             if found then Inr (0, q)
             else bindE (queue_store q data) (\<lambda>q. Inr (0, q))))"

definition queue_size :: "'a queue_st \<Rightarrow> u32" where
  "queue_size q = q_nr q"

text \<open>\<open>queue_info_json\<close>, as the list of the members it adds to the object.\<close>

definition queue_info :: "'a queue_st \<Rightarrow> (string \<times> u32) list" where
  "queue_info q = [(''volume'', q_max q), (''nr_data'', queue_size q),
                   (''enqueue'', en_count q), (''dequeue'', de_count q)]"

text \<open>\<open>queue_delete\<close>: \<open>None\<close> is the null pointer.\<close>

definition queue_delete :: "'a queue_st option \<Rightarrow> int" where
  "queue_delete ptr = (case ptr of None \<Rightarrow> -1 | Some q \<Rightarrow> 0)"

section \<open>The invariant and the abstract queue\<close>

text \<open>
  \<open>queue_contents\<close> is the abstraction: the pointers in the queue, oldest first.  The invariant
  ties the indices and the counters together; the two event counters wrap around, their
  difference does not matter until it is read modulo \<open>2 ^ 32\<close>.
\<close>

definition queue_contents :: "'a queue_st \<Rightarrow> 'a list" where
  "queue_contents q = ring (bucket q) (unat (rindex q)) (unat (q_nr q))"

definition queue_wf :: "'a queue_st \<Rightarrow> bool" where
  "queue_wf q \<longleftrightarrow>
     length (bucket q) = unat (q_max q) \<and> q_nr q \<le> q_max q
     \<and> (q_max q = 0 \<longrightarrow> rindex q = 0) \<and> (q_max q \<noteq> 0 \<longrightarrow> rindex q < q_max q)
     \<and> unat (windex q) = (unat (rindex q) + unat (q_nr q)) mod unat (q_max q)
     \<and> q_nr q = en_count q - de_count q"

lemma queue_next_less: "i < mx \<Longrightarrow> queue_next i mx < mx"
  by (auto simp: queue_next_def Let_def word_less_nat_alt word_le_nat_alt)

lemma unat_queue_next: "i < mx \<Longrightarrow> unat (queue_next i mx) = Suc (unat i) mod unat mx"
proof -
  assume less: "i < mx"
  then have Suc: "unat (i + 1) = Suc (unat i)" by (rule unat_Suc_less)
  from less have "Suc (unat i) \<le> unat mx" by (simp add: word_less_nat_alt)
  with Suc show ?thesis
    by (cases "Suc (unat i) = unat mx") (auto simp: queue_next_def Let_def word_le_nat_alt)
qed

lemma length_queue_contents [simp]: "length (queue_contents q) = unat (q_nr q)"
  by (simp add: queue_contents_def)

lemma queue_wf_not_full:
  "queue_wf q \<Longrightarrow> \<not> q_nr q \<ge> q_max q \<Longrightarrow>
     windex q < q_max q \<and> unat (q_nr q) < length (bucket q)
     \<and> unat (windex q) = (unat (rindex q) + unat (q_nr q)) mod length (bucket q)"
  by (auto simp: queue_wf_def word_less_nat_alt word_le_nat_alt)

lemma queue_store_spec:
  assumes wf: "queue_wf q" and room: "\<not> q_nr q \<ge> q_max q"
  shows "\<exists>q'. queue_store q x = Inr q' \<and> queue_wf q' \<and> q_max q' = q_max q
      \<and> queue_contents q' = queue_contents q @ [x]"
proof -
  from queue_wf_not_full [OF wf room] have
    w: "windex q < q_max q" "unat (q_nr q) < length (bucket q)"
       "unat (windex q) = (unat (rindex q) + unat (q_nr q)) mod length (bucket q)" by auto
  have len: "length (bucket q) = unat (q_max q)" using wf by (simp add: queue_wf_def)
  have nr: "unat (q_nr q + 1) = Suc (unat (q_nr q))"
    using room by (intro unat_Suc_less [of _ "q_max q"]) simp
  define q' where "q' = q\<lparr>bucket := (bucket q)[unat (windex q) := x],
    windex := queue_next (windex q) (q_max q), q_nr := q_nr q + 1, en_count := en_count q + 1\<rparr>"
  have "queue_store q x = Inr q'"
    using w len by (simp add: queue_store_def bucket_put_def q'_def word_less_def)
  moreover have "queue_wf q'"
    using wf room w nr len unat_queue_next [OF w(1)]
    by (auto simp: queue_wf_def q'_def word_le_nat_alt word_less_nat_alt mod_Suc_eq)
  moreover have "queue_contents q' = queue_contents q @ [x]"
    using w nr ring_snoc [OF w(2), of "unat (rindex q)" x]
    by (simp add: queue_contents_def q'_def)
  moreover have "q_max q' = q_max q" by (simp add: q'_def)
  ultimately show ?thesis by blast
qed

lemma queue_take_spec:
  assumes wf: "queue_wf q" and item: "queue_contents q = x # xs"
  shows "\<exists>q'. queue_take q = Inr (x, q') \<and> queue_wf q' \<and> q_max q' = q_max q
      \<and> queue_contents q' = xs"
proof -
  have "length (queue_contents q) = Suc (length xs)" using item by simp
  then have nr: "unat (q_nr q) = Suc (length xs)" by simp
  then have "q_nr q \<noteq> 0" by auto
  then have pred: "unat (q_nr q - 1) = length xs" using nr by (simp add: unat_pred_word)
  have len: "length (bucket q) = unat (q_max q)" using wf by (simp add: queue_wf_def)
  have "q_max q \<noteq> 0" using wf nr by (auto simp: queue_wf_def word_le_nat_alt)
  then have r: "rindex q < q_max q" using wf by (simp add: queue_wf_def)
  define q' where "q' = q\<lparr>rindex := queue_next (rindex q) (q_max q),
    q_nr := q_nr q - 1, de_count := de_count q + 1\<rparr>"
  from item nr have eq: "x = bucket q ! unat (rindex q)"
      "xs = ring (bucket q) (Suc (unat (rindex q)) mod length (bucket q)) (length xs)"
    using r len by (simp_all add: queue_contents_def ring_Cons word_less_nat_alt)
  have "queue_take q = Inr (x, q')"
    using r len eq(1) by (simp add: queue_take_def bucket_get_def q'_def word_less_def)
  moreover have "queue_wf q'"
    using wf r nr pred len unat_queue_next [OF r] queue_next_less [OF r] \<open>q_max q \<noteq> 0\<close>
    by (auto simp: queue_wf_def q'_def word_le_nat_alt mod_add_left_eq)
  moreover have "queue_contents q' = xs"
    using eq(2) pred len unat_queue_next [OF r] by (simp add: queue_contents_def q'_def)
  moreover have "q_max q' = q_max q" by (simp add: q'_def)
  ultimately show ?thesis by blast
qed

text \<open>The two loops of the duplicate scan, for a bucket that a signed index can address.\<close>

lemma bucket_get_small:
  "unat i < length (bucket q) \<Longrightarrow> length (bucket q) < 2147483648 \<Longrightarrow>
     bucket_get q (sint (i :: u32)) = Inr (bucket q ! unat i)"
  by (simp add: bucket_get_def sint_u32_small uint_less_int_iff)

lemma scan_exclusive:
  assumes "unat limit \<le> length (bucket q)" and "length (bucket q) < 2147483648"
  shows "scan q data False i limit
     = Inr (data \<in> set (take (unat limit - unat i) (drop (unat i) (bucket q))))"
  using assms
proof (induction q data False i limit rule: scan.induct)
  case (1 q data i limit)
  show ?case
  proof (cases "i < limit")
    case False
    then show ?thesis by (simp add: scan.simps [of q data False i] word_less_nat_alt)
  next
    case True
    then have i: "unat i < unat limit" by (simp add: word_less_nat_alt)
    with "1.prems" have get: "bucket_get q (sint i) = Inr (bucket q ! unat i)"
      by (simp add: bucket_get_small)
    have nmax: "i \<noteq> 0x7FFFFFFF" using i "1.prems" by auto
    have Suc: "unat (i + 1) = Suc (unat i)" using True by (rule unat_Suc_less)
    have "unat limit - unat i = Suc (unat limit - Suc (unat i))" using i by simp
    then have run: "take (unat limit - unat i) (drop (unat i) (bucket q))
        = bucket q ! unat i # take (unat limit - Suc (unat i)) (drop (Suc (unat i)) (bucket q))"
      using i "1.prems" by (simp add: Cons_nth_drop_Suc [symmetric])
    show ?thesis
      using "1.hyps" [of "bucket q ! unat i"] "1.prems" True get nmax run Suc
      by (simp add: scan.simps [of q data False i])
  qed
qed

lemma scan_inclusive:
  assumes "unat limit = length (bucket q)" and "length (bucket q) < 2147483648"
    and "unat i \<le> length (bucket q)"
  shows "scan q data True i limit
     = (if data \<in> set (drop (unat i) (bucket q)) then Inr True else Inl OutOfBounds)"
  using assms
proof (induction q data True i limit rule: scan.induct)
  case (1 q data i limit)
  have le: "i \<le> limit" using "1.prems" by (simp add: word_le_nat_alt)
  show ?case
  proof (cases "i = limit")
    case True
    then have "bucket_get q (sint i) = Inl OutOfBounds"
      using "1.prems" by (simp add: bucket_get_def sint_u32_small)
    with True "1.prems" show ?thesis by (simp add: scan.simps [of q data True limit])
  next
    case False
    with le have less: "i < limit" by simp
    then have i: "unat i < unat limit" by (simp add: word_less_nat_alt)
    with "1.prems" have get: "bucket_get q (sint i) = Inr (bucket q ! unat i)"
      by (simp add: bucket_get_small)
    have nmax: "i \<noteq> 0x7FFFFFFF" using i "1.prems" by auto
    have Suc: "unat (i + 1) = Suc (unat i)" using less by (rule unat_Suc_less)
    have run: "drop (unat i) (bucket q) = bucket q ! unat i # drop (Suc (unat i)) (bucket q)"
      using i "1.prems" by (simp add: Cons_nth_drop_Suc)
    show ?thesis
      using "1.hyps" [of "bucket q ! unat i"] "1.prems" i le get nmax run Suc
      by (simp add: scan.simps [of q data True i])
  qed
qed

text \<open>The occupied cells, as the two branches of the scan see them.\<close>

lemma queue_contents_straight:
  assumes "queue_wf q" and "q_nr q < q_max q" and "rindex q \<le> windex q"
  shows "queue_contents q
     = take (unat (windex q) - unat (rindex q)) (drop (unat (rindex q)) (bucket q))"
proof -
  let ?r = "unat (rindex q)" and ?n = "unat (q_nr q)" and ?L = "length (bucket q)"
  have L: "?L = unat (q_max q)" "?n < ?L" "unat (windex q) = (?r + ?n) mod ?L" "?r < ?L"
    using assms by (auto simp: queue_wf_def word_less_nat_alt)
  have "?r \<le> (?r + ?n) mod ?L" using assms(3) L by (simp add: word_le_nat_alt)
  then have "?r + ?n < ?L"
    using L by (cases "?r + ?n < ?L") (auto simp: mod_if [of "?r + ?n"])
  with L show ?thesis by (simp add: queue_contents_def ring_straight)
qed

lemma queue_contents_wrapped:
  assumes "queue_wf q" and "q_nr q < q_max q" and "\<not> rindex q \<le> windex q"
  shows "queue_contents q
     = drop (unat (rindex q)) (bucket q) @ take (unat (windex q)) (bucket q)"
proof -
  let ?r = "unat (rindex q)" and ?n = "unat (q_nr q)" and ?L = "length (bucket q)"
  have L: "?L = unat (q_max q)" "?n < ?L" "unat (windex q) = (?r + ?n) mod ?L" "?r < ?L"
    using assms by (auto simp: queue_wf_def word_less_nat_alt)
  have "(?r + ?n) mod ?L < ?r" using assms(3) L by (simp add: word_le_nat_alt)
  then have ge: "?L \<le> ?r + ?n" using L by (cases "?r + ?n < ?L") auto
  then have "(?r + ?n) mod ?L = ?r + ?n - ?L" using L by (simp add: le_mod_geq)
  with L ge show ?thesis by (simp add: queue_contents_def ring_wrapped)
qed

lemma queue_scan_spec:
  assumes wf: "queue_wf q" and room: "q_nr q < q_max q" and small: "unat (q_max q) < 2147483648"
  shows "queue_scan q data =
     (if rindex q \<le> windex q then Inr (data \<in> set (queue_contents q))
      else if data \<in> set (drop (unat (rindex q)) (bucket q)) then Inr True
      else Inl OutOfBounds)"
proof -
  have len: "length (bucket q) = unat (q_max q)" and r: "unat (rindex q) \<le> unat (q_max q)"
    using wf room by (auto simp: queue_wf_def word_less_nat_alt)
  have "windex q < q_max q" using queue_wf_not_full [OF wf] room by simp
  then have w: "unat (windex q) \<le> unat (q_max q)" by (simp add: word_less_nat_alt)
  show ?thesis
    using queue_contents_straight [OF wf room] len r w small
    by (simp add: queue_scan_def scan_exclusive scan_inclusive)
qed

section \<open>Queue2 is a bounded FIFO queue\<close>

text \<open>The abstract queue: a list and a bound.\<close>

definition fifo_enq :: "nat \<Rightarrow> 'a list \<Rightarrow> 'a \<Rightarrow> int \<times> 'a list" where
  "fifo_enq cap xs x = (if length xs \<ge> cap then (-1, xs) else (0, xs @ [x]))"

definition fifo_enq_uniq :: "nat \<Rightarrow> 'a list \<Rightarrow> 'a \<Rightarrow> int \<times> 'a list" where
  "fifo_enq_uniq cap xs x =
     (if length xs \<ge> cap then (-1, xs) else if x \<in> set xs then (0, xs) else (0, xs @ [x]))"

definition fifo_deq :: "'a list \<Rightarrow> int \<times> 'a option \<times> 'a list" where
  "fifo_deq xs = (case xs of [] \<Rightarrow> (-1, None, []) | x # xs \<Rightarrow> (0, Some x, xs))"

interpretation q2: bounded_queue queue_contents queue_wf queue_dequeue_nb
  "\<lambda>q. unat (q_max q)" queue_enqueue_nb
proof (unfold_locales, goal_cases)
  case (1 q)
  then have "length (queue_contents q) = 0" by simp
  then have "q_nr q = 0" by (simp add: unat_eq_0)
  then show ?case by (simp add: queue_dequeue_nb_def)
next
  case (2 q x xs)
  then have "length (queue_contents q) \<noteq> 0" by simp
  then have "\<not> q_nr q \<le> 0" by auto
  with 2 queue_take_spec [of q x xs] show ?case by (auto simp: queue_dequeue_nb_def)
next
  case (3 q)
  then have "q_nr q \<le> q_max q" unfolding queue_wf_def by blast
  then show ?case by (simp add: word_le_nat_alt)
next
  case (4 q x)
  then have "q_nr q \<ge> q_max q" by (simp add: word_le_nat_alt)
  then show ?case by (simp add: queue_enqueue_nb_def)
next
  case (5 q x)
  then have "\<not> q_nr q \<ge> q_max q" by (simp add: word_le_nat_alt)
  with 5 queue_store_spec [of q x] show ?case by (auto simp: queue_enqueue_nb_def)
next
  case (6 q ret out q')
  then show ?case
    by (auto simp: queue_dequeue_nb_def queue_take_def bindE_eq_Inr_iff split: if_splits)
qed

lemma queue_new_wf:
  "queue_new mx (Some cells) = Some q \<Longrightarrow> length cells = unat mx \<Longrightarrow>
     queue_wf q \<and> queue_contents q = [] \<and> q_max q = mx"
  by (auto simp: queue_new_def queue_wf_def queue_contents_def word_gt_0)

lemma enqueue_uniq_oob:
  assumes "queue_wf q" and "unat (q_max q) < 2 ^ 31"
  shows "queue_enqueue_uniq_nb q data = Inl e \<longleftrightarrow>
     e = OutOfBounds \<and> q_nr q < q_max q \<and> windex q < rindex q
     \<and> data \<notin> set (drop (unat (rindex q)) (bucket q))"
proof (cases "q_nr q < q_max q")
  case False
  then show ?thesis by (simp add: queue_enqueue_uniq_nb_def not_less)
next
  case True
  then have "\<not> q_nr q \<ge> q_max q" by simp
  from queue_store_spec [OF assms(1) this, of data] obtain q' where
    "queue_store q data = Inr q'" by blast
  then show ?thesis
    using True queue_scan_spec [OF assms(1) True, of data] assms(2)
    by (auto simp: queue_enqueue_uniq_nb_def not_le split: if_splits)
qed

lemma enqueue_uniq_spec:
  assumes "queue_wf q" and "unat (q_max q) < 2 ^ 31"
    and "queue_enqueue_uniq_nb q data = Inr (ret, q')"
  shows "(ret, queue_contents q') = fifo_enq_uniq (unat (q_max q)) (queue_contents q) data
     \<and> queue_wf q' \<and> q_max q' = q_max q"
proof (cases "q_nr q < q_max q")
  case False
  then show ?thesis
    using assms by (auto simp: queue_enqueue_uniq_nb_def fifo_enq_uniq_def not_less word_le_nat_alt)
next
  case room: True
  then have nfull: "\<not> q_nr q \<ge> q_max q" by simp
  from room have less: "\<not> unat (q_max q) \<le> unat (q_nr q)" by (simp add: word_less_nat_alt)
  from queue_store_spec [OF assms(1) nfull, of data] obtain q1 where q1:
    "queue_store q data = Inr q1" "queue_wf q1" "q_max q1 = q_max q"
    "queue_contents q1 = queue_contents q @ [data]" by blast
  have in_tail: "data \<in> set (queue_contents q)"
    if "\<not> rindex q \<le> windex q" "data \<in> set (drop (unat (rindex q)) (bucket q))"
    using queue_contents_wrapped [OF assms(1) room that(1)] that(2) by simp
  show ?thesis
    using assms(1,3) nfull less q1 queue_scan_spec [OF assms(1) room, of data] assms(2) in_tail
    by (auto simp: queue_enqueue_uniq_nb_def fifo_enq_uniq_def split: if_splits)
qed

text \<open>
  C5.  The non-blocking enqueue and dequeue of \<open>ds_queue2.c\<close> refine the abstract bounded
  FIFO queue: on every well-formed ring buffer they return what the abstract operation
  returns, never touch memory outside the bucket, and leave a ring buffer that is well formed,
  has the same capacity and whose contents are the abstract result.
\<close>

theorem queue2_refines_fifo:
  assumes "queue_wf q"
  shows "(\<exists>q'. queue_enqueue_nb q x = Inr (fst (fifo_enq (unat (q_max q)) (queue_contents q) x), q')
            \<and> queue_contents q' = snd (fifo_enq (unat (q_max q)) (queue_contents q) x)
            \<and> queue_wf q' \<and> q_max q' = q_max q)
       \<and> (\<exists>q'. queue_dequeue_nb q = Inr (fst (fifo_deq (queue_contents q)),
                  fst (snd (fifo_deq (queue_contents q))), q')
            \<and> queue_contents q' = snd (snd (fifo_deq (queue_contents q)))
            \<and> queue_wf q' \<and> q_max q' = q_max q)"
proof (intro conjI)
  show "\<exists>q'. queue_enqueue_nb q x = Inr (fst (fifo_enq (unat (q_max q)) (queue_contents q) x), q')
      \<and> queue_contents q' = snd (fifo_enq (unat (q_max q)) (queue_contents q) x)
      \<and> queue_wf q' \<and> q_max q' = q_max q"
    using q2.enq_full [OF assms, of x] q2.enq_room [OF assms, of x] q2.contents_le_cap [OF assms]
      assms by (cases "length (queue_contents q) = unat (q_max q)") (auto simp: fifo_enq_def word_unat_eq_iff)
  show "\<exists>q'. queue_dequeue_nb q = Inr (fst (fifo_deq (queue_contents q)),
            fst (snd (fifo_deq (queue_contents q))), q')
      \<and> queue_contents q' = snd (snd (fifo_deq (queue_contents q)))
      \<and> queue_wf q' \<and> q_max q' = q_max q"
  proof (cases rule: q2.deq_outcome [OF assms])
    case 1
    with assms show ?thesis by (auto simp: fifo_deq_def)
  next
    case (2 x q')
    with q2.deq_cap [OF assms 2(2)] show ?thesis by (auto simp: fifo_deq_def word_unat_eq_iff)
  qed
qed

text \<open>A ring of three cells that has wrapped around: read index 2, write index 1.\<close>

definition queue_sample :: "nat queue_st" where
  "queue_sample = \<lparr>q_max = 3, q_nr = 2, en_count = 4, de_count = 2,
                   rindex = 2, windex = 1, bucket = [30, 99, 20]\<rparr>"

lemma queue_sample_wf: "queue_wf queue_sample"
  by (simp add: queue_wf_def queue_sample_def)

theorem queue2_refines_fifo_witness:
  "\<exists>q'. queue_enqueue_nb queue_sample 40 = Inr (0, q') \<and> queue_contents q' = [20, 30, 40]"
proof -
  have "queue_contents queue_sample = [20, 30]" by (simp add: queue_contents_def queue_sample_def
    ring_def upt_rec)
  then show ?thesis
    using queue2_refines_fifo [OF queue_sample_wf, of 40]
    by (auto simp: fifo_enq_def queue_sample_def)
qed

text \<open>
  C37.  The exact condition under which \<open>queue_enqueue_uniq_nb\<close> reads past the bucket: the
  queue has room, its occupied part has wrapped around, and the pointer is not among the cells
  from the read index to the end.  The first loop of that branch runs while
  \<open>i <= q->max\<close>, one cell too far.
\<close>

theorem queue_uniq_out_of_bounds:
  assumes "queue_wf q" and "unat (q_max q) < 2 ^ 31"
  shows "queue_enqueue_uniq_nb q data = Inl OutOfBounds \<longleftrightarrow>
     q_nr q < q_max q \<and> windex q < rindex q
     \<and> data \<notin> set (drop (unat (rindex q)) (bucket q))"
  using enqueue_uniq_oob [OF assms] by simp

theorem queue_uniq_out_of_bounds_witness:
  "queue_enqueue_uniq_nb queue_sample 40 = Inl OutOfBounds"
  using queue_uniq_out_of_bounds [OF queue_sample_wf, of 40]
  by (simp add: queue_sample_def)

text \<open>
  Whenever \<open>queue_enqueue_uniq_nb\<close> stays inside the bucket it is the abstract unique
  enqueue: it refuses a full queue, reports success without storing when the pointer is already
  queued, and appends it otherwise; so the queue never comes to hold a pointer twice.
\<close>

theorem queue_uniq_refines_fifo:
  assumes "queue_wf q" and "unat (q_max q) < 2 ^ 31"
    and "queue_enqueue_uniq_nb q data = Inr (ret, q')"
  shows "(ret, queue_contents q') = fifo_enq_uniq (unat (q_max q)) (queue_contents q) data
     \<and> queue_wf q' \<and> q_max q' = q_max q
     \<and> distinct (queue_contents q') = distinct (queue_contents q)"
  using enqueue_uniq_spec [OF assms] by (auto simp: fifo_enq_uniq_def split: if_splits)

theorem queue_uniq_refines_fifo_witness:
  "queue_enqueue_uniq_nb queue_sample 20 = Inr (0, queue_sample)
   \<and> fifo_enq_uniq 3 (queue_contents queue_sample) 20 = (0, queue_contents queue_sample)"
proof -
  have "queue_scan queue_sample 20 = Inr True"
    using queue_scan_spec [OF queue_sample_wf, of 20]
    by (simp add: queue_sample_def word_le_nat_alt)
  then have run: "queue_enqueue_uniq_nb queue_sample 20 = Inr (0, queue_sample)"
    by (simp add: queue_enqueue_uniq_nb_def) (simp add: queue_sample_def)
  from queue_uniq_refines_fifo [OF queue_sample_wf _ run] run show ?thesis
    by (simp add: queue_sample_def)
qed

text \<open>
  First in, first out over whole batches: a batch that fits is accepted completely, and
  the loop that dequeues until \<open>-1\<close> (with as many iterations as the capacity and one more)
  returns the old contents followed by the batch, in order, and empties the queue.
\<close>

theorem queue2_fifo_batch:
  assumes "queue_wf q" and "length (queue_contents q) + length xs \<le> unat (q_max q)"
  shows "\<exists>q1 q2. queue_fill queue_enqueue_nb q xs = Inr q1
     \<and> queue_drain queue_dequeue_nb (Suc (unat (q_max q))) q1 = Inr (Some (queue_contents q @ xs, q2))
     \<and> queue_contents q2 = []"
  using assms by (rule q2.fifo_batch)

theorem queue2_fifo_batch_witness:
  "\<exists>q1 q2. queue_fill queue_enqueue_nb queue_sample [40] = Inr q1
     \<and> queue_drain queue_dequeue_nb 4 q1 = Inr (Some ([20, 30, 40], q2))
     \<and> queue_contents q2 = []"
proof -
  have "queue_contents queue_sample = [20, 30]" by (simp add: queue_contents_def queue_sample_def
    ring_def upt_rec)
  moreover have "unat (q_max queue_sample) = 3" by (simp add: queue_sample_def)
  ultimately show ?thesis
    using queue2_fifo_batch [OF queue_sample_wf, of "[40]"] by (simp add: numeral_eq_Suc)
qed

end
