(* ===== verification/Queue2_Monitor.thy ===== *)
theory Queue2_Monitor
  imports Queue2 "HOL-Library.Multiset"
begin

text \<open>
  The blocking operations of \<open>src/src/ds_queue2.c\<close> and the two condition variables, as a step
  relation.  Every critical section (from \<open>pthread_mutex_lock\<close> to \<open>pthread_mutex_unlock\<close>, or
  to the point where \<open>pthread_cond_wait\<close> releases the mutex) is one step, because the mutex
  keeps all other threads out of it; which thread runs next is not determined.

  A thread inside \<open>pthread_cond_wait\<close> is in \<open>wait_eq\<close> (producers, with the pointer they
  bring) or \<open>wait_dq\<close> (consumers) until a signal, or a spurious wakeup, moves it to
  \<open>woken_eq\<close> or \<open>woken_dq\<close>; from there it re-acquires the mutex and tests the loop condition
  again.  A waiting thread may also be cancelled (\<open>thr_worker_destroy\<close> does that to the
  workers).  \<open>enq_log\<close> and \<open>deq_log\<close> record every pointer stored and taken, in the order of
  the critical sections.
\<close>

record 'a qmon =
  mq :: "'a queue_st"
  wait_eq :: "(nat \<times> 'a) multiset"
  woken_eq :: "(nat \<times> 'a) multiset"
  wait_dq :: "nat multiset"
  woken_dq :: "nat multiset"
  enq_log :: "'a list"
  deq_log :: "'a list"

definition mon_init :: "'a queue_st \<Rightarrow> 'a qmon" where
  "mon_init q = \<lparr>mq = q, wait_eq = {#}, woken_eq = {#}, wait_dq = {#}, woken_dq = {#},
                 enq_log = [], deq_log = []\<rparr>"

text \<open>\<open>pthread_cond_signal\<close>: wakes one waiting thread, if there is one.\<close>

inductive signal_dq :: "'a qmon \<Rightarrow> 'a qmon \<Rightarrow> bool" where
  dq_none: "wait_dq s = {#} \<Longrightarrow> signal_dq s s"
| dq_one: "t \<in># wait_dq s \<Longrightarrow>
     signal_dq s (s\<lparr>wait_dq := wait_dq s - {#t#}, woken_dq := add_mset t (woken_dq s)\<rparr>)"

inductive signal_eq :: "'a qmon \<Rightarrow> 'a qmon \<Rightarrow> bool" where
  eq_none: "wait_eq s = {#} \<Longrightarrow> signal_eq s s"
| eq_one: "p \<in># wait_eq s \<Longrightarrow>
     signal_eq s (s\<lparr>wait_eq := wait_eq s - {#p#}, woken_eq := add_mset p (woken_eq s)\<rparr>)"

text \<open>
  Entering the body of \<open>queue_enqueue\<close> or \<open>queue_dequeue\<close> with the mutex held: a new call,
  or a woken thread coming back from \<open>pthread_cond_wait\<close>.
\<close>

inductive enter_enq :: "'a qmon \<Rightarrow> nat \<Rightarrow> 'a \<Rightarrow> 'a qmon \<Rightarrow> bool" where
  enq_call: "enter_enq s t d s"
| enq_back: "(t, d) \<in># woken_eq s \<Longrightarrow> enter_enq s t d (s\<lparr>woken_eq := woken_eq s - {#(t, d)#}\<rparr>)"

inductive enter_deq :: "'a qmon \<Rightarrow> nat \<Rightarrow> 'a qmon \<Rightarrow> bool" where
  deq_call: "enter_deq s t s"
| deq_back: "t \<in># woken_dq s \<Longrightarrow> enter_deq s t (s\<lparr>woken_dq := woken_dq s - {#t#}\<rparr>)"

inductive mon_step :: "'a qmon \<Rightarrow> 'a qmon \<Rightarrow> bool" where
  enq_wait: "enter_enq s t d s0 \<Longrightarrow> q_nr (mq s0) \<ge> q_max (mq s0) \<Longrightarrow>
     mon_step s (s0\<lparr>wait_eq := add_mset (t, d) (wait_eq s0)\<rparr>)"
| enq_go: "enter_enq s t d s0 \<Longrightarrow> \<not> q_nr (mq s0) \<ge> q_max (mq s0) \<Longrightarrow>
     queue_store (mq s0) d = Inr q' \<Longrightarrow>
     signal_dq (s0\<lparr>mq := q', enq_log := enq_log s0 @ [d]\<rparr>) s' \<Longrightarrow> mon_step s s'"
| deq_wait: "enter_deq s t s0 \<Longrightarrow> q_nr (mq s0) \<le> 0 \<Longrightarrow>
     mon_step s (s0\<lparr>wait_dq := add_mset t (wait_dq s0)\<rparr>)"
| deq_go: "enter_deq s t s0 \<Longrightarrow> \<not> q_nr (mq s0) \<le> 0 \<Longrightarrow>
     queue_take (mq s0) = Inr (x, q') \<Longrightarrow>
     signal_eq (s0\<lparr>mq := q', deq_log := deq_log s0 @ [x]\<rparr>) s' \<Longrightarrow> mon_step s s'"
| enq_nb: "queue_enqueue_nb (mq s) d = Inr (0, q') \<Longrightarrow>
     signal_dq (s\<lparr>mq := q', enq_log := enq_log s @ [d]\<rparr>) s' \<Longrightarrow> mon_step s s'"
| enq_uniq_new: "queue_enqueue_uniq_nb (mq s) d = Inr (0, q') \<Longrightarrow> q' \<noteq> mq s \<Longrightarrow>
     signal_dq (s\<lparr>mq := q', enq_log := enq_log s @ [d]\<rparr>) s' \<Longrightarrow> mon_step s s'"
| enq_uniq_dup: "queue_enqueue_uniq_nb (mq s) d = Inr (0, mq s) \<Longrightarrow>
     signal_dq s s' \<Longrightarrow> mon_step s s'"
| deq_nb: "queue_dequeue_nb (mq s) = Inr (0, Some x, q') \<Longrightarrow>
     signal_eq (s\<lparr>mq := q', deq_log := deq_log s @ [x]\<rparr>) s' \<Longrightarrow> mon_step s s'"
| spurious_eq: "p \<in># wait_eq s \<Longrightarrow>
     mon_step s (s\<lparr>wait_eq := wait_eq s - {#p#}, woken_eq := add_mset p (woken_eq s)\<rparr>)"
| spurious_dq: "t \<in># wait_dq s \<Longrightarrow>
     mon_step s (s\<lparr>wait_dq := wait_dq s - {#t#}, woken_dq := add_mset t (woken_dq s)\<rparr>)"
| cancel_eq: "p \<in># wait_eq s \<Longrightarrow> mon_step s (s\<lparr>wait_eq := wait_eq s - {#p#}\<rparr>)"
| cancel_dq: "t \<in># wait_dq s \<Longrightarrow> mon_step s (s\<lparr>wait_dq := wait_dq s - {#t#}\<rparr>)"

inductive mon_reachable :: "'a queue_st \<Rightarrow> 'a qmon \<Rightarrow> bool" for q0 where
  mon_start: "mon_reachable q0 (mon_init q0)"
| mon_next: "mon_reachable q0 s \<Longrightarrow> mon_step s s' \<Longrightarrow> mon_reachable q0 s'"

inductive_simps signal_dq_iff: "signal_dq s s'"
inductive_simps signal_eq_iff: "signal_eq s s'"
inductive_cases enter_enqE: "enter_enq s t d s0"
inductive_cases enter_deqE: "enter_deq s t s0"

section \<open>The invariant\<close>

text \<open>
  What is needed for no wakeup to be lost: while a consumer waits, every item in the queue is
  matched by a consumer that is already awake; while a producer waits, every free cell is
  matched by a producer that is already awake.
\<close>

definition mon_inv :: "'a queue_st \<Rightarrow> 'a qmon \<Rightarrow> bool" where
  "mon_inv q0 s \<longleftrightarrow>
     queue_wf (mq s) \<and> q_max (mq s) = q_max q0
     \<and> queue_contents q0 @ enq_log s = deq_log s @ queue_contents (mq s)
     \<and> (wait_dq s = {#} \<or> unat (q_nr (mq s)) \<le> size (woken_dq s))
     \<and> (wait_eq s = {#} \<or> unat (q_max (mq s)) - unat (q_nr (mq s)) \<le> size (woken_eq s))"

lemma queue_store_nr:
  "queue_wf q \<Longrightarrow> \<not> q_nr q \<ge> q_max q \<Longrightarrow> queue_store q d = Inr q' \<Longrightarrow>
     queue_wf q' \<and> q_max q' = q_max q \<and> queue_contents q' = queue_contents q @ [d]
     \<and> unat (q_nr q') = Suc (unat (q_nr q))"
  using queue_store_spec [of q d] length_queue_contents [of q'] by auto

lemma queue_take_nr:
  assumes "queue_wf q" and "\<not> q_nr q \<le> 0" and "queue_take q = Inr (x, q')"
  shows "queue_wf q' \<and> q_max q' = q_max q \<and> queue_contents q = x # queue_contents q'
     \<and> unat (q_nr q) = Suc (unat (q_nr q'))"
proof -
  have "queue_contents q \<noteq> []"
    using assms(2) length_queue_contents [of q] by (auto simp: unat_eq_0 simp del: length_queue_contents)
  then obtain y ys where "queue_contents q = y # ys" by (cases "queue_contents q") auto
  with queue_take_spec [OF assms(1) this] assms(3)
    length_queue_contents [of q] length_queue_contents [of q']
  show ?thesis by auto
qed

lemma mon_inv_init: "queue_wf q0 \<Longrightarrow> mon_inv q0 (mon_init q0)"
  by (simp add: mon_inv_def mon_init_def)

text \<open>The effect of a store or a take together with its signal, on any state.\<close>

lemma mon_inv_store:
  assumes inv: "queue_wf (mq s)" "q_max (mq s) = q_max q0"
      "queue_contents q0 @ enq_log s = deq_log s @ queue_contents (mq s)"
      "wait_dq s = {#} \<or> unat (q_nr (mq s)) \<le> size (woken_dq s)"
      "wait_eq s = {#} \<or> unat (q_max (mq s)) - unat (q_nr (mq s)) \<le> Suc (size (woken_eq s))"
    and room: "\<not> q_nr (mq s) \<ge> q_max (mq s)"
    and store: "queue_store (mq s) d = Inr q'"
    and sig: "signal_dq (s\<lparr>mq := q', enq_log := enq_log s @ [d]\<rparr>) s'"
  shows "mon_inv q0 s'"
  using sig
proof (cases rule: signal_dq.cases)
  case dq_none
  with inv queue_store_nr [OF inv(1) room store] show ?thesis by (auto simp: mon_inv_def)
next
  case (dq_one t)
  with inv queue_store_nr [OF inv(1) room store] show ?thesis by (auto simp: mon_inv_def)
qed

lemma mon_inv_take:
  assumes inv: "queue_wf (mq s)" "q_max (mq s) = q_max q0"
      "queue_contents q0 @ enq_log s = deq_log s @ queue_contents (mq s)"
      "wait_dq s = {#} \<or> unat (q_nr (mq s)) \<le> Suc (size (woken_dq s))"
      "wait_eq s = {#} \<or> unat (q_max (mq s)) - unat (q_nr (mq s)) \<le> size (woken_eq s)"
    and item: "\<not> q_nr (mq s) \<le> 0"
    and take: "queue_take (mq s) = Inr (x, q')"
    and sig: "signal_eq (s\<lparr>mq := q', deq_log := deq_log s @ [x]\<rparr>) s'"
  shows "mon_inv q0 s'"
  using sig
proof (cases rule: signal_eq.cases)
  case eq_none
  with inv queue_take_nr [OF inv(1) item take] show ?thesis by (auto simp: mon_inv_def)
next
  case (eq_one p)
  with inv queue_take_nr [OF inv(1) item take] show ?thesis by (auto simp: mon_inv_def)
qed

text \<open>Entering a body takes at most one woken thread out of its set and nothing else.\<close>

lemma enter_enq_keeps:
  "enter_enq s t d s0 \<Longrightarrow>
     mq s0 = mq s \<and> wait_eq s0 = wait_eq s \<and> wait_dq s0 = wait_dq s \<and> woken_dq s0 = woken_dq s
     \<and> enq_log s0 = enq_log s \<and> deq_log s0 = deq_log s
     \<and> size (woken_eq s) \<le> Suc (size (woken_eq s0))"
  by (auto elim!: enter_enqE simp: size_Diff_singleton)

lemma enter_deq_keeps:
  "enter_deq s t s0 \<Longrightarrow>
     mq s0 = mq s \<and> wait_eq s0 = wait_eq s \<and> wait_dq s0 = wait_dq s \<and> woken_eq s0 = woken_eq s
     \<and> enq_log s0 = enq_log s \<and> deq_log s0 = deq_log s
     \<and> size (woken_dq s) \<le> Suc (size (woken_dq s0))"
  by (auto elim!: enter_deqE simp: size_Diff_singleton)

lemma enqueue_nb_store:
  "queue_enqueue_nb q d = Inr (0, q') \<Longrightarrow> \<not> q_nr q \<ge> q_max q \<and> queue_store q d = Inr q'"
  by (auto simp: queue_enqueue_nb_def bindE_eq_Inr_iff split: if_splits)

lemma enqueue_uniq_store:
  "queue_enqueue_uniq_nb q d = Inr (0, q') \<Longrightarrow> q' \<noteq> q \<Longrightarrow>
     \<not> q_nr q \<ge> q_max q \<and> queue_store q d = Inr q'"
  by (auto simp: queue_enqueue_uniq_nb_def bindE_eq_Inr_iff split: if_splits)

lemma dequeue_nb_take:
  "queue_dequeue_nb q = Inr (0, Some x, q') \<Longrightarrow> \<not> q_nr q \<le> 0 \<and> queue_take q = Inr (x, q')"
  by (auto simp: queue_dequeue_nb_def bindE_eq_Inr_iff split: if_splits)

lemma mon_step_inv: "mon_step s s' \<Longrightarrow> mon_inv q0 s \<Longrightarrow> mon_inv q0 s'"
proof (induction rule: mon_step.induct)
  case (enq_wait s t d s0)
  then show ?case using enter_enq_keeps [OF enq_wait(1)]
    by (auto simp: mon_inv_def word_le_nat_alt)
next
  case (enq_go s t d s0 q' s')
  then show ?case using enter_enq_keeps [OF enq_go(1)]
    by (intro mon_inv_store [of s0 q0 d q' s']) (auto simp: mon_inv_def)
next
  case (deq_wait s t s0)
  then show ?case using enter_deq_keeps [OF deq_wait(1)] by (auto simp: mon_inv_def)
next
  case (deq_go s t s0 x q' s')
  then show ?case using enter_deq_keeps [OF deq_go(1)]
    by (intro mon_inv_take [of s0 q0 x q' s']) (auto simp: mon_inv_def)
next
  case (enq_nb s d q' s')
  then show ?case using enqueue_nb_store [OF enq_nb(1)]
    by (intro mon_inv_store [of s q0 d q' s']) (auto simp: mon_inv_def)
next
  case (enq_uniq_new s d q' s')
  then show ?case using enqueue_uniq_store [OF enq_uniq_new(1,2)]
    by (intro mon_inv_store [of s q0 d q' s']) (auto simp: mon_inv_def)
next
  case (enq_uniq_dup s d s')
  then show ?case by (auto simp: mon_inv_def signal_dq_iff)
next
  case (deq_nb s x q' s')
  then show ?case using dequeue_nb_take [OF deq_nb(1)]
    by (intro mon_inv_take [of s q0 x q' s']) (auto simp: mon_inv_def)
next
  case (spurious_eq p s)
  then show ?case by (auto simp: mon_inv_def)
next
  case (spurious_dq t s)
  then show ?case by (auto simp: mon_inv_def)
next
  case (cancel_eq p s)
  then show ?case by (auto simp: mon_inv_def)
next
  case (cancel_dq t s)
  then show ?case by (auto simp: mon_inv_def)
qed

lemma mon_reachable_inv: "mon_reachable q0 s \<Longrightarrow> queue_wf q0 \<Longrightarrow> mon_inv q0 s"
  by (induction rule: mon_reachable.induct) (auto intro: mon_inv_init mon_step_inv)

section \<open>What all threads together observe\<close>

text \<open>
  C15.  First in, first out across threads: however producers and consumers interleave, block,
  are woken, wake up spuriously or are cancelled, the pointers taken so far followed by those
  still in the queue are the initial contents followed by the pointers stored, in order.  No
  pointer is lost, duplicated or reordered, and the bucket stays well formed.
\<close>

theorem monitor_fifo:
  assumes "queue_wf q0" and "mon_reachable q0 s"
  shows "deq_log s @ queue_contents (mq s) = queue_contents q0 @ enq_log s \<and> queue_wf (mq s)"
  using mon_reachable_inv [OF assms(2,1)] by (simp add: mon_inv_def)

text \<open>A run: a consumer blocks on the empty queue, then a producer stores and signals.\<close>

definition mon_q0 :: "nat queue_st" where
  "mon_q0 = \<lparr>q_max = 2, q_nr = 0, en_count = 0, de_count = 0, rindex = 0, windex = 0,
             bucket = [0, 0]\<rparr>"

definition mon_q1 :: "nat queue_st" where
  "mon_q1 = \<lparr>q_max = 2, q_nr = 1, en_count = 1, de_count = 0, rindex = 0, windex = 1,
             bucket = [7, 0]\<rparr>"

definition mon_s1 :: "nat qmon" where
  "mon_s1 = (mon_init mon_q0)\<lparr>wait_dq := {#1, 2#}\<rparr>"

definition mon_s2 :: "nat qmon" where
  "mon_s2 = (mon_init mon_q1)\<lparr>wait_dq := {#2#}, woken_dq := {#1#}, enq_log := [7]\<rparr>"

lemma mon_q0_wf: "queue_wf mon_q0"
  by (simp add: queue_wf_def mon_q0_def)

lemma mon_s1_reachable: "mon_reachable mon_q0 mon_s1"
proof -
  have "mon_step (mon_init mon_q0) ((mon_init mon_q0)\<lparr>wait_dq := {#2#}\<rparr>)"
    using deq_wait [OF deq_call, of "mon_init mon_q0" 2] by (simp add: mon_init_def mon_q0_def)
  moreover have "mon_step ((mon_init mon_q0)\<lparr>wait_dq := {#2#}\<rparr>) mon_s1"
    using deq_wait [OF deq_call, of "(mon_init mon_q0)\<lparr>wait_dq := {#2#}\<rparr>" 1]
    by (simp add: mon_init_def mon_q0_def mon_s1_def)
  ultimately show ?thesis by (blast intro: mon_reachable.intros)
qed

lemma mon_s2_reachable: "mon_reachable mon_q0 mon_s2"
proof -
  have "queue_store mon_q0 7 = Inr mon_q1"
    by (simp add: queue_store_def bucket_put_def mon_q0_def mon_q1_def queue_next_def
      word_le_nat_alt)
  moreover have "signal_dq (mon_s1\<lparr>mq := mon_q1, enq_log := [7]\<rparr>) mon_s2"
    using dq_one [of 1 "mon_s1\<lparr>mq := mon_q1, enq_log := [7]\<rparr>"]
    by (simp add: mon_s1_def mon_s2_def mon_init_def)
  ultimately have "mon_step mon_s1 mon_s2"
    using enq_go [OF enq_call [of mon_s1 0 7], of mon_q1 mon_s2]
    by (simp add: mon_s1_def mon_init_def mon_q0_def)
  with mon_s1_reachable show ?thesis by (rule mon_next)
qed

theorem monitor_fifo_witness: "deq_log mon_s2 @ queue_contents (mq mon_s2) = [7]"
  using monitor_fifo [OF mon_q0_wf mon_s2_reachable]
  by (simp add: mon_s2_def mon_init_def queue_contents_def mon_q0_def)

text \<open>
  C3.  No wakeup is lost: in every reachable state in which a consumer still waits although
  the queue holds an item, some consumer has been woken, and the step in which it takes the
  oldest item is enabled.  Dually, a producer that waits although a cell is free is matched by
  a woken producer whose store is enabled.  Hence a queue with at least one cell never has all
  its callers blocked on both sides.
\<close>

theorem monitor_no_lost_wakeup:
  assumes "queue_wf q0" and "mon_reachable q0 s"
  shows "(wait_dq s \<noteq> {#} \<and> q_nr (mq s) \<noteq> 0 \<longrightarrow>
            (\<exists>t s'. t \<in># woken_dq s \<and> mon_step s s' \<and> woken_dq s' = woken_dq s - {#t#}
               \<and> deq_log s' = deq_log s @ [hd (queue_contents (mq s))]))
       \<and> (wait_eq s \<noteq> {#} \<and> q_nr (mq s) < q_max (mq s) \<longrightarrow>
            (\<exists>t d s'. (t, d) \<in># woken_eq s \<and> mon_step s s' \<and> woken_eq s' = woken_eq s - {#(t, d)#}
               \<and> enq_log s' = enq_log s @ [d]))
       \<and> (wait_dq s \<noteq> {#} \<and> wait_eq s \<noteq> {#} \<and> q_max q0 \<noteq> 0 \<longrightarrow>
            woken_dq s \<noteq> {#} \<or> woken_eq s \<noteq> {#})"
proof (intro conjI impI)
  have inv: "mon_inv q0 s" using mon_reachable_inv assms by blast
  then have wf: "queue_wf (mq s)" by (simp add: mon_inv_def)
  {
    assume a: "wait_dq s \<noteq> {#} \<and> q_nr (mq s) \<noteq> 0"
    then have "woken_dq s \<noteq> {#}" using inv by (auto simp: mon_inv_def unat_eq_0)
    then obtain t where t: "t \<in># woken_dq s" by blast
    have "queue_contents (mq s) \<noteq> []"
      using a length_queue_contents [of "mq s"]
      by (auto simp: unat_eq_0 simp del: length_queue_contents)
    then obtain x xs where xs: "queue_contents (mq s) = x # xs"
      by (cases "queue_contents (mq s)") auto
    from queue_take_spec [OF wf xs] obtain q' where q': "queue_take (mq s) = Inr (x, q')" by blast
    define s0 where "s0 = s\<lparr>woken_dq := woken_dq s - {#t#}\<rparr>"
    obtain s' where s': "signal_eq (s0\<lparr>mq := q', deq_log := deq_log s0 @ [x]\<rparr>) s'"
      by (meson eq_none eq_one multiset_nonemptyE)
    have "mon_step s s'"
      using deq_go [OF deq_back [OF t], of x q' s'] a q' s' by (simp add: s0_def)
    moreover have "woken_dq s' = woken_dq s - {#t#} \<and> deq_log s' = deq_log s @ [x]"
      using s' by (auto simp: signal_eq_iff s0_def)
    ultimately show "\<exists>t s'. t \<in># woken_dq s \<and> mon_step s s' \<and> woken_dq s' = woken_dq s - {#t#}
        \<and> deq_log s' = deq_log s @ [hd (queue_contents (mq s))]"
      using t xs by auto
  next
    assume a: "wait_eq s \<noteq> {#} \<and> q_nr (mq s) < q_max (mq s)"
    then have "woken_eq s \<noteq> {#}" using inv by (auto simp: mon_inv_def word_less_nat_alt)
    then obtain t d where t: "(t, d) \<in># woken_eq s" by (metis multiset_nonemptyE surj_pair)
    from a have room: "\<not> q_nr (mq s) \<ge> q_max (mq s)" by (simp add: not_le)
    from queue_store_spec [OF wf room, of d] obtain q' where
      q': "queue_store (mq s) d = Inr q'" by blast
    define s0 where "s0 = s\<lparr>woken_eq := woken_eq s - {#(t, d)#}\<rparr>"
    obtain s' where s': "signal_dq (s0\<lparr>mq := q', enq_log := enq_log s0 @ [d]\<rparr>) s'"
      by (meson dq_none dq_one multiset_nonemptyE)
    have "mon_step s s'"
      using enq_go [OF enq_back [OF t], of q' s'] room q' s' by (simp add: s0_def)
    moreover have "woken_eq s' = woken_eq s - {#(t, d)#} \<and> enq_log s' = enq_log s @ [d]"
      using s' by (auto simp: signal_dq_iff s0_def)
    ultimately show "\<exists>t d s'. (t, d) \<in># woken_eq s \<and> mon_step s s'
        \<and> woken_eq s' = woken_eq s - {#(t, d)#} \<and> enq_log s' = enq_log s @ [d]"
      using t by auto
  next
    assume "wait_dq s \<noteq> {#} \<and> wait_eq s \<noteq> {#} \<and> q_max q0 \<noteq> 0"
    then show "woken_dq s \<noteq> {#} \<or> woken_eq s \<noteq> {#}"
      using inv by (auto simp: mon_inv_def unat_eq_0)
  }
qed

theorem monitor_no_lost_wakeup_witness:
  "wait_dq mon_s2 \<noteq> {#} \<and>
   (\<exists>t s'. t \<in># woken_dq mon_s2 \<and> mon_step mon_s2 s' \<and> deq_log s' = [7])"
proof -
  have "wait_dq mon_s2 \<noteq> {#} \<and> q_nr (mq mon_s2) \<noteq> 0 \<and> deq_log mon_s2 = []
      \<and> hd (queue_contents (mq mon_s2)) = 7"
    by (simp add: mon_s2_def mon_init_def mon_q1_def queue_contents_def ring_def)
  with monitor_no_lost_wakeup [OF mon_q0_wf mon_s2_reachable] show ?thesis by auto
qed

end
