(* ===== verification/Llist.thy ===== *)
theory Llist
  imports Queue_Interface
begin

text \<open>
  \<open>src/src/ds_llist.c\<close>: a circular doubly linked list with a dummy head node and a bound on
  the number of nodes, at the level of its pointers.  The heap maps addresses to nodes; the
  dummy node lives inside the list structure, at address \<open>dumb\<close>.  Address \<open>0\<close> is
  \<open>NULL\<close> and is never mapped.

  \<open>malloc\<close> is a parameter of every operation that allocates: \<open>None\<close> when it fails, else
  the address it returns.  The \<open>_nb\<close> operations take the outcome of their
  \<open>pthread_mutex_trylock\<close> as the flag \<open>busy\<close>.  An out parameter that is not written is
  \<open>None\<close>.
\<close>

section \<open>Nodes, heaps and the list structure\<close>

record llnode =
  ln_prev :: intptr
  ln_next :: intptr
  ln_ptr :: intptr

type_synonym llheap = "intptr \<rightharpoonup> llnode"

record llist =
  nr_nodes :: int
  volume :: int
  dumb :: intptr
  heap :: llheap

definition ld :: "llheap \<Rightarrow> intptr \<Rightarrow> ub + llnode" where
  "ld h a = (case h a of Some n \<Rightarrow> Inr n | None \<Rightarrow> Inl (if a = 0 then NullDeref else BadPointer))"

definition set_next :: "llheap \<Rightarrow> intptr \<Rightarrow> intptr \<Rightarrow> ub + llheap" where
  "set_next h a v = bindE (ld h a) (\<lambda>n. Inr (h(a \<mapsto> n\<lparr>ln_next := v\<rparr>)))"

definition set_prev :: "llheap \<Rightarrow> intptr \<Rightarrow> intptr \<Rightarrow> ub + llheap" where
  "set_prev h a v = bindE (ld h a) (\<lambda>n. Inr (h(a \<mapsto> n\<lparr>ln_prev := v\<rparr>)))"

definition set_ptr :: "llheap \<Rightarrow> intptr \<Rightarrow> intptr \<Rightarrow> ub + llheap" where
  "set_ptr h a v = bindE (ld h a) (\<lambda>n. Inr (h(a \<mapsto> n\<lparr>ln_ptr := v\<rparr>)))"

definition free_node :: "llheap \<Rightarrow> intptr \<Rightarrow> ub + llheap" where
  "free_node h a = bindE (ld h a) (\<lambda>n. Inr (h(a := None)))"

section \<open>Operations\<close>

text \<open>
  \<open>match_ptr\<close>, the default match function: the difference of two \<open>intptr_t\<close> values,
  converted to \<open>int\<close> by the return.
\<close>

definition match_ptr :: "intptr \<Rightarrow> intptr \<Rightarrow> int" where
  "match_ptr p1 p2 = sint (ucast (p1 - p2) :: u32)"

text \<open>
  \<open>llist_new\<close>: \<open>mem\<close> is the address of \<open>dumb\<close> in the allocated structure, the two flags say
  whether initialising the mutex and the condition variable succeeded.
\<close>

definition llist_new :: "int \<Rightarrow> intptr option \<Rightarrow> bool \<Rightarrow> bool \<Rightarrow> llist option" where
  "llist_new mx mem mutex_ok cond_ok =
     (case mem of None \<Rightarrow> None
      | Some a \<Rightarrow>
          if \<not> mutex_ok then None
          else if \<not> cond_ok then None
          else Some \<lparr>nr_nodes = 0, volume = mx, dumb = a,
                     heap = [a \<mapsto> \<lparr>ln_prev = a, ln_next = a, ln_ptr = 0\<rparr>]\<rparr>)"

definition llist_new_node :: "llheap \<Rightarrow> intptr option \<Rightarrow> intptr \<times> llheap" where
  "llist_new_node h mem =
     (case mem of None \<Rightarrow> (0, h)
      | Some a \<Rightarrow> (a, h(a \<mapsto> \<lparr>ln_prev = 0, ln_next = 0, ln_ptr = 0\<rparr>)))"

definition llist_append_unlocked :: "llist \<Rightarrow> intptr \<Rightarrow> intptr option \<Rightarrow> ub + (int \<times> llist)" where
  "llist_append_unlocked ll data mem =
     (if nr_nodes ll < volume ll then
        let (lnode, h) = llist_new_node (heap ll) mem in
        if lnode = 0 then Inr (-1, ll)
        else
          bindE (set_ptr h lnode data) (\<lambda>h.
          bindE (ld h (dumb ll)) (\<lambda>d.
          bindE (set_prev h lnode (ln_prev d)) (\<lambda>h.
          bindE (set_next h lnode (dumb ll)) (\<lambda>h.
          bindE (ld h (dumb ll)) (\<lambda>d.
          bindE (set_next h (ln_prev d) lnode) (\<lambda>h.
          bindE (set_prev h (dumb ll) lnode) (\<lambda>h.
          Inr (0, ll\<lparr>heap := h, nr_nodes := nr_nodes ll + 1\<rparr>))))))))
      else Inr (-1, ll))"

definition llist_append_nb ::
  "bool \<Rightarrow> llist \<Rightarrow> intptr \<Rightarrow> intptr option \<Rightarrow> ub + (int \<times> llist)" where
  "llist_append_nb busy ll data mem =
     (if busy then Inr (-2, ll) else llist_append_unlocked ll data mem)"

text \<open>
  The blocking \<open>llist_append\<close>, \<open>llist_get_head\<close> and \<open>llist_fetch_head\<close> hold the mutex and
  wait while the list is full (empty): \<open>None\<close> says that the caller blocks.
\<close>

definition llist_append :: "llist \<Rightarrow> intptr \<Rightarrow> intptr option \<Rightarrow> (ub + (int \<times> llist)) option" where
  "llist_append ll data mem =
     (if nr_nodes ll \<ge> volume ll then None else Some (llist_append_unlocked ll data mem))"

definition llist_get_next_unlocked :: "llist \<Rightarrow> intptr \<Rightarrow> ub + intptr" where
  "llist_get_next_unlocked ll ptr =
     bindE (ld (heap ll) ptr) (\<lambda>ln. Inr (if ln_next ln = dumb ll then 0 else ln_next ln))"

definition llist_get_next_nb :: "bool \<Rightarrow> llist \<Rightarrow> intptr \<Rightarrow> ub + intptr" where
  "llist_get_next_nb busy ll ptr = (if busy then Inr 0 else llist_get_next_unlocked ll ptr)"

definition llist_get_head_unlocked :: "llist \<Rightarrow> ub + (int \<times> intptr option)" where
  "llist_get_head_unlocked ll =
     (if nr_nodes ll \<le> 0 then Inr (-1, None)
      else bindE (ld (heap ll) (dumb ll)) (\<lambda>d.
        if ln_next d \<noteq> dumb ll
        then bindE (ld (heap ll) (ln_next d)) (\<lambda>ln. Inr (0, Some (ln_ptr ln)))
        else Inr (-1, None)))"

definition llist_get_head :: "llist \<Rightarrow> (ub + (int \<times> intptr option)) option" where
  "llist_get_head ll = (if nr_nodes ll \<le> 0 then None else Some (llist_get_head_unlocked ll))"

definition llist_get_head_nb :: "bool \<Rightarrow> llist \<Rightarrow> ub + (int \<times> intptr option)" where
  "llist_get_head_nb busy ll = (if busy then Inr (-2, None) else llist_get_head_unlocked ll)"

definition llist_get_head_node_unlocked :: "llist \<Rightarrow> ub + (int \<times> intptr option)" where
  "llist_get_head_node_unlocked ll =
     (if nr_nodes ll \<le> 0 then Inr (-1, None)
      else bindE (ld (heap ll) (dumb ll)) (\<lambda>d.
        if ln_next d \<noteq> dumb ll then Inr (0, Some (ln_next d)) else Inr (-1, None)))"

definition llist_get_head_node :: "llist \<Rightarrow> ub + (int \<times> intptr option)" where
  "llist_get_head_node ll = llist_get_head_node_unlocked ll"

definition llist_get_head_node_nb :: "bool \<Rightarrow> llist \<Rightarrow> ub + (int \<times> intptr option)" where
  "llist_get_head_node_nb busy ll =
     (if busy then Inr (-2, None) else llist_get_head_node_unlocked ll)"

text \<open>
  The unlinking sequence that \<open>llist_fetch_head_unlocked\<close> and \<open>llist_fetch_match_unlocked\<close>
  share line by line: \<open>ln\<close>'s successor becomes the first node, and \<open>ln\<close> is freed.
\<close>

definition unlink_first :: "llist \<Rightarrow> intptr \<Rightarrow> ub + (int \<times> intptr option \<times> llist)" where
  "unlink_first ll ln =
     bindE (ld (heap ll) ln) (\<lambda>n.
     bindE (set_next (heap ll) (dumb ll) (ln_next n)) (\<lambda>h.
     bindE (ld h ln) (\<lambda>n'.
     bindE (set_prev h (ln_next n') (dumb ll)) (\<lambda>h.
     bindE (set_next h ln 0) (\<lambda>h.
     bindE (set_prev h ln 0) (\<lambda>h.
     bindE (free_node h ln) (\<lambda>h.
     Inr (0, Some (ln_ptr n), ll\<lparr>heap := h, nr_nodes := nr_nodes ll - 1\<rparr>))))))))"

definition llist_fetch_head_unlocked :: "llist \<Rightarrow> ub + (int \<times> intptr option \<times> llist)" where
  "llist_fetch_head_unlocked ll =
     (if nr_nodes ll \<le> 0 then Inr (-1, None, ll)
      else bindE (ld (heap ll) (dumb ll)) (\<lambda>d.
        if ln_next d \<noteq> dumb ll then unlink_first ll (ln_next d)
        else Inr (-1, None, ll)))"

definition llist_fetch_head :: "llist \<Rightarrow> (ub + (int \<times> intptr option \<times> llist)) option" where
  "llist_fetch_head ll = (if nr_nodes ll \<le> 0 then None else Some (llist_fetch_head_unlocked ll))"

definition llist_fetch_head_nb :: "bool \<Rightarrow> llist \<Rightarrow> ub + (int \<times> intptr option \<times> llist)" where
  "llist_fetch_head_nb busy ll =
     (if busy then Inr (-2, None, ll) else llist_fetch_head_unlocked ll)"

text \<open>
  The loop of \<open>llist_fetch_match_unlocked\<close>: it follows the \<open>next\<close> pointers from \<open>ln\<close> until it
  is back at the dummy node.  \<open>None\<close> is a loop that never ends.
\<close>

partial_function (option) find_match ::
  "llheap \<Rightarrow> intptr \<Rightarrow> (intptr \<Rightarrow> intptr \<Rightarrow> int) \<Rightarrow> intptr \<Rightarrow> intptr \<Rightarrow> (ub + intptr option) option" where
  "find_match h dmb match_func needle ln =
     (if ln = dmb then Some (Inr None)
      else case ld h ln of
        Inl e \<Rightarrow> Some (Inl e)
      | Inr n \<Rightarrow> if match_func needle (ln_ptr n) = 0 then Some (Inr (Some ln))
                 else find_match h dmb match_func needle (ln_next n))"

definition llist_fetch_match_unlocked ::
  "llist \<Rightarrow> (intptr \<Rightarrow> intptr \<Rightarrow> int) \<Rightarrow> intptr \<Rightarrow> (ub + (int \<times> intptr option \<times> llist)) option" where
  "llist_fetch_match_unlocked ll match_func needle =
     (case ld (heap ll) (dumb ll) of
        Inl e \<Rightarrow> Some (Inl e)
      | Inr d \<Rightarrow>
         map_option (\<lambda>r. bindE r (\<lambda>found.
           case found of None \<Rightarrow> Inr (-1, None, ll) | Some ln \<Rightarrow> unlink_first ll ln))
           (find_match (heap ll) (dumb ll) match_func needle (ln_next d)))"

text \<open>\<open>llist_fetch_match\<close>: a null match function means \<open>match_ptr\<close>.\<close>

definition llist_fetch_match ::
  "llist \<Rightarrow> (intptr \<Rightarrow> intptr \<Rightarrow> int) option \<Rightarrow> intptr
     \<Rightarrow> (ub + (int \<times> intptr option \<times> llist)) option" where
  "llist_fetch_match ll match_func needle =
     llist_fetch_match_unlocked ll
       (case match_func of None \<Rightarrow> match_ptr | Some f \<Rightarrow> f) needle"

text \<open>
  \<open>llist_travel\<close>: the arguments its callback is called with, in order; data that is
  \<open>NULL\<close> is skipped.  \<open>None\<close> is a loop that never ends.
\<close>

partial_function (option) travel_from ::
  "llheap \<Rightarrow> intptr \<Rightarrow> intptr \<Rightarrow> intptr list \<Rightarrow> (ub + intptr list) option" where
  "travel_from h dmb ln acc =
     (if ln = dmb then Some (Inr acc)
      else case ld h ln of
        Inl e \<Rightarrow> Some (Inl e)
      | Inr n \<Rightarrow> travel_from h dmb (ln_next n) (if ln_ptr n \<noteq> 0 then acc @ [ln_ptr n] else acc))"

definition llist_travel :: "llist \<Rightarrow> bool \<Rightarrow> (ub + (int \<times> intptr list)) option" where
  "llist_travel ll func_is_null =
     (if func_is_null then Some (Inr (-1, []))
      else case ld (heap ll) (dumb ll) of
        Inl e \<Rightarrow> Some (Inl e)
      | Inr d \<Rightarrow> map_option (\<lambda>r. bindE r (\<lambda>calls. Inr (0, calls)))
                  (travel_from (heap ll) (dumb ll) (ln_next d) []))"

text \<open>
  \<open>llist_delete\<close>: fetch the head until the node counter says the list is empty, whatever the
  fetch returns.  \<open>None\<close> is a loop that never ends; the result is the heap that is left
  before the structure itself is freed.
\<close>

partial_function (option) delete_loop :: "llist \<Rightarrow> (ub + llist) option" where
  "delete_loop ll =
     (if nr_nodes ll > 0
      then case llist_fetch_head_nb False ll of
             Inl e \<Rightarrow> Some (Inl e)
           | Inr r \<Rightarrow> delete_loop (snd (snd r))
      else Some (Inr ll))"

definition llist_delete :: "llist option \<Rightarrow> (ub + int) option" where
  "llist_delete ll =
     (case ll of None \<Rightarrow> Some (Inr 0)
      | Some ll \<Rightarrow> map_option (\<lambda>r. bindE r (\<lambda>ll. Inr 0)) (delete_loop ll))"

definition llist_info :: "llist \<Rightarrow> (string \<times> int) list" where
  "llist_info ll = [(''nr_nodes'', nr_nodes ll), (''volume'', volume ll)]"

section \<open>Well-formed lists\<close>

definition nxt :: "llheap \<Rightarrow> intptr \<Rightarrow> intptr option" where
  "nxt h a = map_option ln_next (h a)"

definition prv :: "llheap \<Rightarrow> intptr \<Rightarrow> intptr option" where
  "prv h a = map_option ln_prev (h a)"

definition dat :: "llheap \<Rightarrow> intptr \<Rightarrow> intptr option" where
  "dat h a = map_option ln_ptr (h a)"

text \<open>Consecutive addresses point at each other, forwards and backwards.\<close>

fun linked :: "llheap \<Rightarrow> intptr list \<Rightarrow> bool" where
  "linked h (x # y # zs) = (nxt h x = Some y \<and> prv h y = Some x \<and> linked h (y # zs))"
| "linked h _ = True"

text \<open>
  The nodes of a list are \<open>xs\<close>: from the dummy node through \<open>xs\<close> and back to it, all
  different, none null, and as many as the counter says.
\<close>

definition llist_rep :: "llist \<Rightarrow> intptr list \<Rightarrow> bool" where
  "llist_rep ll xs \<longleftrightarrow>
     distinct (dumb ll # xs) \<and> 0 \<notin> set (dumb ll # xs)
     \<and> linked (heap ll) (dumb ll # xs @ [dumb ll])
     \<and> nr_nodes ll = int (length xs)"

text \<open>The nodes and the data as functions of the list: follow \<open>next\<close> as often as the counter says.\<close>

primrec walk :: "llheap \<Rightarrow> intptr option \<Rightarrow> nat \<Rightarrow> intptr list" where
  "walk h p 0 = []"
| "walk h p (Suc n) = (case p of None \<Rightarrow> [] | Some a \<Rightarrow> a # walk h (nxt h a) n)"

definition llist_nodes :: "llist \<Rightarrow> intptr list" where
  "llist_nodes ll = walk (heap ll) (nxt (heap ll) (dumb ll)) (nat (nr_nodes ll))"

definition llist_data :: "llist \<Rightarrow> intptr list" where
  "llist_data ll = map (\<lambda>a. the (dat (heap ll) a)) (llist_nodes ll)"

definition llist_wf :: "llist \<Rightarrow> bool" where
  "llist_wf ll \<longleftrightarrow> llist_rep ll (llist_nodes ll) \<and> nr_nodes ll \<le> max 0 (volume ll)"

named_theorems heap_simps \<open>reading a heap after an update\<close>

lemma nxt_upd [heap_simps]: "nxt (h(a \<mapsto> n)) b = (if b = a then Some (ln_next n) else nxt h b)"
  by (simp add: nxt_def)

lemma prv_upd [heap_simps]: "prv (h(a \<mapsto> n)) b = (if b = a then Some (ln_prev n) else prv h b)"
  by (simp add: prv_def)

lemma dat_upd [heap_simps]: "dat (h(a \<mapsto> n)) b = (if b = a then Some (ln_ptr n) else dat h b)"
  by (simp add: dat_def)

lemma nxt_free [heap_simps]: "nxt (h(a := None)) b = (if b = a then None else nxt h b)"
  by (simp add: nxt_def)

lemma prv_free [heap_simps]: "prv (h(a := None)) b = (if b = a then None else prv h b)"
  by (simp add: prv_def)

lemma dat_free [heap_simps]: "dat (h(a := None)) b = (if b = a then None else dat h b)"
  by (simp add: dat_def)

lemma nxt_SomeD: "nxt h a = Some b \<Longrightarrow> \<exists>n. h a = Some n \<and> ln_next n = b"
  by (auto simp: nxt_def)

lemma prv_SomeD: "prv h a = Some b \<Longrightarrow> \<exists>n. h a = Some n \<and> ln_prev n = b"
  by (auto simp: prv_def)

lemma linked_snoc2:
  "linked h (xs @ [p, d]) \<longleftrightarrow> linked h (xs @ [p]) \<and> nxt h p = Some d \<and> prv h d = Some p"
proof (induction xs)
  case Nil
  then show ?case by simp
next
  case (Cons x xs)
  then show ?case by (cases xs) auto
qed

lemma linked_split: "linked h (xs @ y # zs) \<longleftrightarrow> linked h (xs @ [y]) \<and> linked h (y # zs)"
proof (induction xs)
  case Nil
  then show ?case by (cases zs) auto
next
  case (Cons x xs)
  then show ?case by (cases xs) auto
qed

text \<open>A heap that agrees on the outgoing and incoming pointers of a chain keeps the chain.\<close>

lemma linked_frame:
  "\<lbrakk>\<And>x. x \<in> set (butlast zs) \<Longrightarrow> nxt h' x = nxt h x; \<And>y. y \<in> set (tl zs) \<Longrightarrow> prv h' y = prv h y\<rbrakk>
    \<Longrightarrow> linked h' zs = linked h zs"
proof (induction zs rule: linked.induct)
  case (1 h x y zs)
  then show ?case by (auto split: if_splits)
qed simp_all

lemma linked_mapped:
  "linked h (x # y # zs) \<Longrightarrow> a \<in> set (x # y # zs) \<Longrightarrow> h a \<noteq> None"
proof (induction zs arbitrary: x y)
  case Nil
  then show ?case by (auto simp: nxt_def prv_def)
next
  case (Cons z zs)
  then show ?case by (auto simp: nxt_def)
qed

lemma walk_linked: "linked h (x # xs @ [d]) \<Longrightarrow> walk h (nxt h x) (length xs) = xs"
proof (induction xs arbitrary: x)
  case Nil
  then show ?case by simp
next
  case (Cons y xs)
  then show ?case by simp
qed

lemma llist_rep_nodes: "llist_rep ll xs \<Longrightarrow> llist_nodes ll = xs"
  using walk_linked [of "heap ll" "dumb ll" xs "dumb ll"]
  by (simp add: llist_rep_def llist_nodes_def)

lemma llist_repI_wf:
  "llist_rep ll xs \<Longrightarrow> nr_nodes ll \<le> max 0 (volume ll) \<Longrightarrow> llist_wf ll"
  by (simp add: llist_wf_def llist_rep_nodes)

lemma llist_rep_mapped: "llist_rep ll xs \<Longrightarrow> a \<in> set (dumb ll # xs) \<Longrightarrow> heap ll a \<noteq> None"
proof -
  assume rep: "llist_rep ll xs" and a: "a \<in> set (dumb ll # xs)"
  obtain y ys where "xs @ [dumb ll] = y # ys" by (cases xs) auto
  then have eq: "dumb ll # xs @ [dumb ll] = dumb ll # y # ys" by simp
  have "linked (heap ll) (dumb ll # y # ys)"
    using rep unfolding llist_rep_def eq by blast
  moreover have "a \<in> set (dumb ll # y # ys)" unfolding eq [symmetric] using a by auto
  ultimately show ?thesis by (rule linked_mapped)
qed

lemma length_llist_data: "llist_wf ll \<Longrightarrow> nr_nodes ll = int (length (llist_data ll))"
  by (simp add: llist_wf_def llist_rep_def llist_data_def)

section \<open>Append\<close>

text \<open>
  An address that \<open>malloc\<close> returns is not null and not in use; that it is not in use is all the
  operations need of the allocator.
\<close>

definition fresh :: "llist \<Rightarrow> intptr \<Rightarrow> bool" where
  "fresh ll a \<longleftrightarrow> a \<noteq> 0 \<and> heap ll a = None"

lemma append_rep:
  assumes rep: "llist_rep ll xs" and fr: "fresh ll a" and room: "nr_nodes ll < volume ll"
  shows "\<exists>h. llist_append_unlocked ll data (Some a)
           = Inr (0, ll\<lparr>heap := h, nr_nodes := nr_nodes ll + 1\<rparr>)
     \<and> llist_rep (ll\<lparr>heap := h, nr_nodes := nr_nodes ll + 1\<rparr>) (xs @ [a])
     \<and> dat h a = Some data \<and> (\<forall>b. b \<noteq> a \<longrightarrow> dat h b = dat (heap ll) b)"
proof -
  let ?d = "dumb ll" and ?h = "heap ll"
  obtain bs p where split: "?d # xs = bs @ [p]" by (metis list.distinct(1) rev_exhaust)
  have chain: "linked ?h (bs @ [p, ?d])"
  proof -
    have eq: "bs @ [p, ?d] = (?d # xs) @ [?d]" by (simp only: split append_assoc append.simps)
    show ?thesis using rep unfolding llist_rep_def eq by simp
  qed
  have p_in: "p \<in> set (?d # xs)" unfolding split by simp
  from chain have old: "linked ?h (?d # xs)" "nxt ?h p = Some ?d" "prv ?h ?d = Some p"
    unfolding linked_snoc2 split [symmetric] by simp_all
  have a_notin: "a \<notin> set (?d # xs)"
    using llist_rep_mapped [OF rep, of a] fr by (auto simp: fresh_def)
  obtain nd np where nd: "?h ?d = Some nd" "ln_prev nd = p" and np: "?h p = Some np"
    using old llist_rep_mapped [OF rep p_in] by (auto dest: prv_SomeD)
  define h where "h = (?h(a \<mapsto> \<lparr>ln_prev = p, ln_next = ?d, ln_ptr = data\<rparr>,
      p \<mapsto> np\<lparr>ln_next := a\<rparr>))(?d \<mapsto> (if p = ?d then np\<lparr>ln_next := a\<rparr> else nd)\<lparr>ln_prev := a\<rparr>)"
  have run: "llist_append_unlocked ll data (Some a)
      = Inr (0, ll\<lparr>heap := h, nr_nodes := nr_nodes ll + 1\<rparr>)"
    using room fr nd np a_notin p_in
    by (auto simp: llist_append_unlocked_def llist_new_node_def fresh_def ld_def set_ptr_def
      set_prev_def set_next_def h_def fun_upd_twist)
  have dist: "distinct (?d # xs)" using rep by (simp add: llist_rep_def)
  have frame: "linked h (?d # xs) = linked ?h (?d # xs)"
  proof (rule linked_frame)
    fix x assume "x \<in> set (butlast (?d # xs))"
    then have "x \<in> set bs" unfolding split by simp
    moreover have "p \<notin> set bs" "a \<notin> set bs" using dist a_notin unfolding split by simp_all
    ultimately show "nxt h x = nxt ?h x"
      using nd np by (auto simp: h_def heap_simps nxt_def)
  next
    fix y assume "y \<in> set (tl (?d # xs))"
    then show "prv h y = prv ?h y"
      using dist a_notin nd np by (auto simp: h_def heap_simps prv_def)
  qed
  have "linked h (bs @ [p, a])"
    unfolding linked_snoc2 split [symmetric] using frame old(1) a_notin p_in
    by (auto simp: h_def heap_simps)
  moreover have eq: "bs @ [p, a] = (?d # xs) @ [a]" by (simp only: split append_assoc append.simps)
  ultimately have "linked h ((?d # xs) @ [a])" unfolding eq by blast
  then have "linked h ((?d # xs) @ [a, ?d])"
    unfolding linked_snoc2 using a_notin p_in by (auto simp: h_def heap_simps)
  then have "llist_rep (ll\<lparr>heap := h, nr_nodes := nr_nodes ll + 1\<rparr>) (xs @ [a])"
    using rep a_notin fr by (auto simp: llist_rep_def fresh_def)
  moreover have "dat h a = Some data \<and> (\<forall>b. b \<noteq> a \<longrightarrow> dat h b = dat ?h b)"
    using a_notin p_in nd np by (auto simp: h_def heap_simps dat_def)
  ultimately show ?thesis using run by blast
qed

section \<open>Unlinking\<close>

text \<open>
  The shared sequence on a chain \<open>us @ a # vs\<close>: the list is afterwards \<open>vs\<close>, whatever \<open>us\<close>
  was, and the counter has gone down by one.
\<close>

lemma unlink_chain:
  assumes dist: "distinct (dumb ll # us @ a # vs)"
    and chain: "linked (heap ll) (dumb ll # us @ a # vs @ [dumb ll])"
  shows "\<exists>h x. dat (heap ll) a = Some x
     \<and> unlink_first ll a = Inr (0, Some x, ll\<lparr>heap := h, nr_nodes := nr_nodes ll - 1\<rparr>)
     \<and> linked h (dumb ll # vs @ [dumb ll])
     \<and> h a = None \<and> (\<forall>b. b \<noteq> a \<longrightarrow> dat h b = dat (heap ll) b)"
proof -
  let ?d = "dumb ll" and ?h = "heap ll"
  have suffix: "linked ?h (a # vs @ [?d])"
    using chain linked_split [of ?h "?d # us" a "vs @ [?d]"] by simp
  obtain b ws where bw: "vs @ [?d] = b # ws" by (cases vs) auto
  from suffix have ab: "nxt ?h a = Some b" "prv ?h b = Some a" and tail: "linked ?h (b # ws)"
    by (simp_all add: bw)
  have vs: "vs = butlast (b # ws)" unfolding bw [symmetric] by simp
  have dist': "distinct (vs @ [?d])" "a \<notin> set (vs @ [?d])" using dist by auto
  then have ws: "b \<notin> set ws" "a \<notin> set (b # ws)" unfolding bw by simp_all
  have "nxt ?h ?d \<noteq> None" using chain by (cases us) simp_all
  then obtain nd where nd: "?h ?d = Some nd" by (auto simp: nxt_def)
  obtain na where na: "?h a = Some na" "ln_next na = b" using nxt_SomeD [OF ab(1)] by blast
  obtain nb where nb: "?h b = Some nb" using prv_SomeD [OF ab(2)] by blast
  define h where "h = (?h(?d \<mapsto> nd\<lparr>ln_next := b\<rparr>,
      b \<mapsto> (if b = ?d then nd\<lparr>ln_next := b\<rparr> else nb)\<lparr>ln_prev := ?d\<rparr>))(a := None)"
  have neq: "a \<noteq> ?d" "b \<noteq> a" using dist ws by auto
  have run: "unlink_first ll a
      = Inr (0, Some (ln_ptr na), ll\<lparr>heap := h, nr_nodes := nr_nodes ll - 1\<rparr>)"
    using nd na nb neq
    by (auto simp: unlink_first_def ld_def set_next_def set_prev_def free_node_def h_def
      fun_upd_twist)
  have "linked h (b # ws) = linked ?h (b # ws)"
  proof (rule linked_frame)
    fix x assume "x \<in> set (butlast (b # ws))"
    then have "x \<in> set vs" using vs by simp
    then show "nxt h x = nxt ?h x" using dist' nd nb by (auto simp: h_def heap_simps nxt_def)
  next
    fix y assume "y \<in> set (tl (b # ws))"
    then show "prv h y = prv ?h y" using ws nd by (auto simp: h_def heap_simps prv_def)
  qed
  with tail have "linked h (?d # b # ws)" using neq by (auto simp: h_def heap_simps)
  then have "linked h (?d # vs @ [?d])" by (simp add: bw)
  moreover have "dat h c = dat ?h c" if "c \<noteq> a" for c
  proof -
    have "dat ?h ?d = Some (ln_ptr nd)" "dat ?h b = Some (ln_ptr nb)"
      using nd nb by (simp_all add: dat_def)
    with that show ?thesis by (auto simp: h_def heap_simps)
  qed
  moreover have "dat ?h a = Some (ln_ptr na)" "h a = None" using na by (simp_all add: dat_def h_def)
  ultimately show ?thesis using run by blast
qed

lemma fetch_head_rep:
  assumes rep: "llist_rep ll (a # xs)"
  shows "\<exists>h x. dat (heap ll) a = Some x
     \<and> llist_fetch_head_unlocked ll = Inr (0, Some x, ll\<lparr>heap := h, nr_nodes := nr_nodes ll - 1\<rparr>)
     \<and> llist_rep (ll\<lparr>heap := h, nr_nodes := nr_nodes ll - 1\<rparr>) xs
     \<and> (\<forall>b. b \<noteq> a \<longrightarrow> dat h b = dat (heap ll) b)"
proof -
  from rep have dist: "distinct (dumb ll # [] @ a # xs)"
    and chain: "linked (heap ll) (dumb ll # [] @ a # xs @ [dumb ll])"
    by (auto simp: llist_rep_def)
  from rep have "nxt (heap ll) (dumb ll) = Some a" by (simp add: llist_rep_def)
  then obtain nd where nd: "heap ll (dumb ll) = Some nd" "ln_next nd = a"
    by (auto dest: nxt_SomeD)
  have "llist_fetch_head_unlocked ll = unlink_first ll a"
    using nd rep by (auto simp: llist_fetch_head_unlocked_def ld_def llist_rep_def)
  with unlink_chain [OF dist chain] rep show ?thesis
    by (auto simp: llist_rep_def)
qed

lemma fetch_head_empty: "nr_nodes ll \<le> 0 \<Longrightarrow> llist_fetch_head_unlocked ll = Inr (-1, None, ll)"
  by (simp add: llist_fetch_head_unlocked_def)

section \<open>The list is a bounded queue of its data\<close>

lemma llist_rep_upd_data:
  assumes "llist_rep ll xs" and "llist_rep ll' ys"
    and "map (\<lambda>a. the (dat (heap ll') a)) ys = zs"
  shows "llist_data ll' = zs"
  using assms by (simp add: llist_data_def llist_rep_nodes)

lemma data_nodes_Cons:
  assumes "llist_wf ll" and "llist_data ll = x # xs"
  obtains a as where "llist_rep ll (a # as)" "the (dat (heap ll) a) = x"
    "map (\<lambda>a. the (dat (heap ll) a)) as = xs"
  using assms by (cases "llist_nodes ll") (auto simp: llist_wf_def llist_data_def)

lemma append_wf:
  assumes wf: "llist_wf ll" and fr: "fresh ll a" and room: "nr_nodes ll < volume ll"
  shows "\<exists>ll'. llist_append_unlocked ll data (Some a) = Inr (0, ll') \<and> llist_wf ll'
     \<and> volume ll' = volume ll \<and> dumb ll' = dumb ll
     \<and> llist_data ll' = llist_data ll @ [data] \<and> llist_nodes ll' = llist_nodes ll @ [a]"
proof -
  let ?xs = "llist_nodes ll"
  from wf have rep: "llist_rep ll ?xs" by (simp add: llist_wf_def)
  from append_rep [OF rep fr room, of data] obtain h where
    h: "llist_append_unlocked ll data (Some a) = Inr (0, ll\<lparr>heap := h, nr_nodes := nr_nodes ll + 1\<rparr>)"
      "llist_rep (ll\<lparr>heap := h, nr_nodes := nr_nodes ll + 1\<rparr>) (?xs @ [a])"
      "dat h a = Some data" "\<And>b. b \<noteq> a \<Longrightarrow> dat h b = dat (heap ll) b" by blast
  let ?ll' = "ll\<lparr>heap := h, nr_nodes := nr_nodes ll + 1\<rparr>"
  have nodes: "llist_nodes ?ll' = ?xs @ [a]" by (rule llist_rep_nodes [OF h(2)])
  have "a \<notin> set ?xs" using h(2) by (auto simp: llist_rep_def)
  then have "map (\<lambda>a. the (dat h a)) ?xs = map (\<lambda>a. the (dat (heap ll) a)) ?xs"
    using h(4) by (intro map_cong refl) metis
  then have "llist_data ?ll' = llist_data ll @ [data]"
    using h(3) by (simp add: llist_data_def nodes)
  moreover have "llist_wf ?ll'"
    using h(2) room by (intro llist_repI_wf) auto
  ultimately show ?thesis using h(1) nodes by auto
qed

lemma fetch_head_wf:
  assumes wf: "llist_wf ll" and data: "llist_data ll = x # xs"
  shows "\<exists>ll'. llist_fetch_head_unlocked ll = Inr (0, Some x, ll') \<and> llist_wf ll'
     \<and> volume ll' = volume ll \<and> dumb ll' = dumb ll
     \<and> llist_data ll' = xs \<and> llist_nodes ll' = tl (llist_nodes ll)"
proof -
  from data_nodes_Cons [OF assms] obtain a as where
    as: "llist_rep ll (a # as)" "the (dat (heap ll) a) = x"
      "map (\<lambda>a. the (dat (heap ll) a)) as = xs" .
  from fetch_head_rep [OF as(1)] as(2) obtain h where
    h: "llist_fetch_head_unlocked ll
          = Inr (0, Some x, ll\<lparr>heap := h, nr_nodes := nr_nodes ll - 1\<rparr>)"
      "llist_rep (ll\<lparr>heap := h, nr_nodes := nr_nodes ll - 1\<rparr>) as"
      "\<And>b. b \<noteq> a \<Longrightarrow> dat h b = dat (heap ll) b" by auto
  let ?ll' = "ll\<lparr>heap := h, nr_nodes := nr_nodes ll - 1\<rparr>"
  have nodes: "llist_nodes ?ll' = as" "llist_nodes ll = a # as"
    using llist_rep_nodes [OF h(2)] llist_rep_nodes [OF as(1)] by auto
  have "a \<notin> set as" using as(1) by (auto simp: llist_rep_def)
  then have "map (\<lambda>a. the (dat h a)) as = map (\<lambda>a. the (dat (heap ll) a)) as"
    using h(3) by (intro map_cong refl) metis
  then have "llist_data ?ll' = xs" using as(3) by (simp add: llist_data_def nodes)
  moreover have "llist_wf ?ll'"
    using h(2) wf by (intro llist_repI_wf) (auto simp: llist_wf_def)
  ultimately show ?thesis using h(1) nodes by auto
qed

lemma get_head_wf:
  assumes wf: "llist_wf ll" and data: "llist_data ll = x # xs"
  shows "llist_get_head_unlocked ll = Inr (0, Some x)
     \<and> llist_get_head_node_unlocked ll = Inr (0, Some (hd (llist_nodes ll)))"
proof -
  from data_nodes_Cons [OF assms] obtain a as where
    as: "llist_rep ll (a # as)" "the (dat (heap ll) a) = x" .
  from as(1) have "nxt (heap ll) (dumb ll) = Some a" "a \<noteq> dumb ll" "nr_nodes ll > 0"
    by (auto simp: llist_rep_def)
  moreover obtain na where "heap ll a = Some na" using llist_rep_mapped [OF as(1), of a] by auto
  ultimately show ?thesis
    using as(2) llist_rep_nodes [OF as(1)]
    by (auto simp: llist_get_head_unlocked_def llist_get_head_node_unlocked_def ld_def dat_def
      dest!: nxt_SomeD)
qed

lemma llist_data_empty_iff: "llist_wf ll \<Longrightarrow> llist_data ll = [] \<longleftrightarrow> nr_nodes ll \<le> 0"
  using length_llist_data [of ll] by auto

interpretation ll: alloc_queue llist_data llist_wf "llist_fetch_head_nb False"
  "\<lambda>ll. nat (volume ll)" fresh "llist_append_nb False" "llist_get_head_nb False"
proof (unfold_locales, goal_cases)
  case (1 q)
  then show ?case by (simp add: llist_data_empty_iff llist_fetch_head_nb_def fetch_head_empty)
next
  case (2 q x xs)
  then show ?case using fetch_head_wf [of q x xs] by (auto simp: llist_fetch_head_nb_def)
next
  case (3 q)
  then show ?case using length_llist_data [of q] by (auto simp: llist_wf_def)
next
  case (4 q x mem)
  then show ?case using length_llist_data [of q]
    by (auto simp: llist_append_nb_def llist_append_unlocked_def)
next
  case (5 q x)
  then show ?case
    by (auto simp: llist_append_nb_def llist_append_unlocked_def llist_new_node_def)
next
  case (6 q p x)
  then have "nr_nodes q < volume q" using length_llist_data [of q] by simp
  with 6 append_wf [of q p x] show ?case by (auto simp: llist_append_nb_def)
next
  case (7 q)
  then show ?case
    by (simp add: llist_data_empty_iff llist_get_head_nb_def llist_get_head_unlocked_def)
next
  case (8 q x xs)
  then show ?case using get_head_wf [of q x xs] by (simp add: llist_get_head_nb_def)
next
  case (9 q ret out q')
  then show ?case
    by (auto simp: llist_fetch_head_nb_def llist_fetch_head_unlocked_def unlink_first_def
      bindE_eq_Inr_iff split: if_splits)
qed

section \<open>Loops over the list\<close>

lemma find_match_chain:
  "linked h (x # xs @ [d]) \<Longrightarrow> d \<notin> set xs \<Longrightarrow>
     find_match h d m needle (hd (xs @ [d]))
       = Some (Inr (find (\<lambda>a. m needle (the (dat h a)) = 0) xs))"
proof (induction xs arbitrary: x)
  case Nil
  then show ?case by (simp add: find_match.simps)
next
  case (Cons a xs)
  then have tail: "linked h (a # xs @ [d])" by simp
  then have next_a: "nxt h a = Some (hd (xs @ [d]))" by (cases xs) auto
  then obtain n where n: "h a = Some n" "ln_next n = hd (xs @ [d])" by (auto dest: nxt_SomeD)
  from Cons.IH [OF tail] Cons.prems have
    "find_match h d m needle (hd (xs @ [d]))
       = Some (Inr (find (\<lambda>a. m needle (the (dat h a)) = 0) xs))" by simp
  with n Cons.prems show ?case
    by (subst find_match.simps) (auto simp: ld_def dat_def)
qed

lemma travel_chain:
  "linked h (x # xs @ [d]) \<Longrightarrow> d \<notin> set xs \<Longrightarrow>
     travel_from h d (hd (xs @ [d])) acc
       = Some (Inr (acc @ filter (\<lambda>p. p \<noteq> 0) (map (\<lambda>a. the (dat h a)) xs)))"
proof (induction xs arbitrary: x acc)
  case Nil
  then show ?case by (simp add: travel_from.simps)
next
  case (Cons a xs)
  then have tail: "linked h (a # xs @ [d])" by simp
  then have next_a: "nxt h a = Some (hd (xs @ [d]))" by (cases xs) auto
  then obtain n where n: "h a = Some n" "ln_next n = hd (xs @ [d])" by (auto dest: nxt_SomeD)
  with Cons.IH [OF tail] Cons.prems show ?case
    by (subst travel_from.simps) (auto simp: ld_def dat_def)
qed

lemma llist_first:
  "llist_rep ll xs \<Longrightarrow> \<exists>d. heap ll (dumb ll) = Some d \<and> ln_next d = hd (xs @ [dumb ll])"
  by (cases xs) (auto simp: llist_rep_def dest: nxt_SomeD)

lemma llist_wf_rep: "llist_wf ll \<Longrightarrow> llist_rep ll (llist_nodes ll)"
  by (simp add: llist_wf_def)

lemma delete_loop_wf:
  "llist_wf ll \<Longrightarrow> \<exists>ll'. delete_loop ll = Some (Inr ll') \<and> llist_nodes ll' = []"
proof (induction "length (llist_data ll)" arbitrary: ll)
  case 0
  then show ?case using length_llist_data [of ll]
    by (auto simp: delete_loop.simps llist_nodes_def)
next
  case (Suc n)
  then obtain x xs where data: "llist_data ll = x # xs" by (cases "llist_data ll") auto
  with ll.deq_item [OF Suc.prems data] obtain ll' where
    ll': "llist_fetch_head_nb False ll = Inr (0, Some x, ll')" "llist_wf ll'" "llist_data ll' = xs"
    by blast
  with Suc data have "\<exists>ll''. delete_loop ll' = Some (Inr ll'') \<and> llist_nodes ll'' = []" by simp
  with ll' data length_llist_data [OF Suc.prems] show ?case by (subst delete_loop.simps) auto
qed

text \<open>
  A list whose counter is positive although its dummy node points at itself: every fetch
  returns \<open>-1\<close>, so the deletion loop never ends.
\<close>

lemma delete_loop_stuck:
  assumes "nxt (heap ll) (dumb ll) = Some (dumb ll)" and "nr_nodes ll > 0"
  shows "delete_loop ll = None"
proof (rule ccontr)
  assume "delete_loop ll \<noteq> None"
  then obtain r where ret: "delete_loop ll = Some r" by blast
  have "\<not> (nxt (heap ll) (dumb ll) = Some (dumb ll) \<and> nr_nodes ll > 0)"
  proof (rule delete_loop.raw_induct [where
      P = "\<lambda>ll r. \<not> (nxt (heap ll) (dumb ll) = Some (dumb ll) \<and> nr_nodes ll > 0)", OF _ ret])
    fix f :: "llist \<Rightarrow> (ub + llist) option" and l r
    assume IH: "\<And>l r. f l = Some r \<Longrightarrow>
        \<not> (nxt (heap l) (dumb l) = Some (dumb l) \<and> nr_nodes l > 0)"
      and eq: "(if nr_nodes l > 0
        then case llist_fetch_head_nb False l of Inl e \<Rightarrow> Some (Inl e) | Inr r \<Rightarrow> f (snd (snd r))
        else Some (Inr l)) = Some r"
    show "\<not> (nxt (heap l) (dumb l) = Some (dumb l) \<and> nr_nodes l > 0)"
    proof
      assume a: "nxt (heap l) (dumb l) = Some (dumb l) \<and> nr_nodes l > 0"
      then have "llist_fetch_head_nb False l = Inr (-1, None, l)"
        by (auto simp: llist_fetch_head_nb_def llist_fetch_head_unlocked_def ld_def
          dest!: nxt_SomeD)
      with eq a have "f l = Some r" by simp
      with IH a show False by blast
    qed
  qed
  with assms show False by simp
qed

section \<open>Properties\<close>

text \<open>The abstract list: data in order, a bound, and whether the lock and the memory were there.\<close>

definition list_append :: "bool \<Rightarrow> nat \<Rightarrow> 'a list \<Rightarrow> 'a \<Rightarrow> bool \<Rightarrow> int \<times> 'a list" where
  "list_append busy cap xs x nomem =
     (if busy then (-2, xs) else if length xs \<ge> cap \<or> nomem then (-1, xs) else (0, xs @ [x]))"

definition list_fetch :: "bool \<Rightarrow> 'a list \<Rightarrow> int \<times> 'a option \<times> 'a list" where
  "list_fetch busy xs =
     (if busy then (-2, None, xs) else case xs of [] \<Rightarrow> (-1, None, []) | x # xs \<Rightarrow> (0, Some x, xs))"

text \<open>
  C9.  The pointer-level append and fetch of \<open>ds_llist.c\<close> refine a bounded list: on every
  well-formed list, with a fresh node address or a failing allocation, they follow only valid
  pointers, return the code of the abstract operation, and leave a well-formed list that holds
  the abstract result.
\<close>

theorem llist_refines_list:
  assumes "llist_wf ll" and "mem = None \<or> fresh ll (the mem)"
  shows "(\<exists>ll'. llist_append_nb busy ll x mem
              = Inr (fst (list_append busy (nat (volume ll)) (llist_data ll) x (mem = None)), ll')
            \<and> llist_data ll' = snd (list_append busy (nat (volume ll)) (llist_data ll) x (mem = None))
            \<and> llist_wf ll' \<and> volume ll' = volume ll)
       \<and> (\<exists>ll'. llist_fetch_head_nb busy ll
              = Inr (fst (list_fetch busy (llist_data ll)),
                     fst (snd (list_fetch busy (llist_data ll))), ll')
            \<and> llist_data ll' = snd (snd (list_fetch busy (llist_data ll)))
            \<and> llist_wf ll' \<and> volume ll' = volume ll)"
proof (cases busy)
  case True
  with assms show ?thesis
    by (simp add: llist_append_nb_def llist_fetch_head_nb_def list_append_def list_fetch_def)
next
  case False
  have cap: "nr_nodes ll < volume ll \<longleftrightarrow> length (llist_data ll) < nat (volume ll)"
    using length_llist_data [OF assms(1)] by auto
  have "\<exists>ll'. llist_append_unlocked ll x mem
      = Inr (fst (list_append False (nat (volume ll)) (llist_data ll) x (mem = None)), ll')
    \<and> llist_data ll' = snd (list_append False (nat (volume ll)) (llist_data ll) x (mem = None))
    \<and> llist_wf ll' \<and> volume ll' = volume ll"
  proof (cases "nr_nodes ll < volume ll \<and> mem \<noteq> None")
    case True
    with assms obtain a where "mem = Some a" "fresh ll a" by auto
    with append_wf [OF assms(1) this(2), of x] True cap show ?thesis
      by (auto simp: list_append_def)
  next
    case False
    with assms(1) cap show ?thesis
      by (auto simp: list_append_def llist_append_unlocked_def llist_new_node_def)
  qed
  moreover have "\<exists>ll'. llist_fetch_head_unlocked ll
      = Inr (fst (list_fetch False (llist_data ll)), fst (snd (list_fetch False (llist_data ll))), ll')
    \<and> llist_data ll' = snd (snd (list_fetch False (llist_data ll)))
    \<and> llist_wf ll' \<and> volume ll' = volume ll"
  proof (cases "llist_data ll")
    case Nil
    then have "nr_nodes ll \<le> 0" using assms(1) by (simp add: llist_data_empty_iff [symmetric])
    with Nil assms(1) fetch_head_empty [of ll] show ?thesis by (simp add: list_fetch_def)
  next
    case (Cons y ys)
    with fetch_head_wf [OF assms(1) Cons] show ?thesis by (auto simp: list_fetch_def)
  qed
  ultimately show ?thesis using False by (simp add: llist_append_nb_def llist_fetch_head_nb_def)
qed

text \<open>A list of two nodes, at \<open>0x20\<close> and \<open>0x30\<close>, with its dummy node at \<open>0x10\<close>.\<close>

definition llist_sample :: llist where
  "llist_sample = \<lparr>nr_nodes = 2, volume = 3, dumb = 0x10,
     heap = [0x10 \<mapsto> \<lparr>ln_prev = 0x30, ln_next = 0x20, ln_ptr = 0\<rparr>,
             0x20 \<mapsto> \<lparr>ln_prev = 0x10, ln_next = 0x30, ln_ptr = 7\<rparr>,
             0x30 \<mapsto> \<lparr>ln_prev = 0x20, ln_next = 0x10, ln_ptr = 8\<rparr>]\<rparr>"

lemma llist_sample_rep: "llist_rep llist_sample [0x20, 0x30]"
  by (simp add: llist_rep_def llist_sample_def nxt_def prv_def)

lemma llist_sample_wf: "llist_wf llist_sample \<and> llist_data llist_sample = [7, 8]"
proof -
  have "llist_nodes llist_sample = [0x20, 0x30]" by (rule llist_rep_nodes [OF llist_sample_rep])
  then show ?thesis
    using llist_sample_rep by (simp add: llist_wf_def llist_data_def llist_sample_def dat_def)
qed

theorem llist_refines_list_witness:
  "\<exists>ll'. llist_append_nb False llist_sample 9 (Some 0x40) = Inr (0, ll') \<and> llist_data ll' = [7, 8, 9]"
  using llist_refines_list [of llist_sample "Some 0x40" False 9] llist_sample_wf
  by (auto simp: fresh_def llist_sample_def list_append_def)

lemma llist_travel_chain:
  assumes "linked (heap ll) (dumb ll # xs @ [dumb ll])" and "dumb ll \<notin> set xs"
  shows "llist_travel ll False
     = Some (Inr (0, filter (\<lambda>p. p \<noteq> 0) (map (\<lambda>a. the (dat (heap ll) a)) xs)))"
proof -
  have "nxt (heap ll) (dumb ll) = Some (hd (xs @ [dumb ll]))" using assms(1) by (cases xs) auto
  then obtain d where "heap ll (dumb ll) = Some d" "ln_next d = hd (xs @ [dumb ll])"
    by (auto dest: nxt_SomeD)
  with travel_chain [OF assms, of "[]"] show ?thesis by (simp add: llist_travel_def ld_def)
qed

text \<open>
  On a well-formed list the loops of \<open>ds_llist.c\<close> return: \<open>llist_travel\<close> calls its callback
  on the data in order, leaving out null data, and \<open>llist_delete\<close> fetches every node and
  returns \<open>0\<close>.
\<close>

theorem llist_loops_terminate:
  assumes "llist_wf ll"
  shows "llist_travel ll False = Some (Inr (0, filter (\<lambda>p. p \<noteq> 0) (llist_data ll)))
     \<and> llist_delete (Some ll) = Some (Inr 0)"
proof -
  have rep: "llist_rep ll (llist_nodes ll)" by (rule llist_wf_rep [OF assms])
  then show ?thesis
    using delete_loop_wf [OF assms] llist_travel_chain [of ll "llist_nodes ll"]
    by (auto simp: llist_rep_def llist_data_def llist_delete_def)
qed

theorem llist_loops_terminate_witness:
  "llist_travel llist_sample False = Some (Inr (0, [7, 8]))
   \<and> llist_delete (Some llist_sample) = Some (Inr 0)"
  using llist_loops_terminate [of llist_sample] llist_sample_wf by simp

text \<open>
  A counter that exceeds the number of nodes that can be reached makes the deletion loop
  forever.
\<close>

lemma delete_loop_overcount:
  "distinct (dumb ll # vs) \<Longrightarrow> linked (heap ll) (dumb ll # vs @ [dumb ll]) \<Longrightarrow>
     int (length vs) < nr_nodes ll \<Longrightarrow> delete_loop ll = None"
proof (induction vs arbitrary: ll)
  case Nil
  then show ?case by (intro delete_loop_stuck) simp_all
next
  case (Cons a vs)
  then have nx: "nxt (heap ll) (dumb ll) = Some a" by simp
  then obtain d where d: "heap ll (dumb ll) = Some d" "ln_next d = a" by (auto dest: nxt_SomeD)
  from unlink_chain [of ll "[]" a vs] Cons.prems obtain h x where
    h: "unlink_first ll a = Inr (0, Some x, ll\<lparr>heap := h, nr_nodes := nr_nodes ll - 1\<rparr>)"
      "linked h (dumb ll # vs @ [dumb ll])" by auto
  let ?ll' = "ll\<lparr>heap := h, nr_nodes := nr_nodes ll - 1\<rparr>"
  have "llist_fetch_head_nb False ll = Inr (0, Some x, ?ll')"
    using d h Cons.prems by (auto simp: llist_fetch_head_nb_def llist_fetch_head_unlocked_def ld_def)
  moreover have "delete_loop ?ll' = None" using Cons.prems h by (intro Cons.IH) simp_all
  ultimately show ?case using Cons.prems by (subst delete_loop.simps) simp
qed

text \<open>
  C36.  What \<open>llist_fetch_match\<close> really does when the first match stands after the data \<open>xs\<close>: it
  returns the match, but it also cuts off everything before it.  The callback of a later
  travel sees only what followed the match, while the counter still counts the nodes that were
  cut off; so the list stays well formed exactly when the match was the first node, and in
  every other case a later \<open>llist_delete\<close> never returns.
\<close>

theorem llist_fetch_match_cuts_prefix:
  assumes "llist_wf ll" and "llist_data ll = xs @ y # ys"
    and "\<forall>x \<in> set xs. m needle x \<noteq> 0" and "m needle y = 0"
  shows "\<exists>ll'. llist_fetch_match ll (Some m) needle = Some (Inr (0, Some y, ll'))
     \<and> llist_travel ll' False = Some (Inr (0, filter (\<lambda>p. p \<noteq> 0) ys))
     \<and> nr_nodes ll' = int (length xs + length ys)
     \<and> (llist_wf ll' \<longleftrightarrow> xs = [])
     \<and> (llist_delete (Some ll') = None \<longleftrightarrow> xs \<noteq> [])"
proof -
  let ?h = "heap ll" and ?f = "\<lambda>a. the (dat (heap ll) a)"
  from assms(2) obtain us a vs where us: "llist_nodes ll = us @ a # vs" "map ?f us = xs"
      "?f a = y" "map ?f vs = ys"
    unfolding llist_data_def by (auto simp: map_eq_append_conv map_eq_Cons_conv)
  have rep: "llist_rep ll (us @ a # vs)" using llist_wf_rep [OF assms(1)] us(1) by simp
  then have dist: "distinct (dumb ll # us @ a # vs)"
    and chain: "linked ?h (dumb ll # us @ a # vs @ [dumb ll])"
    and nr: "nr_nodes ll = int (length (us @ a # vs))"
    by (simp_all add: llist_rep_def)
  have "find (\<lambda>a. m needle (?f a) = 0) (us @ a # vs) = Some a"
    using assms(3,4) us(2,3) by (induction us arbitrary: xs) auto
  then have found: "find_match ?h (dumb ll) m needle (hd ((us @ a # vs) @ [dumb ll])) = Some (Inr (Some a))"
    using find_match_chain [of ?h "dumb ll" "us @ a # vs" "dumb ll" m needle] chain dist by simp
  from unlink_chain [OF dist chain] obtain h where
    h: "unlink_first ll a = Inr (0, Some y, ll\<lparr>heap := h, nr_nodes := nr_nodes ll - 1\<rparr>)"
      "linked h (dumb ll # vs @ [dumb ll])" "\<And>b. b \<noteq> a \<Longrightarrow> dat h b = dat ?h b"
    using us(3) by auto
  define ll' where "ll' = ll\<lparr>heap := h, nr_nodes := nr_nodes ll - 1\<rparr>"
  have ll': "heap ll' = h" "dumb ll' = dumb ll" "volume ll' = volume ll"
      "nr_nodes ll' = nr_nodes ll - 1" by (simp_all add: ll'_def)
  from llist_first [OF rep] found h(1) have
    run: "llist_fetch_match ll (Some m) needle = Some (Inr (0, Some y, ll'))"
    by (auto simp: ll'_def llist_fetch_match_def llist_fetch_match_unlocked_def ld_def)
  have "a \<notin> set vs" using dist by simp
  then have "map (\<lambda>b. the (dat h b)) vs = ys"
    unfolding us(4) [symmetric] using h(3) by (intro map_cong refl) metis
  with llist_travel_chain [of ll' vs] h(2) dist have
    travel: "llist_travel ll' False = Some (Inr (0, filter (\<lambda>p. p \<noteq> 0) ys))" by (simp add: ll')
  have count: "nr_nodes ll' = int (length xs + length ys)" using nr us by (auto simp: ll')
  have len: "length us = length xs" "length vs = length ys" using us by auto
  show ?thesis
  proof (cases "xs = []")
    case True
    then have "llist_wf ll'"
      using len rep h(2) dist nr assms(1)
      by (intro llist_repI_wf [of _ vs]) (auto simp: ll' llist_rep_def llist_wf_def)
    with delete_loop_wf [of ll'] True run travel count show ?thesis
      by (auto simp: llist_delete_def)
  next
    case False
    then have "delete_loop ll' = None"
      using len h(2) dist nr by (intro delete_loop_overcount [of _ vs]) (auto simp: ll')
    moreover from this have "\<not> llist_wf ll'" using delete_loop_wf [of ll'] by auto
    ultimately show ?thesis using False run travel count by (auto simp: llist_delete_def)
  qed
qed

theorem llist_fetch_match_cuts_prefix_witness:
  "\<exists>ll'. llist_fetch_match llist_sample (Some match_ptr) 8 = Some (Inr (0, Some 8, ll'))
     \<and> llist_travel ll' False = Some (Inr (0, [])) \<and> nr_nodes ll' = 1
     \<and> llist_delete (Some ll') = None"
  using llist_fetch_match_cuts_prefix [of llist_sample "[7]" 8 "[]" match_ptr 8] llist_sample_wf
  by (auto simp: match_ptr_def)

text \<open>
  The default match function compares only the low 32 bits: it reports a match exactly
  when these agree, so two different pointers can match.
\<close>

theorem match_ptr_low_bits: "match_ptr p1 p2 = 0 \<longleftrightarrow> (ucast p1 :: u32) = ucast p2"
  by (simp add: match_ptr_def signed_eq_0_iff ucast_u32_diff)

end
