(* ===== verification/Imp.thy ===== *)
theory Imp
  imports Queue2 Llist
begin

text \<open>
  \<open>src/src/imp.c\<close> and \<open>src/src/imp_body.c\<close>: imps, the state machines the dungeon drives, and
  the part of \<open>dungeon_t\<close> their operations work on.

  An imp is a record in the heap \<open>imps\<close>; an address that is not mapped is freed or was never
  allocated, and every access through it is \<open>Inl\<close>.  The queues are those of theory
  \<open>Queue2\<close>.  \<open>requested_events\<close> is the bounded list of theory \<open>Llist\<close> at its abstract
  level (\<open>list_append\<close>, \<open>list_fetch\<close>, which the pointer-level code refines); it belongs to
  one imp and its lock is never contended.  \<open>None\<close> is the null pointer that \<open>llist_new\<close>
  returned.

  What the kernel answers is an argument of the operation that asks: the results of the
  allocations, of \<open>timerfd_create\<close>, \<open>eventfd\<close>, \<open>epoll_ctl\<close> and of the reads from the two
  descriptors.  Of the kernel's own state the model keeps what later answers depend on: which
  descriptors are armed in the epoll instance, with the imp and the event bits they were armed
  for, and whether an imp's timer is set.

  A soul's \<open>fsm_driver\<close> is a call back into a room module.  What it does is an argument: the
  memory it leaves, the code it returns and the services it called, in order.
\<close>

section \<open>Constants\<close>

definition EV_MASK_KILL :: u64 where "EV_MASK_KILL = 0x0000000000000001"
definition EV_MASK_TIMER :: u64 where "EV_MASK_TIMER = 0x0000000000000002"
definition EV_MASK_EVENT :: u64 where "EV_MASK_EVENT = 0x0000000000000004"
definition EV_MASK_USER :: u64 where "EV_MASK_USER = 0x0000000000000008"
definition EV_MASK_ERR :: u64 where "EV_MASK_ERR = 0x0000000000000010"
definition EV_MASK_GLOBAL_MASK :: u64 where "EV_MASK_GLOBAL_MASK = 0x8000000000000000"
definition EV_MASK_GLOBAL_ALERT :: u64 where
  "EV_MASK_GLOBAL_ALERT = or EV_MASK_GLOBAL_MASK 0x0000000000000001"

lemmas ev_mask_defs = EV_MASK_KILL_def EV_MASK_TIMER_def EV_MASK_EVENT_def EV_MASK_USER_def
  EV_MASK_ERR_def EV_MASK_GLOBAL_MASK_def EV_MASK_GLOBAL_ALERT_def

abbreviation (input) EPOLLIN :: u32 where "EPOLLIN \<equiv> 0x001"
abbreviation (input) EPOLLOUT :: u32 where "EPOLLOUT \<equiv> 0x004"
abbreviation (input) EPOLLRDHUP :: u32 where "EPOLLRDHUP \<equiv> 0x2000"
abbreviation (input) EPOLLONESHOT :: u32 where "EPOLLONESHOT \<equiv> 0x40000000"

datatype driver_retcode = TO_RUN | TO_BLOCK | TO_TERM | I_AM_NEO

section \<open>Imps and the dungeon\<close>

text \<open>
  \<open>imp_body_t\<close>; \<open>timer_on\<close> is the kernel's: the timer of \<open>timer_fd\<close> was last set to a value
  other than zero and the expiry has not been read.
\<close>

record imp_body =
  timer_fd :: int
  event_fd :: int
  timer_on :: bool

text \<open>\<open>struct epoll_data_st\<close>\<close>

record epoll_data =
  ev_mask :: u64
  events :: u32
  ev_fd :: int
  ev_imp :: intptr

text \<open>
  What \<open>requested_events\<close> holds: the small integers \<open>EV_MASK_TIMER\<close> and \<open>EV_MASK_EVENT\<close>
  themselves, or a pointer to an allocated \<open>epoll_data_st\<close>.
\<close>

datatype ev_request = ReqTimer | ReqEvent | ReqIo epoll_data

record 'm imp =
  imp_id :: u32
  waitio :: bool
  requested_events :: "ev_request list option"
  event_mask :: u64
  body :: imp_body
  memory :: 'm

record 'm dungeon =
  nr_total :: int
  nr_max :: int
  nr_waitio :: int
  run_queue :: "intptr queue_st"
  terminated_queue :: "intptr queue_st"
  epoll :: "int \<rightharpoonup> intptr \<times> u32"
  imps :: "intptr \<rightharpoonup> 'm imp"
  next_imp_id :: u32
  pending_event :: bool

definition ld_imp :: "'m dungeon \<Rightarrow> intptr \<Rightarrow> ub + 'm imp" where
  "ld_imp d p = (case imps d p of Some i \<Rightarrow> Inr i
                 | None \<Rightarrow> Inl (if p = 0 then NullDeref else BadPointer))"

definition upd_imp :: "'m dungeon \<Rightarrow> intptr \<Rightarrow> ('m imp \<Rightarrow> 'm imp) \<Rightarrow> ub + 'm dungeon" where
  "upd_imp d p f = bindE (ld_imp d p) (\<lambda>i. Inr (d\<lparr>imps := (imps d)(p \<mapsto> f i)\<rparr>))"

section \<open>imp_body.c\<close>

text \<open>
  \<open>imp_body_new\<close>: the results of \<open>calloc\<close>, \<open>timerfd_create\<close>, \<open>eventfd\<close> and the two
  registrations.  The second component lists the descriptors the error paths close.
\<close>

definition imp_body_new :: "bool \<Rightarrow> int \<Rightarrow> int \<Rightarrow> bool \<Rightarrow> bool \<Rightarrow> imp_body option \<times> int list" where
  "imp_body_new mem_ok tfd efd reg_t reg_e =
     (if \<not> mem_ok then (None, [])
      else if tfd < 0 then (None, [])
      else if efd < 0 then (None, [tfd])
      else if \<not> reg_t then (None, [efd, tfd])
      else if \<not> reg_e then (None, [efd, tfd])
      else (Some \<lparr>timer_fd = tfd, event_fd = efd, timer_on = False\<rparr>, []))"

text \<open>The \<open>itimerspec\<close> that \<open>imp_body_set_timer\<close> passes on: C division truncates to zero.\<close>

definition c_div :: "int \<Rightarrow> int \<Rightarrow> int" where
  "c_div a b = sgn a * sgn b * (\<bar>a\<bar> div \<bar>b\<bar>)"

definition c_mod :: "int \<Rightarrow> int \<Rightarrow> int" where
  "c_mod a b = a - c_div a b * b"

definition timer_value :: "int \<Rightarrow> int \<times> int" where
  "timer_value ms = (c_div ms 1000, c_mod ms 1000 * 1000000)"

text \<open>
  \<open>timerfd_settime\<close> refuses a value that is not a time (\<open>EINVAL\<close>, which the code does not
  look at), disarms the timer on zero and arms it otherwise; in both cases an expiry that was
  not read is forgotten.
\<close>

definition imp_body_set_timer :: "imp_body \<Rightarrow> int \<Rightarrow> imp_body" where
  "imp_body_set_timer b ms =
     (let (sec, nsec) = timer_value ms in
      if sec < 0 \<or> nsec < 0 \<or> nsec > 999999999 then b
      else b\<lparr>timer_on := (sec, nsec) \<noteq> (0, 0)\<rparr>)"

text \<open>\<open>rd\<close>: whether the non-blocking read delivered its eight bytes.\<close>

definition imp_body_cleanup_timer :: "imp_body \<Rightarrow> bool \<Rightarrow> int \<times> imp_body" where
  "imp_body_cleanup_timer b rd = (if rd then (1, b\<lparr>timer_on := False\<rparr>) else (0, b))"

definition imp_body_cleanup_event :: "bool \<Rightarrow> int" where
  "imp_body_cleanup_event rd = (if rd then 1 else 0)"

text \<open>\<open>imp_body_delete\<close> returns the descriptors it closes.\<close>

definition imp_body_delete :: "imp_body \<Rightarrow> int list" where
  "imp_body_delete b = [event_fd b, timer_fd b]"

text \<open>Closing a descriptor takes it out of the epoll instance.\<close>

definition close_fds :: "'m dungeon \<Rightarrow> int list \<Rightarrow> 'm dungeon" where
  "close_fds d fds = d\<lparr>epoll := epoll d |` (- set fds)\<rparr>"

section \<open>imp.c\<close>

text \<open>
  \<open>imp_new\<close>: the identity is taken from the counter even when the body cannot be built; a
  null \<open>requested_events\<close> is not noticed.
\<close>

definition imp_new :: "u32 \<Rightarrow> bool \<Rightarrow> imp_body option \<Rightarrow> 'm \<Rightarrow> 'm imp option" where
  "imp_new iid ll_ok bdy mem0 =
     (case bdy of None \<Rightarrow> None
      | Some b \<Rightarrow> Some \<lparr>imp_id = iid, waitio = False,
                       requested_events = (if ll_ok then Some [] else None),
                       event_mask = 0, body = b, memory = mem0\<rparr>)"

definition imp_run :: "'m dungeon \<Rightarrow> intptr \<Rightarrow> ub + 'm dungeon" where
  "imp_run d p = bindE (queue_enqueue_uniq_nb (run_queue d) p) (\<lambda>(ret, q). Inr (d\<lparr>run_queue := q\<rparr>))"

text \<open>
  \<open>imp_summon\<close>.  \<open>alloc\<close> is the address of the new imp; the memory is stored before
  \<open>fsm_new\<close> runs on it, \<open>waitio\<close> is cleared after.
\<close>

record 'm summoning =
  alloc :: "intptr option"
  ll_ok :: bool
  new_body :: "imp_body option"
  fsm_new :: "'m \<Rightarrow> 'm"

definition imp_summon :: "'m dungeon \<Rightarrow> 'm \<Rightarrow> 'm summoning \<Rightarrow> ub + ('m dungeon \<times> intptr option)" where
  "imp_summon d mem0 s =
     (if nr_total d \<ge> nr_max d then Inr (d, None)
      else case alloc s of None \<Rightarrow> Inr (d, None)
      | Some p \<Rightarrow>
          let iid = next_imp_id d; d = d\<lparr>next_imp_id := iid + 1\<rparr> in
          (case imp_new iid (ll_ok s) (new_body s) mem0 of
             None \<Rightarrow> Inr (d, None)
           | Some i \<Rightarrow>
               bindE (imp_run (d\<lparr>imps := (imps d)(p \<mapsto> i\<lparr>memory := fsm_new s mem0, waitio := False\<rparr>),
                              nr_total := nr_total d + 1\<rparr>) p)
                 (\<lambda>d. Inr (d, Some p))))"

text \<open>\<open>imp_wake\<close>: the compare-and-swap on \<open>waitio\<close> decides who queues the imp.\<close>

definition imp_wake :: "'m dungeon \<Rightarrow> intptr \<Rightarrow> ub + 'm dungeon" where
  "imp_wake d p =
     bindE (ld_imp d p) (\<lambda>i.
       if waitio i
       then bindE (upd_imp d p (\<lambda>i. i\<lparr>waitio := False\<rparr>)) (\<lambda>d.
            imp_run (d\<lparr>nr_waitio := nr_waitio d - 1\<rparr>) p)
       else Inr d)"

definition imp_kill :: "'m dungeon \<Rightarrow> intptr \<Rightarrow> ub + 'm dungeon" where
  "imp_kill d p = upd_imp d p (\<lambda>i. i\<lparr>event_mask := or (event_mask i) EV_MASK_KILL\<rparr>)"

text \<open>\<open>imp_term\<close>, with the flag \<open>thr_maintainer_wakeup\<close> sets.\<close>

definition imp_term :: "'m dungeon \<Rightarrow> intptr \<Rightarrow> ub + 'm dungeon" where
  "imp_term d p = bindE (queue_enqueue_nb (terminated_queue d) p)
     (\<lambda>(ret, q). Inr (d\<lparr>terminated_queue := q, pending_event := True\<rparr>))"

definition imp_cancel_timer :: "'m dungeon \<Rightarrow> intptr \<Rightarrow> ub + 'm dungeon" where
  "imp_cancel_timer d p = upd_imp d p (\<lambda>i. i\<lparr>body := imp_body_set_timer (body i) 0\<rparr>)"

text \<open>
  \<open>imp_dismiss\<close>.  \<open>free(msg)\<close> on a request that is one of the small integers frees an
  address that was never allocated.  \<open>closed\<close> are the descriptors the soul's \<open>fsm_delete\<close>
  closes.
\<close>

primrec free_requests :: "ev_request list \<Rightarrow> ub + unit" where
  "free_requests [] = Inr ()"
| "free_requests (r # rs) = (case r of ReqIo e \<Rightarrow> free_requests rs | _ \<Rightarrow> Inl BadPointer)"

definition imp_dismiss :: "'m dungeon \<Rightarrow> intptr \<Rightarrow> int list \<Rightarrow> ub + 'm dungeon" where
  "imp_dismiss d p closed =
     bindE (ld_imp d p) (\<lambda>i.
     case requested_events i of
       None \<Rightarrow> Inl NullDeref
     | Some reqs \<Rightarrow>
         bindE (free_requests reqs) (\<lambda>_.
         let d = close_fds (close_fds d closed) (imp_body_delete (body i)) in
         Inr (d\<lparr>imps := (imps d)(p := None), nr_total := nr_total d - 1\<rparr>)))"

section \<open>Services for the souls\<close>

text \<open>The volume of \<open>requested_events\<close>: \<open>llist_new(1000)\<close>.\<close>

abbreviation (input) request_volume :: nat where "request_volume \<equiv> 1000"

definition append_request :: "'m dungeon \<Rightarrow> intptr \<Rightarrow> ev_request \<Rightarrow> bool \<Rightarrow> ub + (int \<times> 'm dungeon)" where
  "append_request d p r nomem =
     bindE (ld_imp d p) (\<lambda>i.
     case requested_events i of
       None \<Rightarrow> Inl NullDeref
     | Some reqs \<Rightarrow>
         let (ret, reqs') = list_append False request_volume reqs r nomem in
         bindE (upd_imp d p (\<lambda>i. i\<lparr>requested_events := Some reqs'\<rparr>)) (\<lambda>d. Inr (ret, d)))"

text \<open>
  \<open>imp_set_ioev\<close> and \<open>imp_set_timer\<close> work on \<open>current_imp_\<close>, here \<open>p\<close>.  The result of the
  \<open>malloc\<close> for the description is used unchecked.
\<close>

definition imp_set_ioev :: "'m dungeon \<Rightarrow> intptr \<Rightarrow> int \<Rightarrow> u32 \<Rightarrow> bool \<Rightarrow> bool \<Rightarrow> ub + (int \<times> 'm dungeon)" where
  "imp_set_ioev d p fd ev malloc_ok nomem =
     (if \<not> malloc_ok then Inl NullDeref
      else append_request d p
        (ReqIo \<lparr>ev_mask = EV_MASK_USER, events = ev, ev_fd = fd, ev_imp = p\<rparr>) nomem)"

definition imp_set_timer :: "'m dungeon \<Rightarrow> intptr \<Rightarrow> int \<Rightarrow> bool \<Rightarrow> ub + (int \<times> 'm dungeon)" where
  "imp_set_timer d p ms nomem =
     bindE (upd_imp d p (\<lambda>i. i\<lparr>body := imp_body_set_timer (body i) ms\<rparr>)) (\<lambda>d.
     append_request d p ReqTimer nomem)"

text \<open>The services a soul calls while it is driven.\<close>

datatype 'm service =
    SetIoev int u32 bool bool
  | SetTimer int bool
  | Summon 'm "'m summoning"

definition do_service :: "'m dungeon \<Rightarrow> intptr \<Rightarrow> 'm service \<Rightarrow> ub + 'm dungeon" where
  "do_service d p s =
     (case s of
        SetIoev fd ev malloc_ok nomem \<Rightarrow> bindE (imp_set_ioev d p fd ev malloc_ok nomem) (\<lambda>(ret, d). Inr d)
      | SetTimer ms nomem \<Rightarrow> bindE (imp_set_timer d p ms nomem) (\<lambda>(ret, d). Inr d)
      | Summon mem0 sm \<Rightarrow> bindE (imp_summon d mem0 sm) (\<lambda>(d, new). Inr d))"

primrec do_services :: "'m dungeon \<Rightarrow> intptr \<Rightarrow> 'm service list \<Rightarrow> ub + 'm dungeon" where
  "do_services d p [] = Inr d"
| "do_services d p (s # ss) = bindE (do_service d p s) (\<lambda>d. do_services d p ss)"

section \<open>imp_driver\<close>

text \<open>\<open>imp_reduct_event_mask\<close>: \<open>rd_t\<close> and \<open>rd_e\<close> are the results of the two reads.\<close>

definition imp_reduct_event_mask :: "'m dungeon \<Rightarrow> intptr \<Rightarrow> bool \<Rightarrow> bool \<Rightarrow> ub + (u64 \<times> 'm dungeon)" where
  "imp_reduct_event_mask d p rd_t rd_e =
     bindE (ld_imp d p) (\<lambda>i.
     let (r, b) = imp_body_cleanup_timer (body i) rd_t in
     bindE (upd_imp d p (\<lambda>i. i\<lparr>body := b\<rparr>)) (\<lambda>d.
     bindE (if r = 1 then Inr (EV_MASK_TIMER, d)
            else bindE (imp_cancel_timer d p) (\<lambda>d. Inr (0, d))) (\<lambda>(mask, d).
     Inr (if imp_body_cleanup_event rd_e = 1 then or mask EV_MASK_EVENT else mask, d))))"

text \<open>
  \<open>set_poll_action\<close>: \<open>EPOLL_CTL_MOD\<close> and, when that fails, \<open>EPOLL_CTL_ADD\<close>; \<open>ctl\<close> says
  for a descriptor whether each of the two succeeds.  The caller ignores the result.
\<close>

definition set_poll_action ::
  "'m dungeon \<Rightarrow> int \<Rightarrow> intptr \<Rightarrow> u32 \<Rightarrow> (int \<Rightarrow> bool \<times> bool) \<Rightarrow> int \<times> 'm dungeon" where
  "set_poll_action d fd p ev ctl =
     (if fst (ctl fd) then (0, d\<lparr>epoll := (epoll d)(fd \<mapsto> (p, ev))\<rparr>)
      else if snd (ctl fd) then (0, d\<lparr>epoll := (epoll d)(fd \<mapsto> (p, ev))\<rparr>)
      else (-1, d))"

text \<open>One turn of the loop over \<open>requested_events\<close>: the switch on the fetched request.\<close>

definition arm_request ::
  "'m dungeon \<Rightarrow> intptr \<Rightarrow> ev_request \<Rightarrow> (int \<Rightarrow> bool \<times> bool) \<Rightarrow> ub + 'm dungeon" where
  "arm_request d p r ctl =
     bindE (upd_imp d p (\<lambda>i. i\<lparr>waitio := True\<rparr>)) (\<lambda>d.
     bindE (ld_imp d p) (\<lambda>i.
     Inr (snd (case r of
        ReqTimer \<Rightarrow> set_poll_action d (timer_fd (body i)) p (or EPOLLIN EPOLLONESHOT) ctl
      | ReqEvent \<Rightarrow> set_poll_action d (event_fd (body i)) p (or EPOLLIN EPOLLONESHOT) ctl
      | ReqIo e \<Rightarrow> set_poll_action d (ev_fd e) p (or (events e) EPOLLONESHOT) ctl))))"

text \<open>\<open>for (count = 0; llist_fetch_head_nb(...) == 0; ++count)\<close>; \<open>fuel\<close> bounds the turns.\<close>

primrec arm_loop ::
  "nat \<Rightarrow> 'm dungeon \<Rightarrow> intptr \<Rightarrow> (int \<Rightarrow> bool \<times> bool) \<Rightarrow> nat \<Rightarrow> ub + (nat \<times> 'm dungeon)" where
  "arm_loop 0 d p ctl count = Inr (count, d)"
| "arm_loop (Suc fuel) d p ctl count =
     bindE (ld_imp d p) (\<lambda>i.
     case requested_events i of
       None \<Rightarrow> Inl NullDeref
     | Some reqs \<Rightarrow>
         (case list_fetch False reqs of
            (ret, out, reqs') \<Rightarrow>
              bindE (upd_imp d p (\<lambda>i. i\<lparr>requested_events := Some reqs'\<rparr>)) (\<lambda>d.
              if ret = 0
              then bindE (arm_request d p (the out) ctl) (\<lambda>d. arm_loop fuel d p ctl (Suc count))
              else Inr (count, d))))"

text \<open>The end of \<open>imp_driver\<close> after a yield: sleep, or keep running.\<close>

definition after_yield :: "'m dungeon \<Rightarrow> intptr \<Rightarrow> nat \<Rightarrow> ub + 'm dungeon" where
  "after_yield d p count =
     (if count > 0 then Inr (d\<lparr>nr_waitio := nr_waitio d + 1\<rparr>) else imp_run d p)"

text \<open>The list holds at most \<open>request_volume\<close> requests, so the loop makes no more turns.\<close>

definition imp_driver ::
  "'m dungeon \<Rightarrow> intptr \<Rightarrow> bool \<Rightarrow> bool \<Rightarrow> 'm \<times> driver_retcode \<times> 'm service list
     \<Rightarrow> (int \<Rightarrow> bool \<times> bool) \<Rightarrow> ub + 'm dungeon" where
  "imp_driver d p rd_t rd_e outcome ctl =
     bindE (imp_reduct_event_mask d p rd_t rd_e) (\<lambda>(mask, d).
     bindE (upd_imp d p (\<lambda>i. i\<lparr>event_mask := mask\<rparr>)) (\<lambda>d.
     if and mask EV_MASK_KILL \<noteq> 0
     then bindE (upd_imp d p (\<lambda>i. i\<lparr>waitio := False\<rparr>)) (\<lambda>d. imp_term d p)
     else if and mask EV_MASK_GLOBAL_ALERT \<noteq> 0 then imp_term d p
     else
       bindE (do_services d p (snd (snd outcome))) (\<lambda>d.
       bindE (upd_imp d p (\<lambda>i. i\<lparr>memory := fst outcome\<rparr>)) (\<lambda>d.
       if fst (snd outcome) = TO_TERM then imp_term d p
       else bindE (arm_loop (Suc request_volume) d p ctl 0) (\<lambda>(count, d). after_yield d p count)))))"

text \<open>
  \<open>imp_driver\<close> up to the yield, for reasoning about what happens before the loop and in it.
  \<open>True\<close>: the imp yielded and the loop over its requests follows.\<close>

definition driver_begin ::
  "'m dungeon \<Rightarrow> intptr \<Rightarrow> bool \<Rightarrow> bool \<Rightarrow> 'm \<times> driver_retcode \<times> 'm service list
     \<Rightarrow> ub + (bool \<times> 'm dungeon)" where
  "driver_begin d p rd_t rd_e outcome =
     bindE (imp_reduct_event_mask d p rd_t rd_e) (\<lambda>(mask, d).
     bindE (upd_imp d p (\<lambda>i. i\<lparr>event_mask := mask\<rparr>)) (\<lambda>d.
     if and mask EV_MASK_KILL \<noteq> 0
     then bindE (upd_imp d p (\<lambda>i. i\<lparr>waitio := False\<rparr>)) (\<lambda>d.
            bindE (imp_term d p) (\<lambda>d. Inr (False, d)))
     else if and mask EV_MASK_GLOBAL_ALERT \<noteq> 0 then bindE (imp_term d p) (\<lambda>d. Inr (False, d))
     else
       bindE (do_services d p (snd (snd outcome))) (\<lambda>d.
       bindE (upd_imp d p (\<lambda>i. i\<lparr>memory := fst outcome\<rparr>)) (\<lambda>d.
       if fst (snd outcome) = TO_TERM then bindE (imp_term d p) (\<lambda>d. Inr (False, d))
       else Inr (True, d)))))"

lemma driver_begin_spec:
  "imp_driver d p rd_t rd_e outcome ctl =
     bindE (driver_begin d p rd_t rd_e outcome) (\<lambda>(yielded, d).
       if yielded
       then bindE (arm_loop (Suc request_volume) d p ctl 0) (\<lambda>(count, d). after_yield d p count)
       else Inr d)"
proof -
  have done_eq: "bindE (bindE (imp_term e p) (\<lambda>d. Inr (False, d)))
      (\<lambda>(yielded, d). if yielded then f d else Inr d) = imp_term e p" for e :: "'a dungeon" and f
    by (cases "imp_term e p") auto
  show ?thesis
    unfolding imp_driver_def driver_begin_def
    by (auto simp: bindE_def done_eq split: sum.split prod.split)
qed

text \<open>The macros of \<open>imp.h\<close> that a soul reads.\<close>

definition IMP_TIMEDOUT :: "'m imp \<Rightarrow> bool" where
  "IMP_TIMEDOUT i \<longleftrightarrow> and (event_mask i) EV_MASK_TIMER \<noteq> 0"

definition IMP_IOERR :: "'m imp \<Rightarrow> bool" where
  "IMP_IOERR i \<longleftrightarrow> and (event_mask i) EV_MASK_ERR \<noteq> 0"

section \<open>Properties of the body\<close>

definition opened_fds :: "bool \<Rightarrow> int \<Rightarrow> int \<Rightarrow> int list" where
  "opened_fds mem_ok tfd efd =
     (if mem_ok then (if tfd < 0 then [] else if efd < 0 then [tfd] else [efd, tfd]) else [])"

text \<open>
  Building a body leaks nothing: whenever \<open>imp_body_new\<close> fails, every descriptor it had
  obtained is closed again, each once; when it succeeds nothing is closed and the timer is not
  set.
\<close>

theorem imp_body_new_no_leak:
  "case imp_body_new mem_ok tfd efd reg_t reg_e of
     (None, closed) \<Rightarrow> closed = opened_fds mem_ok tfd efd
   | (Some b, closed) \<Rightarrow> closed = [] \<and> opened_fds mem_ok tfd efd = [event_fd b, timer_fd b]
        \<and> \<not> timer_on b \<and> imp_body_delete b = opened_fds mem_ok tfd efd"
  by (simp add: imp_body_new_def opened_fds_def imp_body_delete_def)

lemma c_div_pos: "0 \<le> a \<Longrightarrow> 0 < b \<Longrightarrow> c_div a b = a div b"
  by (cases "a = 0") (simp_all add: c_div_def)

lemma c_mod_pos: "0 \<le> a \<Longrightarrow> 0 < b \<Longrightarrow> c_mod a b = a mod b"
  by (simp add: c_mod_def c_div_pos minus_div_mult_eq_mod)

lemma timer_value_neg:
  assumes "ms < 0"
  shows "fst (timer_value ms) < 0 \<or> snd (timer_value ms) < 0"
proof (cases "- ms < 1000")
  case True
  with assms have "c_div ms 1000 = 0" by (simp add: c_div_def div_pos_pos_trivial)
  with assms show ?thesis by (simp add: timer_value_def c_mod_def)
next
  case False
  then have "1 \<le> (- ms) div 1000" by linarith
  with assms have "c_div ms 1000 < 0" by (simp add: c_div_def)
  then show ?thesis by (simp add: timer_value_def)
qed

text \<open>
  Setting the timer: the \<open>itimerspec\<close> built from a number of milliseconds is a valid
  time and means exactly that number whenever it is not negative; zero disarms the timer, a
  positive number arms it, and for a negative one the kernel refuses the value and the timer
  stays as it was.
\<close>

theorem imp_body_set_timer_spec:
  "imp_body_set_timer b ms = (if ms < 0 then b else b\<lparr>timer_on := ms \<noteq> 0\<rparr>)
   \<and> (\<not> ms < 0 \<longrightarrow> (case timer_value ms of (sec, nsec) \<Rightarrow>
        0 \<le> sec \<and> 0 \<le> nsec \<and> nsec \<le> 999999999 \<and> 1000000000 * sec + nsec = 1000000 * ms))"
proof (cases "ms < 0")
  case True
  with timer_value_neg [OF True] show ?thesis
    by (auto simp: imp_body_set_timer_def split: prod.split)
next
  case False
  then have v: "timer_value ms = (ms div 1000, ms mod 1000 * 1000000)"
    by (simp add: timer_value_def c_div_pos c_mod_pos)
  have "ms div 1000 = 0 \<and> ms mod 1000 = 0 \<longleftrightarrow> ms = 0"
    using False by (metis div_mult_mod_eq mult_zero_left add_0_right div_0 mod_0)
  moreover have "0 \<le> ms div 1000" "0 \<le> ms mod 1000" "ms mod 1000 \<le> 999"
    using False by simp_all
  moreover have "1000000000 * (ms div 1000) + ms mod 1000 * 1000000 = 1000000 * ms"
    using mult_div_mod_eq [of 1000 ms] by linarith
  ultimately show ?thesis using False by (auto simp: imp_body_set_timer_def v)
qed

theorem imp_body_set_timer_spec_witness:
  "imp_body_set_timer \<lparr>timer_fd = 5, event_fd = 6, timer_on = False\<rparr> 1500
     = \<lparr>timer_fd = 5, event_fd = 6, timer_on = True\<rparr> \<and> timer_value 1500 = (1, 500000000)"
  using imp_body_set_timer_spec [of "\<lparr>timer_fd = 5, event_fd = 6, timer_on = False\<rparr>" 1500]
  by (simp add: timer_value_def c_div_def c_mod_def)

end
