(* ===== verification/Dungeon.thy ===== *)
theory Dungeon
  imports Imp
begin

text \<open>
  \<open>src/src/dungeon.c\<close>, \<open>thr_worker.c\<close> and \<open>thr_maintainer.c\<close>: the dungeon and the threads
  that move imps around in it.  One turn of each thread's loop is a function of the dungeon;
  an \<open>action\<close> is a turn together with everything the outside world contributed to it, and a
  run of the program is a sequence of actions.  A turn here is not interrupted by another
  thread's; theory \<open>Imp_Race\<close> takes \<open>imp_driver\<close> apart and looks at what happens when it is.
\<close>

section \<open>The threads\<close>

text \<open>
  One turn of \<open>thr_driver\<close>, the worker: take an imp from the run queue and drive it.  On an
  empty queue the worker stays blocked in \<open>queue_dequeue\<close>.
\<close>

definition thr_driver_turn ::
  "'m dungeon \<Rightarrow> bool \<Rightarrow> bool \<Rightarrow> 'm \<times> driver_retcode \<times> 'm service list \<Rightarrow> (int \<Rightarrow> bool \<times> bool)
     \<Rightarrow> ub + 'm dungeon" where
  "thr_driver_turn d rd_t rd_e outcome ctl =
     bindE (queue_dequeue_nb (run_queue d)) (\<lambda>(err, out, q).
       if err = 0 then imp_driver (d\<lparr>run_queue := q\<rparr>) (the out) rd_t rd_e outcome ctl
       else Inr d)"

text \<open>
  One turn of \<open>thr_epoller\<close>: \<open>epoll_wait\<close> returned events for the descriptors \<open>fds\<close>, which
  \<open>EPOLLONESHOT\<close> disarmed; each carries the imp it was armed for.
\<close>

primrec wake_all :: "'m dungeon \<Rightarrow> intptr list \<Rightarrow> ub + 'm dungeon" where
  "wake_all d [] = Inr d"
| "wake_all d (p # ps) =
     bindE (imp_cancel_timer d p) (\<lambda>d. bindE (imp_wake d p) (\<lambda>d. wake_all d ps))"

definition thr_epoller_turn :: "'m dungeon \<Rightarrow> int list \<Rightarrow> ub + 'm dungeon" where
  "thr_epoller_turn d fds =
     wake_all (d\<lparr>epoll := epoll d |` (- set fds)\<rparr>) (map (\<lambda>fd. fst (the (epoll d fd))) fds)"

text \<open>
  One turn of the inner loop of \<open>thr_maintainer\<close>: the result says whether there was an imp to
  dismiss.  The loop itself, and the two loops of \<open>dungeon_delete\<close>, run it until there is none.
\<close>

definition thr_maintainer_turn :: "'m dungeon \<Rightarrow> (intptr \<Rightarrow> int list) \<Rightarrow> ub + (bool \<times> 'm dungeon)" where
  "thr_maintainer_turn d closed =
     bindE (queue_dequeue_nb (terminated_queue d)) (\<lambda>(err, out, q).
       if err < 0 then Inr (False, d)
       else bindE (imp_dismiss (d\<lparr>terminated_queue := q\<rparr>) (the out) (closed (the out)))
              (\<lambda>d. Inr (True, d)))"

primrec maintainer_loop :: "nat \<Rightarrow> 'm dungeon \<Rightarrow> (intptr \<Rightarrow> int list) \<Rightarrow> ub + 'm dungeon option" where
  "maintainer_loop 0 d closed = Inr None"
| "maintainer_loop (Suc fuel) d closed =
     bindE (thr_maintainer_turn d closed) (\<lambda>(more, d).
       if more then maintainer_loop fuel d closed else Inr (Some d))"

text \<open>\<open>while (queue_dequeue_nb(run_queue, &imp) == 0) imp_dismiss(imp);\<close>\<close>

primrec run_queue_loop :: "nat \<Rightarrow> 'm dungeon \<Rightarrow> (intptr \<Rightarrow> int list) \<Rightarrow> ub + 'm dungeon option" where
  "run_queue_loop 0 d closed = Inr None"
| "run_queue_loop (Suc fuel) d closed =
     bindE (queue_dequeue_nb (run_queue d)) (\<lambda>(err, out, q).
       if err = 0
       then bindE (imp_dismiss (d\<lparr>run_queue := q\<rparr>) (the out) (closed (the out)))
              (\<lambda>d. run_queue_loop fuel d closed)
       else Inr (Some d))"

text \<open>
  \<open>dungeon_delete\<close> from the point where all threads have stopped up to the unloading of the
  rooms; each loop makes at most one turn more than its queue can hold.
\<close>

definition dungeon_delete :: "'m dungeon \<Rightarrow> (intptr \<Rightarrow> int list) \<Rightarrow> ub + 'm dungeon option" where
  "dungeon_delete d closed =
     bindE (run_queue_loop (Suc (unat (q_max (run_queue d)))) d closed) (\<lambda>r.
     case r of None \<Rightarrow> Inr None
     | Some d \<Rightarrow>
         bindE (maintainer_loop (Suc (unat (q_max (terminated_queue d)))) d closed) (\<lambda>r.
         Inr (case r of None \<Rightarrow> None | Some d \<Rightarrow> Some (d\<lparr>epoll := Map.empty\<rparr>))))"

section \<open>dungeon_init\<close>

text \<open>
  What \<open>dungeon_init\<close> gets from the system: whether \<open>calloc\<close> succeeded, the errno of \<open>pipe\<close>
  (\<open>0\<close>: success), the memory of the two queues, and what creating the workers, the
  maintainer and the monitor and loading the rooms returned.
\<close>

record init_env =
  calloc_ok :: bool
  pipe_errno :: int
  run_mem :: "intptr list option"
  term_mem :: "intptr list option"
  nr_workers :: int
  maintainer_err :: int
  monitor_err :: int
  nr_rooms :: int

text \<open>
  What the global \<open>dungeon_heart\<close> is afterwards.  Failing later than \<open>calloc\<close> frees the
  structure but leaves the pointer.  A queue that could not be built is not noticed: once there are
  workers, a null queue is followed.
\<close>

datatype 'm heart = NoHeart | Dangling | Heart "'m dungeon"

definition dungeon_init :: "int \<Rightarrow> int \<Rightarrow> init_env \<Rightarrow> ub + (int \<times> 'm heart)" where
  "dungeon_init workers nr_imp_max env =
     (if workers < 1 \<or> nr_imp_max < 1 then Inr (EINVAL, NoHeart)
      else if \<not> calloc_ok env then Inr (ENOMEM, NoHeart)
      else if pipe_errno env \<noteq> 0 then Inr (pipe_errno env, Dangling)
      else
        if nr_workers env < 1 then Inr (EAGAIN, Dangling)
        else
          case (queue_new (word_of_int nr_imp_max) (run_mem env),
                queue_new (word_of_int nr_imp_max) (term_mem env)) of
            (Some rq, Some tq) \<Rightarrow>
              if maintainer_err env \<noteq> 0 then Inr (EAGAIN, Dangling)
              else if monitor_err env \<noteq> 0 then Inr (EAGAIN, Dangling)
              else Inr (if nr_rooms env < 1 then EAGAIN else 0,
                     Heart \<lparr>nr_total = 0, nr_max = nr_imp_max, nr_waitio = 0, run_queue = rq,
                            terminated_queue = tq, epoll = Map.empty, imps = Map.empty,
                            next_imp_id = 1, pending_event = False\<rparr>)
          | _ \<Rightarrow> Inl NullDeref)"

section \<open>Actions\<close>

datatype 'm action =
    DoSummon 'm "'m summoning"
  | DoWork bool bool 'm driver_retcode "'m service list" "int \<Rightarrow> bool \<times> bool"
  | DoEpoll "int list"
  | DoReap "intptr \<Rightarrow> int list"
  | DoKill intptr

definition dungeon_step :: "'m action \<Rightarrow> 'm dungeon \<Rightarrow> ub + 'm dungeon" where
  "dungeon_step a d =
     (case a of
        DoSummon m s \<Rightarrow> bindE (imp_summon d m s) (\<lambda>(d, new). Inr d)
      | DoWork rd_t rd_e m ret svcs ctl \<Rightarrow> thr_driver_turn d rd_t rd_e (m, ret, svcs) ctl
      | DoEpoll fds \<Rightarrow> thr_epoller_turn d fds
      | DoReap closed \<Rightarrow> bindE (thr_maintainer_turn d closed) (\<lambda>(more, d). Inr d)
      | DoKill p \<Rightarrow> imp_kill d p)"

abbreviation runq :: "'m dungeon \<Rightarrow> intptr list" where
  "runq d \<equiv> queue_contents (run_queue d)"

abbreviation termq :: "'m dungeon \<Rightarrow> intptr list" where
  "termq d \<equiv> queue_contents (terminated_queue d)"

text \<open>
  What the environment guarantees of an action.  The allocator returns unused addresses and
  does not fail inside \<open>llist_new\<close> and \<open>imp_set_ioev\<close>, whose results the code does not check; a
  new timer is not set; a read from the timer succeeds only if the timer is set; events are
  delivered for armed descriptors only; a soul that asks to be terminated has not set its timer
  in the same turn; when a soul is deleted it closes every descriptor it was waiting for; only
  existing imps are killed.
\<close>

definition summoning_ok :: "'m dungeon \<Rightarrow> 'm summoning \<Rightarrow> bool" where
  "summoning_ok d s \<longleftrightarrow>
     ll_ok s
     \<and> (case alloc s of None \<Rightarrow> True | Some p \<Rightarrow> p \<noteq> 0 \<and> imps d p = None)
     \<and> (case new_body s of None \<Rightarrow> True | Some b \<Rightarrow> \<not> timer_on b)"

text \<open>The soul of \<open>p\<close> closes every descriptor that is armed for \<open>p\<close>.\<close>

definition closes_all :: "'m dungeon \<Rightarrow> intptr \<Rightarrow> int list \<Rightarrow> bool" where
  "closes_all d p closed \<longleftrightarrow>
     (case imps d p of None \<Rightarrow> True
      | Some i \<Rightarrow> \<forall>fd ev. epoll d fd = Some (p, ev) \<longrightarrow>
          fd \<in> set closed \<union> {timer_fd (body i), event_fd (body i)})"

text \<open>\<open>taken\<close> are the addresses handed out earlier in the same turn.\<close>

primrec services_ok :: "'m dungeon \<Rightarrow> intptr list \<Rightarrow> 'm service list \<Rightarrow> bool" where
  "services_ok d taken [] \<longleftrightarrow> True"
| "services_ok d taken (s # ss) \<longleftrightarrow>
     (case s of
        SetIoev fd ev malloc_ok nomem \<Rightarrow> malloc_ok \<and> services_ok d taken ss
      | SetTimer ms nomem \<Rightarrow> \<not> nomem \<and> services_ok d taken ss
      | Summon m sm \<Rightarrow> summoning_ok d sm
          \<and> (case alloc sm of
               None \<Rightarrow> services_ok d taken ss
             | Some p \<Rightarrow> p \<notin> set taken \<and> services_ok d (p # taken) ss))"

fun is_set_timer :: "'m service \<Rightarrow> bool" where
  "is_set_timer (SetTimer ms nomem) = True"
| "is_set_timer _ = False"

definition action_ok :: "'m dungeon \<Rightarrow> 'm action \<Rightarrow> bool" where
  "action_ok d a \<longleftrightarrow>
     (case a of
        DoSummon m s \<Rightarrow> summoning_ok d s
      | DoWork rd_t rd_e m ret svcs ctl \<Rightarrow>
          (case runq d of [] \<Rightarrow> True
           | p # ps \<Rightarrow>
               (rd_t \<longrightarrow> (case imps d p of None \<Rightarrow> False | Some i \<Rightarrow> timer_on (body i)))
               \<and> services_ok d [] svcs
               \<and> (ret = TO_TERM \<longrightarrow> list_all (\<lambda>s. \<not> is_set_timer s) svcs))
      | DoEpoll fds \<Rightarrow> distinct fds \<and> set fds \<subseteq> dom (epoll d)
      | DoReap closed \<Rightarrow>
          (case termq d of [] \<Rightarrow> True
           | p # ps \<Rightarrow> closes_all d p (closed p))
      | DoKill p \<Rightarrow> p \<in> dom (imps d))"

section \<open>The invariant\<close>

text \<open>
  Where the imps are.  An imp sleeps when its \<open>waitio\<close> is set; the others are in the run queue,
  in the terminated queue or with a worker (\<open>R\<close>), each in exactly one place.  The counters
  \<open>nr_total\<close> and \<open>nr_waitio\<close> count the imps and the sleepers, and there are never more than
  \<open>nr_max\<close> of them; so neither queue can overflow.  Every descriptor armed in the epoll
  instance is armed for an imp that exists.
\<close>

definition awake :: "'m dungeon \<Rightarrow> intptr set" where
  "awake d = {p. \<exists>i. imps d p = Some i \<and> \<not> waitio i}"

definition sleepers :: "'m dungeon \<Rightarrow> intptr set" where
  "sleepers d = {p. \<exists>i. imps d p = Some i \<and> waitio i}"

text \<open>
  What each imp has to satisfy: its request list is there and bounded; it is empty while the
  imp sleeps or is queued to run, and holds no timer request when it is queued to be dismissed;
  its timer is not set while it is queued to run; it has never been told of a timeout.
\<close>

definition imp_ok :: "'m dungeon \<Rightarrow> intptr \<Rightarrow> 'm imp \<Rightarrow> bool" where
  "imp_ok d p i \<longleftrightarrow>
     (\<exists>reqs. requested_events i = Some reqs \<and> length reqs \<le> request_volume
        \<and> (waitio i \<or> p \<in> set (runq d) \<longrightarrow> reqs = [])
        \<and> (p \<in> set (termq d) \<longrightarrow> free_requests reqs = Inr ()))
     \<and> (p \<in> set (runq d) \<longrightarrow> \<not> timer_on (body i))
     \<and> \<not> IMP_TIMEDOUT i"

definition queues_ok :: "'m dungeon \<Rightarrow> bool" where
  "queues_ok d \<longleftrightarrow>
     queue_wf (run_queue d) \<and> queue_wf (terminated_queue d)
     \<and> unat (q_max (run_queue d)) = nat (nr_max d)
     \<and> unat (q_max (terminated_queue d)) = nat (nr_max d)
     \<and> 0 < nr_max d \<and> nr_max d < 2 ^ 31"

definition dungeon_inv :: "intptr list \<Rightarrow> 'm dungeon \<Rightarrow> bool" where
  "dungeon_inv R d \<longleftrightarrow>
     queues_ok d
     \<and> distinct (R @ runq d @ termq d) \<and> set (R @ runq d @ termq d) = awake d
     \<and> finite (dom (imps d))
     \<and> nr_total d = int (card (dom (imps d))) \<and> nr_total d \<le> nr_max d
     \<and> nr_waitio d = int (card (sleepers d))
     \<and> (\<forall>fd p ev. epoll d fd = Some (p, ev) \<longrightarrow> p \<in> dom (imps d))
     \<and> (\<forall>p i. imps d p = Some i \<longrightarrow> imp_ok d p i)"

lemma dungeon_invI:
  "queues_ok d \<Longrightarrow> distinct (R @ runq d @ termq d) \<Longrightarrow> set (R @ runq d @ termq d) = awake d \<Longrightarrow>
   finite (dom (imps d)) \<Longrightarrow> nr_total d = int (card (dom (imps d))) \<Longrightarrow> nr_total d \<le> nr_max d \<Longrightarrow>
   nr_waitio d = int (card (sleepers d)) \<Longrightarrow>
   (\<And>fd p ev. epoll d fd = Some (p, ev) \<Longrightarrow> p \<in> dom (imps d)) \<Longrightarrow>
   (\<And>p i. imps d p = Some i \<Longrightarrow> imp_ok d p i) \<Longrightarrow> dungeon_inv R d"
  unfolding dungeon_inv_def by blast

lemma dungeon_invD:
  assumes "dungeon_inv R d"
  shows "queues_ok d" "distinct (R @ runq d @ termq d)" "set (R @ runq d @ termq d) = awake d"
    "finite (dom (imps d))" "nr_total d = int (card (dom (imps d)))" "nr_total d \<le> nr_max d"
    "nr_waitio d = int (card (sleepers d))"
    "\<And>fd p ev. epoll d fd = Some (p, ev) \<Longrightarrow> p \<in> dom (imps d)"
    "\<And>p i. imps d p = Some i \<Longrightarrow> imp_ok d p i"
  using assms unfolding dungeon_inv_def by blast+

lemma awake_dom: "awake d \<subseteq> dom (imps d)"
  by (auto simp: awake_def)

lemma dom_awake_sleepers: "dom (imps d) = awake d \<union> sleepers d"
  by (auto simp: awake_def sleepers_def)

lemma ld_imp_Some [simp]: "imps d p = Some i \<Longrightarrow> ld_imp d p = Inr i"
  by (simp add: ld_imp_def)

lemma upd_imp_Some [simp]:
  "imps d p = Some i \<Longrightarrow> upd_imp d p f = Inr (d\<lparr>imps := (imps d)(p \<mapsto> f i)\<rparr>)"
  by (simp add: upd_imp_def)

text \<open>Everything that is awake fits into either queue.\<close>

lemma dungeon_inv_fits:
  assumes "dungeon_inv R d"
  shows "int (length R + length (runq d) + length (termq d)) \<le> nr_max d"
proof -
  have fin: "finite (dom (imps d))"
    and dist: "distinct (R @ runq d @ termq d)" "set (R @ runq d @ termq d) = awake d"
    and total: "nr_total d = int (card (dom (imps d)))" "nr_total d \<le> nr_max d"
    using assms unfolding dungeon_inv_def by blast+
  have "length (R @ runq d @ termq d) = card (awake d)" using dist by (metis distinct_card)
  moreover have "card (awake d) \<le> card (dom (imps d))" by (rule card_mono [OF fin awake_dom])
  ultimately show ?thesis using total by (simp del: length_queue_contents)
qed

text \<open>Changing one imp without moving it.\<close>

lemma awake_upd: "imps d p = Some i \<Longrightarrow> waitio i' = waitio i \<Longrightarrow>
    awake (d\<lparr>imps := (imps d)(p \<mapsto> i')\<rparr>) = awake d"
  by (auto simp: awake_def)

lemma sleepers_upd: "imps d p = Some i \<Longrightarrow> waitio i' = waitio i \<Longrightarrow>
    sleepers (d\<lparr>imps := (imps d)(p \<mapsto> i')\<rparr>) = sleepers d"
  by (auto simp: sleepers_def)

lemma dungeon_inv_upd:
  assumes inv: "dungeon_inv R d" and i: "imps d p = Some i"
    and same: "waitio i' = waitio i" and ok: "imp_ok d p i'"
  shows "dungeon_inv R (d\<lparr>imps := (imps d)(p \<mapsto> i')\<rparr>)"
proof -
  have "dom (imps (d\<lparr>imps := (imps d)(p \<mapsto> i')\<rparr>)) = dom (imps d)" using i by auto
  with assms show ?thesis
    unfolding dungeon_inv_def awake_upd [OF i same] sleepers_upd [OF i same]
    by (auto simp: queues_ok_def imp_ok_def)
qed

text \<open>Queueing an imp to run, and to be dismissed.\<close>

lemma imp_run_inv:
  assumes inv: "dungeon_inv (p # R) d" and i: "imps d p = Some i"
    and reqs: "requested_events i = Some []" and t: "\<not> timer_on (body i)"
  shows "barring OutOfBounds (\<lambda>d'. dungeon_inv R d' \<and> imps d' = imps d \<and> nr_max d' = nr_max d
           \<and> epoll d' = epoll d \<and> runq d' = runq d @ [p]) (imp_run d p)"
proof -
  have q: "queue_wf (run_queue d)" "unat (q_max (run_queue d)) < 2 ^ 31"
    "unat (q_max (run_queue d)) = nat (nr_max d)"
    using inv by (auto simp: dungeon_inv_def queues_ok_def nat_less_iff)
  have p: "p \<notin> set (runq d)" using inv by (simp add: dungeon_inv_def)
  have room: "length (runq d) < unat (q_max (run_queue d))"
    using dungeon_inv_fits [OF inv] q(3) by (simp del: length_queue_contents)
  show ?thesis
  proof (cases "queue_enqueue_uniq_nb (run_queue d) p")
    case (Inl e)
    with enqueue_uniq_oob [OF q(1,2), of p e] show ?thesis by (simp add: imp_run_def)
  next
    case (Inr r)
    obtain ret q' where r: "r = (ret, q')" by (cases r) auto
    with enqueue_uniq_spec [OF q(1,2), of p ret q'] Inr room p
    have q': "queue_contents q' = runq d @ [p]" "queue_wf q'" "q_max q' = q_max (run_queue d)"
      by (auto simp: fifo_enq_uniq_def)
    have old: "imp_ok d s j" if "imps d s = Some j" for s j
      using inv that by (simp add: dungeon_inv_def)
    have "imp_ok (d\<lparr>run_queue := q'\<rparr>) s j" if "imps d s = Some j" for s j
      using old [OF that] that i reqs t q'(1) by (cases "s = p") (auto simp: imp_ok_def)
    then have "dungeon_inv R (d\<lparr>run_queue := q'\<rparr>)"
      using inv q' unfolding dungeon_inv_def
      by (auto simp: queues_ok_def awake_def sleepers_def)
    with Inr r q'(1) show ?thesis by (simp add: imp_run_def)
  qed
qed

lemma imp_term_inv:
  assumes inv: "dungeon_inv (p # R) d" and i: "imps d p = Some i"
    and reqs: "requested_events i = Some reqs" "free_requests reqs = Inr ()"
  shows "\<exists>d'. imp_term d p = Inr d' \<and> dungeon_inv R d' \<and> imps d' = imps d \<and> nr_max d' = nr_max d
     \<and> termq d' = termq d @ [p]"
proof -
  have q: "queue_wf (terminated_queue d)" "unat (q_max (terminated_queue d)) = nat (nr_max d)"
    using inv by (auto simp: dungeon_inv_def queues_ok_def)
  have p: "p \<notin> set (runq d)" "p \<notin> set (termq d)" using inv by (simp_all add: dungeon_inv_def)
  have room: "length (termq d) < unat (q_max (terminated_queue d))"
    using dungeon_inv_fits [OF inv] q(2) by (simp del: length_queue_contents)
  from q2.enq_room [OF q(1) room, of p] obtain q' where
    q': "queue_enqueue_nb (terminated_queue d) p = Inr (0, q')" "queue_wf q'"
      "unat (q_max q') = unat (q_max (terminated_queue d))" "queue_contents q' = termq d @ [p]"
    by blast
  let ?d' = "d\<lparr>terminated_queue := q', pending_event := True\<rparr>"
  have old: "imp_ok d s j" if "imps d s = Some j" for s j
    using inv that by (simp add: dungeon_inv_def)
  have "imp_ok ?d' s j" if "imps d s = Some j" for s j
    using old [OF that] that i reqs q'(4) p by (cases "s = p") (auto simp: imp_ok_def)
  then have "dungeon_inv R ?d'"
    using inv q' unfolding dungeon_inv_def
    by (auto simp: queues_ok_def awake_def sleepers_def)
  with q'(1,4) show ?thesis by (simp add: imp_term_def)
qed

text \<open>Waking a sleeper.\<close>

lemma awake_wake: "imps d p = Some i \<Longrightarrow>
    awake (d\<lparr>imps := (imps d)(p \<mapsto> i\<lparr>waitio := False\<rparr>), nr_waitio := n\<rparr>) = insert p (awake d)"
  by (auto simp: awake_def)

lemma sleepers_wake: "imps d p = Some i \<Longrightarrow>
    sleepers (d\<lparr>imps := (imps d)(p \<mapsto> i\<lparr>waitio := False\<rparr>), nr_waitio := n\<rparr>) = sleepers d - {p}"
  by (auto simp: sleepers_def)

lemma finite_sleepers: "dungeon_inv R d \<Longrightarrow> finite (sleepers d)"
  unfolding dungeon_inv_def dom_awake_sleepers by simp

text \<open>The imps of \<open>ps\<close> that are in \<open>S\<close>, in order, each where it occurs first.\<close>

primrec newly :: "intptr set \<Rightarrow> intptr list \<Rightarrow> intptr list" where
  "newly S [] = []"
| "newly S (p # ps) = (if p \<in> S then p # newly (S - {p}) ps else newly S ps)"

lemma set_newly [simp]: "set (newly S ps) = S \<inter> set ps"
  by (induction ps arbitrary: S) auto

lemma imp_wake_inv:
  assumes inv: "dungeon_inv R d" and i: "imps d p = Some i"
    and t: "waitio i \<Longrightarrow> \<not> timer_on (body i)"
  shows "barring OutOfBounds (\<lambda>d'. dungeon_inv R d' \<and> dom (imps d') = dom (imps d)
           \<and> epoll d' = epoll d \<and> sleepers d' = sleepers d - {p}
           \<and> runq d' = runq d @ newly (sleepers d) [p]) (imp_wake d p)"
proof (cases "waitio i")
  case False
  moreover from this i have "p \<notin> sleepers d" by (simp add: sleepers_def)
  ultimately show ?thesis using inv i by (simp add: imp_wake_def)
next
  case True
  let ?d = "d\<lparr>imps := (imps d)(p \<mapsto> i\<lparr>waitio := False\<rparr>), nr_waitio := nr_waitio d - 1\<rparr>"
  have sl: "p \<in> sleepers d" "p \<notin> awake d" using i True by (auto simp: sleepers_def awake_def)
  have ok: "imp_ok d p i" using inv i by (simp add: dungeon_inv_def)
  have dom: "dom (imps ?d) = dom (imps d)" using i by auto
  have "card (sleepers d - {p}) = card (sleepers d) - 1" "card (sleepers d) > 0"
    using sl finite_sleepers [OF inv] by (auto simp: card_gt_0_iff)
  then have n: "nr_waitio d - 1 = int (card (sleepers d - {p}))"
    using inv by (simp add: dungeon_inv_def)
  have each: "imp_ok ?d s j" if "imps ?d s = Some j" for s j
    using that ok dungeon_invD(9) [OF inv] by (cases "s = p") (auto simp: imp_ok_def IMP_TIMEDOUT_def)
  have inv': "dungeon_inv (p # R) ?d"
  proof (rule dungeon_invI)
    show "distinct ((p # R) @ runq ?d @ termq ?d)" "set ((p # R) @ runq ?d @ termq ?d) = awake ?d"
      using dungeon_invD(2,3) [OF inv] sl(2) awake_wake [OF i] by auto
    show "nr_waitio ?d = int (card (sleepers ?d))" unfolding sleepers_wake [OF i] using n by simp
    show "\<And>fd p' ev. epoll ?d fd = Some (p', ev) \<Longrightarrow> p' \<in> dom (imps ?d)"
      unfolding dom using dungeon_invD(8) [OF inv] by simp
  qed (use each dungeon_invD(1,4-6) [OF inv] dom in \<open>simp_all add: queues_ok_def\<close>)
  have "imps ?d p = Some (i\<lparr>waitio := False\<rparr>)" by simp
  moreover have "requested_events (i\<lparr>waitio := False\<rparr>) = Some []"
    "\<not> timer_on (body (i\<lparr>waitio := False\<rparr>))" using ok t True by (simp_all add: imp_ok_def)
  ultimately have "barring OutOfBounds (\<lambda>d'. dungeon_inv R d' \<and> imps d' = imps ?d
      \<and> nr_max d' = nr_max ?d \<and> epoll d' = epoll ?d \<and> runq d' = runq ?d @ [p]) (imp_run ?d p)"
    by (rule imp_run_inv [OF inv'])
  then have "barring OutOfBounds (\<lambda>d'. dungeon_inv R d' \<and> dom (imps d') = dom (imps d)
      \<and> epoll d' = epoll d \<and> sleepers d' = sleepers d - {p}
      \<and> runq d' = runq d @ newly (sleepers d) [p]) (imp_run ?d p)"
  proof (rule barring_mono)
    fix d' assume *: "dungeon_inv R d' \<and> imps d' = imps ?d \<and> nr_max d' = nr_max ?d
        \<and> epoll d' = epoll ?d \<and> runq d' = runq ?d @ [p]"
    then have "sleepers d' = sleepers ?d" by (simp add: sleepers_def)
    with * dom sl(1) sleepers_wake [OF i] show "dungeon_inv R d' \<and> dom (imps d') = dom (imps d) \<and> epoll d' = epoll d
        \<and> sleepers d' = sleepers d - {p} \<and> runq d' = runq d @ newly (sleepers d) [p]" by simp
  qed
  with i True show ?thesis by (simp add: imp_wake_def)
qed

text \<open>A whole turn of the epoll thread: who was asleep is queued, once, in the order of the events.\<close>

lemma wake_all_inv:
  "dungeon_inv R d \<Longrightarrow> set ps \<subseteq> dom (imps d) \<Longrightarrow>
     barring OutOfBounds (\<lambda>d'. dungeon_inv R d' \<and> dom (imps d') = dom (imps d) \<and> epoll d' = epoll d
       \<and> sleepers d' = sleepers d - set ps \<and> runq d' = runq d @ newly (sleepers d) ps) (wake_all d ps)"
proof (induction ps arbitrary: d)
  case Nil
  then show ?case by simp
next
  case (Cons p ps)
  then obtain i where i: "imps d p = Some i" by auto
  let ?i = "i\<lparr>body := imp_body_set_timer (body i) 0\<rparr>"
  let ?d = "d\<lparr>imps := (imps d)(p \<mapsto> ?i)\<rparr>"
  have off: "\<not> timer_on (body ?i)"
    by (simp add: imp_body_set_timer_def timer_value_def c_div_def c_mod_def)
  have "imp_ok d p i" using Cons.prems i by (simp add: dungeon_inv_def)
  with off have "imp_ok d p ?i" by (auto simp: imp_ok_def IMP_TIMEDOUT_def)
  with Cons.prems i have inv: "dungeon_inv R ?d" by (intro dungeon_inv_upd) auto
  have dom: "dom (imps ?d) = dom (imps d)" using i by auto
  have sl: "sleepers ?d = sleepers d" using i by (auto simp: sleepers_def)
  have "imps ?d p = Some ?i" by simp
  from imp_wake_inv [OF inv this off] have
    "barring OutOfBounds (\<lambda>d1. barring OutOfBounds
      (\<lambda>d'. dungeon_inv R d' \<and> dom (imps d') = dom (imps d) \<and> epoll d' = epoll d
       \<and> sleepers d' = sleepers d - set (p # ps) \<and> runq d' = runq d @ newly (sleepers d) (p # ps))
      (wake_all d1 ps)) (imp_wake ?d p)"
    unfolding dom sl
  proof (rule barring_mono)
    fix d1 :: "'a dungeon"
    assume d1: "dungeon_inv R d1 \<and> dom (imps d1) = dom (imps d) \<and> epoll d1 = epoll ?d
        \<and> sleepers d1 = sleepers d - {p} \<and> runq d1 = runq ?d @ newly (sleepers d) [p]"
    with Cons.IH [of d1] Cons.prems have "barring OutOfBounds (\<lambda>d'. dungeon_inv R d' \<and> dom (imps d') = dom (imps d1)
        \<and> epoll d' = epoll d1 \<and> sleepers d' = sleepers d1 - set ps \<and> runq d' = runq d1 @ newly (sleepers d1) ps)
        (wake_all d1 ps)" by simp
    then show "barring OutOfBounds (\<lambda>d'. dungeon_inv R d' \<and> dom (imps d') = dom (imps d) \<and> epoll d' = epoll d
       \<and> sleepers d' = sleepers d - set (p # ps) \<and> runq d' = runq d @ newly (sleepers d) (p # ps)) (wake_all d1 ps)"
      by (rule barring_mono) (use d1 in auto)
  qed
  with i show ?case by (simp add: imp_cancel_timer_def)
qed

text \<open>Summoning.\<close>

lemma imp_summon_inv:
  assumes inv: "dungeon_inv R d" and ok: "summoning_ok d s"
  shows "barring OutOfBounds (\<lambda>(d', new). dungeon_inv R d' \<and> (\<forall>q \<in> dom (imps d). imps d' q = imps d q)
           \<and> dom (imps d') \<subseteq> dom (imps d) \<union> set_option (alloc s)) (imp_summon d m s)"
proof (cases "nr_total d \<ge> nr_max d \<or> alloc s = None \<or> new_body s = None")
  case True
  have upd: "dungeon_inv R (d\<lparr>next_imp_id := n\<rparr>)" for n
    using inv by (simp add: dungeon_inv_def queues_ok_def awake_def sleepers_def imp_ok_def)
  from True inv upd show ?thesis
    by (auto simp: imp_summon_def imp_new_def Let_def split: option.split)
next
  case False
  then obtain p b where p: "alloc s = Some p" "new_body s = Some b" "nr_total d < nr_max d" by auto
  with ok have fr: "imps d p = None" "ll_ok s" "\<not> timer_on b" by (auto simp: summoning_ok_def)
  define i where "i = \<lparr>imp_id = next_imp_id d, waitio = False, requested_events = Some [],
     event_mask = 0, body = b, memory = fsm_new s m\<rparr>"
  define d1 where "d1 = d\<lparr>next_imp_id := next_imp_id d + 1, imps := (imps d)(p \<mapsto> i),
     nr_total := nr_total d + 1\<rparr>"
  have run: "imp_summon d m s = bindE (imp_run d1 p) (\<lambda>d. Inr (d, Some p))"
    using p fr by (simp add: imp_summon_def imp_new_def Let_def d1_def i_def)
  have sel: "run_queue d1 = run_queue d" "terminated_queue d1 = terminated_queue d"
    "nr_max d1 = nr_max d" "nr_waitio d1 = nr_waitio d" "epoll d1 = epoll d"
    "imps d1 = (imps d)(p \<mapsto> i)" "nr_total d1 = nr_total d + 1" by (simp_all add: d1_def)
  have aw: "awake d1 = insert p (awake d)" and sl: "sleepers d1 = sleepers d"
    using fr by (auto simp: awake_def sleepers_def sel i_def)
  have "p \<notin> awake d" using fr by (auto simp: awake_def)
  note D = dungeon_invD [OF inv]
  have old: "imp_ok d1 q j" if "imps d1 q = Some j" for q j
  proof (cases "q = p")
    case True
    have "p \<notin> set (runq d)" "p \<notin> set (termq d)" using \<open>p \<notin> awake d\<close> D(3) by auto
    moreover have "j = i" using that True by (simp add: sel)
    ultimately show ?thesis using True by (simp add: imp_ok_def sel i_def IMP_TIMEDOUT_def)
  next
    case False
    with that D(9) [of q j] show ?thesis by (simp add: imp_ok_def sel)
  qed
  have "dungeon_inv (p # R) d1"
  proof (rule dungeon_invI)
    show "distinct ((p # R) @ runq d1 @ termq d1)" "set ((p # R) @ runq d1 @ termq d1) = awake d1"
      using D(2,3) \<open>p \<notin> awake d\<close> aw sel by auto
    show "nr_total d1 = int (card (dom (imps d1)))" using D(4,5) fr by (simp add: sel domIff)
    show "\<And>fd p' ev. epoll d1 fd = Some (p', ev) \<Longrightarrow> p' \<in> dom (imps d1)"
      using D(8) by (auto simp: sel)
  qed (use old D(1,4-7) sl p(3) in \<open>simp_all add: queues_ok_def sel\<close>)
  moreover have "imps d1 p = Some i" "requested_events i = Some []" "\<not> timer_on (body i)"
    using fr by (simp_all add: sel i_def)
  ultimately have "barring OutOfBounds (\<lambda>d'. dungeon_inv R d' \<and> imps d' = imps d1
      \<and> nr_max d' = nr_max d1 \<and> epoll d' = epoll d1 \<and> runq d' = runq d1 @ [p]) (imp_run d1 p)"
    by (rule imp_run_inv)
  then show ?thesis
    unfolding run barring_bindE
    by (rule barring_mono) (use p fr in \<open>auto simp: sel\<close>)
qed

section \<open>Driving an imp\<close>

text \<open>
  While a worker drives \<open>p\<close>: a timer that is set has a request in the list, and as long as no
  service set the timer (\<open>T\<close>) the requests can all be freed.
\<close>

definition driving :: "intptr \<Rightarrow> intptr list \<Rightarrow> bool \<Rightarrow> 'm dungeon \<Rightarrow> bool" where
  "driving p R T d \<longleftrightarrow> dungeon_inv (p # R) d
     \<and> (\<exists>i reqs. imps d p = Some i \<and> requested_events i = Some reqs
          \<and> (timer_on (body i) \<longrightarrow> reqs \<noteq> []) \<and> (T \<or> free_requests reqs = Inr ()))"

lemma driving_imp_ok:
  assumes "dungeon_inv (p # R) d" and "imps d p = Some i"
  shows "imp_ok d p i' \<longleftrightarrow>
     (\<exists>reqs. requested_events i' = Some reqs \<and> length reqs \<le> request_volume
        \<and> (waitio i' \<longrightarrow> reqs = [])) \<and> \<not> IMP_TIMEDOUT i'"
proof -
  have "p \<notin> set (runq d)" "p \<notin> set (termq d)" using dungeon_invD(2) [OF assms(1)] by auto
  then show ?thesis by (auto simp: imp_ok_def)
qed

lemma driving_awake: "dungeon_inv (p # R) d \<Longrightarrow> imps d p = Some i \<Longrightarrow> \<not> waitio i"
proof -
  assume inv: "dungeon_inv (p # R) d" and i: "imps d p = Some i"
  from dungeon_invD(3) [OF inv] have "p \<in> awake d" by auto
  with i show ?thesis by (simp add: awake_def)
qed

lemma free_requests_append:
  "free_requests (xs @ ys) = bindE (free_requests xs) (\<lambda>_. free_requests ys)"
  by (induction xs) (auto split: ev_request.split)

lemma append_request_driving:
  assumes dr: "driving p R T d \<or> dungeon_inv (p # R) d \<and> r = ReqTimer \<and> imps d p \<noteq> None"
    and T: "r = ReqTimer \<longrightarrow> T" and r: "r \<noteq> ReqEvent" and mem: "r = ReqTimer \<longrightarrow> \<not> nomem"
  shows "\<exists>ret d'. append_request d p r nomem = Inr (ret, d') \<and> driving p R T d'
           \<and> dom (imps d') = dom (imps d)"
proof -
  from dr obtain i where i: "imps d p = Some i" and inv: "dungeon_inv (p # R) d"
    by (auto simp: driving_def)
  have ok: "imp_ok d p i" by (rule dungeon_invD(9) [OF inv i])
  then obtain reqs where reqs: "requested_events i = Some reqs" "length reqs \<le> request_volume"
    by (auto simp: imp_ok_def)
  obtain ret reqs' where ap: "list_append False request_volume reqs r nomem = (ret, reqs')"
    by (cases "list_append False request_volume reqs r nomem")
  let ?i = "i\<lparr>requested_events := Some reqs'\<rparr>"
  let ?d = "d\<lparr>imps := (imps d)(p \<mapsto> ?i)\<rparr>"
  have run: "append_request d p r nomem = Inr (ret, ?d)"
    using i reqs ap by (simp add: append_request_def)
  have reqs': "length reqs' \<le> request_volume" "reqs' = reqs \<or> reqs' = reqs @ [r]"
    using ap reqs(2) by (auto simp: list_append_def split: if_splits)
  have aw: "\<not> waitio i" by (rule driving_awake [OF inv i])
  have "imp_ok d p ?i"
    using ok reqs' aw unfolding driving_imp_ok [OF inv i] by (simp add: IMP_TIMEDOUT_def)
  then have inv': "dungeon_inv (p # R) ?d" by (intro dungeon_inv_upd [OF inv i]) simp_all
  have "timer_on (body i) \<longrightarrow> reqs' \<noteq> []"
  proof (cases "r = ReqTimer")
    case True
    then have "reqs' \<noteq> []" using ap mem by (auto simp: list_append_def split: if_splits)
    then show ?thesis by simp
  next
    case False
    with dr reqs(1) i reqs'(2) show ?thesis by (auto simp: driving_def)
  qed
  moreover have "T \<or> free_requests reqs' = Inr ()"
  proof (cases "r = ReqTimer")
    case False
    with r dr reqs(1) i reqs'(2) show ?thesis
      by (cases r) (auto simp: driving_def free_requests_append)
  qed (use T in simp)
  ultimately have "driving p R T ?d" using inv' by (simp add: driving_def)
  then show ?thesis using run i by auto
qed

lemma do_service_driving:
  assumes dr: "driving p R T d"
    and ok: "case s of SetIoev fd ev malloc_ok nomem \<Rightarrow> malloc_ok | SetTimer ms nomem \<Rightarrow> \<not> nomem
               | Summon m sm \<Rightarrow> summoning_ok d sm"
  shows "barring OutOfBounds (\<lambda>d'. driving p R (T \<or> is_set_timer s) d'
           \<and> dom (imps d') \<subseteq> dom (imps d)
               \<union> (case s of Summon m sm \<Rightarrow> set_option (alloc sm) | _ \<Rightarrow> {})) (do_service d p s)"
proof (cases s)
  case (SetIoev fd ev malloc_ok nomem)
  let ?r = "ReqIo \<lparr>ev_mask = EV_MASK_USER, events = ev, ev_fd = fd, ev_imp = p\<rparr>"
  from append_request_driving [of p R T d ?r nomem] dr SetIoev ok show ?thesis
    by (auto simp: do_service_def imp_set_ioev_def)
next
  case (SetTimer ms nomem)
  from dr obtain i where i: "imps d p = Some i" and inv: "dungeon_inv (p # R) d"
    by (auto simp: driving_def)
  let ?i = "i\<lparr>body := imp_body_set_timer (body i) ms\<rparr>"
  let ?d = "d\<lparr>imps := (imps d)(p \<mapsto> ?i)\<rparr>"
  have "imp_ok d p ?i"
    using dungeon_invD(9) [OF inv i] unfolding driving_imp_ok [OF inv i]
    by (simp add: IMP_TIMEDOUT_def)
  then have "dungeon_inv (p # R) ?d" by (intro dungeon_inv_upd [OF inv i]) simp_all
  moreover have "\<not> nomem" using ok SetTimer by simp
  ultimately obtain ret d' where "append_request ?d p ReqTimer nomem = Inr (ret, d')"
    "driving p R True d'" "dom (imps d') = dom (imps ?d)"
    using append_request_driving [of p R True ?d ReqTimer nomem] by auto
  with i SetTimer show ?thesis by (auto simp: do_service_def imp_set_timer_def)
next
  case (Summon m sm)
  with ok have "summoning_ok d sm" by simp
  with dr have "barring OutOfBounds (\<lambda>(d', new). dungeon_inv (p # R) d'
      \<and> (\<forall>q \<in> dom (imps d). imps d' q = imps d q)
      \<and> dom (imps d') \<subseteq> dom (imps d) \<union> set_option (alloc sm)) (imp_summon d m sm)"
    by (intro imp_summon_inv) (simp_all add: driving_def)
  then show ?thesis
    unfolding do_service_def Summon service.case barring_bindE
  proof (rule barring_mono)
    fix x assume "case x of (d', new) \<Rightarrow> dungeon_inv (p # R) d'
        \<and> (\<forall>q \<in> dom (imps d). imps d' q = imps d q)
        \<and> dom (imps d') \<subseteq> dom (imps d) \<union> set_option (alloc sm)"
    moreover obtain d' new where x: "x = (d', new)" by (cases x)
    moreover obtain i where i: "imps d p = Some i" using dr by (auto simp: driving_def)
    ultimately have "\<forall>q \<in> dom (imps d). imps d' q = imps d q" "dungeon_inv (p # R) d'"
      "dom (imps d') \<subseteq> dom (imps d) \<union> set_option (alloc sm)" by auto
    moreover from this(1) i have "imps d' p = Some i" by (metis domI)
    ultimately show "barring OutOfBounds (\<lambda>d'. driving p R (T \<or> is_set_timer (Summon m sm)) d'
        \<and> dom (imps d') \<subseteq> dom (imps d) \<union> set_option (alloc sm)) (case x of (d, new) \<Rightarrow> Inr d)"
      using dr i by (simp add: x driving_def)
  qed
qed

lemma do_services_driving:
  "driving p R T d \<Longrightarrow> services_ok d0 taken ss \<Longrightarrow> dom (imps d) \<subseteq> dom (imps d0) \<union> set taken \<Longrightarrow>
     barring OutOfBounds (driving p R (T \<or> \<not> list_all (\<lambda>s. \<not> is_set_timer s) ss)) (do_services d p ss)"
proof (induction ss arbitrary: d T taken)
  case Nil
  then show ?case by simp
next
  case (Cons s ss)
  let ?taken = "(case s of Summon m sm \<Rightarrow> (case alloc sm of None \<Rightarrow> [] | Some q \<Rightarrow> [q]) | _ \<Rightarrow> []) @ taken"
  have rest: "services_ok d0 ?taken ss" using Cons.prems(2) by (auto split: service.splits option.splits)
  have "barring OutOfBounds (\<lambda>d'. driving p R (T \<or> is_set_timer s) d'
      \<and> dom (imps d') \<subseteq> dom (imps d)
          \<union> (case s of Summon m sm \<Rightarrow> set_option (alloc sm) | _ \<Rightarrow> {})) (do_service d p s)"
    using Cons.prems by (intro do_service_driving)
      (auto simp: summoning_ok_def domIff subset_iff split: service.splits option.splits)
  then show ?case
    unfolding do_services.simps barring_bindE
  proof (rule barring_mono)
    fix d' :: "'a dungeon"
    assume d': "driving p R (T \<or> is_set_timer s) d' \<and> dom (imps d') \<subseteq> dom (imps d)
        \<union> (case s of Summon m sm \<Rightarrow> set_option (alloc sm) | _ \<Rightarrow> {})"
    have "set ?taken = (case s of Summon m sm \<Rightarrow> set_option (alloc sm) | _ \<Rightarrow> {}) \<union> set taken"
      by (cases s) (auto split: option.splits)
    with d' have "dom (imps d') \<subseteq> dom (imps d0) \<union> set ?taken" using Cons.prems(3) by blast
    from Cons.IH [OF conjunct1 [OF d'] rest this]
    show "barring OutOfBounds (driving p R (T \<or> \<not> list_all (\<lambda>s. \<not> is_set_timer s) (s # ss)))
        (do_services d' p ss)" by (simp add: disj_assoc)
  qed
qed

text \<open>
  What arming the descriptors \<open>fds\<close> for \<open>p\<close> does to the epoll instance: those that \<open>epoll_ctl\<close>
  accepts are armed for \<open>p\<close>, and nothing else changes.
\<close>

definition arms :: "intptr \<Rightarrow> (int \<Rightarrow> bool \<times> bool) \<Rightarrow> int list \<Rightarrow> (int \<rightharpoonup> intptr \<times> u32)
    \<Rightarrow> (int \<rightharpoonup> intptr \<times> u32) \<Rightarrow> bool" where
  "arms p ctl fds ep0 ep \<longleftrightarrow>
     (\<forall>fd. if fd \<in> set fds \<and> (fst (ctl fd) \<or> snd (ctl fd)) then \<exists>ev. ep fd = Some (p, ev) else ep fd = ep0 fd)"

lemma arms_Nil [simp]: "arms p ctl [] ep0 ep \<longleftrightarrow> ep = ep0"
  by (auto simp: arms_def)

lemma arms_Cons: "arms p ctl [fd] ep0 ep1 \<Longrightarrow> arms p ctl fds ep1 ep2 \<Longrightarrow> arms p ctl (fd # fds) ep0 ep2"
  unfolding arms_def by (smt (verit) empty_iff insert_iff list.set)

lemma arms_owner: "arms p ctl fds ep0 ep \<Longrightarrow> ep fd = Some (q, ev) \<Longrightarrow> q = p \<or> ep0 fd = Some (q, ev)"
  unfolding arms_def by (metis option.inject prod.inject)

definition request_fd :: "imp_body \<Rightarrow> ev_request \<Rightarrow> int" where
  "request_fd b r = (case r of ReqTimer \<Rightarrow> timer_fd b | ReqEvent \<Rightarrow> event_fd b | ReqIo e \<Rightarrow> ev_fd e)"

lemma arm_request_spec:
  assumes "imps d p = Some i"
  shows "\<exists>ep. arm_request d p r ctl = Inr (d\<lparr>imps := (imps d)(p \<mapsto> i\<lparr>waitio := True\<rparr>), epoll := ep\<rparr>)
     \<and> arms p ctl [request_fd (body i) r] (epoll d) ep"
proof -
  let ?fd = "request_fd (body i) r"
  let ?ev = "case r of ReqIo e \<Rightarrow> or (events e) EPOLLONESHOT | _ \<Rightarrow> or EPOLLIN EPOLLONESHOT"
  let ?ep = "if fst (ctl ?fd) \<or> snd (ctl ?fd) then (epoll d)(?fd \<mapsto> (p, ?ev)) else epoll d"
  have "arm_request d p r ctl = Inr (d\<lparr>imps := (imps d)(p \<mapsto> i\<lparr>waitio := True\<rparr>), epoll := ?ep\<rparr>)"
    using assms by (cases r; simp add: arm_request_def set_poll_action_def request_fd_def)
  moreover have "arms p ctl [?fd] (epoll d) ?ep" by (auto simp: arms_def)
  ultimately show ?thesis by blast
qed

text \<open>The loop over the requests, in closed form.\<close>

lemma arm_loop_spec:
  "imps d p = Some i \<Longrightarrow> requested_events i = Some reqs \<Longrightarrow> length reqs < fuel \<Longrightarrow>
     \<exists>ep. arm_loop fuel d p ctl c = Inr (c + length reqs,
         d\<lparr>imps := (imps d)(p \<mapsto> i\<lparr>requested_events := Some [], waitio := waitio i \<or> reqs \<noteq> []\<rparr>),
           epoll := ep\<rparr>)
       \<and> arms p ctl (map (request_fd (body i)) reqs) (epoll d) ep"
proof (induction reqs arbitrary: d i fuel c)
  case Nil
  then obtain fuel' where "fuel = Suc fuel'" by (cases fuel) auto
  with Nil show ?case by (intro exI [of _ "epoll d"]) (simp add: list_fetch_def fun_upd_def)
next
  case (Cons r reqs)
  then obtain fuel' where fuel: "fuel = Suc fuel'" by (cases fuel) auto
  let ?d0 = "d\<lparr>imps := (imps d)(p \<mapsto> i\<lparr>requested_events := Some reqs\<rparr>)\<rparr>"
  let ?i = "i\<lparr>requested_events := Some reqs, waitio := True\<rparr>"
  let ?d1 = "\<lambda>ep. d\<lparr>imps := (imps d)(p \<mapsto> ?i), epoll := ep\<rparr>"
  have "imps ?d0 p = Some (i\<lparr>requested_events := Some reqs\<rparr>)" by simp
  from arm_request_spec [OF this, of r ctl] obtain ep where
    arm: "arm_request ?d0 p r ctl = Inr (?d1 ep)" and ep: "arms p ctl [request_fd (body i) r] (epoll d) ep" by auto
  have "imps (?d1 ep) p = Some ?i" "requested_events ?i = Some reqs" "length reqs < fuel'"
    using Cons.prems(3) fuel by simp_all
  from Cons.IH [OF this, of "Suc c"] obtain ep' where
    loop: "arm_loop fuel' (?d1 ep) p ctl (Suc c) = Inr (Suc c + length reqs,
      d\<lparr>imps := (imps d)(p \<mapsto> i\<lparr>requested_events := Some [], waitio := True\<rparr>), epoll := ep'\<rparr>)"
    and ep': "arms p ctl (map (request_fd (body i)) reqs) ep ep'" by (auto simp: fun_upd_def cong: if_cong)
  have "arm_loop fuel d p ctl c = arm_loop fuel' (?d1 ep) p ctl (Suc c)"
    using Cons.prems fuel arm by (simp add: list_fetch_def)
  with loop arms_Cons [OF ep ep'] show ?case
    by (intro exI [of _ ep']) (simp add: fun_upd_def)
qed

lemma dungeon_inv_epoll:
  assumes "dungeon_inv R d"
    and "\<And>fd q ev. ep fd = Some (q, ev) \<Longrightarrow> q \<in> dom (imps d)"
  shows "dungeon_inv R (d\<lparr>epoll := ep\<rparr>)"
  using assms by (auto simp: dungeon_inv_def queues_ok_def awake_def sleepers_def imp_ok_def)

lemma after_yield_sleep:
  assumes inv: "dungeon_inv (p # R) d" and i: "imps d p = Some i"
    and j: "j = i\<lparr>requested_events := Some [], waitio := True\<rparr>"
  shows "dungeon_inv R (d\<lparr>imps := (imps d)(p \<mapsto> j), nr_waitio := nr_waitio d + 1\<rparr>)"
proof (rule dungeon_invI)
  let ?d = "d\<lparr>imps := (imps d)(p \<mapsto> j), nr_waitio := nr_waitio d + 1\<rparr>"
  note D = dungeon_invD [OF inv]
  have p: "p \<notin> set R" "p \<notin> set (runq d)" "p \<notin> set (termq d)" using D(2) by auto
  have "\<not> waitio i" by (rule driving_awake [OF inv i])
  then have sl: "p \<notin> sleepers d" "sleepers ?d = insert p (sleepers d)" "awake ?d = awake d - {p}"
    using i by (auto simp: sleepers_def awake_def j)
  have dom: "dom (imps ?d) = dom (imps d)" using i by auto
  show "distinct (R @ runq ?d @ termq ?d)" using D(2) by simp
  show "set (R @ runq ?d @ termq ?d) = awake ?d" unfolding sl(3) D(3) [symmetric] using p by auto
  have "card (insert p (sleepers d)) = Suc (card (sleepers d))"
    using sl(1) finite_sleepers [OF inv] by simp
  then show "nr_waitio ?d = int (card (sleepers ?d))" unfolding sl(2) using D(7) by simp
  show "finite (dom (imps ?d))" "nr_total ?d = int (card (dom (imps ?d)))"
    unfolding dom using D(4,5) by simp_all
  show "\<And>fd q ev. epoll ?d fd = Some (q, ev) \<Longrightarrow> q \<in> dom (imps ?d)"
    unfolding dom using D(8) by simp
  show "imp_ok ?d q k" if "imps ?d q = Some k" for q k
    using that D(9) D(9) [OF i] p by (cases "q = p") (auto simp: imp_ok_def j IMP_TIMEDOUT_def)
qed (use dungeon_invD(1,6) [OF inv] in \<open>simp_all add: queues_ok_def\<close>)

lemma reduct_spec:
  assumes "imps d p = Some i"
  shows "imp_reduct_event_mask d p False rd_e = Inr (if rd_e then EV_MASK_EVENT else 0,
     d\<lparr>imps := (imps d)(p \<mapsto> i\<lparr>body := imp_body_set_timer (body i) 0\<rparr>)\<rparr>)"
  using assms
  by (simp add: imp_reduct_event_mask_def imp_body_cleanup_timer_def imp_body_cleanup_event_def
      imp_cancel_timer_def Let_def)

lemma masks_disjoint:
  "and (if rd_e then EV_MASK_EVENT else 0) EV_MASK_KILL = 0"
  "and (if rd_e then EV_MASK_EVENT else 0) EV_MASK_GLOBAL_ALERT = 0"
  "and (if rd_e then EV_MASK_EVENT else 0) EV_MASK_TIMER = 0"
  by (simp_all add: ev_mask_defs)

lemma set_timer_0: "\<not> timer_on (imp_body_set_timer b 0)"
  by (simp add: imp_body_set_timer_def timer_value_def c_div_def c_mod_def)

text \<open>
  Where an imp that asked for events on \<open>fds\<close> ends up when it yields: queued to run if there are
  none, otherwise asleep, and armed on those that \<open>epoll_ctl\<close> accepted.
\<close>

definition placed :: "intptr \<Rightarrow> (int \<Rightarrow> bool \<times> bool) \<Rightarrow> int list \<Rightarrow> (int \<rightharpoonup> intptr \<times> u32) \<Rightarrow> 'm dungeon \<Rightarrow> bool" where
  "placed p ctl fds ep d \<longleftrightarrow> (if fds = [] then p \<in> set (runq d) else p \<in> sleepers d) \<and> arms p ctl fds ep (epoll d)"

lemma yield_inv:
  assumes dr: "driving p R T d" and i: "imps d p = Some i" and reqs: "requested_events i = Some reqs"
  shows "barring OutOfBounds (\<lambda>d'. dungeon_inv R d' \<and> placed p ctl (map (request_fd (body i)) reqs) (epoll d) d')
     (bindE (arm_loop (Suc request_volume) d p ctl 0) (\<lambda>(count, d). after_yield d p count))"
proof -
  from dr i reqs have timer: "timer_on (body i) \<longrightarrow> reqs \<noteq> []" and inv: "dungeon_inv (p # R) d"
    by (auto simp: driving_def)
  have "length reqs < Suc request_volume" using dungeon_invD(9) [OF inv i] reqs
    by (auto simp: imp_ok_def)
  from arm_loop_spec [OF i reqs this, of ctl 0] obtain ep where
    run: "arm_loop (Suc request_volume) d p ctl 0 = Inr (length reqs,
       d\<lparr>imps := (imps d)(p \<mapsto> i\<lparr>requested_events := Some [], waitio := waitio i \<or> reqs \<noteq> []\<rparr>),
         epoll := ep\<rparr>)"
    and arms: "arms p ctl (map (request_fd (body i)) reqs) (epoll d) ep" by auto
  have ep': "\<And>fd q ev. ep fd = Some (q, ev) \<Longrightarrow> q \<in> dom (imps d)"
    using arms_owner [OF arms] i dungeon_invD(8) [OF inv] by blast
  show ?thesis
  proof (cases "reqs = []")
    case True
    let ?d = "d\<lparr>epoll := ep\<rparr>"
    have "i\<lparr>requested_events := Some [], waitio := waitio i\<rparr> = i" using True reqs by simp
    then have "(imps d)(p \<mapsto> i\<lparr>requested_events := Some [], waitio := waitio i\<rparr>) = imps d"
      using i by (simp add: fun_upd_idem)
    then have run': "arm_loop (Suc request_volume) d p ctl 0 = Inr (0, ?d)" using run True by simp
    have "dungeon_inv (p # R) ?d" by (rule dungeon_inv_epoll [OF inv ep'])
    moreover have "imps ?d p = Some i" "requested_events i = Some []" "\<not> timer_on (body i)"
      using i reqs timer True by auto
    ultimately have "barring OutOfBounds (\<lambda>d'. dungeon_inv R d' \<and> imps d' = imps ?d
        \<and> nr_max d' = nr_max ?d \<and> epoll d' = epoll ?d \<and> runq d' = runq ?d @ [p]) (imp_run ?d p)"
      by (rule imp_run_inv)
    then show ?thesis
      unfolding run' using True arms by (simp add: after_yield_def) (erule barring_mono, simp add: placed_def)
  next
    case False
    let ?j = "i\<lparr>requested_events := Some [], waitio := True\<rparr>"
    have "dungeon_inv R (d\<lparr>imps := (imps d)(p \<mapsto> ?j), nr_waitio := nr_waitio d + 1\<rparr>)"
      by (rule after_yield_sleep [OF inv i refl])
    then have "dungeon_inv R (d\<lparr>imps := (imps d)(p \<mapsto> ?j), nr_waitio := nr_waitio d + 1, epoll := ep\<rparr>)"
      by (rule dungeon_inv_epoll) (use ep' in auto)
    moreover have "d\<lparr>imps := (imps d)(p \<mapsto> ?j), nr_waitio := nr_waitio d + 1, epoll := ep\<rparr>
        = d\<lparr>imps := (imps d)(p \<mapsto> ?j), epoll := ep, nr_waitio := nr_waitio d + 1\<rparr>" by simp
    ultimately show ?thesis using run False arms
      by (simp add: after_yield_def placed_def sleepers_def)
  qed
qed

lemma driver_begin_inv:
  assumes inv: "dungeon_inv (p # R) d" and i: "imps d p = Some i" "requested_events i = Some []"
    and ok: "services_ok d [] svcs" "ret = TO_TERM \<longrightarrow> list_all (\<lambda>s. \<not> is_set_timer s) svcs"
  shows "barring OutOfBounds (\<lambda>(yielded, d').
      if yielded then ret \<noteq> TO_TERM \<and> (\<exists>T. driving p R T d')
      else ret = TO_TERM \<and> dungeon_inv R d' \<and> p \<in> set (termq d'))
     (driver_begin d p False rd_e (m, ret, svcs))"
proof -
  let ?mask = "if rd_e then EV_MASK_EVENT else 0"
  define j where "j = i\<lparr>body := imp_body_set_timer (body i) 0, event_mask := ?mask\<rparr>"
  define d1 where "d1 = d\<lparr>imps := (imps d)(p \<mapsto> j)\<rparr>"
  have run: "driver_begin d p False rd_e (m, ret, svcs) =
     bindE (do_services d1 p svcs) (\<lambda>d.
     bindE (upd_imp d p (\<lambda>i. i\<lparr>memory := m\<rparr>)) (\<lambda>d.
     if ret = TO_TERM then bindE (imp_term d p) (\<lambda>d. Inr (False, d)) else Inr (True, d)))"
    unfolding driver_begin_def reduct_spec [OF i(1)]
    using masks_disjoint [of rd_e] by (simp add: j_def d1_def)
  have "imp_ok d p j"
    using dungeon_invD(9) [OF inv i(1)] masks_disjoint [of rd_e]
    unfolding driving_imp_ok [OF inv i(1)] by (auto simp: j_def IMP_TIMEDOUT_def)
  then have "dungeon_inv (p # R) d1"
    unfolding d1_def by (intro dungeon_inv_upd [OF inv i(1)]) (simp_all add: j_def)
  then have "driving p R False d1"
    using i(2) set_timer_0 [of "body i"] by (simp add: driving_def d1_def j_def)
  moreover have "dom (imps d1) \<subseteq> dom (imps d) \<union> set []" using i by (auto simp: d1_def)
  ultimately have "barring OutOfBounds
      (driving p R (False \<or> \<not> list_all (\<lambda>s. \<not> is_set_timer s) svcs)) (do_services d1 p svcs)"
    by (intro do_services_driving [OF _ ok(1)])
  then show ?thesis
    unfolding run barring_bindE
  proof (rule barring_mono)
    let ?T = "\<not> list_all (\<lambda>s. \<not> is_set_timer s) svcs"
    fix d2 :: "'a dungeon" assume "driving p R (False \<or> ?T) d2"
    then obtain k reqs where k: "imps d2 p = Some k" "requested_events k = Some reqs"
        "timer_on (body k) \<longrightarrow> reqs \<noteq> []" "?T \<or> free_requests reqs = Inr ()"
      and inv2: "dungeon_inv (p # R) d2" by (auto simp: driving_def)
    let ?d3 = "d2\<lparr>imps := (imps d2)(p \<mapsto> k\<lparr>memory := m\<rparr>)\<rparr>"
    have "imp_ok d2 p (k\<lparr>memory := m\<rparr>)"
      using dungeon_invD(9) [OF inv2 k(1)] by (simp add: imp_ok_def IMP_TIMEDOUT_def)
    then have inv3: "dungeon_inv (p # R) ?d3" by (intro dungeon_inv_upd [OF inv2 k(1)]) simp_all
    have k3: "imps ?d3 p = Some (k\<lparr>memory := m\<rparr>)" "requested_events (k\<lparr>memory := m\<rparr>) = Some reqs"
      using k by simp_all
    from inv3 k have dr: "driving p R ?T ?d3" by (auto simp: driving_def)
    have "\<exists>d'. imp_term ?d3 p = Inr d' \<and> dungeon_inv R d' \<and> p \<in> set (termq d')" if "ret = TO_TERM"
    proof -
      have "free_requests reqs = Inr ()" using that ok(2) k(4) by simp
      from imp_term_inv [OF inv3 k3 this] show ?thesis by auto
    qed
    with dr k(1) show "barring OutOfBounds (\<lambda>x. barring OutOfBounds
        (\<lambda>(yielded, d'). if yielded then ret \<noteq> TO_TERM \<and> (\<exists>T. driving p R T d')
           else ret = TO_TERM \<and> dungeon_inv R d' \<and> p \<in> set (termq d'))
        (if ret = TO_TERM then bindE (imp_term x p) (\<lambda>d. Inr (False, d)) else Inr (True, x)))
        (upd_imp d2 p (\<lambda>i. i\<lparr>memory := m\<rparr>))" by auto
  qed
qed

text \<open>
  The requests a list of services adds for \<open>p\<close>; the list of \<open>p\<close> keeps the first
  \<open>request_volume\<close> of them, and \<open>asked\<close> are their descriptors.
\<close>

definition requests_of :: "intptr \<Rightarrow> 'm service \<Rightarrow> ev_request list" where
  "requests_of p s =
     (case s of
        SetIoev fd ev malloc_ok nomem \<Rightarrow>
          if nomem then [] else [ReqIo \<lparr>ev_mask = EV_MASK_USER, events = ev, ev_fd = fd, ev_imp = p\<rparr>]
      | SetTimer ms nomem \<Rightarrow> if nomem then [] else [ReqTimer]
      | Summon m sm \<Rightarrow> [])"

definition asked :: "'m imp \<Rightarrow> intptr \<Rightarrow> 'm service list \<Rightarrow> int list" where
  "asked i p svcs = map (request_fd (body i)) (take request_volume (concat (map (requests_of p) svcs)))"

text \<open>\<open>p\<close> is in the dungeon, asks for \<open>reqs\<close>, and its descriptors are those of \<open>b\<close>.\<close>

definition asking :: "intptr \<Rightarrow> imp_body \<Rightarrow> ev_request list \<Rightarrow> 'm dungeon \<Rightarrow> bool" where
  "asking p b reqs d \<longleftrightarrow> (\<exists>i. imps d p = Some i \<and> requested_events i = Some reqs
     \<and> timer_fd (body i) = timer_fd b \<and> event_fd (body i) = event_fd b)"

lemma set_timer_fds [simp]:
  "timer_fd (imp_body_set_timer b ms) = timer_fd b" "event_fd (imp_body_set_timer b ms) = event_fd b"
  by (simp_all add: imp_body_set_timer_def split: prod.split)

lemma append_request_asking:
  assumes "asking p b reqs d" and "length reqs \<le> request_volume" and "append_request d p r nomem = Inr (ret, d')"
  shows "epoll d' = epoll d \<and> asking p b (take request_volume (reqs @ (if nomem then [] else [r]))) d'"
  using assms by (auto simp: asking_def append_request_def list_append_def Let_def bindE_eq_Inr_iff split: if_splits)

lemma imp_run_same:
  "imp_run d p = Inr d' \<Longrightarrow> imps d' = imps d \<and> epoll d' = epoll d \<and> nr_waitio d' = nr_waitio d"
  by (auto simp: imp_run_def bindE_eq_Inr_iff)

lemma do_service_asking:
  assumes "asking p b reqs d" and "length reqs \<le> request_volume" and "do_service d p s = Inr d'"
    and "\<forall>m sm. s = Summon m sm \<longrightarrow> alloc sm \<noteq> Some p"
  shows "epoll d' = epoll d \<and> asking p b (take request_volume (reqs @ requests_of p s)) d'"
proof (cases s)
  case (SetIoev fd ev malloc_ok nomem)
  let ?r = "ReqIo \<lparr>ev_mask = EV_MASK_USER, events = ev, ev_fd = fd, ev_imp = p\<rparr>"
  from SetIoev assms(3) obtain ret where "append_request d p ?r nomem = Inr (ret, d')"
    by (auto simp: do_service_def imp_set_ioev_def bindE_eq_Inr_iff split: if_splits)
  from append_request_asking [OF assms(1,2) this] SetIoev show ?thesis by (simp add: requests_of_def)
next
  case (SetTimer ms nomem)
  from assms(1) obtain i where i: "imps d p = Some i" by (auto simp: asking_def)
  let ?d = "d\<lparr>imps := (imps d)(p \<mapsto> i\<lparr>body := imp_body_set_timer (body i) ms\<rparr>)\<rparr>"
  have "asking p b reqs ?d" using assms(1) i by (auto simp: asking_def)
  moreover from SetTimer assms(3) i obtain ret where "append_request ?d p ReqTimer nomem = Inr (ret, d')"
    by (auto simp: do_service_def imp_set_timer_def bindE_eq_Inr_iff)
  ultimately have "epoll d' = epoll ?d
      \<and> asking p b (take request_volume (reqs @ (if nomem then [] else [ReqTimer]))) d'"
    using append_request_asking assms(2) by blast
  with SetTimer show ?thesis by (simp add: requests_of_def)
next
  case (Summon m sm)
  with assms show ?thesis
    by (auto simp: do_service_def requests_of_def imp_summon_def Let_def asking_def bindE_eq_Inr_iff
        split: if_splits option.splits dest!: imp_run_same)
qed

lemma do_services_asking:
  "asking p b reqs d \<Longrightarrow> length reqs \<le> request_volume \<Longrightarrow> do_services d p ss = Inr d' \<Longrightarrow>
     \<forall>m sm. Summon m sm \<in> set ss \<longrightarrow> alloc sm \<noteq> Some p \<Longrightarrow>
     epoll d' = epoll d \<and> asking p b (take request_volume (reqs @ concat (map (requests_of p) ss))) d'"
proof (induction ss arbitrary: d reqs)
  case (Cons s ss)
  then obtain d1 where d1: "do_service d p s = Inr d1" "do_services d1 p ss = Inr d'" by (auto simp: bindE_eq_Inr_iff)
  have "\<forall>m sm. s = Summon m sm \<longrightarrow> alloc sm \<noteq> Some p" using Cons.prems(4) by auto
  note 1 = do_service_asking [OF Cons.prems(1,2) d1(1) this]
  have "epoll d' = epoll d1 \<and> asking p b (take request_volume
      (take request_volume (reqs @ requests_of p s) @ concat (map (requests_of p) ss))) d'"
    using 1 d1(2) Cons.prems(4) by (intro Cons.IH) auto
  moreover have "take n (take n xs @ ys) = take n (xs @ ys)" for n and xs ys :: "ev_request list"
    by (cases "length xs \<le> n") simp_all
  ultimately show ?case using 1 by (simp only: append_assoc list.map concat.simps)
qed simp

lemma services_ok_fresh:
  "services_ok d taken svcs \<Longrightarrow> imps d p \<noteq> None \<Longrightarrow> Summon m sm \<in> set svcs \<Longrightarrow> alloc sm \<noteq> Some p"
  by (induction svcs arbitrary: taken)
    (auto simp: summoning_ok_def split: service.splits option.splits)

lemma imp_term_same: "imp_term d p = Inr d' \<Longrightarrow> imps d' = imps d \<and> epoll d' = epoll d"
  by (auto simp: imp_term_def bindE_eq_Inr_iff)

lemma driver_begin_asking:
  assumes i: "imps d p = Some i" and "requested_events i = Some []"
    and fresh: "\<forall>m sm. Summon m sm \<in> set svcs \<longrightarrow> alloc sm \<noteq> Some p"
    and run: "driver_begin d p False rd_e (m, ret, svcs) = Inr (yielded, d')"
  shows "epoll d' = epoll d \<and> asking p (body i) (take request_volume (concat (map (requests_of p) svcs))) d'"
proof -
  let ?mask = "if rd_e then EV_MASK_EVENT else 0"
  let ?d = "d\<lparr>imps := (imps d)(p \<mapsto> i\<lparr>body := imp_body_set_timer (body i) 0, event_mask := ?mask\<rparr>)\<rparr>"
  from run obtain d1 d2 where d: "do_services ?d p svcs = Inr d1"
    "upd_imp d1 p (\<lambda>i. i\<lparr>memory := m\<rparr>) = Inr d2" "imps d' = imps d2 \<and> epoll d' = epoll d2"
    unfolding driver_begin_def reduct_spec [OF i(1)]
    using masks_disjoint [of rd_e] by (auto simp: bindE_eq_Inr_iff split: if_splits dest!: imp_term_same)
  have "asking p (body i) [] ?d" using assms(2) by (simp add: asking_def)
  from do_services_asking [OF this _ d(1)] fresh have
    "epoll d1 = epoll d \<and> asking p (body i) (take request_volume (concat (map (requests_of p) svcs))) d1" by simp
  with d(2,3) show ?thesis by (auto simp: asking_def upd_imp_def bindE_eq_Inr_iff)
qed

lemma imp_driver_inv:
  assumes "dungeon_inv (p # R) d" and i: "imps d p = Some i" "requested_events i = Some []"
    and ok: "services_ok d [] svcs" "ret = TO_TERM \<longrightarrow> list_all (\<lambda>s. \<not> is_set_timer s) svcs"
  shows "barring OutOfBounds (\<lambda>d'. dungeon_inv R d'
      \<and> (if ret = TO_TERM then p \<in> set (termq d') \<and> epoll d' = epoll d
         else placed p ctl (asked i p svcs) (epoll d) d'))
     (imp_driver d p False rd_e (m, ret, svcs) ctl)"
  unfolding driver_begin_spec barring_bindE
proof (rule barring_mono [OF driver_begin_inv [OF assms, of rd_e m]])
  fix x :: "bool \<times> 'a dungeon"
  assume x: "case x of (yielded, d') \<Rightarrow> if yielded then ret \<noteq> TO_TERM \<and> (\<exists>T. driving p R T d')
      else ret = TO_TERM \<and> dungeon_inv R d' \<and> p \<in> set (termq d')"
    and run: "driver_begin d p False rd_e (m, ret, svcs) = Inr x"
  let ?reqs = "take request_volume (concat (map (requests_of p) svcs))"
  obtain yielded d' where xd: "x = (yielded, d')" by (cases x)
  have "\<forall>m sm. Summon m sm \<in> set svcs \<longrightarrow> alloc sm \<noteq> Some p" using services_ok_fresh [OF ok(1)] i(1) by auto
  from driver_begin_asking [OF i this run [unfolded xd]] obtain j where
    ep: "epoll d' = epoll d" and j: "imps d' p = Some j" "requested_events j = Some ?reqs"
      "timer_fd (body j) = timer_fd (body i)" "event_fd (body j) = event_fd (body i)" by (auto simp: asking_def)
  have "request_fd (body j) = request_fd (body i)" using j(3,4) by (simp add: request_fd_def fun_eq_iff split: ev_request.split)
  then have fds: "map (request_fd (body j)) ?reqs = asked i p svcs" by (simp add: asked_def)
  show "barring OutOfBounds (\<lambda>d'. dungeon_inv R d'
      \<and> (if ret = TO_TERM then p \<in> set (termq d') \<and> epoll d' = epoll d
         else placed p ctl (asked i p svcs) (epoll d) d'))
      (case x of (yielded, d) \<Rightarrow>
         if yielded
         then bindE (arm_loop (Suc request_volume) d p ctl 0) (\<lambda>(count, d). after_yield d p count)
         else Inr d)"
  proof (cases yielded)
    case True
    with x xd obtain T where "driving p R T d'" "ret \<noteq> TO_TERM" by auto
    from yield_inv [OF this(1) j(1,2), of ctl] this(2) True xd show ?thesis
      unfolding fds ep by (simp del: arm_loop.simps barring_bindE)
  qed (use x xd ep in auto)
qed

section \<open>Taking an imp out of a queue, and dismissing it\<close>

lemma run_dequeue_inv:
  assumes inv: "dungeon_inv R d" and q: "runq d = p # ps"
  shows "\<exists>q'. queue_dequeue_nb (run_queue d) = Inr (0, Some p, q') \<and> queue_contents q' = ps
     \<and> q_max q' = q_max (run_queue d) \<and> dungeon_inv (p # R) (d\<lparr>run_queue := q'\<rparr>)"
proof -
  note D = dungeon_invD [OF inv]
  have wf: "queue_wf (run_queue d)" using D(1) by (simp add: queues_ok_def)
  from q2.deq_item [OF wf q] obtain q' where
    q': "queue_dequeue_nb (run_queue d) = Inr (0, Some p, q')" "queue_wf q'" "queue_contents q' = ps"
    by blast
  have mx: "q_max q' = q_max (run_queue d)"
    using q'(1) by (auto simp: queue_dequeue_nb_def queue_take_def bindE_eq_Inr_iff split: if_splits)
  let ?d = "d\<lparr>run_queue := q'\<rparr>"
  have same: "awake ?d = awake d" "sleepers ?d = sleepers d" by (simp_all add: awake_def sleepers_def)
  have "imp_ok ?d s j" if "imps ?d s = Some j" for s j
    using that D(9) [of s j] q q'(3) by (auto simp: imp_ok_def)
  then have "dungeon_inv (p # R) ?d"
    using D(2,3) q q' mx
    by (intro dungeon_invI) (use D(1,4-8) in \<open>auto simp: queues_ok_def same\<close>)
  with q' mx show ?thesis by blast
qed

lemma term_dequeue_inv:
  assumes inv: "dungeon_inv R d" and q: "termq d = p # ps"
  shows "\<exists>q'. queue_dequeue_nb (terminated_queue d) = Inr (0, Some p, q') \<and> queue_contents q' = ps
     \<and> q_max q' = q_max (terminated_queue d) \<and> dungeon_inv (p # R) (d\<lparr>terminated_queue := q'\<rparr>)"
proof -
  note D = dungeon_invD [OF inv]
  have wf: "queue_wf (terminated_queue d)" using D(1) by (simp add: queues_ok_def)
  from q2.deq_item [OF wf q] obtain q' where
    q': "queue_dequeue_nb (terminated_queue d) = Inr (0, Some p, q')" "queue_wf q'"
      "queue_contents q' = ps"
    by blast
  have mx: "q_max q' = q_max (terminated_queue d)"
    using q'(1) by (auto simp: queue_dequeue_nb_def queue_take_def bindE_eq_Inr_iff split: if_splits)
  let ?d = "d\<lparr>terminated_queue := q'\<rparr>"
  have same: "awake ?d = awake d" "sleepers ?d = sleepers d" by (simp_all add: awake_def sleepers_def)
  have "imp_ok ?d s j" if "imps ?d s = Some j" for s j
    using that D(9) [of s j] q q'(3) by (auto simp: imp_ok_def)
  then have "dungeon_inv (p # R) ?d"
    using D(2,3) q q' mx
    by (intro dungeon_invI) (use D(1,4-8) in \<open>auto simp: queues_ok_def same\<close>)
  with q' mx show ?thesis by blast
qed

text \<open>
  Dismissing \<open>p\<close>, provided that its soul closes every descriptor that is armed for it and that
  its requests can be freed.
\<close>

lemma imp_dismiss_inv:
  assumes inv: "dungeon_inv (p # R) d" and i: "imps d p = Some i"
    and reqs: "requested_events i = Some reqs" "free_requests reqs = Inr ()"
    and cl: "closes_all d p closed"
  shows "\<exists>d'. imp_dismiss d p closed = Inr d' \<and> dungeon_inv R d' \<and> imps d' = (imps d)(p := None)
     \<and> run_queue d' = run_queue d \<and> terminated_queue d' = terminated_queue d
     \<and> (\<forall>fd. epoll d' fd \<noteq> None \<longrightarrow> epoll d' fd = epoll d fd)"
proof -
  note D = dungeon_invD [OF inv]
  define d' where "d' = (let d1 = close_fds (close_fds d closed) (imp_body_delete (body i)) in
    d1\<lparr>imps := (imps d1)(p := None), nr_total := nr_total d1 - 1\<rparr>)"
  have run: "imp_dismiss d p closed = Inr d'"
    using i reqs by (simp add: imp_dismiss_def d'_def Let_def)
  have sel: "run_queue d' = run_queue d" "terminated_queue d' = terminated_queue d"
    "nr_max d' = nr_max d" "nr_waitio d' = nr_waitio d" "imps d' = (imps d)(p := None)"
    "nr_total d' = nr_total d - 1"
    "epoll d' = epoll d |` (- set closed) |` (- {event_fd (body i), timer_fd (body i)})"
    by (simp_all add: d'_def Let_def close_fds_def imp_body_delete_def)
  have p: "p \<notin> set R" "p \<notin> set (runq d)" "p \<notin> set (termq d)" using D(2) by auto
  have "\<not> waitio i" by (rule driving_awake [OF inv i])
  then have aw: "awake d' = awake d - {p}" and sl: "sleepers d' = sleepers d"
    using i by (auto simp: awake_def sleepers_def sel)
  have dom: "dom (imps d') = dom (imps d) - {p}" "p \<in> dom (imps d)" using i by (auto simp: sel)
  have ep: "epoll d' fd = Some (q, ev) \<Longrightarrow> epoll d fd = Some (q, ev) \<and> q \<noteq> p" for fd q ev
    using cl i by (auto simp: sel restrict_map_def closes_all_def split: if_splits)
  have "dungeon_inv R d'"
  proof (rule dungeon_invI)
    show "distinct (R @ runq d' @ termq d')" using D(2) by (simp add: sel)
    show "set (R @ runq d' @ termq d') = awake d'" unfolding aw D(3) [symmetric] using p by (auto simp: sel)
    have "card (dom (imps d) - {p}) = card (dom (imps d)) - 1" "card (dom (imps d)) > 0"
      using D(4) dom(2) by (auto simp: card_gt_0_iff)
    then show "nr_total d' = int (card (dom (imps d')))" unfolding dom(1) sel using D(5) by simp
    show "finite (dom (imps d'))" unfolding dom(1) using D(4) by simp
    show "\<And>fd q ev. epoll d' fd = Some (q, ev) \<Longrightarrow> q \<in> dom (imps d')"
      using ep D(8) dom(1) by blast
    show "imp_ok d' q k" if "imps d' q = Some k" for q k
      using that D(9) [of q k] by (auto simp: imp_ok_def sel split: if_splits)
  qed (use D(1,6,7) in \<open>simp_all add: queues_ok_def sel sl\<close>)
  moreover have "\<forall>fd. epoll d' fd \<noteq> None \<longrightarrow> epoll d' fd = epoll d fd"
    by (auto simp: sel restrict_map_def split: if_splits)
  ultimately show ?thesis using run sel by blast
qed

end
