(* ===== verification/Dungeon_Safety.thy ===== *)
theory Dungeon_Safety
  imports Dungeon
begin

text \<open>
  What holds of every run of the dungeon in which the environment does what \<open>action_ok\<close> says and turns
  are not interrupted: the invariant of theory \<open>Dungeon\<close> along any sequence of thread turns, what
  becomes of imps that are driven, killed, woken and dismissed, and the shutdown.  Theory
  \<open>Dungeon_Faults\<close> drops \<open>action_ok\<close>, theory \<open>Imp_Race\<close> interrupts turns.
\<close>

section \<open>One action\<close>

lemma imp_kill_inv:
  assumes "dungeon_inv R d" and "imps d p = Some i"
  shows "\<exists>d'. imp_kill d p = Inr d' \<and> dungeon_inv R d'"
proof -
  let ?i = "i\<lparr>event_mask := or (event_mask i) EV_MASK_KILL\<rparr>"
  have "and (or (event_mask i) EV_MASK_KILL) EV_MASK_TIMER = and (event_mask i) EV_MASK_TIMER"
    by (simp add: ev_mask_defs bit.conj_disj_distrib2)
  with dungeon_invD(9) [OF assms] have "imp_ok d p ?i" by (simp add: imp_ok_def IMP_TIMEDOUT_def)
  with assms have "dungeon_inv R (d\<lparr>imps := (imps d)(p \<mapsto> ?i)\<rparr>)" by (intro dungeon_inv_upd) simp_all
  with assms show ?thesis by (simp add: imp_kill_def)
qed

lemma thr_driver_turn_inv:
  assumes inv: "dungeon_inv [] d" and ok: "action_ok d (DoWork rd_t rd_e m ret svcs ctl)"
  shows "barring OutOfBounds (\<lambda>d'. dungeon_inv [] d'
      \<and> (\<forall>p \<in> set (take 1 (runq d)). if ret = TO_TERM then p \<in> set (termq d') \<and> epoll d' = epoll d
           else placed p ctl (asked (the (imps d p)) p svcs) (epoll d) d'))
     (thr_driver_turn d rd_t rd_e (m, ret, svcs) ctl)"
proof (cases "runq d")
  case Nil
  have "queue_wf (run_queue d)" using dungeon_invD(1) [OF inv] by (simp add: queues_ok_def)
  with Nil inv show ?thesis by (simp add: thr_driver_turn_def q2.deq_empty)
next
  case (Cons p ps)
  from run_dequeue_inv [OF inv Cons] obtain q' where
    q': "queue_dequeue_nb (run_queue d) = Inr (0, Some p, q')"
      "dungeon_inv [p] (d\<lparr>run_queue := q'\<rparr>)" by auto
  from dungeon_invD(3) [OF inv] Cons have "p \<in> awake d" by auto
  then obtain i where i: "imps d p = Some i" by (auto simp: awake_def)
  from dungeon_invD(9) [OF inv i] Cons have
    "requested_events i = Some []" "\<not> timer_on (body i)" by (auto simp: imp_ok_def)
  moreover from this ok Cons i have
    "\<not> rd_t" "services_ok d [] svcs" "ret = TO_TERM \<longrightarrow> list_all (\<lambda>s. \<not> is_set_timer s) svcs"
    by (auto simp: action_ok_def)
  moreover have "services_ok (d\<lparr>run_queue := q'\<rparr>) taken svcs = services_ok d taken svcs" for taken
    by (induction svcs arbitrary: taken)
      (auto simp: summoning_ok_def split: service.split option.split)
  ultimately show ?thesis
    using imp_driver_inv [OF q'(2), where i = i and svcs = svcs and ret = ret and rd_e = rd_e and m = m and ctl = ctl] q'(1) i
    by (cases "ret = TO_TERM") (simp_all add: thr_driver_turn_def Cons)
qed

lemma epoll_owners:
  assumes "dungeon_inv R d" and "set fds \<subseteq> dom (epoll d)"
  shows "set (map (\<lambda>fd. fst (the (epoll d fd))) fds) \<subseteq> dom (imps d)"
proof -
  have "fst (the (epoll d fd)) \<in> dom (imps d)" if "fd \<in> set fds" for fd
  proof -
    from that assms(2) obtain p ev where "epoll d fd = Some (p, ev)" by force
    with dungeon_invD(8) [OF assms(1)] show ?thesis by simp
  qed
  then show ?thesis by auto
qed

lemma thr_epoller_turn_inv:
  assumes inv: "dungeon_inv R d" and fds: "set fds \<subseteq> dom (epoll d)"
  shows "barring OutOfBounds (dungeon_inv R) (thr_epoller_turn d fds)"
proof -
  let ?d = "d\<lparr>epoll := epoll d |` (- set fds)\<rparr>"
  have "dungeon_inv R ?d"
    using dungeon_invD(8) [OF inv]
    by (intro dungeon_inv_epoll [OF inv]) (auto simp: restrict_map_def split: if_splits)
  moreover have "set (map (\<lambda>fd. fst (the (epoll d fd))) fds) \<subseteq> dom (imps ?d)"
    using epoll_owners [OF inv fds] by simp
  ultimately show ?thesis
    unfolding thr_epoller_turn_def
    by (rule barring_mono [OF wake_all_inv]) simp
qed

lemma thr_maintainer_turn_inv:
  assumes inv: "dungeon_inv R d" and ok: "\<And>p ps. termq d = p # ps \<Longrightarrow> closes_all d p (closed p)"
  shows "\<exists>d'. thr_maintainer_turn d closed = Inr (termq d \<noteq> [], d') \<and> dungeon_inv R d'
     \<and> termq d' = tl (termq d) \<and> run_queue d' = run_queue d
     \<and> imps d' = imps d |` (- set (take 1 (termq d)))
     \<and> (\<forall>fd. epoll d' fd \<noteq> None \<longrightarrow> epoll d' fd = epoll d fd)"
proof (cases "termq d")
  case Nil
  have "queue_wf (terminated_queue d)" using dungeon_invD(1) [OF inv] by (simp add: queues_ok_def)
  with Nil inv show ?thesis
    by (simp add: thr_maintainer_turn_def q2.deq_empty restrict_map_def fun_eq_iff)
next
  case (Cons p ps)
  from term_dequeue_inv [OF inv Cons] obtain q' where
    q': "queue_dequeue_nb (terminated_queue d) = Inr (0, Some p, q')" "queue_contents q' = ps"
      "dungeon_inv (p # R) (d\<lparr>terminated_queue := q'\<rparr>)" by auto
  from dungeon_invD(3) [OF inv] Cons have "p \<in> awake d" by auto
  then obtain i where i: "imps d p = Some i" by (auto simp: awake_def)
  from dungeon_invD(9) [OF inv i] Cons obtain reqs where
    reqs: "requested_events i = Some reqs" "free_requests reqs = Inr ()" by (auto simp: imp_ok_def)
  have "closes_all (d\<lparr>terminated_queue := q'\<rparr>) p (closed p)"
    using ok [OF Cons] by (auto simp: closes_all_def split: option.splits)
  moreover have "imps (d\<lparr>terminated_queue := q'\<rparr>) p = Some i" using i by simp
  ultimately obtain d' where
    "imp_dismiss (d\<lparr>terminated_queue := q'\<rparr>) p (closed p) = Inr d'" "dungeon_inv R d'"
    "imps d' = (imps d)(p := None)" "run_queue d' = run_queue d" "terminated_queue d' = q'"
    "\<forall>fd. epoll d' fd \<noteq> None \<longrightarrow> epoll d' fd = epoll d fd"
    using imp_dismiss_inv [OF q'(3) _ reqs] by fastforce
  with q' Cons show ?thesis
    by (auto simp: thr_maintainer_turn_def restrict_map_def fun_eq_iff)
qed

lemma dungeon_step_inv:
  assumes inv: "dungeon_inv [] d" and ok: "action_ok d a"
  shows "barring OutOfBounds (dungeon_inv []) (dungeon_step a d)"
proof (cases a)
  case (DoSummon m s)
  with ok have "summoning_ok d s" by (simp add: action_ok_def)
  from imp_summon_inv [OF inv this] show ?thesis
    unfolding dungeon_step_def DoSummon action.case barring_bindE
    by (rule barring_mono) auto
next
  case (DoWork rd_t rd_e m ret svcs ctl)
  from thr_driver_turn_inv [OF inv ok [unfolded DoWork]]
  have "barring OutOfBounds (dungeon_inv []) (thr_driver_turn d rd_t rd_e (m, ret, svcs) ctl)"
    by (rule barring_mono) blast
  with DoWork show ?thesis by (simp add: dungeon_step_def)
next
  case (DoEpoll fds)
  with thr_epoller_turn_inv [OF inv, of fds] ok show ?thesis
    by (simp add: dungeon_step_def action_ok_def)
next
  case (DoReap closed)
  with ok have "\<forall>p ps. termq d = p # ps \<longrightarrow> closes_all d p (closed p)"
    by (auto simp: action_ok_def)
  then obtain d' where
    "thr_maintainer_turn d closed = Inr (termq d \<noteq> [], d')" "dungeon_inv [] d'"
    using thr_maintainer_turn_inv [OF inv, of closed] by blast
  with DoReap show ?thesis by (simp add: dungeon_step_def)
next
  case (DoKill p)
  with ok obtain i where "imps d p = Some i" by (auto simp: action_ok_def)
  from imp_kill_inv [OF inv this] DoKill show ?thesis by (auto simp: dungeon_step_def)
qed

section \<open>Runs\<close>

text \<open>A dungeon that was just built, of at most \<open>2 ^ 31 - 1\<close> imps, is empty and well formed.\<close>

definition memory_fits :: "int \<Rightarrow> init_env \<Rightarrow> bool" where
  "memory_fits n env \<longleftrightarrow> n < 2 ^ 31
     \<and> (case run_mem env of None \<Rightarrow> True | Some cells \<Rightarrow> length cells = nat n)
     \<and> (case term_mem env of None \<Rightarrow> True | Some cells \<Rightarrow> length cells = nat n)"

inductive dungeon_reachable :: "'m dungeon \<Rightarrow> bool" where
  built: "dungeon_init workers n env = Inr (0, Heart d) \<Longrightarrow> memory_fits n env \<Longrightarrow> dungeon_reachable d"
| acted: "dungeon_reachable d \<Longrightarrow> action_ok d a \<Longrightarrow> dungeon_step a d = Inr d' \<Longrightarrow> dungeon_reachable d'"

lemma dungeon_init_inv:
  assumes "dungeon_init workers n env = Inr (code, Heart d)" and "memory_fits n env"
  shows "dungeon_inv [] d \<and> imps d = Map.empty \<and> nr_max d = n"
proof -
  from assms(1) obtain rm tm where
    mem: "run_mem env = Some rm" "term_mem env = Some tm" and n: "1 \<le> n"
    by (auto simp: dungeon_init_def queue_new_def split: if_splits option.splits)
  from assms(2) mem have len: "length rm = nat n" "length tm = nat n" "n < 2 ^ 31"
    by (simp_all add: memory_fits_def)
  have un: "unat (word_of_int n :: u32) = nat n"
  proof -
    have "uint (word_of_int n :: u32) = n"
      using n len(3) by (simp add: uint_word_of_int)
    then show ?thesis by (simp add: unat_eq_nat_uint)
  qed
  obtain rq tq where q: "queue_new (word_of_int n) (Some rm) = Some rq"
    "queue_new (word_of_int n) (Some tm) = Some tq" by (simp add: queue_new_def)
  from assms(1) mem n q have d: "imps d = Map.empty" "nr_max d = n" "nr_total d = 0" "nr_waitio d = 0"
    "run_queue d = rq" "terminated_queue d = tq" "epoll d = Map.empty"
    by (auto simp: dungeon_init_def split: if_splits)
  have "queue_wf rq \<and> queue_contents rq = [] \<and> q_max rq = word_of_int n"
    "queue_wf tq \<and> queue_contents tq = [] \<and> q_max tq = word_of_int n"
    using queue_new_wf q len un by metis+
  then have "dungeon_inv [] d"
    using n len(3) un by (simp add: dungeon_inv_def queues_ok_def d awake_def sleepers_def)
  with d show ?thesis by simp
qed

lemma dungeon_reachable_inv: "dungeon_reachable d \<Longrightarrow> dungeon_inv [] d"
proof (induction rule: dungeon_reachable.induct)
  case (built workers n env d)
  then show ?case using dungeon_init_inv by blast
next
  case (acted d a d')
  with dungeon_step_inv [of d a] show ?case by simp
qed

text \<open>A dungeon of two imps, empty, and with one imp queued, asleep, and terminated.\<close>

definition sample_env :: init_env where
  "sample_env = \<lparr>calloc_ok = True, pipe_errno = 0, run_mem = Some [0, 0], term_mem = Some [0, 0],
     nr_workers = 1, maintainer_err = 0, monitor_err = 0, nr_rooms = 1\<rparr>"

definition sample_queue :: "intptr queue_st" where
  "sample_queue = \<lparr>q_max = 2, q_nr = 0, en_count = 0, de_count = 0, rindex = 0, windex = 0,
     bucket = [0, 0]\<rparr>"

definition dungeon_empty :: "'m dungeon" where
  "dungeon_empty = \<lparr>nr_total = 0, nr_max = 2, nr_waitio = 0, run_queue = sample_queue,
     terminated_queue = sample_queue, epoll = Map.empty, imps = Map.empty, next_imp_id = 1,
     pending_event = False\<rparr>"

definition sample_summoning :: "nat summoning" where
  "sample_summoning = \<lparr>alloc = Some 0x100, ll_ok = True,
     new_body = Some \<lparr>timer_fd = 5, event_fd = 6, timer_on = False\<rparr>, fsm_new = (\<lambda>m. m)\<rparr>"

definition sample_imp :: "nat imp" where
  "sample_imp = \<lparr>imp_id = 1, waitio = False, requested_events = Some [], event_mask = 0,
     body = \<lparr>timer_fd = 5, event_fd = 6, timer_on = False\<rparr>, memory = 7\<rparr>"

definition dungeon_queued :: "nat dungeon" where
  "dungeon_queued = dungeon_empty\<lparr>nr_total := 1, next_imp_id := 2, imps := [0x100 \<mapsto> sample_imp],
     run_queue := sample_queue\<lparr>q_nr := 1, en_count := 1, windex := 1, bucket := [0x100, 0]\<rparr>\<rparr>"

lemma dungeon_empty_init: "dungeon_init 1 2 sample_env = Inr (0, Heart dungeon_empty)"
  by (simp add: dungeon_init_def sample_env_def queue_new_def dungeon_empty_def sample_queue_def)

lemma dungeon_empty_reachable: "dungeon_reachable dungeon_empty"
  by (rule dungeon_reachable.built [OF dungeon_empty_init])
    (simp add: memory_fits_def sample_env_def)

lemma dungeon_queued_step:
  "dungeon_step (DoSummon 7 sample_summoning) dungeon_empty = Inr dungeon_queued"
  by (simp add: dungeon_step_def imp_summon_def imp_new_def Let_def imp_run_def
      queue_enqueue_uniq_nb_def queue_scan_def scan.simps queue_store_def bucket_put_def
      queue_next_def dungeon_queued_def dungeon_empty_def sample_summoning_def sample_queue_def
      sample_imp_def word_le_nat_alt)

lemma dungeon_queued_reachable: "dungeon_reachable dungeon_queued"
  by (rule dungeon_reachable.acted [OF dungeon_empty_reachable _ dungeon_queued_step])
    (simp add: action_ok_def summoning_ok_def sample_summoning_def dungeon_empty_def)

lemma dungeon_queued_runq: "runq dungeon_queued = [0x100]" "termq dungeon_queued = []"
  by (simp_all add: dungeon_queued_def dungeon_empty_def queue_contents_def ring_def sample_queue_def)

section \<open>Properties\<close>

text \<open>
  C1.  The placement invariant of the dungeon.  In every state that any sequence of summons, worker
  turns, epoll turns, maintainer turns and kills reaches, each a whole turn under \<open>action_ok\<close>: every
  imp is in exactly one place, the run queue, the terminated queue or asleep; \<open>nr_total\<close> and
  \<open>nr_waitio\<close> count the imps and the sleepers; the limit \<open>nr_max\<close> holds; and every descriptor armed
  in epoll belongs to an imp that still exists.
\<close>

theorem dungeon_placement:
  assumes "dungeon_reachable d"
  shows "distinct (runq d @ termq d) \<and> set (runq d) \<union> set (termq d) = awake d
     \<and> dom (imps d) = awake d \<union> sleepers d \<and> awake d \<inter> sleepers d = {}
     \<and> nr_total d = int (card (dom (imps d))) \<and> nr_total d \<le> nr_max d
     \<and> nr_waitio d = int (card (sleepers d))
     \<and> (\<forall>fd p ev. epoll d fd = Some (p, ev) \<longrightarrow> p \<in> dom (imps d))"
  using dungeon_invD [OF dungeon_reachable_inv [OF assms]] dom_awake_sleepers [of d]
  by (auto simp: awake_def sleepers_def)

theorem dungeon_placement_witness:
  "nr_total dungeon_queued = int (card (dom (imps dungeon_queued)))"
  using dungeon_placement [OF dungeon_queued_reachable] by blast

text \<open>
  For actions that \<open>action_ok\<close> admits the one fault of a whole turn is that queueing an imp reads past
  the bucket of the run queue; theory \<open>Dungeon_Faults\<close> drops \<open>action_ok\<close>.
\<close>

lemma dungeon_only_overread:
  assumes "dungeon_reachable d" and "action_ok d a"
  shows "(\<exists>d'. dungeon_step a d = Inr d' \<and> dungeon_reachable d')
     \<or> (dungeon_step a d = Inl OutOfBounds \<and> (\<forall>closed. a \<noteq> DoReap closed) \<and> (\<forall>p. a \<noteq> DoKill p))"
proof (cases "dungeon_step a d")
  case (Inr d')
  with dungeon_reachable.acted [OF assms] show ?thesis by blast
next
  case (Inl e)
  note inv = dungeon_reachable_inv [OF assms(1)]
  have "e = OutOfBounds" using dungeon_step_inv [OF inv assms(2)] Inl by simp
  moreover have False if "a = DoReap closed" for closed
  proof -
    have "\<forall>p ps. termq d = p # ps \<longrightarrow> closes_all d p (closed p)"
      using assms(2) that by (auto simp: action_ok_def)
    then obtain d' where "thr_maintainer_turn d closed = Inr (termq d \<noteq> [], d')"
      using thr_maintainer_turn_inv [OF inv, of closed] by blast
    with that Inl show False by (simp add: dungeon_step_def)
  qed
  moreover have False if "a = DoKill p" for p
  proof -
    obtain i where "imps d p = Some i" using assms(2) \<open>a = DoKill p\<close> by (auto simp: action_ok_def)
    from imp_kill_inv [OF inv this] that Inl show False by (auto simp: dungeon_step_def)
  qed
  ultimately show ?thesis using Inl by blast
qed

text \<open>
  C6.  What a worker's turn does with the imp it drives.  When the turn on the first imp of the run
  queue ends, the imp is in the terminated queue if its soul asked for that.  Otherwise it is queued
  to run again when its soul asked for no events, and asleep when it asked for some; then exactly the
  descriptors it asked for that \<open>epoll_ctl\<close> accepts are armed for it, and no other descriptor
  changes.  In particular an imp whose descriptors are all refused sleeps with nothing new
  armed: \<open>imp_driver\<close> does not look at what \<open>set_poll_action\<close> returns, and the imp is lost.
\<close>

theorem worker_turn_places_imp:
  assumes "dungeon_reachable d" and "runq d = p # ps" and "imps d p = Some i"
    and "action_ok d (DoWork rd_t rd_e m ret svcs ctl)"
    and "dungeon_step (DoWork rd_t rd_e m ret svcs ctl) d = Inr d'"
  shows "if ret = TO_TERM then p \<in> set (termq d') \<and> epoll d' = epoll d
     else (if asked i p svcs = [] then p \<in> set (runq d') else p \<in> sleepers d')
       \<and> (\<forall>fd. if fd \<in> set (asked i p svcs) \<and> (fst (ctl fd) \<or> snd (ctl fd))
               then \<exists>ev. epoll d' fd = Some (p, ev) else epoll d' fd = epoll d fd)"
  using thr_driver_turn_inv [OF dungeon_reachable_inv [OF assms(1)] assms(4)] assms(2,3,5)
  by (auto simp: dungeon_step_def placed_def arms_def split: if_splits)

lemma sample_work:
  "\<exists>d'. dungeon_step (DoWork False False 9 TO_BLOCK [SetIoev 7 EPOLLIN True False] (\<lambda>fd. (True, True)))
       dungeon_queued = Inr d' \<and> epoll d' 7 = Some (0x100, 0x40000001) \<and> nr_waitio d' = 1
     \<and> runq d' = []"
  by (simp add: dungeon_step_def thr_driver_turn_def queue_dequeue_nb_def queue_take_def
      bucket_get_def queue_next_def dungeon_queued_def dungeon_empty_def sample_queue_def
      imp_driver_def reduct_spec sample_imp_def masks_disjoint do_service_def imp_set_ioev_def
      append_request_def list_append_def list_fetch_def arm_request_def set_poll_action_def
      after_yield_def word_le_nat_alt queue_contents_def numeral_eq_Suc)

text \<open>The imp of the sample asks for events on descriptor \<open>7\<close>, which \<open>epoll_ctl\<close> refuses: it is lost.\<close>

definition sample_refused :: "nat action" where
  "sample_refused = DoWork False False 9 TO_BLOCK [SetIoev 7 EPOLLIN True False] (\<lambda>fd. (False, False))"

lemma sample_refused_step: "\<exists>d'. dungeon_step sample_refused dungeon_queued = Inr d'"
  by (simp add: sample_refused_def dungeon_step_def thr_driver_turn_def queue_dequeue_nb_def queue_take_def
      bucket_get_def queue_next_def dungeon_queued_def dungeon_empty_def sample_queue_def
      imp_driver_def reduct_spec sample_imp_def masks_disjoint do_service_def imp_set_ioev_def
      append_request_def list_append_def list_fetch_def arm_request_def set_poll_action_def
      after_yield_def word_le_nat_alt numeral_eq_Suc)

theorem worker_turn_places_imp_witness:
  "\<exists>d'. dungeon_step sample_refused dungeon_queued = Inr d' \<and> 0x100 \<in> sleepers d' \<and> epoll d' = Map.empty"
proof -
  obtain d' where d': "dungeon_step sample_refused dungeon_queued = Inr d'" using sample_refused_step by blast
  have "imps dungeon_queued 0x100 = Some sample_imp" by (simp add: dungeon_queued_def)
  moreover have "action_ok dungeon_queued sample_refused"
    by (simp add: action_ok_def sample_refused_def dungeon_queued_runq)
  moreover have "asked sample_imp 0x100 [SetIoev 7 EPOLLIN True False :: nat service] = [7]"
    by (simp add: asked_def requests_of_def request_fd_def)
  moreover have "epoll dungeon_queued = Map.empty" by (simp add: dungeon_queued_def dungeon_empty_def)
  ultimately have "0x100 \<in> sleepers d' \<and> (\<forall>fd. epoll d' fd = None)"
    using worker_turn_places_imp [OF dungeon_queued_reachable dungeon_queued_runq(1), of sample_imp] d'
    by (simp add: sample_refused_def)
  with d' show ?thesis by (auto simp: fun_eq_iff)
qed

text \<open>
  An imp that its timer wakes is not told.  A turn of \<open>thr_epoller\<close> cancels the timer of every
  imp it has an event for; when a worker then drives the imp, and nothing has touched it in between,
  there is no expiry left to read (\<open>rd_t\<close>: the read succeeds, for which the timer must be
  set), \<open>imp_reduct_event_mask\<close> leaves \<open>EV_MASK_TIMER\<close> out and \<open>IMP_TIMEDOUT\<close> is false.
\<close>

lemma wake_all_timers:
  "wake_all d ps = Inr d' \<Longrightarrow> p \<in> set ps \<or> \<not> timer_on (body (the (imps d p))) \<Longrightarrow> imps d p \<noteq> None \<Longrightarrow>
     imps d' p \<noteq> None \<and> \<not> timer_on (body (the (imps d' p)))"
proof (induction ps arbitrary: d)
  case (Cons q ps)
  then obtain d1 d2 where d: "imp_cancel_timer d q = Inr d1" "imp_wake d1 q = Inr d2" "wake_all d2 ps = Inr d'"
    by (auto simp: bindE_eq_Inr_iff)
  obtain i where i: "imps d p = Some i" using Cons.prems(3) by auto
  from d(1) i Cons.prems(2) have 1: "imps d1 p \<noteq> None"
    "p \<in> set ps \<or> \<not> timer_on (body (the (imps d1 p)))"
    using set_timer_0 by (auto simp: imp_cancel_timer_def upd_imp_def bindE_eq_Inr_iff split: if_splits)
  from d(2) 1 have "imps d2 p \<noteq> None" "p \<in> set ps \<or> \<not> timer_on (body (the (imps d2 p)))"
    by (auto simp: imp_wake_def upd_imp_def bindE_eq_Inr_iff ld_imp_def split: if_splits option.splits
        dest!: imp_run_same)
  then show ?case using Cons.IH [OF d(3)] by blast
qed simp

lemma timer_wake_untold:
  assumes "dungeon_step (DoEpoll fds) d = Inr d1" and "fd \<in> set fds" and "epoll d fd = Some (p, ev)"
    and "imps d p = Some i" and "imps d2 p = imps d1 p" and "rd_t \<longrightarrow> timer_on (body (the (imps d2 p)))"
    and "imp_reduct_event_mask d2 p rd_t rd_e = Inr (msk, d3)"
  shows "msk = (if rd_e then EV_MASK_EVENT else 0) \<and> and msk EV_MASK_TIMER = 0"
proof -
  have "p \<in> set (map (\<lambda>fd. fst (the (epoll d fd))) fds)" using assms(2,3) by force
  with wake_all_timers [of _ "map (\<lambda>fd. fst (the (epoll d fd))) fds" d1 p] assms(1,4)
  have "imps d1 p \<noteq> None" "\<not> timer_on (body (the (imps d1 p)))"
    by (simp_all add: dungeon_step_def thr_epoller_turn_def)
  with assms(5,6) obtain j where "imps d2 p = Some j" "\<not> rd_t" by auto
  with assms(7) masks_disjoint(3) [of rd_e] show ?thesis by (auto simp: reduct_spec)
qed

text \<open>
  C31.  Killing has no effect.  Whatever \<open>imp_kill\<close> writes into the event mask, the next
  \<open>imp_driver\<close> overwrites it before looking: the killed imp is driven exactly as if it had not
  been killed.
\<close>

theorem kill_is_lost:
  assumes "imps d p \<noteq> None" and "imp_kill d p = Inr d'"
  shows "imp_driver d' p rd_t rd_e outcome ctl = imp_driver d p rd_t rd_e outcome ctl"
proof -
  obtain i where i: "imps d p = Some i" using assms(1) by auto
  with assms(2) have d': "d' = d\<lparr>imps := (imps d)(p \<mapsto> i\<lparr>event_mask := or (event_mask i) EV_MASK_KILL\<rparr>)\<rparr>"
    by (simp add: imp_kill_def)
  have "\<exists>b. imp_body_cleanup_timer (body i) rd_t = (if rd_t then 1 else 0, b)"
    by (simp add: imp_body_cleanup_timer_def)
  then show ?thesis using i
    by (auto simp: imp_driver_def imp_reduct_event_mask_def d' imp_cancel_timer_def Let_def)
qed

theorem kill_is_lost_witness:
  "\<exists>d'. imp_kill dungeon_queued 0x100 = Inr d'
     \<and> imp_driver d' 0x100 False False (7, TO_TERM, []) (\<lambda>fd. (True, True))
         = imp_driver dungeon_queued 0x100 False False (7, TO_TERM, []) (\<lambda>fd. (True, True))"
proof -
  have i: "imps dungeon_queued 0x100 = Some sample_imp" by (simp add: dungeon_queued_def)
  then obtain d' where k: "imp_kill dungeon_queued 0x100 = Inr d'" by (auto simp: imp_kill_def)
  from kill_is_lost [OF _ k] i k show ?thesis by auto
qed

section \<open>Waking\<close>

lemma wake_all_termq: "wake_all d ps = Inr d' \<Longrightarrow> terminated_queue d' = terminated_queue d"
proof (induction ps arbitrary: d)
  case (Cons p ps)
  then obtain d1 d2 where "imp_cancel_timer d p = Inr d1" "imp_wake d1 p = Inr d2" "wake_all d2 ps = Inr d'"
    by (auto simp: bindE_eq_Inr_iff)
  moreover from this have "terminated_queue d1 = terminated_queue d" "terminated_queue d2 = terminated_queue d1"
    by (auto simp: imp_cancel_timer_def imp_wake_def imp_run_def upd_imp_def bindE_eq_Inr_iff split: if_splits)
  ultimately show ?case using Cons.IH by simp
qed simp

lemma epoller_exact:
  assumes "dungeon_reachable d" and "action_ok d (DoEpoll fds)" and "dungeon_step (DoEpoll fds) d = Inr d'"
    and ps: "ps = map (\<lambda>fd. fst (the (epoll d fd))) fds"
  shows "runq d' = runq d @ newly (sleepers d) ps \<and> terminated_queue d' = terminated_queue d
     \<and> sleepers d' = sleepers d - set ps \<and> epoll d' = epoll d |` (- set fds) \<and> set ps \<subseteq> dom (imps d')"
proof -
  note inv = dungeon_reachable_inv [OF assms(1)]
  let ?d = "d\<lparr>epoll := epoll d |` (- set fds)\<rparr>"
  from assms(3) have run: "wake_all ?d ps = Inr d'" by (simp add: dungeon_step_def thr_epoller_turn_def ps)
  have fds: "set fds \<subseteq> dom (epoll d)" using assms(2) by (simp add: action_ok_def)
  have "dungeon_inv [] ?d" using dungeon_invD(8) [OF inv]
    by (intro dungeon_inv_epoll [OF inv]) (auto simp: restrict_map_def split: if_splits)
  moreover have "sleepers ?d = sleepers d" by (simp add: sleepers_def)
  moreover have "set ps \<subseteq> dom (imps ?d)" using epoll_owners [OF inv fds] by (simp add: ps)
  ultimately show ?thesis using wake_all_inv [of "[]" ?d ps] run wake_all_termq [OF run] by simp
qed

text \<open>
  C21.  Waking is exact.  A turn of \<open>thr_epoller\<close> on any set of armed descriptors leaves exactly those
  disarmed.  The imps they were armed for no longer sleep, and those of them that slept are now at
  the end of the run queue, in the order of the events and each once, however many of its
  descriptors fired; imps that were awake are not queued again, and waking an imp a second time
  changes nothing.
\<close>

theorem epoller_wakes:
  assumes "dungeon_reachable d" and "action_ok d (DoEpoll fds)" and "dungeon_step (DoEpoll fds) d = Inr d'"
  shows "let ps = map (\<lambda>fd. fst (the (epoll d fd))) fds in
     runq d' = runq d @ newly (sleepers d) ps \<and> termq d' = termq d
     \<and> sleepers d' = sleepers d - set ps \<and> epoll d' = epoll d |` (- set fds)
     \<and> (\<forall>p. p \<in> set ps \<longrightarrow> imp_wake d' p = Inr d')"
proof -
  define ps where "ps = map (\<lambda>fd. fst (the (epoll d fd))) fds"
  note E = epoller_exact [OF assms ps_def]
  have "imp_wake d' p = Inr d'" if "p \<in> set ps" for p
  proof -
    from E that obtain i where "imps d' p = Some i" by blast
    moreover from this E that have "\<not> waitio i" by (auto simp: sleepers_def)
    ultimately show ?thesis by (simp add: imp_wake_def)
  qed
  with E show ?thesis by (simp add: ps_def)
qed

text \<open>The imp of the sample, asleep with descriptor \<open>7\<close> armed.\<close>

definition dungeon_asleep :: "nat dungeon" where
  "dungeon_asleep = dungeon_queued\<lparr>nr_waitio := 1, epoll := [7 \<mapsto> (0x100, 0x40000001)],
     run_queue := sample_queue\<lparr>en_count := 1, de_count := 1, rindex := 1, windex := 1,
                               bucket := [0x100, 0]\<rparr>,
     imps := [0x100 \<mapsto> sample_imp\<lparr>waitio := True, memory := 9\<rparr>]\<rparr>"

lemmas arm_loop_turns = arm_loop.simps(2) [of 1000, simplified] arm_loop.simps(2) [of 999, simplified]

lemma dungeon_asleep_step:
  "dungeon_step (DoWork False False 9 TO_BLOCK [SetIoev 7 EPOLLIN True False] (\<lambda>fd. (True, True)))
     dungeon_queued = Inr dungeon_asleep"
  by (simp add: dungeon_step_def thr_driver_turn_def queue_dequeue_nb_def queue_take_def
      bucket_get_def queue_next_def dungeon_queued_def dungeon_empty_def sample_queue_def
      imp_driver_def reduct_spec sample_imp_def masks_disjoint do_service_def imp_set_ioev_def
      append_request_def list_append_def list_fetch_def arm_request_def set_poll_action_def
      after_yield_def word_le_nat_alt arm_loop_turns dungeon_asleep_def
      imp_body_set_timer_def timer_value_def c_div_def c_mod_def fun_upd_def cong: if_cong)

lemma dungeon_asleep_reachable: "dungeon_reachable dungeon_asleep"
  by (rule dungeon_reachable.acted [OF dungeon_queued_reachable _ dungeon_asleep_step])
    (simp add: action_ok_def dungeon_queued_runq)

lemma dungeon_woken_step:
  "\<exists>d'. dungeon_step (DoEpoll [7]) dungeon_asleep = Inr d'"
  by (simp add: dungeon_step_def thr_epoller_turn_def imp_cancel_timer_def imp_wake_def imp_run_def
      dungeon_asleep_def dungeon_queued_def dungeon_empty_def sample_queue_def
      queue_enqueue_uniq_nb_def queue_scan_def scan.simps queue_store_def bucket_put_def word_le_nat_alt)

theorem epoller_wakes_witness:
  "\<exists>d'. dungeon_step (DoEpoll [7]) dungeon_asleep = Inr d' \<and> runq d' = [0x100] \<and> sleepers d' = {}
     \<and> epoll d' = Map.empty \<and> imp_wake d' 0x100 = Inr d'"
proof -
  obtain d' where d': "dungeon_step (DoEpoll [7]) dungeon_asleep = Inr d'"
    using dungeon_woken_step by blast
  have ok: "action_ok dungeon_asleep (DoEpoll [7])" "sleepers dungeon_asleep = {0x100}" "runq dungeon_asleep = []"
    "map (\<lambda>fd. fst (the (epoll dungeon_asleep fd))) [7] = [0x100]"
    "epoll dungeon_asleep |` (- set [7]) = Map.empty"
    by (auto simp: action_ok_def dungeon_asleep_def sleepers_def queue_contents_def sample_queue_def
        restrict_map_def fun_eq_iff split: if_splits)
  from epoller_wakes [OF dungeon_asleep_reachable ok(1) d'] show ?thesis
    unfolding Let_def ok(2-5) using d' by simp
qed

section \<open>Dismissing and shutting down\<close>

text \<open>Every imp's soul closes the descriptors armed for it.\<close>

definition all_close :: "'m dungeon \<Rightarrow> (intptr \<Rightarrow> int list) \<Rightarrow> bool" where
  "all_close d closed \<longleftrightarrow> (\<forall>p. closes_all d p (closed p))"

lemma all_close_shrink:
  assumes "all_close d closed" and "imps d' = imps d |` S"
    and "\<forall>fd. epoll d' fd \<noteq> None \<longrightarrow> epoll d' fd = epoll d fd"
  shows "all_close d' closed"
  unfolding all_close_def closes_all_def
proof (intro allI)
  fix p
  have old: "closes_all d p (closed p)" using assms(1) by (simp add: all_close_def)
  have ep: "epoll d' fd = Some (p, ev) \<Longrightarrow> epoll d fd = Some (p, ev)" for fd ev
    using assms(3) by (metis option.distinct(1))
  show "case imps d' p of None \<Rightarrow> True
      | Some i \<Rightarrow> \<forall>fd ev. epoll d' fd = Some (p, ev) \<longrightarrow>
          fd \<in> set (closed p) \<union> {timer_fd (body i), event_fd (body i)}"
    using old ep assms(2)
    by (auto simp: closes_all_def restrict_map_def split: option.splits if_splits)
qed

lemma maintainer_loop_inv:
  "dungeon_inv R d \<Longrightarrow> all_close d closed \<Longrightarrow> length (termq d) < fuel \<Longrightarrow>
     \<exists>d'. maintainer_loop fuel d closed = Inr (Some d') \<and> dungeon_inv R d' \<and> termq d' = []
       \<and> run_queue d' = run_queue d \<and> imps d' = imps d |` (- set (termq d))"
proof (induction fuel arbitrary: d)
  case 0
  then show ?case by simp
next
  case (Suc fuel)
  have "\<forall>p ps. termq d = p # ps \<longrightarrow> closes_all d p (closed p)"
    using Suc.prems(2) by (simp add: all_close_def)
  then obtain d1 where
    d1: "thr_maintainer_turn d closed = Inr (termq d \<noteq> [], d1)" "dungeon_inv R d1"
      "termq d1 = tl (termq d)" "run_queue d1 = run_queue d"
      "imps d1 = imps d |` (- set (take 1 (termq d)))"
      "\<forall>fd. epoll d1 fd \<noteq> None \<longrightarrow> epoll d1 fd = epoll d fd"
    using thr_maintainer_turn_inv [OF Suc.prems(1), of closed] by blast
  show ?case
  proof (cases "termq d")
    case Nil
    with d1 show ?thesis by (simp add: restrict_map_def fun_eq_iff)
  next
    case (Cons p ps)
    have "length (termq d1) < fuel" using Suc.prems(3) Cons d1(3) by (simp del: length_queue_contents)
    from Suc.IH [OF d1(2) all_close_shrink [OF Suc.prems(2) d1(5,6)] this] obtain d' where
      "maintainer_loop fuel d1 closed = Inr (Some d')" "dungeon_inv R d'" "termq d' = []"
      "run_queue d' = run_queue d1" "imps d' = imps d1 |` (- set (termq d1))" by blast
    with d1 Cons show ?thesis by (auto simp: restrict_map_def fun_eq_iff)
  qed
qed

lemma run_queue_loop_inv:
  "dungeon_inv R d \<Longrightarrow> all_close d closed \<Longrightarrow> length (runq d) < fuel \<Longrightarrow>
     \<exists>d'. run_queue_loop fuel d closed = Inr (Some d') \<and> dungeon_inv R d' \<and> runq d' = []
       \<and> terminated_queue d' = terminated_queue d \<and> imps d' = imps d |` (- set (runq d))
       \<and> all_close d' closed"
proof (induction fuel arbitrary: d)
  case 0
  then show ?case by simp
next
  case (Suc fuel)
  note inv = Suc.prems(1)
  show ?case
  proof (cases "runq d")
    case Nil
    have "queue_wf (run_queue d)" using dungeon_invD(1) [OF inv] by (simp add: queues_ok_def)
    with Nil Suc.prems show ?thesis by (simp add: q2.deq_empty restrict_map_def fun_eq_iff)
  next
    case (Cons p ps)
    from run_dequeue_inv [OF inv Cons] obtain q' where
      q': "queue_dequeue_nb (run_queue d) = Inr (0, Some p, q')" "queue_contents q' = ps"
        "dungeon_inv (p # R) (d\<lparr>run_queue := q'\<rparr>)" by auto
    from dungeon_invD(3) [OF inv] Cons have "p \<in> awake d" by auto
    then obtain i where i: "imps d p = Some i" by (auto simp: awake_def)
    from dungeon_invD(9) [OF inv i] Cons have reqs: "requested_events i = Some []"
      by (auto simp: imp_ok_def)
    have cl: "closes_all (d\<lparr>run_queue := q'\<rparr>) p (closed p)"
      using Suc.prems(2) by (auto simp: all_close_def closes_all_def split: option.splits)
    have "imps (d\<lparr>run_queue := q'\<rparr>) p = Some i" "free_requests [] = Inr ()" using i by simp_all
    from imp_dismiss_inv [OF q'(3) this(1) reqs this(2) cl] obtain d1 where
      d1: "imp_dismiss (d\<lparr>run_queue := q'\<rparr>) p (closed p) = Inr d1" "dungeon_inv R d1"
        "imps d1 = imps d |` (- {p})" "run_queue d1 = q'" "terminated_queue d1 = terminated_queue d"
        "\<forall>fd. epoll d1 fd \<noteq> None \<longrightarrow> epoll d1 fd = epoll d fd"
      by (auto simp: restrict_map_def fun_eq_iff)
    have "length (runq d1) < fuel"
      using Suc.prems(3) Cons d1(4) q'(2) by (simp del: length_queue_contents)
    from Suc.IH [OF d1(2) all_close_shrink [OF Suc.prems(2) d1(3,6)] this] obtain d' where
      "run_queue_loop fuel d1 closed = Inr (Some d')" "dungeon_inv R d'" "runq d' = []"
      "terminated_queue d' = terminated_queue d1" "imps d' = imps d1 |` (- set (runq d1))"
      "all_close d' closed" by blast
    with d1 q' Cons show ?thesis by (auto simp: restrict_map_def fun_eq_iff)
  qed
qed

lemma dungeon_delete_drains:
  assumes "dungeon_reachable d" and "all_close d closed"
  shows "\<exists>d'. dungeon_delete d closed = Inr (Some d') \<and> dom (imps d') = sleepers d
     \<and> nr_total d' = nr_waitio d \<and> runq d' = [] \<and> termq d' = []"
proof -
  note inv = dungeon_reachable_inv [OF assms(1)]
  have wf: "queue_wf (run_queue d)" "queue_wf (terminated_queue d)"
    using dungeon_invD(1) [OF inv] by (simp_all add: queues_ok_def)
  have "length (runq d) < Suc (unat (q_max (run_queue d)))"
    using q2.contents_le_cap [OF wf(1)] by simp
  from run_queue_loop_inv [OF inv assms(2) this] obtain d1 where
    d1: "run_queue_loop (Suc (unat (q_max (run_queue d)))) d closed = Inr (Some d1)"
      "dungeon_inv [] d1" "runq d1 = []" "terminated_queue d1 = terminated_queue d"
      "imps d1 = imps d |` (- set (runq d))" "all_close d1 closed" by blast
  have "length (termq d1) < Suc (unat (q_max (terminated_queue d1)))"
    using q2.contents_le_cap [OF wf(2)] d1(4) by simp
  from maintainer_loop_inv [OF d1(2,6) this] obtain d2 where
    d2: "maintainer_loop (Suc (unat (q_max (terminated_queue d1)))) d1 closed = Inr (Some d2)"
      "dungeon_inv [] d2" "termq d2 = []" "run_queue d2 = run_queue d1"
      "imps d2 = imps d1 |` (- set (termq d1))" by blast
  have "dom (imps d2) = dom (imps d) - awake d"
    using dungeon_invD(3) [OF inv] d1(4,5) d2(5) by auto
  then have sl: "dom (imps d2) = sleepers d" by (auto simp: awake_def sleepers_def)
  have "nr_total d2 = nr_waitio d"
    using dungeon_invD(5) [OF d2(2)] dungeon_invD(7) [OF inv] sl by simp
  with d1 d2 sl show ?thesis by (auto simp: dungeon_delete_def)
qed

text \<open>
  C22.  Shutting down.  From any reachable state both draining loops of \<open>dungeon_delete\<close>
  terminate within the capacity of their queues and dismiss, without touching freed memory,
  every imp that is queued to run or to be dismissed; the sleeping imps are not dismissed:
  exactly they are left in memory, with \<open>nr_total\<close> counting them, when the dungeon is gone.
\<close>

theorem dungeon_delete_leaves_sleepers:
  assumes "dungeon_reachable d" and "all_close d closed"
  shows "\<exists>d'. dungeon_delete d closed = Inr (Some d') \<and> dom (imps d') = sleepers d
     \<and> nr_total d' = nr_waitio d \<and> runq d' = [] \<and> termq d' = []"
  by (rule dungeon_delete_drains [OF assms])

theorem dungeon_delete_leaves_sleepers_witness:
  "\<exists>d'. dungeon_delete dungeon_asleep (\<lambda>p. [7]) = Inr (Some d') \<and> nr_total d' = 1"
proof -
  have "all_close dungeon_asleep (\<lambda>p. [7])"
    by (auto simp: all_close_def closes_all_def dungeon_asleep_def split: if_splits option.splits)
  from dungeon_delete_leaves_sleepers [OF dungeon_asleep_reachable this] show ?thesis
    by (auto simp: dungeon_asleep_def)
qed

text \<open>
  A soul that sets its timer and asks to be terminated in the same turn brings the program
  down: the timer request, which is the integer \<open>EV_MASK_TIMER\<close> and not an allocated block, is
  still in the list when \<open>imp_dismiss\<close> frees everything in it.
\<close>

theorem timer_then_term_frees_integer:
  assumes "imps d p = Some i" and "requested_events i = Some []"
    and "imp_driver d p rd_t rd_e (m, TO_TERM, [SetTimer ms False]) ctl = Inr d'"
  shows "imp_dismiss d' p closed = Inl BadPointer"
proof -
  have "imps d' p \<noteq> None \<and> requested_events (the (imps d' p)) = Some [ReqTimer]"
    using assms
    by (auto simp: imp_driver_def imp_reduct_event_mask_def imp_body_cleanup_timer_def
        imp_body_cleanup_event_def imp_cancel_timer_def do_service_def imp_set_timer_def
        append_request_def list_append_def imp_term_def bindE_eq_Inr_iff Let_def ev_mask_defs
        split: if_splits)
  then show ?thesis by (auto simp: imp_dismiss_def)
qed

theorem timer_then_term_frees_integer_witness:
  "\<exists>d'. imp_driver dungeon_queued 0x100 False False (7, TO_TERM, [SetTimer 100 False]) (\<lambda>fd. (True, True))
        = Inr d' \<and> imp_dismiss d' 0x100 [] = Inl BadPointer"
proof -
  let ?r = "imp_driver dungeon_queued 0x100 False False (7, TO_TERM, [SetTimer 100 False]) (\<lambda>fd. (True, True))"
  have i: "imps dungeon_queued 0x100 = Some sample_imp" "requested_events sample_imp = Some []"
    by (simp_all add: dungeon_queued_def sample_imp_def)
  have "\<exists>d'. ?r = Inr d'"
    by (simp add: imp_driver_def reduct_spec masks_disjoint do_service_def imp_set_timer_def
        append_request_def list_append_def imp_term_def dungeon_queued_def dungeon_empty_def
        sample_queue_def queue_enqueue_nb_def queue_store_def bucket_put_def word_le_nat_alt
        sample_imp_def)
  then obtain d' where "?r = Inr d'" by blast
  with timer_then_term_frees_integer [OF i this] show ?thesis by blast
qed

end
