(* ===== verification/Dungeon_Faults.thy ===== *)
theory Dungeon_Faults
  imports Dungeon_Safety
begin

text \<open>
  What can go wrong in a turn when the environment is not kind: allocations fail where the code does
  not look, souls set their timer and ask to be terminated, descriptors stay open after their imp is
  gone, imps are killed that no longer exist.  The placement of the imps survives all of it, and the
  undefined behaviour a turn can run into is listed, each kind with its cause.  A turn is not
  interrupted here; what interleaving adds is in theory \<open>Imp_Race\<close>.
\<close>

section \<open>What may happen\<close>

text \<open>
  The allocator hands out addresses that are not null and not in use, and the kernel reports
  events for armed descriptors, each once.  Nothing else is assumed of an action.
\<close>

definition fresh_summoning :: "'m dungeon \<Rightarrow> 'm summoning \<Rightarrow> bool" where
  "fresh_summoning d s \<longleftrightarrow> (case alloc s of None \<Rightarrow> True | Some p \<Rightarrow> p \<noteq> 0 \<and> imps d p = None)"

primrec fresh_services :: "'m dungeon \<Rightarrow> intptr list \<Rightarrow> 'm service list \<Rightarrow> bool" where
  "fresh_services d taken [] \<longleftrightarrow> True"
| "fresh_services d taken (s # ss) \<longleftrightarrow>
     (case s of
        Summon m sm \<Rightarrow> fresh_summoning d sm
          \<and> (case alloc sm of None \<Rightarrow> fresh_services d taken ss
             | Some p \<Rightarrow> p \<notin> set taken \<and> fresh_services d (p # taken) ss)
      | _ \<Rightarrow> fresh_services d taken ss)"

definition possible :: "'m dungeon \<Rightarrow> 'm action \<Rightarrow> bool" where
  "possible d a \<longleftrightarrow>
     (case a of
        DoSummon m s \<Rightarrow> fresh_summoning d s
      | DoWork rd_t rd_e m ret svcs ctl \<Rightarrow> runq d = [] \<or> fresh_services d [] svcs
      | DoEpoll fds \<Rightarrow> distinct fds \<and> set fds \<subseteq> dom (epoll d)
      | _ \<Rightarrow> True)"

inductive dungeon_runs :: "'m dungeon \<Rightarrow> bool" where
  begun: "dungeon_init workers n env = Inr (0, Heart d) \<Longrightarrow> memory_fits n env \<Longrightarrow> dungeon_runs d"
| went_on: "dungeon_runs d \<Longrightarrow> possible d a \<Longrightarrow> dungeon_step a d = Inr d' \<Longrightarrow> dungeon_runs d'"

lemma services_ok_are_fresh: "services_ok d taken ss \<Longrightarrow> fresh_services d taken ss"
  by (induction ss arbitrary: taken)
    (auto simp: summoning_ok_def fresh_summoning_def split: service.splits option.splits)

lemma action_ok_possible: "action_ok d a \<Longrightarrow> possible d a"
  by (cases "runq d")
    (auto simp: action_ok_def possible_def summoning_ok_def fresh_summoning_def services_ok_are_fresh
      split: action.splits option.splits list.splits)

lemma reachable_runs: "dungeon_reachable d \<Longrightarrow> dungeon_runs d"
  by (induction rule: dungeon_reachable.induct) (auto intro: dungeon_runs.intros action_ok_possible)

section \<open>The faults\<close>

text \<open>
  The undefined behaviour of a turn, and why: the duplicate scan reads past the bucket whenever
  an imp is queued; \<open>imp_set_ioev\<close> writes through a description that \<open>malloc\<close> did not deliver,
  or a driven imp was summoned without memory for its list of requests; an event is for an imp that
  was dismissed while a descriptor was still armed for it; the maintainer frees a request that is a
  small integer, or follows a list that was never there; an imp is killed that does not exist.
\<close>

definition fault :: "'m dungeon \<Rightarrow> 'm action \<Rightarrow> ub \<Rightarrow> bool" where
  "fault d a e \<longleftrightarrow>
     (case a of
        DoSummon m s \<Rightarrow> e = OutOfBounds
      | DoWork rd_t rd_e m ret svcs ctl \<Rightarrow>
          e = OutOfBounds
          \<or> e = NullDeref \<and> runq d \<noteq> []
            \<and> (requested_events (the (imps d (hd (runq d)))) = None
               \<or> (\<exists>fd ev nomem. SetIoev fd ev False nomem \<in> set svcs))
      | DoEpoll fds \<Rightarrow>
          e = OutOfBounds \<or> e = BadPointer \<and> (\<exists>fd\<in>set fds. fst (the (epoll d fd)) \<notin> dom (imps d))
      | DoReap closed \<Rightarrow>
          termq d \<noteq> []
          \<and> (case requested_events (the (imps d (hd (termq d)))) of
               None \<Rightarrow> e = NullDeref
             | Some reqs \<Rightarrow> e = BadPointer \<and> (ReqTimer \<in> set reqs \<or> ReqEvent \<in> set reqs))
      | DoKill p \<Rightarrow> imps d p = None \<and> e = (if p = 0 then NullDeref else BadPointer))"

text \<open>\<open>m\<close> yields a result with the property \<open>P\<close> or fails with an error that \<open>E\<close> allows.\<close>

definition within :: "('e \<Rightarrow> bool) \<Rightarrow> ('a \<Rightarrow> bool) \<Rightarrow> 'e + 'a \<Rightarrow> bool" where
  "within E P m \<longleftrightarrow> (case m of Inl e \<Rightarrow> E e | Inr x \<Rightarrow> P x)"

lemma within_Inr [simp]: "within E P (Inr x) = P x"
  by (simp add: within_def)

lemma within_Inl [simp]: "within E P (Inl e) = E e"
  by (simp add: within_def)

lemma within_bindE [simp]: "within E P (bindE m f) = within E (\<lambda>x. within E P (f x)) m"
  by (cases m) auto

lemma within_mono:
  "within E P m \<Longrightarrow> (\<And>x. m = Inr x \<Longrightarrow> P x \<Longrightarrow> Q x) \<Longrightarrow> (\<And>e. E e \<Longrightarrow> F e) \<Longrightarrow> within F Q m"
  by (cases m) auto

lemma within_barring: "barring e P m \<Longrightarrow> E e \<Longrightarrow> within E P m"
  by (cases m) auto

section \<open>What survives\<close>

text \<open>
  \<open>tidy\<close> takes out of a dungeon everything its placement does not depend on: the requests, the
  event masks, the timers and the epoll instance.  What is left satisfies the invariant of theory
  \<open>Dungeon\<close>, whatever happens.
\<close>

definition tidy_imp :: "'m imp \<Rightarrow> 'm imp" where
  "tidy_imp i = i\<lparr>requested_events := Some [], event_mask := 0, body := (body i)\<lparr>timer_on := False\<rparr>\<rparr>"

definition tidy :: "'m dungeon \<Rightarrow> 'm dungeon" where
  "tidy d = d\<lparr>imps := (\<lambda>p. map_option tidy_imp (imps d p)), epoll := Map.empty\<rparr>"

definition no_null :: "'m dungeon \<Rightarrow> bool" where
  "no_null d \<longleftrightarrow> imps d 0 = None \<and> (\<forall>fd p ev. epoll d fd = Some (p, ev) \<longrightarrow> p \<noteq> 0)"

definition bounded :: "'m dungeon \<Rightarrow> bool" where
  "bounded d \<longleftrightarrow> (\<forall>p i reqs. imps d p = Some i \<longrightarrow> requested_events i = Some reqs \<longrightarrow> length reqs \<le> request_volume)"

definition whole :: "intptr list \<Rightarrow> 'm dungeon \<Rightarrow> bool" where
  "whole R d \<longleftrightarrow> dungeon_inv R (tidy d) \<and> no_null d \<and> bounded d"

lemma tidy_imp_sel [simp]:
  "waitio (tidy_imp i) = waitio i" "requested_events (tidy_imp i) = Some []" "event_mask (tidy_imp i) = 0"
  "\<not> timer_on (body (tidy_imp i))" "imp_body_delete (body (tidy_imp i)) = imp_body_delete (body i)"
  by (simp_all add: tidy_imp_def imp_body_delete_def)

lemma tidy_sel [simp]:
  "run_queue (tidy d) = run_queue d" "terminated_queue (tidy d) = terminated_queue d"
  "nr_total (tidy d) = nr_total d" "nr_max (tidy d) = nr_max d" "nr_waitio (tidy d) = nr_waitio d"
  "epoll (tidy d) = Map.empty" "imps (tidy d) p = map_option tidy_imp (imps d p)"
  "next_imp_id (tidy d) = next_imp_id d" "dom (imps (tidy d)) = dom (imps d)"
  by (auto simp: tidy_def)

lemma tidy_upd:
  "tidy (d\<lparr>run_queue := q\<rparr>) = (tidy d)\<lparr>run_queue := q\<rparr>"
  "tidy (d\<lparr>terminated_queue := q\<rparr>) = (tidy d)\<lparr>terminated_queue := q\<rparr>"
  "tidy (d\<lparr>pending_event := b\<rparr>) = (tidy d)\<lparr>pending_event := b\<rparr>"
  "tidy (d\<lparr>nr_waitio := n\<rparr>) = (tidy d)\<lparr>nr_waitio := n\<rparr>"
  "tidy (d\<lparr>nr_total := n\<rparr>) = (tidy d)\<lparr>nr_total := n\<rparr>"
  "tidy (d\<lparr>next_imp_id := k\<rparr>) = (tidy d)\<lparr>next_imp_id := k\<rparr>"
  "tidy (d\<lparr>epoll := ep\<rparr>) = tidy d"
  "tidy (d\<lparr>imps := (imps d)(p \<mapsto> i)\<rparr>) = (tidy d)\<lparr>imps := (imps (tidy d))(p \<mapsto> tidy_imp i)\<rparr>"
  "tidy (d\<lparr>imps := (imps d)(p := None)\<rparr>) = (tidy d)\<lparr>imps := (imps (tidy d))(p := None)\<rparr>"
  by (rule dungeon.equality; simp add: tidy_def fun_eq_iff)+

lemma whole_awake: "whole (p # R) d \<Longrightarrow> \<exists>i. imps d p = Some i \<and> \<not> waitio i"
proof -
  assume "whole (p # R) d"
  then have "p \<in> awake (tidy d)" using dungeon_invD(3) [of "p # R" "tidy d"] by (auto simp: whole_def)
  then show ?thesis by (auto simp: awake_def)
qed

lemma whole_imp_ok:
  assumes "whole R d"
  shows "imp_ok (tidy d) p (tidy_imp i)"
  by (simp add: imp_ok_def IMP_TIMEDOUT_def)

text \<open>Whatever is stored into an imp, as long as it does not move.\<close>

lemma whole_upd:
  assumes "whole R d" and "imps d p = Some i" and "waitio i' = waitio i"
    and "\<And>reqs. requested_events i' = Some reqs \<Longrightarrow> length reqs \<le> request_volume"
  shows "whole R (d\<lparr>imps := (imps d)(p \<mapsto> i')\<rparr>)"
proof -
  have "dungeon_inv R ((tidy d)\<lparr>imps := (imps (tidy d))(p \<mapsto> tidy_imp i')\<rparr>)"
    using assms whole_imp_ok [OF assms(1)]
    by (intro dungeon_inv_upd [where i = "tidy_imp i"]) (auto simp: whole_def)
  with assms show ?thesis by (auto simp: whole_def tidy_upd no_null_def bounded_def)
qed

lemma whole_volume: "whole R d \<Longrightarrow> imps d p = Some i \<Longrightarrow> requested_events i = Some reqs \<Longrightarrow> length reqs \<le> request_volume"
  by (auto simp: whole_def bounded_def)

text \<open>Only \<open>tidy\<close>, the imps and the epoll instance matter.\<close>

lemma whole_same: "whole R d \<Longrightarrow> dungeon_inv R' (tidy d') \<Longrightarrow> imps d' = imps d \<Longrightarrow> epoll d' = epoll d \<Longrightarrow> whole R' d'"
  by (simp add: whole_def no_null_def bounded_def)

section \<open>The operations\<close>

lemma whole_run:
  assumes "whole (p # R) d"
  shows "barring OutOfBounds (\<lambda>d'. whole R d' \<and> imps d' = imps d \<and> epoll d' = epoll d) (imp_run d p)"
proof -
  obtain i where "imps d p = Some i" using whole_awake [OF assms] by blast
  then have "imps (tidy d) p = Some (tidy_imp i)" by simp
  moreover have "dungeon_inv (p # R) (tidy d)" using assms by (simp add: whole_def)
  ultimately have "barring OutOfBounds (dungeon_inv R) (imp_run (tidy d) p)"
    using barring_mono [OF imp_run_inv [of p R "tidy d" "tidy_imp i"]] by simp
  moreover have "imp_run (tidy d) p = bindE (imp_run d p) (\<lambda>d'. Inr (tidy d'))"
    by (cases "queue_enqueue_uniq_nb (run_queue d) p") (auto simp: imp_run_def tidy_upd)
  ultimately have "barring OutOfBounds (\<lambda>d'. dungeon_inv R (tidy d')) (imp_run d p)" by simp
  then show ?thesis
  proof (rule barring_mono)
    fix d' assume d': "imp_run d p = Inr d'" "dungeon_inv R (tidy d')"
    with imp_run_same [OF d'(1)] whole_same [OF assms] show "whole R d' \<and> imps d' = imps d \<and> epoll d' = epoll d" by simp
  qed
qed

lemma whole_term:
  assumes "whole (p # R) d"
  shows "\<exists>d'. imp_term d p = Inr d' \<and> whole R d'"
proof -
  obtain i where "imps d p = Some i" using whole_awake [OF assms] by blast
  then have "imps (tidy d) p = Some (tidy_imp i)" by simp
  moreover have "dungeon_inv (p # R) (tidy d)" using assms by (simp add: whole_def)
  ultimately obtain d1 where d1: "imp_term (tidy d) p = Inr d1" "dungeon_inv R d1"
    using imp_term_inv [of p R "tidy d" "tidy_imp i" "[]"] by auto
  have "imp_term (tidy d) p = bindE (imp_term d p) (\<lambda>d'. Inr (tidy d'))"
    by (cases "queue_enqueue_nb (terminated_queue d) p") (auto simp: imp_term_def tidy_upd)
  with d1 obtain d' where "imp_term d p = Inr d'" "dungeon_inv R (tidy d')" by (auto simp: bindE_eq_Inr_iff)
  with imp_term_same [of d p d'] assms show ?thesis by (auto intro: whole_same)
qed

lemma whole_wake:
  assumes "whole R d" and i: "imps d p = Some i"
  shows "barring OutOfBounds (\<lambda>d'. whole R d' \<and> dom (imps d') = dom (imps d)) (imp_wake d p)"
proof (cases "waitio i")
  case False
  with assms show ?thesis by (simp add: imp_wake_def)
next
  case True
  let ?d = "d\<lparr>imps := (imps d)(p \<mapsto> i\<lparr>waitio := False\<rparr>), nr_waitio := nr_waitio d - 1\<rparr>"
  have run: "imp_wake d p = imp_run ?d p" using True i by (simp add: imp_wake_def)
  have dom: "dom (imps ?d) = dom (imps d)" using i by auto
  have "tidy_imp (i\<lparr>waitio := False\<rparr>) = (tidy_imp i)\<lparr>waitio := False\<rparr>" by (simp add: tidy_imp_def)
  then have "imp_wake (tidy d) p = imp_run (tidy ?d) p" using True i by (simp add: imp_wake_def tidy_upd)
  moreover have "imp_run (tidy e) p = bindE (imp_run e p) (\<lambda>d'. Inr (tidy d'))" for e :: "'a dungeon"
    by (cases "queue_enqueue_uniq_nb (run_queue e) p") (auto simp: imp_run_def tidy_upd)
  moreover have "barring OutOfBounds (dungeon_inv R) (imp_wake (tidy d) p)"
    using assms barring_mono [OF imp_wake_inv [of R "tidy d" p "tidy_imp i"], of "dungeon_inv R"]
    by (simp add: whole_def)
  ultimately have "barring OutOfBounds (\<lambda>d'. dungeon_inv R (tidy d')) (imp_run ?d p)" by simp
  then show ?thesis
    unfolding run
  proof (rule barring_mono)
    fix d' assume d': "imp_run ?d p = Inr d'" "dungeon_inv R (tidy d')"
    have "no_null ?d" "bounded ?d" using assms by (auto simp: whole_def no_null_def bounded_def)
    with d' imp_run_same [OF d'(1)] have "whole R d'" by (simp add: whole_def no_null_def bounded_def)
    with imp_run_same [OF d'(1)] dom show "whole R d' \<and> dom (imps d') = dom (imps d)" by simp
  qed
qed

lemma whole_wake_all:
  "whole R d \<Longrightarrow> 0 \<notin> set ps \<Longrightarrow>
     within (\<lambda>e. e = OutOfBounds \<or> e = BadPointer \<and> \<not> set ps \<subseteq> dom (imps d)) (whole R) (wake_all d ps)"
proof (induction ps arbitrary: d)
  case Nil
  then show ?case by simp
next
  case (Cons p ps)
  show ?case
  proof (cases "imps d p")
    case None
    with Cons.prems show ?thesis by (simp add: imp_cancel_timer_def upd_imp_def ld_imp_def domIff)
  next
    case (Some i)
    let ?d = "d\<lparr>imps := (imps d)(p \<mapsto> i\<lparr>body := imp_body_set_timer (body i) 0\<rparr>)\<rparr>"
    have dom: "dom (imps ?d) = dom (imps d)" using Some by auto
    have "whole R ?d"
      using whole_volume [OF Cons.prems(1) Some] by (intro whole_upd [OF Cons.prems(1) Some]) simp_all
    then have "barring OutOfBounds (\<lambda>d'. whole R d' \<and> dom (imps d') = dom (imps ?d)) (imp_wake ?d p)"
      by (rule whole_wake) simp
    then have "within (\<lambda>e. e = OutOfBounds \<or> e = BadPointer \<and> \<not> set (p # ps) \<subseteq> dom (imps d))
        (\<lambda>d'. whole R d' \<and> dom (imps d') = dom (imps d)) (imp_wake ?d p)"
      unfolding dom by (rule within_barring) simp
    then have "within (\<lambda>e. e = OutOfBounds \<or> e = BadPointer \<and> \<not> set (p # ps) \<subseteq> dom (imps d))
        (\<lambda>d1. within (\<lambda>e. e = OutOfBounds \<or> e = BadPointer \<and> \<not> set (p # ps) \<subseteq> dom (imps d)) (whole R) (wake_all d1 ps))
        (imp_wake ?d p)"
    proof (rule within_mono)
      fix d1 :: "'a dungeon" assume d1: "whole R d1 \<and> dom (imps d1) = dom (imps d)"
      have "0 \<notin> set ps" using Cons.prems(2) by simp
      from Cons.IH [OF conjunct1 [OF d1] this]
      show "within (\<lambda>e. e = OutOfBounds \<or> e = BadPointer \<and> \<not> set (p # ps) \<subseteq> dom (imps d)) (whole R) (wake_all d1 ps)"
        by (rule within_mono) (use d1 in auto)
    qed
    with Some show ?thesis by (simp add: imp_cancel_timer_def)
  qed
qed

text \<open>Summoning: the new imp is queued, and the others stay what they are.\<close>

lemma imp_summon_frame:
  "imp_summon d m s = Inr (d', new) \<Longrightarrow> epoll d' = epoll d
     \<and> (imps d' = imps d \<or> (\<exists>p i. alloc s = Some p \<and> imps d' = (imps d)(p \<mapsto> i)
           \<and> requested_events i = (if ll_ok s then Some [] else None)))"
  by (auto simp: imp_summon_def imp_new_def Let_def bindE_eq_Inr_iff split: if_splits option.splits dest!: imp_run_same)

lemma whole_summon:
  assumes "whole R d" and "fresh_summoning d s"
  shows "barring OutOfBounds (\<lambda>(d', new). whole R d' \<and> (\<forall>q \<in> dom (imps d). imps d' q = imps d q)
           \<and> dom (imps d') \<subseteq> dom (imps d) \<union> set_option (alloc s)) (imp_summon d m s)"
proof -
  let ?s = "s\<lparr>ll_ok := True, new_body := map_option (\<lambda>b. b\<lparr>timer_on := False\<rparr>) (new_body s)\<rparr>"
  have run: "imp_run (tidy e) p = bindE (imp_run e p) (\<lambda>d'. Inr (tidy d'))" for e :: "'a dungeon" and p
    by (cases "queue_enqueue_uniq_nb (run_queue e) p") (auto simp: imp_run_def tidy_upd)
  have commutes: "imp_summon (tidy d) m ?s = bindE (imp_summon d m s) (\<lambda>(d', new). Inr (tidy d', new))"
  proof (cases "nr_total d \<ge> nr_max d \<or> alloc s = None \<or> new_body s = None")
    case True
    then show ?thesis by (auto simp: imp_summon_def imp_new_def Let_def tidy_upd split: option.split)
  next
    case False
    then obtain p b where p: "alloc s = Some p" "new_body s = Some b" "nr_total d < nr_max d" by auto
    let ?i = "\<lambda>b reqs. \<lparr>imp_id = next_imp_id d, waitio = False, requested_events = reqs, event_mask = 0,
        body = b, memory = fsm_new s m\<rparr>"
    let ?d = "d\<lparr>next_imp_id := next_imp_id d + 1, imps := (imps d)(p \<mapsto> ?i b (if ll_ok s then Some [] else None)),
        nr_total := nr_total d + 1\<rparr>"
    have "tidy ?d = (tidy d)\<lparr>next_imp_id := next_imp_id d + 1,
        imps := (imps (tidy d))(p \<mapsto> ?i (b\<lparr>timer_on := False\<rparr>) (Some [])), nr_total := nr_total d + 1\<rparr>"
      by (rule dungeon.equality) (simp_all add: tidy_def fun_eq_iff tidy_imp_def)
    then have "imp_summon (tidy d) m ?s = bindE (imp_run (tidy ?d) p) (\<lambda>d. Inr (d, Some p))"
      using p by (simp add: imp_summon_def imp_new_def Let_def)
    moreover have "imp_summon d m s = bindE (imp_run ?d p) (\<lambda>d. Inr (d, Some p))"
      using p by (simp add: imp_summon_def imp_new_def Let_def)
    ultimately show ?thesis unfolding run by (cases "imp_run ?d p") simp_all
  qed
  have "summoning_ok (tidy d) ?s"
    using assms(2) by (auto simp: summoning_ok_def fresh_summoning_def split: option.splits)
  moreover have "dungeon_inv R (tidy d)" using assms(1) by (simp add: whole_def)
  ultimately have "barring OutOfBounds (\<lambda>(d', new). dungeon_inv R d') (imp_summon (tidy d) m ?s)"
    by (intro barring_mono [OF imp_summon_inv]) auto
  then have "barring OutOfBounds (\<lambda>(d', new). dungeon_inv R (tidy d')) (imp_summon d m s)"
    unfolding commutes barring_bindE by (rule barring_mono) auto
  then show ?thesis
  proof (rule barring_mono)
    fix x assume x: "imp_summon d m s = Inr x" "case x of (d', new) \<Rightarrow> dungeon_inv R (tidy d')"
    obtain d' new where x': "x = (d', new)" by (cases x)
    with x imp_summon_frame [of d m s d' new] assms
    show "case x of (d', new) \<Rightarrow> whole R d' \<and> (\<forall>q \<in> dom (imps d). imps d' q = imps d q)
        \<and> dom (imps d') \<subseteq> dom (imps d) \<union> set_option (alloc s)"
      by (auto simp: whole_def no_null_def bounded_def fresh_summoning_def split: if_splits)
  qed
qed

section \<open>Driving an imp\<close>

text \<open>While \<open>p\<close> is driven; \<open>b\<close>: it has no list of requests.\<close>

definition driven :: "intptr \<Rightarrow> intptr list \<Rightarrow> bool \<Rightarrow> 'm dungeon \<Rightarrow> bool" where
  "driven p R b d \<longleftrightarrow> whole (p # R) d \<and> (\<exists>i. imps d p = Some i \<and> (requested_events i = None \<longleftrightarrow> b))"

lemma driven_upd:
  assumes "driven p R b d" and "imps d p = Some i" and "waitio i' = waitio i"
    and "requested_events i' = None \<longleftrightarrow> requested_events i = None"
    and "\<And>reqs. requested_events i' = Some reqs \<Longrightarrow> length reqs \<le> request_volume"
  shows "driven p R b (d\<lparr>imps := (imps d)(p \<mapsto> i')\<rparr>)"
  using assms whole_upd [of "p # R" d p i i'] by (auto simp: driven_def)

lemma append_request_driven:
  assumes "driven p R b d"
  shows "within (\<lambda>e. e = NullDeref \<and> b) (\<lambda>(ret, d'). driven p R b d' \<and> dom (imps d') = dom (imps d))
     (append_request d p r nomem)"
proof -
  from assms obtain i where i: "imps d p = Some i" "requested_events i = None \<longleftrightarrow> b" and w: "whole (p # R) d"
    by (auto simp: driven_def)
  show ?thesis
  proof (cases "requested_events i")
    case None
    with i show ?thesis by (simp add: append_request_def)
  next
    case (Some reqs)
    obtain ret reqs' where ap: "list_append False request_volume reqs r nomem = (ret, reqs')"
      by (cases "list_append False request_volume reqs r nomem")
    have "length reqs' \<le> request_volume"
      using ap whole_volume [OF w i(1) Some] by (auto simp: list_append_def split: if_splits)
    then have "driven p R b (d\<lparr>imps := (imps d)(p \<mapsto> i\<lparr>requested_events := Some reqs'\<rparr>)\<rparr>)"
      using Some by (intro driven_upd [OF assms i(1)]) simp_all
    with i Some ap show ?thesis by (auto simp: append_request_def)
  qed
qed

definition unchecked_malloc :: "'m service list \<Rightarrow> bool" where
  "unchecked_malloc ss \<longleftrightarrow> (\<exists>fd ev nomem. SetIoev fd ev False nomem \<in> set ss)"

lemma do_service_driven:
  assumes dr: "driven p R b d" and ok: "case s of Summon m sm \<Rightarrow> fresh_summoning d sm | _ \<Rightarrow> True"
  shows "within (\<lambda>e. e = OutOfBounds \<or> e = NullDeref \<and> (b \<or> unchecked_malloc [s]))
     (\<lambda>d'. driven p R b d' \<and> dom (imps d') \<subseteq> dom (imps d)
         \<union> (case s of Summon m sm \<Rightarrow> set_option (alloc sm) | _ \<Rightarrow> {})) (do_service d p s)"
proof (cases s)
  case (SetIoev fd ev malloc_ok nomem)
  show ?thesis
  proof (cases malloc_ok)
    case True
    have "within (\<lambda>e. e = OutOfBounds \<or> e = NullDeref \<and> (b \<or> unchecked_malloc [s]))
        (\<lambda>(ret, d'). driven p R b d' \<and> dom (imps d') = dom (imps d))
        (append_request d p (ReqIo \<lparr>ev_mask = EV_MASK_USER, events = ev, ev_fd = fd, ev_imp = p\<rparr>) nomem)"
      by (rule within_mono [OF append_request_driven [OF dr]]) auto
    then show ?thesis using SetIoev True
      by (simp add: do_service_def imp_set_ioev_def) (erule within_mono, auto)
  next
    case False
    then show ?thesis using SetIoev by (simp add: do_service_def imp_set_ioev_def unchecked_malloc_def)
  qed
next
  case (SetTimer ms nomem)
  from dr obtain i where i: "imps d p = Some i" and w: "whole (p # R) d" by (auto simp: driven_def)
  let ?d = "d\<lparr>imps := (imps d)(p \<mapsto> i\<lparr>body := imp_body_set_timer (body i) ms\<rparr>)\<rparr>"
  have dom: "dom (imps ?d) = dom (imps d)" using i by auto
  have "driven p R b ?d" using whole_volume [OF w i] by (intro driven_upd [OF dr i]) simp_all
  from append_request_driven [OF this, of ReqTimer nomem]
  have "within (\<lambda>e. e = OutOfBounds \<or> e = NullDeref \<and> (b \<or> unchecked_malloc [s]))
      (\<lambda>(ret, d'). driven p R b d' \<and> dom (imps d') = dom (imps d)) (append_request ?d p ReqTimer nomem)"
    unfolding dom by (rule within_mono) auto
  then show ?thesis using SetTimer i
    by (simp add: do_service_def imp_set_timer_def) (erule within_mono, auto)
next
  case (Summon m sm)
  obtain i where i: "imps d p = Some i" "requested_events i = None \<longleftrightarrow> b" using dr by (auto simp: driven_def)
  from ok dr Summon have "barring OutOfBounds (\<lambda>(d', new). whole (p # R) d' \<and> (\<forall>q \<in> dom (imps d). imps d' q = imps d q)
      \<and> dom (imps d') \<subseteq> dom (imps d) \<union> set_option (alloc sm)) (imp_summon d m sm)"
    by (intro whole_summon) (simp_all add: driven_def)
  then have "barring OutOfBounds (\<lambda>(d', new). whole (p # R) d' \<and> imps d' p = Some i
      \<and> dom (imps d') \<subseteq> dom (imps d) \<union> set_option (alloc sm)) (imp_summon d m sm)"
    by (rule barring_mono) (use i(1) in \<open>auto simp: Ball_def domIff\<close>)
  then have "within (\<lambda>e. e = OutOfBounds \<or> e = NullDeref \<and> (b \<or> unchecked_malloc [s]))
      (\<lambda>(d', new). whole (p # R) d' \<and> imps d' p = Some i
      \<and> dom (imps d') \<subseteq> dom (imps d) \<union> set_option (alloc sm)) (imp_summon d m sm)"
    by (rule within_barring) simp
  then show ?thesis using i Summon
    by (simp add: do_service_def) (erule within_mono, auto simp: driven_def)
qed

lemma do_services_driven:
  "driven p R b d \<Longrightarrow> fresh_services d0 taken ss \<Longrightarrow> dom (imps d) \<subseteq> dom (imps d0) \<union> set taken \<Longrightarrow>
     within (\<lambda>e. e = OutOfBounds \<or> e = NullDeref \<and> (b \<or> unchecked_malloc ss)) (driven p R b) (do_services d p ss)"
proof (induction ss arbitrary: d taken)
  case Nil
  then show ?case by simp
next
  case (Cons s ss)
  let ?taken = "(case s of Summon m sm \<Rightarrow> (case alloc sm of None \<Rightarrow> [] | Some q \<Rightarrow> [q]) | _ \<Rightarrow> []) @ taken"
  have rest: "fresh_services d0 ?taken ss" using Cons.prems(2) by (auto split: service.splits option.splits)
  have "within (\<lambda>e. e = OutOfBounds \<or> e = NullDeref \<and> (b \<or> unchecked_malloc [s]))
     (\<lambda>d'. driven p R b d' \<and> dom (imps d') \<subseteq> dom (imps d)
         \<union> (case s of Summon m sm \<Rightarrow> set_option (alloc sm) | _ \<Rightarrow> {})) (do_service d p s)"
    using Cons.prems by (intro do_service_driven)
      (auto simp: fresh_summoning_def domIff subset_iff split: service.splits option.splits)
  then show ?case
    unfolding do_services.simps within_bindE
  proof (rule within_mono)
    fix d' :: "'a dungeon"
    assume d': "driven p R b d' \<and> dom (imps d') \<subseteq> dom (imps d)
        \<union> (case s of Summon m sm \<Rightarrow> set_option (alloc sm) | _ \<Rightarrow> {})"
    have "set ?taken = (case s of Summon m sm \<Rightarrow> set_option (alloc sm) | _ \<Rightarrow> {}) \<union> set taken"
      by (cases s) (auto split: option.splits)
    with d' have "dom (imps d') \<subseteq> dom (imps d0) \<union> set ?taken" using Cons.prems(3) by blast
    from Cons.IH [OF conjunct1 [OF d'] rest this]
    show "within (\<lambda>e. e = OutOfBounds \<or> e = NullDeref \<and> (b \<or> unchecked_malloc (s # ss))) (driven p R b) (do_services d' p ss)"
      by (rule within_mono) (auto simp: unchecked_malloc_def)
  qed (auto simp: unchecked_malloc_def)
qed

lemma yield_whole:
  assumes dr: "driven p R b d"
  shows "within (\<lambda>e. e = OutOfBounds \<or> e = NullDeref \<and> b) (whole R)
     (bindE (arm_loop (Suc request_volume) d p ctl 0) (\<lambda>(count, d). after_yield d p count))"
proof -
  from dr obtain i where i: "imps d p = Some i" "requested_events i = None \<longleftrightarrow> b" and w: "whole (p # R) d"
    by (auto simp: driven_def)
  show ?thesis
  proof (cases "requested_events i")
    case None
    with i(1) have "arm_loop (Suc request_volume) d p ctl 0 = Inl NullDeref" by (simp add: arm_loop.simps(2) [of 1000, simplified])
    with None i(2) show ?thesis by (simp add: bindE_def)
  next
    case (Some reqs)
    then have "length reqs < Suc request_volume" using whole_volume [OF w i(1)] by simp
    from arm_loop_spec [OF i(1) Some this, of ctl 0] obtain ep where
      run: "arm_loop (Suc request_volume) d p ctl 0 = Inr (length reqs,
         d\<lparr>imps := (imps d)(p \<mapsto> i\<lparr>requested_events := Some [], waitio := waitio i \<or> reqs \<noteq> []\<rparr>), epoll := ep\<rparr>)"
      and arms: "arms p ctl (map (request_fd (body i)) reqs) (epoll d) ep" by auto
    have "p \<noteq> 0" using i(1) w by (auto simp: whole_def no_null_def)
    then have ep: "q \<noteq> 0" if "ep fd = Some (q, ev)" for fd q ev
      using that arms_owner [OF arms that] w by (auto simp: whole_def no_null_def)
    let ?j = "i\<lparr>requested_events := Some [], waitio := waitio i \<or> reqs \<noteq> []\<rparr>"
    let ?d = "d\<lparr>imps := (imps d)(p \<mapsto> ?j), epoll := ep\<rparr>"
    have nb: "no_null ?d" "bounded ?d" using w i(1) ep by (auto simp: whole_def no_null_def bounded_def)
    show ?thesis
    proof (cases "reqs = []")
      case True
      then have "whole (p # R) (d\<lparr>imps := (imps d)(p \<mapsto> ?j)\<rparr>)" by (intro whole_upd [OF w i(1)]) simp_all
      then have "whole (p # R) ?d" using nb by (simp add: whole_def tidy_upd)
      from whole_run [OF this] have "barring OutOfBounds (whole R) (imp_run ?d p)" by (rule barring_mono) simp
      then show ?thesis using True run by (simp add: after_yield_def within_barring)
    next
      case False
      let ?e = "(tidy d)\<lparr>imps := (imps (tidy d))(p \<mapsto> (tidy_imp i)\<lparr>requested_events := Some [], waitio := True\<rparr>),
          nr_waitio := nr_waitio (tidy d) + 1\<rparr>"
      have "dungeon_inv R ?e"
        using w i(1) by (intro after_yield_sleep [where i = "tidy_imp i"]) (simp_all add: whole_def)
      moreover have "?e = tidy (?d\<lparr>nr_waitio := nr_waitio d + 1\<rparr>)"
        using False by (intro dungeon.equality) (simp_all add: tidy_def fun_eq_iff tidy_imp_def)
      ultimately have "whole R (?d\<lparr>nr_waitio := nr_waitio d + 1\<rparr>)"
        using nb by (simp add: whole_def no_null_def bounded_def)
      then show ?thesis using False run by (simp add: after_yield_def)
    qed
  qed
qed

section \<open>The turns\<close>

lemma reduct_any:
  assumes "imps d p = Some i"
  shows "\<exists>msk b. imp_reduct_event_mask d p rd_t rd_e = Inr (msk, d\<lparr>imps := (imps d)(p \<mapsto> i\<lparr>body := b\<rparr>)\<rparr>)
     \<and> and msk EV_MASK_KILL = 0 \<and> and msk EV_MASK_GLOBAL_ALERT = 0"
  using assms
  by (cases rd_t; cases rd_e)
    (auto simp: imp_reduct_event_mask_def imp_body_cleanup_timer_def imp_body_cleanup_event_def imp_cancel_timer_def
      Let_def ev_mask_defs)

lemma imp_driver_whole:
  assumes w: "whole (p # R) d" and i: "imps d p = Some i" and fresh: "fresh_services d [] svcs"
  shows "within (\<lambda>e. e = OutOfBounds \<or> e = NullDeref \<and> (requested_events i = None \<or> unchecked_malloc svcs)) (whole R)
     (imp_driver d p rd_t rd_e (m, ret, svcs) ctl)"
proof -
  let ?E = "\<lambda>e. e = OutOfBounds \<or> e = NullDeref \<and> (requested_events i = None \<or> unchecked_malloc svcs)"
  from reduct_any [OF i] obtain msk b where
    msk: "imp_reduct_event_mask d p rd_t rd_e = Inr (msk, d\<lparr>imps := (imps d)(p \<mapsto> i\<lparr>body := b\<rparr>)\<rparr>)"
      "and msk EV_MASK_KILL = 0" "and msk EV_MASK_GLOBAL_ALERT = 0" by blast
  let ?d = "d\<lparr>imps := (imps d)(p \<mapsto> i\<lparr>body := b, event_mask := msk\<rparr>)\<rparr>"
  have run: "imp_driver d p rd_t rd_e (m, ret, svcs) ctl =
     bindE (do_services ?d p svcs) (\<lambda>d.
     bindE (upd_imp d p (\<lambda>i. i\<lparr>memory := m\<rparr>)) (\<lambda>d.
     if ret = TO_TERM then imp_term d p
     else bindE (arm_loop (Suc request_volume) d p ctl 0) (\<lambda>(count, d). after_yield d p count)))"
    unfolding imp_driver_def msk(1) using msk(2,3) by (simp del: arm_loop.simps)
  have dr: "driven p R (requested_events i = None) d" using w i by (simp add: driven_def)
  then have "driven p R (requested_events i = None) ?d"
    using whole_volume [OF w i] by (intro driven_upd [OF dr i]) simp_all
  moreover have "dom (imps ?d) \<subseteq> dom (imps d) \<union> set []" using i by auto
  ultimately have "within ?E (driven p R (requested_events i = None)) (do_services ?d p svcs)"
    using do_services_driven [OF _ fresh] by blast
  then show ?thesis
    unfolding run within_bindE
  proof (rule within_mono)
    fix d1 :: "'a dungeon" assume dr: "driven p R (requested_events i = None) d1"
    then obtain k where k: "imps d1 p = Some k" by (auto simp: driven_def)
    let ?d1 = "d1\<lparr>imps := (imps d1)(p \<mapsto> k\<lparr>memory := m\<rparr>)\<rparr>"
    have "whole (p # R) d1" using dr by (simp add: driven_def)
    note vol = whole_volume [OF this k]
    have dr1: "driven p R (requested_events i = None) ?d1" using vol by (intro driven_upd [OF dr k]) simp_all
    have "within ?E (whole R) (if ret = TO_TERM then imp_term ?d1 p
        else bindE (arm_loop (Suc request_volume) ?d1 p ctl 0) (\<lambda>(count, d). after_yield d p count))"
    proof (cases "ret = TO_TERM")
      case True
      with dr1 whole_term [of p R ?d1] show ?thesis by (auto simp: driven_def)
    next
      case False
      have "within ?E (whole R) (bindE (arm_loop (Suc request_volume) ?d1 p ctl 0) (\<lambda>(count, d). after_yield d p count))"
        by (rule within_mono [OF yield_whole [OF dr1]]) auto
      with False show ?thesis by (simp only: if_False)
    qed
    then show "within ?E (\<lambda>d. within ?E (whole R) (if ret = TO_TERM then imp_term d p
        else bindE (arm_loop (Suc request_volume) d p ctl 0) (\<lambda>(count, d). after_yield d p count)))
        (upd_imp d1 p (\<lambda>i. i\<lparr>memory := m\<rparr>))"
      using k by (simp del: arm_loop.simps within_bindE)
  qed simp
qed

lemma whole_run_dequeue:
  assumes "whole R d" and "runq d = p # ps"
  shows "\<exists>q. queue_dequeue_nb (run_queue d) = Inr (0, Some p, q) \<and> whole (p # R) (d\<lparr>run_queue := q\<rparr>)"
  using run_dequeue_inv [of R "tidy d" p ps] assms
  by (fastforce simp: whole_def tidy_upd no_null_def bounded_def)

lemma whole_term_dequeue:
  assumes "whole R d" and "termq d = p # ps"
  shows "\<exists>q. queue_dequeue_nb (terminated_queue d) = Inr (0, Some p, q) \<and> whole (p # R) (d\<lparr>terminated_queue := q\<rparr>)"
  using term_dequeue_inv [of R "tidy d" p ps] assms
  by (fastforce simp: whole_def tidy_upd no_null_def bounded_def)

lemma whole_wf: "whole R d \<Longrightarrow> queue_wf (run_queue d) \<and> queue_wf (terminated_queue d)"
  using dungeon_invD(1) [of R "tidy d"] by (simp add: whole_def queues_ok_def)

lemma free_requests_fault: "free_requests reqs = Inl e \<Longrightarrow> e = BadPointer \<and> (ReqTimer \<in> set reqs \<or> ReqEvent \<in> set reqs)"
  by (induction reqs) (auto split: ev_request.splits)

lemma imp_dismiss_whole:
  assumes w: "whole (p # R) d" and i: "imps d p = Some i"
  shows "within (\<lambda>e. case requested_events i of None \<Rightarrow> e = NullDeref
       | Some reqs \<Rightarrow> e = BadPointer \<and> (ReqTimer \<in> set reqs \<or> ReqEvent \<in> set reqs)) (whole R) (imp_dismiss d p closed)"
proof (cases "requested_events i")
  case None
  with i show ?thesis by (simp add: imp_dismiss_def)
next
  case (Some reqs)
  show ?thesis
  proof (cases "free_requests reqs")
    case (Inl e)
    with i Some free_requests_fault [OF Inl] show ?thesis by (simp add: imp_dismiss_def)
  next
    case (Inr u)
    define d' where "d' = (let d1 = close_fds (close_fds d closed) (imp_body_delete (body i)) in
      d1\<lparr>imps := (imps d1)(p := None), nr_total := nr_total d1 - 1\<rparr>)"
    have run: "imp_dismiss d p closed = Inr d'"
      using i Some Inr by (simp add: imp_dismiss_def d'_def Let_def)
    have "tidy d' = (tidy d)\<lparr>imps := (imps (tidy d))(p := None), nr_total := nr_total (tidy d) - 1\<rparr>"
      unfolding d'_def Let_def close_fds_def by (rule dungeon.equality) (simp_all add: tidy_def fun_eq_iff)
    then have "imp_dismiss (tidy d) p closed = Inr (tidy d')"
      using i by (simp add: imp_dismiss_def close_fds_def Let_def)
    moreover have "closes_all (tidy d) p closed" using i by (simp add: closes_all_def)
    ultimately have "dungeon_inv R (tidy d')"
      using imp_dismiss_inv [of p R "tidy d" "tidy_imp i" "[]" closed] w i by (auto simp: whole_def)
    then have "whole R d'"
      using w by (auto simp: whole_def no_null_def bounded_def d'_def Let_def close_fds_def restrict_map_def
          split: if_splits)
    with run show ?thesis by simp
  qed
qed

lemma step_whole:
  assumes w: "whole [] d" and ok: "possible d a"
  shows "within (fault d a) (whole []) (dungeon_step a d)"
proof (cases a)
  case (DoSummon m s)
  with ok have "fresh_summoning d s" by (simp add: possible_def)
  from whole_summon [OF w this, of m] have "within (fault d a) (\<lambda>(d', new). whole [] d' \<and> (\<forall>q \<in> dom (imps d). imps d' q = imps d q)
      \<and> dom (imps d') \<subseteq> dom (imps d) \<union> set_option (alloc s)) (imp_summon d m s)"
    by (rule within_barring) (simp add: fault_def DoSummon)
  then show ?thesis
    unfolding dungeon_step_def DoSummon action.case within_bindE by (rule within_mono) auto
next
  case (DoWork rd_t rd_e m ret svcs ctl)
  show ?thesis
  proof (cases "runq d")
    case Nil
    with w whole_wf [OF w] DoWork show ?thesis by (simp add: dungeon_step_def thr_driver_turn_def q2.deq_empty)
  next
    case (Cons p ps)
    from whole_run_dequeue [OF w this] obtain q where
      q: "queue_dequeue_nb (run_queue d) = Inr (0, Some p, q)" "whole [p] (d\<lparr>run_queue := q\<rparr>)" by blast
    from whole_awake [OF q(2)] obtain i where i: "imps (d\<lparr>run_queue := q\<rparr>) p = Some i" by blast
    have "fresh_services (d\<lparr>run_queue := q\<rparr>) taken svcs = fresh_services d taken svcs" for taken
      by (induction svcs arbitrary: taken) (auto simp: fresh_summoning_def split: service.split option.split)
    then have "fresh_services (d\<lparr>run_queue := q\<rparr>) [] svcs" using ok DoWork Cons by (simp add: possible_def)
    from imp_driver_whole [OF q(2) i this, of rd_t rd_e m ret ctl]
    have "within (fault d a) (whole []) (imp_driver (d\<lparr>run_queue := q\<rparr>) p rd_t rd_e (m, ret, svcs) ctl)"
      by (rule within_mono) (use i Cons DoWork in \<open>auto simp: fault_def unchecked_malloc_def\<close>)
    with q(1) DoWork show ?thesis by (simp add: dungeon_step_def thr_driver_turn_def)
  qed
next
  case (DoEpoll fds)
  let ?d = "d\<lparr>epoll := epoll d |` (- set fds)\<rparr>" and ?ps = "map (\<lambda>fd. fst (the (epoll d fd))) fds"
  have "whole [] ?d" using w by (auto simp: whole_def tidy_upd no_null_def bounded_def restrict_map_def split: if_splits)
  moreover have "0 \<notin> set ?ps"
  proof
    assume "0 \<in> set ?ps"
    then obtain fd where fd: "fd \<in> set fds" "fst (the (epoll d fd)) = 0" by auto
    moreover from this(1) ok DoEpoll obtain p ev where "epoll d fd = Some (p, ev)" by (force simp: possible_def)
    ultimately show False using w by (auto simp: whole_def no_null_def)
  qed
  ultimately have "within (fault d a) (whole []) (wake_all ?d ?ps)"
    by (rule within_mono [OF whole_wake_all]) (auto simp: fault_def DoEpoll)
  with DoEpoll show ?thesis by (simp add: dungeon_step_def thr_epoller_turn_def)
next
  case (DoReap closed)
  show ?thesis
  proof (cases "termq d")
    case Nil
    with w whole_wf [OF w] DoReap show ?thesis by (simp add: dungeon_step_def thr_maintainer_turn_def q2.deq_empty)
  next
    case (Cons p ps)
    from whole_term_dequeue [OF w this] obtain q where
      q: "queue_dequeue_nb (terminated_queue d) = Inr (0, Some p, q)" "whole [p] (d\<lparr>terminated_queue := q\<rparr>)" by blast
    from whole_awake [OF q(2)] obtain i where i: "imps (d\<lparr>terminated_queue := q\<rparr>) p = Some i" by blast
    from imp_dismiss_whole [OF q(2) i, of "closed p"]
    have "within (fault d a) (whole []) (imp_dismiss (d\<lparr>terminated_queue := q\<rparr>) p (closed p))"
      by (rule within_mono) (use i Cons DoReap in \<open>auto simp: fault_def\<close>)
    with q(1) DoReap show ?thesis by (simp add: dungeon_step_def thr_maintainer_turn_def)
  qed
next
  case (DoKill p)
  show ?thesis
  proof (cases "imps d p")
    case None
    with DoKill show ?thesis by (auto simp: dungeon_step_def imp_kill_def upd_imp_def ld_imp_def fault_def)
  next
    case (Some i)
    have "whole [] (d\<lparr>imps := (imps d)(p \<mapsto> i\<lparr>event_mask := or (event_mask i) EV_MASK_KILL\<rparr>)\<rparr>)"
      using whole_volume [OF w Some] by (intro whole_upd [OF w Some]) simp_all
    with Some DoKill show ?thesis by (simp add: dungeon_step_def imp_kill_def)
  qed
qed

text \<open>For the maintainer and for kills the faults are exact: when there is a cause, the turn fails.\<close>

lemma free_requests_integer: "ReqTimer \<in> set reqs \<or> ReqEvent \<in> set reqs \<Longrightarrow> free_requests reqs = Inl BadPointer"
  by (induction reqs) (auto split: ev_request.splits)

lemma fault_exact:
  assumes w: "whole [] d" and "fault d a e" and "(\<exists>closed. a = DoReap closed) \<or> (\<exists>p. a = DoKill p)"
  shows "dungeon_step a d = Inl e"
proof (cases a)
  case (DoReap closed)
  with assms(2) obtain p ps where t: "termq d = p # ps" by (cases "termq d") (auto simp: fault_def)
  from whole_term_dequeue [OF w this] obtain q where
    q: "queue_dequeue_nb (terminated_queue d) = Inr (0, Some p, q)" "whole [p] (d\<lparr>terminated_queue := q\<rparr>)" by blast
  from whole_awake [OF q(2)] obtain i where "imps d p = Some i" by auto
  with q(1) t DoReap assms(2) free_requests_integer show ?thesis
    by (auto simp: fault_def dungeon_step_def thr_maintainer_turn_def imp_dismiss_def split: option.splits)
next
  case (DoKill p)
  with assms(2) show ?thesis by (auto simp: fault_def dungeon_step_def imp_kill_def upd_imp_def ld_imp_def)
qed (use assms(3) in auto)

section \<open>Runs\<close>

lemma whole_of_inv:
  assumes inv: "dungeon_inv R d" and null: "imps d 0 = None"
  shows "whole R d"
proof -
  note D = dungeon_invD [OF inv]
  have same: "awake (tidy d) = awake d" "sleepers (tidy d) = sleepers d" by (auto simp: awake_def sleepers_def)
  have "imp_ok (tidy d) p i" if "imps (tidy d) p = Some i" for p i
  proof -
    from that obtain j where "i = tidy_imp j" by auto
    then show ?thesis by (simp add: imp_ok_def IMP_TIMEDOUT_def)
  qed
  then have "dungeon_inv R (tidy d)"
    using D by (intro dungeon_invI) (simp_all add: queues_ok_def same)
  moreover have "p \<noteq> 0" if "epoll d fd = Some (p, ev)" for fd p ev using D(8) [OF that] null by auto
  moreover have "length reqs \<le> request_volume" if "imps d p = Some i" "requested_events i = Some reqs" for p i reqs
    using D(9) [OF that(1)] that(2) by (auto simp: imp_ok_def)
  ultimately show ?thesis using null by (auto simp: whole_def no_null_def bounded_def)
qed

lemma dungeon_runs_whole: "dungeon_runs d \<Longrightarrow> whole [] d"
proof (induction rule: dungeon_runs.induct)
  case (begun workers n env d)
  then show ?case using dungeon_init_inv [OF begun] by (intro whole_of_inv) auto
next
  case (went_on d a d')
  with step_whole [of d a] show ?case by simp
qed

text \<open>The imps stay where they belong in every such history, and the counters count them.\<close>

lemma runs_placement:
  assumes "dungeon_runs d"
  shows "distinct (runq d @ termq d) \<and> set (runq d) \<union> set (termq d) = awake d
     \<and> nr_total d = int (card (dom (imps d))) \<and> nr_total d \<le> nr_max d \<and> nr_waitio d = int (card (sleepers d))"
proof -
  have "awake (tidy d) = awake d" "sleepers (tidy d) = sleepers d" by (auto simp: awake_def sleepers_def)
  moreover have "dungeon_inv [] (tidy d)" using dungeon_runs_whole [OF assms] by (simp add: whole_def)
  ultimately show ?thesis using dungeon_invD [of "[]" "tidy d"] by simp
qed

text \<open>
  C2.  Every undefined behaviour of a turn is known.  Take any history of summons, worker turns, epoll
  turns, maintainer turns and kills, each run to its end, in which the allocator hands out unused
  addresses and the kernel reports armed descriptors, but in which anything else may happen:
  allocations fail in \<open>llist_new\<close>, \<open>imp_set_ioev\<close> and \<open>imp_set_timer\<close>, souls set their timer and ask
  to be terminated in the same turn, descriptors stay open after the imp is gone, imps are killed
  that no longer exist.  The next turn then either ends and the history goes on, or it fails with
  one of the faults of \<open>fault\<close>, for the cause given there; and where the cause of a maintainer's fault or
  of a kill's is given, the turn does fail.  Turns are not interrupted here:
  \<open>Imp_Race\<close> shows the further fault that interleaving adds.
\<close>

theorem dungeon_faults:
  assumes "dungeon_runs d" and "possible d a"
  shows "(case dungeon_step a d of Inr d' \<Rightarrow> dungeon_runs d' | Inl e \<Rightarrow> fault d a e)
     \<and> (case a of DoReap closed \<Rightarrow> \<forall>e. fault d a e \<longrightarrow> dungeon_step a d = Inl e
        | DoKill p \<Rightarrow> \<forall>e. fault d a e \<longrightarrow> dungeon_step a d = Inl e | _ \<Rightarrow> True)"
proof
  show "case dungeon_step a d of Inr d' \<Rightarrow> dungeon_runs d' | Inl e \<Rightarrow> fault d a e"
    using step_whole [OF dungeon_runs_whole [OF assms(1)] assms(2)] dungeon_runs.went_on [OF assms]
    by (simp add: within_def split: sum.splits)
qed (use fault_exact [OF dungeon_runs_whole [OF assms(1)]] in \<open>auto split: action.split\<close>)

text \<open>
  The imp of the sample sets its timer and asks to be terminated in one turn, and the maintainer
  then frees the small integer that stands for the timer.
\<close>

definition sample_hasty :: "nat action" where
  "sample_hasty = DoWork False False 9 TO_TERM [SetTimer 100 False] (\<lambda>fd. (True, True))"

lemma sample_hasty_step:
  "\<exists>d'. dungeon_step sample_hasty dungeon_queued = Inr d' \<and> (\<exists>e. dungeon_step (DoReap (\<lambda>p. [])) d' = Inl e)
     \<and> termq d' = [0x100]
     \<and> requested_events (the (imps d' 0x100)) = Some [ReqTimer]"
  by (simp add: sample_hasty_def dungeon_step_def thr_driver_turn_def thr_maintainer_turn_def queue_dequeue_nb_def queue_take_def
      bucket_get_def queue_next_def dungeon_queued_def dungeon_empty_def sample_queue_def imp_dismiss_def
      imp_driver_def reduct_spec sample_imp_def masks_disjoint do_service_def imp_set_timer_def
      append_request_def list_append_def imp_term_def queue_enqueue_nb_def queue_store_def bucket_put_def
      word_le_nat_alt queue_contents_def ring_def)

theorem dungeon_faults_witness:
  "\<exists>d'. dungeon_step sample_hasty dungeon_queued = Inr d' \<and> dungeon_runs d'
     \<and> dungeon_step (DoReap (\<lambda>p. [])) d' = Inl BadPointer"
proof -
  from sample_hasty_step obtain d' e where d': "dungeon_step sample_hasty dungeon_queued = Inr d'"
    "dungeon_step (DoReap (\<lambda>p. [])) d' = Inl e" "termq d' = [0x100]"
    "requested_events (the (imps d' 0x100)) = Some [ReqTimer]" by blast
  have "possible dungeon_queued sample_hasty" by (simp add: possible_def sample_hasty_def)
  from dungeon_faults [OF reachable_runs [OF dungeon_queued_reachable] this] d'(1) have runs: "dungeon_runs d'" by simp
  have "possible d' (DoReap (\<lambda>p. []))" by (simp add: possible_def)
  from dungeon_faults [OF runs this] d'(2-4) have "e = BadPointer" by (simp add: fault_def)
  with d'(1,2) runs show ?thesis by blast
qed

end
