(* ===== verification/Imp_Race.thy ===== *)
theory Imp_Race
  imports Dungeon_Safety
begin

text \<open>
  \<open>imp_driver\<close> taken apart.  Theory \<open>Dungeon\<close> lets it run in one piece; here it is the part up
  to the yield, then one turn of the loop over the requests at a time, so that other workers,
  the epoll thread and the maintainer can run in between, as they can in the program.  The
  first property says that the pieces in sequence are \<open>imp_driver\<close>; the second that an event
  which arrives between two of them lets a second worker drive the same imp, have it dismissed,
  and leaves the first worker with a freed imp.
\<close>

section \<open>The pieces\<close>

text \<open>One turn of the loop; \<open>None\<close> when it was the last and the imp sleeps or is queued again.\<close>

definition driver_turn ::
  "'m dungeon \<Rightarrow> intptr \<Rightarrow> (int \<Rightarrow> bool \<times> bool) \<Rightarrow> nat \<Rightarrow> ub + (nat option \<times> 'm dungeon)" where
  "driver_turn d p ctl count =
     bindE (ld_imp d p) (\<lambda>i.
     case requested_events i of
       None \<Rightarrow> Inl NullDeref
     | Some reqs \<Rightarrow>
         (case list_fetch False reqs of
            (ret, out, reqs') \<Rightarrow>
              bindE (upd_imp d p (\<lambda>i. i\<lparr>requested_events := Some reqs'\<rparr>)) (\<lambda>d.
              if ret = 0
              then bindE (arm_request d p (the out) ctl) (\<lambda>d. Inr (Some (Suc count), d))
              else bindE (after_yield d p count) (\<lambda>d. Inr (None, d)))))"

section \<open>Workers in the middle of imp_driver\<close>

datatype worker = Idle | Fetched intptr | Arming intptr nat

record 'm racing =
  dung :: "'m dungeon"
  workers :: "worker list"

datatype 'm race_action =
    Fetch nat
  | Begin nat bool bool 'm driver_retcode "'m service list"
  | Turn nat "int \<Rightarrow> bool \<times> bool"
  | Epoll "int list"
  | Reap "intptr \<Rightarrow> int list"

text \<open>An action that is not enabled leaves everything as it is.\<close>

definition race_act :: "'m race_action \<Rightarrow> 'm racing \<Rightarrow> ub + 'm racing" where
  "race_act a s =
     (case a of
        Fetch w \<Rightarrow>
          (if w < length (workers s) \<and> workers s ! w = Idle
           then bindE (queue_dequeue_nb (run_queue (dung s))) (\<lambda>(err, out, q).
                  Inr (if err = 0
                       then \<lparr>dung = (dung s)\<lparr>run_queue := q\<rparr>,
                             workers = (workers s)[w := Fetched (the out)]\<rparr>
                       else s))
           else Inr s)
      | Begin w rd_t rd_e m ret svcs \<Rightarrow>
          (if w < length (workers s)
           then case workers s ! w of
                  Fetched p \<Rightarrow>
                    bindE (driver_begin (dung s) p rd_t rd_e (m, ret, svcs)) (\<lambda>(yielded, d).
                      Inr \<lparr>dung = d, workers = (workers s)[w := if yielded then Arming p 0 else Idle]\<rparr>)
                | _ \<Rightarrow> Inr s
           else Inr s)
      | Turn w ctl \<Rightarrow>
          (if w < length (workers s)
           then case workers s ! w of
                  Arming p count \<Rightarrow>
                    bindE (driver_turn (dung s) p ctl count) (\<lambda>(more, d).
                      Inr \<lparr>dung = d, workers = (workers s)
                             [w := case more of None \<Rightarrow> Idle | Some n \<Rightarrow> Arming p n]\<rparr>)
                | _ \<Rightarrow> Inr s
           else Inr s)
      | Epoll fds \<Rightarrow> bindE (thr_epoller_turn (dung s) fds) (\<lambda>d. Inr (s\<lparr>dung := d\<rparr>))
      | Reap closed \<Rightarrow> bindE (thr_maintainer_turn (dung s) closed) (\<lambda>(more, d). Inr (s\<lparr>dung := d\<rparr>)))"

primrec race_run :: "'m race_action list \<Rightarrow> 'm racing \<Rightarrow> ub + 'm racing" where
  "race_run [] s = Inr s"
| "race_run (a # as) s = bindE (race_act a s) (\<lambda>s. race_run as s)"

lemma race_run_append: "race_run (as @ bs) s = bindE (race_run as s) (race_run bs)"
proof (induction as arbitrary: s)
  case (Cons a as)
  then show ?case by (cases "race_act a s") auto
qed simp

section \<open>Without interleaving\<close>

text \<open>Turning a worker's loop until its requests are used up.\<close>

lemma turns_spec:
  "imps (dung s) p = Some i \<Longrightarrow> requested_events i = Some reqs \<Longrightarrow> length reqs < fuel \<Longrightarrow>
   w < length (workers s) \<Longrightarrow> workers s ! w = Arming p c \<Longrightarrow>
     race_run (replicate (Suc (length reqs)) (Turn w ctl)) s
       = bindE (arm_loop fuel (dung s) p ctl c) (\<lambda>(count, d).
         bindE (after_yield d p count) (\<lambda>d.
         Inr (s\<lparr>dung := d, workers := (workers s)[w := Idle]\<rparr>)))"
proof (induction reqs arbitrary: s i fuel c)
  case Nil
  then obtain fuel' where "fuel = Suc fuel'" by (cases fuel) auto
  with Nil show ?case by (simp add: race_act_def driver_turn_def list_fetch_def bindE_def split: sum.split)
next
  case (Cons r reqs)
  then obtain fuel' where fuel: "fuel = Suc fuel'" by (cases fuel) auto
  let ?d0 = "(dung s)\<lparr>imps := (imps (dung s))(p \<mapsto> i\<lparr>requested_events := Some reqs\<rparr>)\<rparr>"
  have "imps ?d0 p = Some (i\<lparr>requested_events := Some reqs\<rparr>)" by simp
  from arm_request_spec [OF this, of r ctl] obtain ep where
    arm: "arm_request ?d0 p r ctl = Inr (?d0\<lparr>imps := (imps ?d0)(p \<mapsto> i\<lparr>requested_events := Some reqs,
       waitio := True\<rparr>), epoll := ep\<rparr>)" by auto
  let ?d1 = "?d0\<lparr>imps := (imps ?d0)(p \<mapsto> i\<lparr>requested_events := Some reqs, waitio := True\<rparr>), epoll := ep\<rparr>"
  let ?s1 = "s\<lparr>dung := ?d1, workers := (workers s)[w := Arming p (Suc c)]\<rparr>"
  have act: "race_act (Turn w ctl) s = Inr ?s1"
    using Cons.prems arm by (simp add: race_act_def driver_turn_def list_fetch_def)
  have "imps (dung ?s1) p = Some (i\<lparr>requested_events := Some reqs, waitio := True\<rparr>)" by simp
  moreover have "requested_events (i\<lparr>requested_events := Some reqs, waitio := True\<rparr>) = Some reqs"
    "length reqs < fuel'" "w < length (workers ?s1)" "workers ?s1 ! w = Arming p (Suc c)"
    using Cons.prems fuel by simp_all
  ultimately have IH: "race_run (replicate (Suc (length reqs)) (Turn w ctl)) ?s1
      = bindE (arm_loop fuel' (dung ?s1) p ctl (Suc c)) (\<lambda>(count, d).
        bindE (after_yield d p count) (\<lambda>d.
        Inr (?s1\<lparr>dung := d, workers := (workers ?s1)[w := Idle]\<rparr>)))"
    by (rule Cons.IH)
  have loop: "arm_loop fuel (dung s) p ctl c = arm_loop fuel' ?d1 p ctl (Suc c)"
    using Cons.prems fuel arm by (simp add: list_fetch_def)
  have "race_run (replicate (Suc (length (r # reqs))) (Turn w ctl)) s
      = race_run (replicate (Suc (length reqs)) (Turn w ctl)) ?s1"
    using act by simp
  with IH show ?case unfolding loop by simp
qed

text \<open>
  The decomposition is faithful: on any reachable dungeon, fetching an imp, starting its
  driver and turning the loop over its requests, with nothing else in between, is exactly the
  worker's turn of theory \<open>Dungeon\<close>, and leaves the worker idle.
\<close>

theorem race_sequential:
  assumes "dungeon_reachable d" and "runq d = p # ps"
    and "action_ok d (DoWork False rd_e m ret svcs ctl)"
    and "w < length ws" and "ws ! w = Idle"
  shows "\<exists>n. race_run (Fetch w # Begin w False rd_e m ret svcs # replicate n (Turn w ctl))
         \<lparr>dung = d, workers = ws\<rparr>
     = bindE (thr_driver_turn d False rd_e (m, ret, svcs) ctl) (\<lambda>d'. Inr \<lparr>dung = d', workers = ws\<rparr>)"
proof -
  note inv = dungeon_reachable_inv [OF assms(1)]
  from run_dequeue_inv [OF inv assms(2)] obtain q' where
    q': "queue_dequeue_nb (run_queue d) = Inr (0, Some p, q')"
      "dungeon_inv [p] (d\<lparr>run_queue := q'\<rparr>)" by auto
  from dungeon_invD(3) [OF inv] assms(2) have "p \<in> awake d" by auto
  then obtain i where i: "imps d p = Some i" by (auto simp: awake_def)
  from dungeon_invD(9) [OF inv i] assms(2) have reqs: "requested_events i = Some []"
    by (auto simp: imp_ok_def)
  let ?d = "d\<lparr>run_queue := q'\<rparr>" and ?out = "(m, ret, svcs)"
  have "services_ok (d\<lparr>run_queue := q'\<rparr>) taken svcs = services_ok d taken svcs" for taken
    by (induction svcs arbitrary: taken)
      (auto simp: summoning_ok_def split: service.split option.split)
  with assms(2,3) i have ok: "services_ok ?d [] svcs"
      "ret = TO_TERM \<longrightarrow> list_all (\<lambda>s. \<not> is_set_timer s) svcs" by (auto simp: action_ok_def)
  have "imps ?d p = Some i" using i by simp
  note begin_inv = driver_begin_inv [OF q'(2) this reqs ok, of rd_e m]
  have turn: "thr_driver_turn d False rd_e ?out ctl = bindE (driver_begin ?d p False rd_e ?out)
      (\<lambda>(yielded, d). if yielded
         then bindE (arm_loop (Suc request_volume) d p ctl 0) (\<lambda>(count, d). after_yield d p count)
         else Inr d)"
  proof -
    have "thr_driver_turn d False rd_e ?out ctl = imp_driver ?d p False rd_e ?out ctl"
      using q' by (simp add: thr_driver_turn_def)
    then show ?thesis unfolding driver_begin_spec .
  qed
  have start: "race_run (Fetch w # Begin w False rd_e m ret svcs # as) \<lparr>dung = d, workers = ws\<rparr>
      = bindE (driver_begin ?d p False rd_e ?out) (\<lambda>(yielded, d).
          race_run as \<lparr>dung = d, workers = ws[w := if yielded then Arming p 0 else Idle]\<rparr>)" for as
    using q' assms(4,5) by (simp add: race_act_def bindE_def split: sum.split)
  have same: "ws[w := Idle] = ws" using assms(5) by (metis list_update_id)
  show ?thesis
  proof (cases "driver_begin ?d p False rd_e ?out")
    case (Inl e)
    with start [of "replicate 0 (Turn w ctl)"] turn show ?thesis by (intro exI [of _ 0]) simp
  next
    case (Inr r)
    obtain yielded d1 where r: "r = (yielded, d1)" by (cases r)
    show ?thesis
    proof (cases yielded)
      case False
      with Inr r start [of "replicate 0 (Turn w ctl)"] turn same show ?thesis
        by (intro exI [of _ 0]) simp
    next
      case True
      with begin_inv Inr r obtain T where dr: "driving p [] T d1" by auto
      then obtain k rs where k: "imps d1 p = Some k" "requested_events k = Some rs" by (auto simp: driving_def)
      have "length rs < Suc request_volume"
        using dr dungeon_invD(9) [of "[p]" d1 p k] k by (auto simp: driving_def imp_ok_def)
      with turns_spec [of "\<lparr>dung = d1, workers = ws[w := Arming p 0]\<rparr>" p k rs "Suc request_volume" w 0 ctl]
        k assms(4)
      have "race_run (replicate (Suc (length rs)) (Turn w ctl)) \<lparr>dung = d1, workers = ws[w := Arming p 0]\<rparr>
        = bindE (bindE (arm_loop (Suc request_volume) d1 p ctl 0) (\<lambda>(count, d). after_yield d p count))
            (\<lambda>d'. Inr \<lparr>dung = d', workers = ws\<rparr>)"
        by (auto simp: bindE_def same split: sum.split simp del: arm_loop.simps)
      with start [of "replicate (Suc (length rs)) (Turn w ctl)"] turn Inr r True show ?thesis
        by (intro exI [of _ "Suc (length rs)"]) (simp del: replicate_Suc arm_loop.simps)
    qed
  qed
qed

theorem race_sequential_witness:
  "\<exists>n. race_run (Fetch 0 # Begin 0 False False 9 TO_BLOCK [SetIoev 7 EPOLLIN True False]
         # replicate n (Turn 0 (\<lambda>fd. (True, True)))) \<lparr>dung = dungeon_queued, workers = [Idle]\<rparr>
     = Inr \<lparr>dung = dungeon_asleep, workers = [Idle]\<rparr>"
proof -
  have "action_ok dungeon_queued
      (DoWork False False 9 TO_BLOCK [SetIoev 7 EPOLLIN True False] (\<lambda>fd. (True, True)))"
    by (simp add: action_ok_def dungeon_queued_runq)
  from race_sequential [OF dungeon_queued_reachable dungeon_queued_runq(1) this, of 0 "[Idle]"]
    dungeon_asleep_step
  show ?thesis by (simp add: dungeon_step_def)
qed

section \<open>With an event in between\<close>

text \<open>
  Two workers and the sample dungeon with its one imp queued.  Worker 0 drives the imp, which
  asks for events on the descriptors \<open>7\<close> and \<open>8\<close>, and arms \<open>7\<close>; the event on \<open>7\<close> arrives
  before \<open>8\<close> is armed.
\<close>

definition race_start :: "nat racing" where
  "race_start = \<lparr>dung = dungeon_queued, workers = [Idle, Idle]\<rparr>"

definition race_prefix :: "nat race_action list" where
  "race_prefix =
     [Fetch 0,
      Begin 0 False False 9 TO_BLOCK [SetIoev 7 EPOLLIN True False, SetIoev 8 EPOLLIN True False],
      Turn 0 (\<lambda>fd. (True, True)),
      Epoll [7]]"

definition race_suffix :: "nat race_action list" where
  "race_suffix = [Fetch 1, Begin 1 False False 9 TO_TERM [], Reap (\<lambda>p. [7, 8])]"

definition race_imp :: "nat imp" where
  "race_imp = sample_imp\<lparr>requested_events := Some [ReqIo \<lparr>ev_mask = EV_MASK_USER, events = EPOLLIN,
     ev_fd = 8, ev_imp = 0x100\<rparr>], memory := 9\<rparr>"

lemma scan_none: "\<not> i < limit \<Longrightarrow> scan q x False i limit = Inr False"
  by (simp add: scan.simps [of q x False i limit])

lemmas race_defs = race_act_def race_start_def race_prefix_def race_suffix_def race_imp_def
  driver_begin_def driver_turn_def reduct_spec masks_disjoint do_service_def imp_set_ioev_def
  append_request_def list_append_def list_fetch_def arm_request_def set_poll_action_def
  imp_body_set_timer_def timer_value_def c_div_def c_mod_def
  thr_epoller_turn_def imp_cancel_timer_def imp_wake_def imp_run_def imp_term_def
  thr_maintainer_turn_def imp_dismiss_def imp_body_delete_def close_fds_def

lemmas race_queue_defs = queue_dequeue_nb_def queue_take_def bucket_get_def queue_next_def
  queue_enqueue_uniq_nb_def queue_scan_def scan_none queue_enqueue_nb_def queue_store_def
  bucket_put_def word_le_nat_alt

lemmas race_samples = dungeon_queued_def dungeon_empty_def sample_queue_def sample_imp_def

definition race_woken :: "nat racing" where
  "race_woken = \<lparr>dung = dungeon_queued\<lparr>nr_waitio := - 1,
     run_queue := \<lparr>q_max = 2, q_nr = 1, en_count = 2, de_count = 1, rindex = 1, windex = 0,
                   bucket = [0x100, 0x100]\<rparr>,
     imps := [0x100 \<mapsto> race_imp]\<rparr>, workers = [Arming 0x100 1, Idle]\<rparr>"

lemma race_prefix_run: "race_run race_prefix race_start = Inr race_woken"
  by (simp add: race_defs race_queue_defs race_samples race_woken_def fun_upd_def
      restrict_map_def cong: if_cong)

lemma race_suffix_run:
  "\<exists>s. race_run race_suffix race_woken = Inr s \<and> workers s = [Arming 0x100 1, Idle]
     \<and> imps (dung s) 0x100 = None"
  by (simp add: race_defs race_queue_defs race_samples race_woken_def)

text \<open>
  C14.  The race in \<open>imp_driver\<close>.  The first request of an imp is armed, and \<open>waitio\<close> set,
  while the loop still works on the imp.  If that event fires at once, the epoll thread queues
  the imp (and \<open>nr_waitio\<close>, not yet incremented, becomes negative); a second worker drives it to
  its termination and the maintainer frees it; the next turn of the first worker's loop then
  reads freed memory.  The dungeon the run starts from is reachable.
\<close>

theorem race_use_after_free:
  "dungeon_reachable (dung race_start)
   \<and> (\<exists>s1. race_run race_prefix race_start = Inr s1 \<and> nr_waitio (dung s1) = - 1
        \<and> workers s1 ! 0 = Arming 0x100 1 \<and> runq (dung s1) = [0x100])
   \<and> (\<exists>s2. race_run (race_prefix @ race_suffix) race_start = Inr s2
        \<and> workers s2 ! 0 = Arming 0x100 1 \<and> imps (dung s2) 0x100 = None)
   \<and> race_run (race_prefix @ race_suffix @ [Turn 0 ctl]) race_start = Inl BadPointer"
proof -
  obtain s2 where s2: "race_run race_suffix race_woken = Inr s2"
      "workers s2 = [Arming 0x100 1, Idle]" "imps (dung s2) 0x100 = None"
    using race_suffix_run by blast
  then have "race_act (Turn 0 ctl) s2 = Inl BadPointer"
    by (simp add: race_act_def driver_turn_def ld_imp_def)
  with s2 have end_run: "race_run (race_prefix @ race_suffix @ [Turn 0 ctl]) race_start = Inl BadPointer"
    by (simp add: race_run_append race_prefix_run)
  have "nr_waitio (dung race_woken) = - 1 \<and> workers race_woken ! 0 = Arming 0x100 1
      \<and> runq (dung race_woken) = [0x100]"
    by (simp add: race_woken_def queue_contents_def ring_def)
  moreover have "dungeon_reachable (dung race_start)"
    by (simp add: race_start_def dungeon_queued_reachable)
  ultimately show ?thesis using s2 end_run race_prefix_run by (simp add: race_run_append)
qed

end
