(* ===== verification/Run_Order.thy ===== *)
theory Run_Order
  imports Dungeon_Safety
begin

text \<open>
  The order in which imps are driven.  Whatever the threads do, imps leave the run queue at its head,
  one for each turn of a worker, and enter it at its end; so every queued imp has its turn, and an event
  is answered within a bounded number of turns.
\<close>

section \<open>Nothing overtakes a queued imp\<close>

definition run_fits :: "'m dungeon \<Rightarrow> bool" where
  "run_fits d \<longleftrightarrow> queue_wf (run_queue d) \<and> unat (q_max (run_queue d)) < 2 ^ 31"

definition grows :: "'m dungeon \<Rightarrow> 'm dungeon \<Rightarrow> bool" where
  "grows d d' \<longleftrightarrow> (run_fits d \<longrightarrow> run_fits d' \<and> (\<exists>ys. runq d' = runq d @ ys))"

lemma grows_same [intro]: "run_queue d' = run_queue d \<Longrightarrow> grows d d'"
  by (auto simp: grows_def run_fits_def)

lemma grows_trans [trans]: "grows d d1 \<Longrightarrow> grows d1 d2 \<Longrightarrow> grows d d2"
  by (auto simp: grows_def)

lemma upd_imp_queue: "upd_imp d p f = Inr d' \<Longrightarrow> run_queue d' = run_queue d"
  by (auto simp: upd_imp_def bindE_eq_Inr_iff)

lemma imp_run_grows:
  assumes "imp_run d p = Inr d'"
  shows "grows d d'"
proof -
  from assms obtain ret q where q: "queue_enqueue_uniq_nb (run_queue d) p = Inr (ret, q)" "d' = d\<lparr>run_queue := q\<rparr>"
    by (auto simp: imp_run_def bindE_eq_Inr_iff)
  show ?thesis
    using enqueue_uniq_spec [of "run_queue d" p ret q] q by (auto simp: grows_def run_fits_def fifo_enq_uniq_def split: if_splits)
qed

lemma imp_term_queue: "imp_term d p = Inr d' \<Longrightarrow> run_queue d' = run_queue d"
  by (auto simp: imp_term_def bindE_eq_Inr_iff)

lemma imp_wake_grows: "imp_wake d p = Inr d' \<Longrightarrow> grows d d'"
  by (auto simp: imp_wake_def bindE_eq_Inr_iff split: if_splits
      dest!: imp_run_grows upd_imp_queue simp: grows_def run_fits_def)

lemma imp_summon_grows: "imp_summon d mem0 s = Inr (d', new) \<Longrightarrow> grows d d'"
  by (auto simp: imp_summon_def Let_def bindE_eq_Inr_iff split: if_splits option.splits
      dest!: imp_run_grows simp: grows_def run_fits_def)

lemma append_request_queue: "append_request d p r nomem = Inr (ret, d') \<Longrightarrow> run_queue d' = run_queue d"
  by (auto simp: append_request_def case_prod_beta bindE_eq_Inr_iff split: option.splits dest: upd_imp_queue)

lemma do_service_grows: "do_service d p s = Inr d' \<Longrightarrow> grows d d'"
  by (cases s) (auto simp: do_service_def imp_set_ioev_def imp_set_timer_def bindE_eq_Inr_iff split: if_splits
      dest!: append_request_queue upd_imp_queue intro: imp_summon_grows)

lemma do_services_grows: "do_services d p ss = Inr d' \<Longrightarrow> grows d d'"
proof (induction ss arbitrary: d)
  case (Cons s ss)
  then obtain d1 where "do_service d p s = Inr d1" "do_services d1 p ss = Inr d'" by (auto simp: bindE_eq_Inr_iff)
  then show ?case using do_service_grows Cons.IH grows_trans by blast
qed auto

lemma reduct_queue: "imp_reduct_event_mask d p rd_t rd_e = Inr (msk, d') \<Longrightarrow> run_queue d' = run_queue d"
  by (auto simp: imp_reduct_event_mask_def imp_cancel_timer_def Let_def case_prod_beta bindE_eq_Inr_iff split: if_splits
      dest!: upd_imp_queue)

lemma driver_begin_grows:
  assumes "driver_begin d p rd_t rd_e outcome = Inr (yielded, d')"
  shows "grows d d'"
proof -
  from assms obtain msk d1 d2 where d2: "run_queue d2 = run_queue d"
    and rest: "(if and msk EV_MASK_KILL \<noteq> 0
     then bindE (upd_imp d2 p (\<lambda>i. i\<lparr>waitio := False\<rparr>)) (\<lambda>d. bindE (imp_term d p) (\<lambda>d. Inr (False, d)))
     else if and msk EV_MASK_GLOBAL_ALERT \<noteq> 0 then bindE (imp_term d2 p) (\<lambda>d. Inr (False, d))
     else
       bindE (do_services d2 p (snd (snd outcome))) (\<lambda>d.
       bindE (upd_imp d p (\<lambda>i. i\<lparr>memory := fst outcome\<rparr>)) (\<lambda>d.
       if fst (snd outcome) = TO_TERM then bindE (imp_term d p) (\<lambda>d. Inr (False, d))
       else Inr (True, d)))) = Inr (yielded, d')"
    unfolding driver_begin_def by (force simp: bindE_eq_Inr_iff dest!: reduct_queue upd_imp_queue)
  have "grows d2 d'"
    using rest by (auto simp: bindE_eq_Inr_iff split: if_splits dest!: upd_imp_queue imp_term_queue do_services_grows
        simp: grows_def run_fits_def)
  with grows_same [OF d2] show ?thesis by (rule grows_trans)
qed

lemma arm_request_queue: "arm_request d p r ctl = Inr d' \<Longrightarrow> run_queue d' = run_queue d"
  by (cases r) (auto simp: arm_request_def set_poll_action_def bindE_eq_Inr_iff dest!: upd_imp_queue)

lemma arm_loop_queue: "arm_loop fuel d p ctl count = Inr (n, d') \<Longrightarrow> run_queue d' = run_queue d"
proof (induction fuel arbitrary: d count)
  case (Suc fuel)
  from Suc.prems obtain i reqs where i: "ld_imp d p = Inr i" "requested_events i = Some reqs"
    by (auto simp: bindE_eq_Inr_iff split: option.splits)
  obtain ret out reqs' where f: "list_fetch False reqs = (ret, out, reqs')" by (cases "list_fetch False reqs") auto
  from Suc.prems i f obtain d1 where d1: "run_queue d1 = run_queue d"
    and rest: "(if ret = 0 then bindE (arm_request d1 p (the out) ctl) (\<lambda>d. arm_loop fuel d p ctl (Suc count)) else Inr (count, d1)) = Inr (n, d')"
    by (auto simp: bindE_eq_Inr_iff dest!: upd_imp_queue)
  show ?case
  proof (cases "ret = 0")
    case True
    with rest obtain d2 where "arm_request d1 p (the out) ctl = Inr d2" "arm_loop fuel d2 p ctl (Suc count) = Inr (n, d')"
      by (auto simp: bindE_eq_Inr_iff)
    with arm_request_queue Suc.IH d1 show ?thesis by metis
  qed (use rest d1 in simp)
qed simp

lemma imp_driver_grows:
  assumes "imp_driver d p rd_t rd_e outcome ctl = Inr d'"
  shows "grows d d'"
proof -
  from assms obtain yielded d1 where d1: "driver_begin d p rd_t rd_e outcome = Inr (yielded, d1)"
    and rest: "(if yielded then bindE (arm_loop (Suc request_volume) d1 p ctl 0) (\<lambda>(count, d). after_yield d p count) else Inr d1) = Inr d'"
    unfolding driver_begin_spec by (auto simp: bindE_eq_Inr_iff)
  have "grows d1 d'"
  proof (cases yielded)
    case True
    with rest obtain count d2 where "arm_loop (Suc request_volume) d1 p ctl 0 = Inr (count, d2)" "after_yield d2 p count = Inr d'"
      by (auto simp: bindE_eq_Inr_iff simp del: arm_loop.simps)
    moreover from this(2) have "grows d2 d'" by (auto simp: after_yield_def split: if_splits intro: imp_run_grows)
    ultimately show ?thesis using arm_loop_queue grows_same grows_trans by metis
  qed (use rest in auto)
  with driver_begin_grows [OF d1] show ?thesis by (rule grows_trans)
qed

lemma wake_all_grows: "wake_all d ps = Inr d' \<Longrightarrow> grows d d'"
proof (induction ps arbitrary: d)
  case (Cons p ps)
  then obtain d1 d2 where "imp_cancel_timer d p = Inr d1" "imp_wake d1 p = Inr d2" "wake_all d2 ps = Inr d'"
    by (auto simp: bindE_eq_Inr_iff)
  then have "run_queue d1 = run_queue d" "grows d1 d2" "grows d2 d'"
    using upd_imp_queue imp_wake_grows Cons.IH by (simp_all add: imp_cancel_timer_def)
  then show ?case using grows_same grows_trans by blast
qed auto

text \<open>One turn of any thread.\<close>

definition is_work :: "'m action \<Rightarrow> bool" where
  "is_work a \<longleftrightarrow> (case a of DoWork _ _ _ _ _ _ \<Rightarrow> True | _ \<Rightarrow> False)"

lemma step_order:
  assumes "run_fits d" and "dungeon_step a d = Inr d'"
  shows "run_fits d' \<and> (\<exists>ys. runq d' = (if is_work a then drop 1 (runq d) else runq d) @ ys)"
proof (cases a)
  case (DoWork rd_t rd_e m ret svcs ctl)
  have wf: "queue_wf (run_queue d)" using assms(1) by (simp add: run_fits_def)
  show ?thesis
  proof (cases rule: q2.deq_outcome [OF wf, case_names empty item])
    case empty
    then show ?thesis using assms DoWork by (simp add: dungeon_step_def thr_driver_turn_def is_work_def)
  next
    case (item x q)
    then have "imp_driver (d\<lparr>run_queue := q\<rparr>) x rd_t rd_e (m, ret, svcs) ctl = Inr d'"
      using assms(2) DoWork by (simp add: dungeon_step_def thr_driver_turn_def)
    from imp_driver_grows [OF this] have "grows (d\<lparr>run_queue := q\<rparr>) d'" .
    moreover have "run_fits (d\<lparr>run_queue := q\<rparr>)"
      using assms(1) item q2.deq_cap [OF wf item(2)] by (simp add: run_fits_def)
    ultimately show ?thesis using item(1) DoWork by (simp add: grows_def is_work_def)
  qed
next
  case (DoEpoll fds)
  then have "grows (d\<lparr>epoll := epoll d |` (- set fds)\<rparr>) d'"
    using assms(2) wake_all_grows by (auto simp: dungeon_step_def thr_epoller_turn_def)
  with assms(1) DoEpoll show ?thesis by (simp add: grows_def run_fits_def is_work_def)
next
  case (DoSummon m s)
  then show ?thesis
    using assms imp_summon_grows by (fastforce simp: dungeon_step_def bindE_eq_Inr_iff grows_def is_work_def)
next
  case (DoReap closed)
  then have "run_queue d' = run_queue d"
    using assms(2) by (auto simp: dungeon_step_def thr_maintainer_turn_def imp_dismiss_def close_fds_def Let_def bindE_eq_Inr_iff
        split: if_splits option.splits)
  with assms(1) DoReap show ?thesis by (simp add: run_fits_def is_work_def)
next
  case (DoKill p)
  then show ?thesis using assms upd_imp_queue by (fastforce simp: dungeon_step_def imp_kill_def run_fits_def is_work_def)
qed

section \<open>Runs\<close>

primrec dungeon_run :: "'m action list \<Rightarrow> 'm dungeon \<Rightarrow> ub + 'm dungeon" where
  "dungeon_run [] d = Inr d"
| "dungeon_run (a # as) d = bindE (dungeon_step a d) (dungeon_run as)"

lemma run_order:
  "run_fits d \<Longrightarrow> dungeon_run as d = Inr d' \<Longrightarrow> runq d = ps @ p # qs \<Longrightarrow> length (filter is_work as) \<le> length ps \<Longrightarrow>
     \<exists>rs. runq d' = drop (length (filter is_work as)) ps @ p # qs @ rs"
proof (induction as arbitrary: d ps qs)
  case (Cons a as)
  then obtain d1 where d1: "dungeon_step a d = Inr d1" "dungeon_run as d1 = Inr d'" by (auto simp: bindE_eq_Inr_iff)
  from step_order [OF Cons.prems(1) d1(1)] obtain ys where
    ys: "run_fits d1" "runq d1 = (if is_work a then drop 1 (runq d) else runq d) @ ys" by blast
  show ?case
  proof (cases "is_work a")
    case True
    with Cons.prems(4) obtain x ps' where ps: "ps = x # ps'" by (cases ps) auto
    then have "runq d1 = ps' @ p # (qs @ ys)" using ys(2) True Cons.prems(3) by simp
    from Cons.IH [OF ys(1) d1(2) this] Cons.prems(4) True ps show ?thesis by auto
  next
    case False
    then have "runq d1 = ps @ p # (qs @ ys)" using ys(2) Cons.prems(3) by simp
    from Cons.IH [OF ys(1) d1(2) this] Cons.prems(4) False show ?thesis by auto
  qed
qed auto

text \<open>The turn at which a list of actions has had its \<open>n\<close> turns of a worker and begins the next.\<close>

lemma split_at_work:
  "n < length (filter P xs) \<Longrightarrow> \<exists>xs1 x xs2. xs = xs1 @ x # xs2 \<and> P x \<and> length (filter P xs1) = n"
proof (induction xs arbitrary: n)
  case (Cons a xs)
  show ?case
  proof (cases "P a \<and> n = 0")
    case True
    then show ?thesis by (intro exI [of _ "[]"] exI [of _ a] exI [of _ xs]) simp
  next
    case False
    define n' where "n' = (if P a then n - 1 else n)"
    have "n' < length (filter P xs)" using Cons.prems False by (auto simp: n'_def split: if_splits)
    from Cons.IH [OF this] obtain xs1 x xs2 where "xs = xs1 @ x # xs2" "P x" "length (filter P xs1) = n'" by blast
    then show ?thesis using False by (intro exI [of _ "a # xs1"] exI [of _ x] exI [of _ xs2]) (auto simp: n'_def)
  qed
qed simp

lemma dungeon_run_append: "dungeon_run (as @ bs) d = bindE (dungeon_run as d) (dungeon_run bs)"
  by (induction as arbitrary: d) (auto simp: bindE_def split: sum.split)

section \<open>An event is answered\<close>

lemma woken_queued:
  assumes "dungeon_reachable d" and "action_ok d (DoEpoll fds)" and "dungeon_step (DoEpoll fds) d = Inr d'"
    and "fd \<in> set fds" and "epoll d fd = Some (p, ev)" and "p \<in> sleepers d"
  shows "p \<in> set (runq d')"
proof -
  have "p \<in> set (map (\<lambda>fd. fst (the (epoll d fd))) fds)" using assms(4,5) by force
  with epoller_exact [OF assms(1-3) refl] assms(6) show ?thesis by simp
qed

lemma reachable_fits:
  assumes "dungeon_reachable d"
  shows "run_fits d \<and> length (runq d) \<le> nat (nr_max d)"
proof -
  note inv = dungeon_reachable_inv [OF assms]
  have "int (length (runq d)) \<le> nr_max d" using dungeon_inv_fits [OF inv] by linarith
  then have "length (runq d) \<le> nat (nr_max d)" by (simp only: nat_le_iff le_nat_iff int_nat_eq)
  moreover have "run_fits d" using dungeon_invD(1) [OF inv] by (auto simp: queues_ok_def run_fits_def nat_less_iff)
  ultimately show ?thesis by blast
qed

text \<open>
  C4.  Liveness of the run queue.  When the epoll thread gets an event for a sleeping imp, then the imp is
  driven: whatever the threads do from then on, of any sequence of turns with as many turns of workers
  as there may be imps, one turn of a worker finds that imp at the head of the run queue.  A queued imp
  is never overtaken.
\<close>

theorem events_are_answered:
  assumes "dungeon_reachable d" and "action_ok d (DoEpoll fds)" and "dungeon_step (DoEpoll fds) d = Inr d1"
    and "fd \<in> set fds" and "epoll d fd = Some (p, ev)" and "p \<in> sleepers d"
    and "dungeon_run as d1 = Inr d2" and "nat (nr_max d1) \<le> length (filter is_work as)"
  shows "\<exists>before a after d'. as = before @ a # after \<and> is_work a \<and> dungeon_run before d1 = Inr d'
     \<and> (\<exists>rest. runq d' = p # rest) \<and> length (filter is_work before) < nat (nr_max d1)"
proof -
  have fits: "run_fits d1" "length (runq d1) \<le> nat (nr_max d1)"
    using reachable_fits [OF dungeon_reachable.acted [OF assms(1-3)]] by auto
  from woken_queued [OF assms(1-6)] obtain ps qs where q: "runq d1 = ps @ p # qs" by (meson split_list)
  then have len: "length ps < nat (nr_max d1)" using fits(2) by (simp del: length_queue_contents)
  then have "length ps < length (filter is_work as)" using assms(8) by simp
  from split_at_work [OF this] obtain before a after where
    s: "as = before @ a # after" "is_work a" "length (filter is_work before) = length ps" by blast
  from assms(7) obtain d' where d': "dungeon_run before d1 = Inr d'"
    unfolding s(1) dungeon_run_append by (auto simp: bindE_eq_Inr_iff)
  from run_order [OF fits(1) d' q] s(3) have "\<exists>rest. runq d' = p # rest" by auto
  with s d' len show ?thesis by metis
qed

text \<open>The sleeping imp of the sample is woken, driven to its end, and the worker finds nothing more.\<close>

definition sample_end :: "nat action" where
  "sample_end = DoWork False False 9 TO_TERM [] (\<lambda>fd. (True, True))"

lemma sample_woken_run:
  "\<exists>d1 d2. dungeon_step (DoEpoll [7]) dungeon_asleep = Inr d1 \<and> dungeon_run [sample_end, sample_end] d1 = Inr d2 \<and> nr_max d1 = 2"
  by (simp add: sample_end_def dungeon_step_def thr_epoller_turn_def imp_cancel_timer_def imp_wake_def imp_run_def
      dungeon_asleep_def dungeon_queued_def dungeon_empty_def sample_queue_def sample_imp_def
      queue_enqueue_uniq_nb_def queue_scan_def scan.simps queue_store_def bucket_put_def word_le_nat_alt
      thr_driver_turn_def queue_dequeue_nb_def queue_take_def bucket_get_def queue_next_def imp_driver_def reduct_spec
      masks_disjoint imp_term_def queue_enqueue_nb_def)

theorem events_are_answered_witness:
  "\<exists>d1 before d'. dungeon_step (DoEpoll [7]) dungeon_asleep = Inr d1 \<and> dungeon_run before d1 = Inr d'
     \<and> (\<exists>rest. runq d' = 0x100 # rest)"
proof -
  from sample_woken_run obtain d1 d2 where d: "dungeon_step (DoEpoll [7]) dungeon_asleep = Inr d1"
    "dungeon_run [sample_end, sample_end] d1 = Inr d2" "nr_max d1 = 2" by blast
  have ok: "action_ok dungeon_asleep (DoEpoll [7])" "epoll dungeon_asleep 7 = Some (0x100, 0x40000001)"
    "0x100 \<in> sleepers dungeon_asleep"
    by (simp_all add: action_ok_def dungeon_asleep_def sleepers_def)
  have "nat (nr_max d1) \<le> length (filter is_work [sample_end, sample_end])"
    using d(3) by (simp add: is_work_def sample_end_def)
  from events_are_answered [OF dungeon_asleep_reachable ok(1) d(1) _ ok(2,3) d(2) this] d(1) show ?thesis by auto
qed

end
