(* ===== verification/Maintainer.thy ===== *)
theory Maintainer
  imports Queue2
begin

text \<open>
  The sleep of the maintainer (\<open>src/src/thr_maintainer.c\<close>): its mutex, its condition variable and
  the flags \<open>pending_event\<close> and \<open>thread_quit_mark\<close>, against any number of threads in \<open>imp_term\<close>
  and the one in \<open>thr_maintainer_destroy\<close>.  What dismissing an imp does is the subject of the
  theory of the dungeon; here it is only recorded.
\<close>

section \<open>State\<close>

text \<open>
  Where the maintainer is: at the test of the outer loop, in the inner loop, about to lock the
  mutex or just woken with it, in \<open>pthread_cond_wait\<close>, or at its end.
\<close>

datatype maintainer_at = Testing | Draining | Locking | Asleep | Finished

text \<open>
  \<open>mt_waking\<close> counts the threads that are between their store (\<open>queue_enqueue_nb\<close> or
  \<open>thread_quit_mark = 1\<close>) and their call of \<open>thr_maintainer_wakeup\<close>; the two logs record the imps
  that were stored and those that were dismissed.
\<close>

record 'a maintainer =
  mt_queue :: "'a queue_st"
  mt_at :: maintainer_at
  mt_pending :: bool
  mt_quit :: bool
  mt_waking :: nat
  mt_terminated :: "'a list"
  mt_reaped :: "'a list"

definition maintainer_start :: "'a queue_st \<Rightarrow> 'a maintainer" where
  "maintainer_start q = \<lparr>mt_queue = q, mt_at = Testing, mt_pending = False, mt_quit = False, mt_waking = 0,
     mt_terminated = queue_contents q, mt_reaped = []\<rparr>"

section \<open>Steps\<close>

text \<open>The thread itself, one access to what it shares at a time.\<close>

inductive maintainer_step :: "'a maintainer \<Rightarrow> 'a maintainer \<Rightarrow> bool" where
  test: "mt_at s = Testing \<Longrightarrow> maintainer_step s (s\<lparr>mt_at := if mt_quit s then Finished else Draining\<rparr>)"
| dismiss: "mt_at s = Draining \<Longrightarrow> queue_dequeue_nb (mt_queue s) = Inr (err, Some x, q') \<Longrightarrow> \<not> err < 0 \<Longrightarrow>
     maintainer_step s (s\<lparr>mt_queue := q', mt_reaped := mt_reaped s @ [x]\<rparr>)"
| leave_loop: "mt_at s = Draining \<Longrightarrow> queue_dequeue_nb (mt_queue s) = Inr (err, r, q') \<Longrightarrow> err < 0 \<Longrightarrow>
     maintainer_step s (s\<lparr>mt_queue := q', mt_at := Locking\<rparr>)"
| pass: "mt_at s = Locking \<Longrightarrow> mt_pending s \<Longrightarrow> maintainer_step s (s\<lparr>mt_pending := False, mt_at := Testing\<rparr>)"
| sleep: "mt_at s = Locking \<Longrightarrow> \<not> mt_pending s \<Longrightarrow> maintainer_step s (s\<lparr>mt_at := Asleep\<rparr>)"

text \<open>The other threads: \<open>imp_term\<close>, \<open>thr_maintainer_wakeup\<close>, \<open>thr_maintainer_destroy\<close>.\<close>

inductive others_step :: "'a maintainer \<Rightarrow> 'a maintainer \<Rightarrow> bool" where
  terminate: "queue_enqueue_nb (mt_queue s) x = Inr (ret, q') \<Longrightarrow>
     others_step s (s\<lparr>mt_queue := q', mt_waking := Suc (mt_waking s),
       mt_terminated := (if ret = 0 then mt_terminated s @ [x] else mt_terminated s)\<rparr>)"
| wakeup: "mt_waking s = Suc n \<Longrightarrow>
     others_step s (s\<lparr>mt_waking := n, mt_pending := True, mt_at := (if mt_at s = Asleep then Locking else mt_at s)\<rparr>)"
| quit: "others_step s (s\<lparr>mt_quit := True, mt_waking := Suc (mt_waking s)\<rparr>)"
| spurious: "mt_at s = Asleep \<Longrightarrow> others_step s (s\<lparr>mt_at := Locking\<rparr>)"

inductive maintainer_reachable :: "'a queue_st \<Rightarrow> 'a maintainer \<Rightarrow> bool" for q0 where
  started: "queue_wf q0 \<Longrightarrow> maintainer_reachable q0 (maintainer_start q0)"
| stepped: "maintainer_reachable q0 s \<Longrightarrow> maintainer_step s s' \<or> others_step s s' \<Longrightarrow> maintainer_reachable q0 s'"

section \<open>The invariant\<close>

text \<open>
  A reason to be awake that was stored, an imp or the quit mark, is never unseen: while the
  maintainer is past its last look at it, the flag is set or the thread that stored it has yet to set it.
\<close>

definition alerted :: "'a maintainer \<Rightarrow> bool" where
  "alerted s \<longleftrightarrow> mt_pending s \<or> mt_waking s > 0"

definition maintainer_inv :: "'a maintainer \<Rightarrow> bool" where
  "maintainer_inv s \<longleftrightarrow>
     queue_wf (mt_queue s) \<and> mt_reaped s @ queue_contents (mt_queue s) = mt_terminated s
     \<and> (mt_at s = Asleep \<longrightarrow> \<not> mt_pending s)
     \<and> (queue_contents (mt_queue s) \<noteq> [] \<longrightarrow> mt_at s \<in> {Testing, Draining, Finished} \<or> alerted s)
     \<and> (mt_quit s \<longrightarrow> mt_at s \<in> {Testing, Finished} \<or> alerted s)
     \<and> (mt_at s = Finished \<longrightarrow> mt_quit s)"

lemma maintainer_dequeue:
  assumes "maintainer_inv s" and "queue_dequeue_nb (mt_queue s) = Inr (err, r, q')"
  shows "if err < 0 then q' = mt_queue s \<and> queue_contents q' = []
    else queue_wf q' \<and> (\<exists>x. r = Some x \<and> queue_contents (mt_queue s) = x # queue_contents q')"
proof -
  have "queue_wf (mt_queue s)" using assms(1) by (simp add: maintainer_inv_def)
  then show ?thesis by (cases rule: q2.deq_outcome) (use assms(2) in auto)
qed

lemma maintainer_step_inv:
  assumes "maintainer_step s s'" and "maintainer_inv s"
  shows "maintainer_inv s' \<and> mt_quit s' = mt_quit s \<and> mt_waking s' = mt_waking s \<and> mt_terminated s' = mt_terminated s"
  using assms(1)
proof (cases rule: maintainer_step.cases)
  case (dismiss err x q')
  with maintainer_dequeue [OF assms(2) dismiss(3)] assms(2) show ?thesis by (auto simp: maintainer_inv_def alerted_def)
next
  case (leave_loop err r q')
  with maintainer_dequeue [OF assms(2) leave_loop(3)] assms(2) show ?thesis by (auto simp: maintainer_inv_def alerted_def)
qed (use assms(2) in \<open>auto simp: maintainer_inv_def alerted_def\<close>)

lemma others_step_inv:
  assumes "others_step s s'" and "maintainer_inv s"
  shows "maintainer_inv s'"
  using assms(1)
proof (cases rule: others_step.cases)
  case (terminate x ret q')
  have wf: "queue_wf (mt_queue s)" using assms(2) by (simp add: maintainer_inv_def)
  show ?thesis
  proof (cases "length (queue_contents (mt_queue s)) < unat (q_max (mt_queue s))")
    case True
    with q2.enq_room [OF wf True, of x] terminate(2) obtain
      "ret = 0" "queue_wf q'" "queue_contents q' = queue_contents (mt_queue s) @ [x]" by auto
    with terminate(1) assms(2) show ?thesis by (simp add: maintainer_inv_def alerted_def)
  next
    case False
    with q2.contents_le_cap [OF wf] have "length (queue_contents (mt_queue s)) = unat (q_max (mt_queue s))" by simp
    with q2.enq_full [OF wf this, of x] terminate assms(2) show ?thesis by (auto simp: maintainer_inv_def alerted_def)
  qed
qed (use assms(2) in \<open>auto simp: maintainer_inv_def alerted_def split: if_splits\<close>)

lemma maintainer_reachable_inv: "maintainer_reachable q0 s \<Longrightarrow> maintainer_inv s"
proof (induction rule: maintainer_reachable.induct)
  case started
  then show ?case by (simp add: maintainer_inv_def maintainer_start_def)
next
  case (stepped s s')
  with maintainer_step_inv others_step_inv show ?case by blast
qed

section \<open>Progress\<close>

lemma maintainer_step_unique:
  "maintainer_step s s1 \<Longrightarrow> maintainer_step s s2 \<Longrightarrow> s1 = s2"
  by (auto elim!: maintainer_step.cases)

text \<open>Nothing is left to do: the imps are dismissed and the maintainer sleeps, or it has ended.\<close>

definition settled :: "'a maintainer \<Rightarrow> bool" where
  "settled s \<longleftrightarrow> (if mt_quit s then mt_at s = Finished else mt_at s = Asleep \<and> queue_contents (mt_queue s) = [])"

definition weight :: "'a maintainer \<Rightarrow> nat" where
  "weight s = (if mt_pending s then 4 else 0) + length (queue_contents (mt_queue s))
     + (case mt_at s of Testing \<Rightarrow> 3 | Draining \<Rightarrow> 2 | Locking \<Rightarrow> 1 | _ \<Rightarrow> 0)"

lemma maintainer_step_weight:
  assumes "maintainer_step s s'" and "maintainer_inv s"
  shows "weight s' < weight s"
  using assms(1)
proof (cases rule: maintainer_step.cases)
  case (dismiss err x q')
  with maintainer_dequeue [OF assms(2) dismiss(3)] show ?thesis
    by (auto simp: weight_def simp del: length_queue_contents)
next
  case (leave_loop err r q')
  with maintainer_dequeue [OF assms(2) leave_loop(3)] show ?thesis by (auto simp: weight_def)
qed (auto simp: weight_def)

lemma maintainer_can_step:
  assumes "maintainer_inv s" and "mt_waking s = 0" and "\<not> settled s"
  shows "\<exists>s'. maintainer_step s s'"
proof (cases "mt_at s")
  case Testing
  then show ?thesis by (blast intro: maintainer_step.test)
next
  case Draining
  have "queue_wf (mt_queue s)" using assms(1) by (simp add: maintainer_inv_def)
  then show ?thesis
  proof (cases rule: q2.deq_outcome)
    case empty
    then show ?thesis using maintainer_step.leave_loop [OF Draining empty(2)] by force
  next
    case (item x q')
    then show ?thesis using maintainer_step.dismiss [OF Draining item(2)] by force
  qed
next
  case Locking
  then show ?thesis by (blast intro: maintainer_step.pass maintainer_step.sleep)
qed (use assms in \<open>auto simp: maintainer_inv_def alerted_def settled_def split: if_splits\<close>)

lemma maintainer_settles:
  "maintainer_inv s \<Longrightarrow> mt_waking s = 0 \<Longrightarrow>
     \<exists>s'. maintainer_step\<^sup>*\<^sup>* s s' \<and> settled s' \<and> maintainer_inv s' \<and> mt_quit s' = mt_quit s \<and> mt_terminated s' = mt_terminated s"
proof (induction "weight s" arbitrary: s rule: less_induct)
  case less
  show ?case
  proof (cases "settled s")
    case True
    with less.prems show ?thesis by blast
  next
    case False
    with maintainer_can_step [OF less.prems] obtain t where t: "maintainer_step s t" by blast
    note inv = maintainer_step_inv [OF t less.prems(1)]
    with less.hyps [OF maintainer_step_weight [OF t less.prems(1)]] less.prems(2) obtain s' where
      "maintainer_step\<^sup>*\<^sup>* t s'" "settled s'" "maintainer_inv s'" "mt_quit s' = mt_quit t" "mt_terminated s' = mt_terminated t"
      by auto
    with t inv show ?thesis by (metis converse_rtranclp_into_rtranclp)
  qed
qed

text \<open>
  C11.  No termination is forgotten.  Whatever the threads did before, once every thread that stored an
  imp or the quit mark has called \<open>thr_maintainer_wakeup\<close>, the maintainer by itself dismisses
  every imp that is left, in the order in which they were terminated, before it sleeps; and after
  the quit mark it ends, so that \<open>pthread_join\<close> returns.  Its steps are determined
  (\<open>maintainer_step_unique\<close>) and each makes the rest shorter (\<open>maintainer_step_weight\<close>), so there is no
  other way for it to go on.
\<close>

theorem maintainer_reaps:
  assumes "maintainer_reachable q0 s" and "mt_waking s = 0"
  shows "\<exists>s'. maintainer_step\<^sup>*\<^sup>* s s' \<and> mt_reaped s' @ queue_contents (mt_queue s') = mt_terminated s
     \<and> (if mt_quit s then mt_at s' = Finished else mt_at s' = Asleep \<and> queue_contents (mt_queue s') = [])"
proof -
  from maintainer_settles [OF maintainer_reachable_inv [OF assms(1)] assms(2)] obtain s' where
    s': "maintainer_step\<^sup>*\<^sup>* s s'" "settled s'" "maintainer_inv s'" "mt_quit s' = mt_quit s"
      "mt_terminated s' = mt_terminated s" by blast
  have "mt_reaped s' @ queue_contents (mt_queue s') = mt_terminated s'"
    using s'(3) unfolding maintainer_inv_def by blast
  with s'(1,2) show ?thesis unfolding settled_def s'(4,5) by blast
qed

theorem maintainer_reaps_witness:
  "\<exists>s'. maintainer_step\<^sup>*\<^sup>* (maintainer_start queue_sample) s' \<and> mt_at s' = Asleep
     \<and> mt_reaped s' = queue_contents queue_sample"
proof -
  let ?s = "maintainer_start queue_sample"
  have "maintainer_reachable queue_sample ?s" by (rule maintainer_reachable.started [OF queue_sample_wf])
  moreover have s: "mt_waking ?s = 0" "\<not> mt_quit ?s" "mt_terminated ?s = queue_contents queue_sample"
    by (simp_all add: maintainer_start_def)
  ultimately obtain s' where "maintainer_step\<^sup>*\<^sup>* ?s s'" "mt_reaped s' @ queue_contents (mt_queue s') = mt_terminated ?s"
    "if mt_quit ?s then mt_at s' = Finished else mt_at s' = Asleep \<and> queue_contents (mt_queue s') = []"
    using maintainer_reaps [of queue_sample ?s] by blast
  with s show ?thesis by (intro exI [of _ s']) simp
qed

end
