(* ===== verification/Buffer_Interface.thy ===== *)
theory Buffer_Interface
  imports Prelude
begin

text \<open>
  The contract of \<open>ds_bufferlist.h\<close> for a client that sends straight out of the buffer, as
  \<open>conn_tcp_sendv_nb\<close> does: the unread bytes are a sequence of chunks; the client can ask how
  long the first one is, drop it, or move the read position inside it.

  \<open>consume\<close> is the loop such a client runs after the kernel took \<open>bytes\<close> bytes:

    \<open>while (bytes > 0) { if there is no head: break; if (bytes >= size of head) { bytes -= size;
    pop; } else { move_head(bytes); bytes = 0; } }\<close>

  over any three operations.  The return values of \<open>pop\<close> and \<open>move_head\<close> are ignored, as
  they are in the code.  \<open>None\<close> is a loop that never ends.
\<close>

partial_function (option) consume ::
  "('b \<Rightarrow> ub + nat option) \<Rightarrow> ('b \<Rightarrow> ub + (int \<times> 'b)) \<Rightarrow> ('b \<Rightarrow> nat \<Rightarrow> ub + (int \<times> 'b))
     \<Rightarrow> 'b \<Rightarrow> nat \<Rightarrow> (ub + 'b) option" where
  "consume head_size pop move_head b bytes =
     (if bytes = 0 then Some (Inr b)
      else case head_size b of
        Inl e \<Rightarrow> Some (Inl e)
      | Inr None \<Rightarrow> Some (Inr b)
      | Inr (Some k) \<Rightarrow>
          if bytes \<ge> k
          then (case pop b of
                  Inl e \<Rightarrow> Some (Inl e)
                | Inr r \<Rightarrow> consume head_size pop move_head (snd r) (bytes - k))
          else (case move_head b bytes of
                  Inl e \<Rightarrow> Some (Inl e)
                | Inr r \<Rightarrow> consume head_size pop move_head (snd r) 0))"

locale chunk_buffer =
  fixes chunks :: "'b \<Rightarrow> u8 list list"
    and wf :: "'b \<Rightarrow> bool"
    and head_size :: "'b \<Rightarrow> ub + nat option"
    and pop :: "'b \<Rightarrow> ub + (int \<times> 'b)"
    and move_head :: "'b \<Rightarrow> nat \<Rightarrow> ub + (int \<times> 'b)"
  assumes head_none: "wf b \<Longrightarrow> chunks b = [] \<Longrightarrow> head_size b = Inr None"
    and head_some: "wf b \<Longrightarrow> chunks b = c # cs \<Longrightarrow> head_size b = Inr (Some (length c))"
    and pop_chunk: "wf b \<Longrightarrow> chunks b = c # cs \<Longrightarrow>
          \<exists>b'. pop b = Inr (0, b') \<and> wf b' \<and> chunks b' = cs"
    and move_inside: "wf b \<Longrightarrow> chunks b = c # cs \<Longrightarrow> k < length c \<Longrightarrow>
          \<exists>b'. move_head b k = Inr (0, b') \<and> wf b' \<and> chunks b' = drop k c # cs"
begin

text \<open>
  The loop ends and removes exactly the first \<open>bytes\<close> bytes of the stream, wherever they end in
  a chunk; asked for more than there is, it empties the buffer.
\<close>

lemma consume_stream:
  "wf b \<Longrightarrow> \<exists>b'. consume head_size pop move_head b bytes = Some (Inr b') \<and> wf b'
     \<and> concat (chunks b') = drop bytes (concat (chunks b))"
proof (induction "length (chunks b)" arbitrary: b bytes)
  case 0
  then show ?case by (subst consume.simps) (auto simp: head_none)
next
  case (Suc m)
  then obtain c cs where ch: "chunks b = c # cs" by (cases "chunks b") auto
  consider (zero) "bytes = 0" | (pop) "bytes > 0" "length c \<le> bytes" | (move) "bytes < length c"
    by linarith
  then show ?case
  proof cases
    case zero
    with Suc.prems show ?thesis by (subst consume.simps) auto
  next
    case pop
    from pop_chunk [OF Suc.prems ch] obtain b1 where
      b1: "pop b = Inr (0, b1)" "wf b1" "chunks b1 = cs" by blast
    with Suc.hyps(2) ch have "m = length (chunks b1)" by simp
    from Suc.hyps(1) [OF this b1(2), of "bytes - length c"] b1 ch pop
    show ?thesis by (subst consume.simps) (simp add: head_some [OF Suc.prems ch])
  next
    case move
    from move_inside [OF Suc.prems ch move] obtain b1 where
      b1: "move_head b bytes = Inr (0, b1)" "wf b1" "chunks b1 = drop bytes c # cs" by blast
    show ?thesis
    proof (cases "bytes = 0")
      case True
      with Suc.prems show ?thesis by (subst consume.simps) auto
    next
      case False
      have "consume head_size pop move_head b1 0 = Some (Inr b1)" by (subst consume.simps) simp
      with b1 False move ch show ?thesis
        by (subst consume.simps) (auto simp: head_some [OF Suc.prems ch])
    qed
  qed
qed

end

end
