(* ===== verification/Bufferlist.thy ===== *)
theory Bufferlist
  imports Llist Buffer_Interface
begin

text \<open>
  \<open>src/src/ds_bufferlist.c\<close>: a byte buffer kept as a list of blocks.  Each node of the
  underlying \<open>llist_t\<close> carries a pointer to a \<open>buffer_node_t\<close>, which says which part of its
  block is still unread.  The record holds, beside the fields of \<open>buffer_list_t\<close>, the two
  regions of memory these pointers refer to: the buffer nodes and the data blocks.

  The list is private to the buffer and the buffer has no lock of its own, so the
  \<open>pthread_mutex_trylock\<close> inside the \<open>llist_*_nb\<close> calls finds the lock free.  A
  \<open>size_t\<close> is a \<open>nat\<close>: every size counted here is that of live memory.
\<close>

record buffer_node =
  bn_start :: intptr
  bn_pos :: intptr
  bn_size :: nat

record buffer_list =
  base :: llist
  bufsize :: u32
  bl_max :: u32
  nbytes :: nat
  bnodes :: "intptr \<rightharpoonup> buffer_node"
  bmem :: "intptr \<rightharpoonup> u8 list"

definition ld_node :: "buffer_list \<Rightarrow> intptr \<Rightarrow> ub + buffer_node" where
  "ld_node bl p = (case bnodes bl p of Some n \<Rightarrow> Inr n
                   | None \<Rightarrow> Inl (if p = 0 then NullDeref else BadPointer))"

text \<open>\<open>memcpy(.., n->pos, len)\<close>: read \<open>len\<close> bytes from \<open>pos\<close>, inside the block of \<open>start\<close>.\<close>

definition copy_from :: "buffer_list \<Rightarrow> buffer_node \<Rightarrow> nat \<Rightarrow> ub + u8 list" where
  "copy_from bl n len =
     (case bmem bl (bn_start n) of
        None \<Rightarrow> Inl BadPointer
      | Some blk \<Rightarrow>
          let off = unat (bn_pos n - bn_start n) in
          if off + len \<le> length blk then Inr (take len (drop off blk)) else Inl OutOfBounds)"

text \<open>\<open>free(bn->start); free(bn);\<close>\<close>

definition free_bnode :: "buffer_list \<Rightarrow> intptr \<Rightarrow> buffer_node \<Rightarrow> ub + buffer_list" where
  "free_bnode bl p n =
     (if bmem bl (bn_start n) = None \<or> bnodes bl p = None then Inl BadPointer
      else Inr (bl\<lparr>bmem := (bmem bl)(bn_start n := None), bnodes := (bnodes bl)(p := None)\<rparr>))"

section \<open>Operations\<close>

definition buffer_new_node :: "intptr \<Rightarrow> nat \<Rightarrow> buffer_node" where
  "buffer_new_node data sz = \<lparr>bn_start = data, bn_pos = data, bn_size = sz\<rparr>"

text \<open>
  \<open>buffer_new\<close>: \<open>mem_ok\<close> says whether the structure could be allocated; the last three
  arguments are those of \<open>llist_new\<close>.  When \<open>llist_new\<close> fails the code frees \<open>bl\<close> and
  then goes on to store through it.
\<close>

definition buffer_new :: "u32 \<Rightarrow> bool \<Rightarrow> intptr option \<Rightarrow> bool \<Rightarrow> bool \<Rightarrow> ub + buffer_list option" where
  "buffer_new sz mem_ok ll_mem mutex_ok cond_ok =
     (let sz = (if sz = 0 then 65536 else sz) in
      if \<not> mem_ok then Inr None
      else case llist_new (sint sz) ll_mem mutex_ok cond_ok of
             None \<Rightarrow> Inl BadPointer
           | Some ll \<Rightarrow> Inr (Some \<lparr>base = ll, bufsize = 0, bl_max = sz, nbytes = 0,
                                  bnodes = Map.empty, bmem = Map.empty\<rparr>))"

definition buffer_delete :: "buffer_list option \<Rightarrow> (ub + int) option" where
  "buffer_delete bl =
     (case bl of None \<Rightarrow> Some (Inr (-1))
      | Some bl \<Rightarrow> if bufsize bl \<noteq> 0 then Some (Inr (-1))
                   else map_option (\<lambda>r. bindE r (\<lambda>_. Inr 0)) (llist_delete (Some (base bl))))"

definition buffer_nbytes :: "buffer_list \<Rightarrow> nat" where
  "buffer_nbytes bl = nbytes bl"

definition buffer_pop :: "buffer_list \<Rightarrow> ub + (int \<times> buffer_list)" where
  "buffer_pop bl =
     bindE (llist_fetch_head_nb False (base bl)) (\<lambda>(ret, out, ll).
       if ret \<noteq> 0 then Inr (ret, bl\<lparr>base := ll\<rparr>)
       else
         bindE (ld_node bl (the out)) (\<lambda>n.
         bindE (free_bnode (bl\<lparr>base := ll, nbytes := nbytes bl - bn_size n\<rparr>) (the out) n) (\<lambda>bl.
         Inr (0, bl\<lparr>bufsize := bufsize bl - 1\<rparr>))))"

definition buffer_move_head :: "buffer_list \<Rightarrow> nat \<Rightarrow> ub + (int \<times> buffer_list)" where
  "buffer_move_head bl sz =
     bindE (llist_get_head_nb False (base bl)) (\<lambda>(ret, out).
       if ret \<noteq> 0 then Inr (ret, bl)
       else
         bindE (ld_node bl (the out)) (\<lambda>n.
         if bn_size n > sz
         then Inr (0, bl\<lparr>bnodes := (bnodes bl)(the out \<mapsto> n\<lparr>bn_pos := bn_pos n + of_nat sz,
                                                          bn_size := bn_size n - sz\<rparr>),
                        nbytes := nbytes bl - sz\<rparr>)
         else Inr (-1, bl)))"

text \<open>
  The loop of \<open>buffer_read\<close>.  \<open>acc\<close> is what has been copied to the caller's memory, so the
  C variable \<open>res\<close> is its length until an error sets it to \<open>-1\<close>.
\<close>

lemma fetch_head_decreases:
  "llist_fetch_head_nb False ll = Inr (0, out, ll') \<Longrightarrow>
     nr_nodes ll > 0 \<and> nr_nodes ll' = nr_nodes ll - 1"
  by (auto simp: llist_fetch_head_nb_def llist_fetch_head_unlocked_def unlink_first_def
      bindE_eq_Inr_iff split: if_splits)

lemma free_bnode_base: "free_bnode bl p n = Inr bl' \<Longrightarrow> base bl' = base bl"
  by (auto simp: free_bnode_def split: if_splits)

function buffer_read_loop ::
  "buffer_list \<Rightarrow> nat \<Rightarrow> u8 list \<Rightarrow> ub + (int \<times> u8 list \<times> buffer_list)" where
  "buffer_read_loop bl sz acc =
     (if nbytes bl > 0 \<and> sz > 0 then
        bindE (llist_get_head_nb False (base bl)) (\<lambda>(ret, out).
          if ret \<noteq> 0 then Inr (-1, acc, bl)
          else
            bindE (ld_node bl (the out)) (\<lambda>n.
            if bn_size n \<le> sz then
              bindE (llist_fetch_head_nb False (base bl)) (\<lambda>(ret, out, ll).
                if ret \<noteq> 0 then Inr (-1, acc, bl\<lparr>base := ll\<rparr>)
                else
                  bindE (ld_node bl (the out)) (\<lambda>n.
                  bindE (copy_from bl n (bn_size n)) (\<lambda>bytes.
                  bindE (free_bnode (bl\<lparr>base := ll, nbytes := nbytes bl - bn_size n\<rparr>) (the out) n)
                    (\<lambda>bl. buffer_read_loop (bl\<lparr>bufsize := bufsize bl - 1\<rparr>)
                             (sz - bn_size n) (acc @ bytes)))))
            else
              bindE (copy_from bl n sz) (\<lambda>bytes.
              buffer_read_loop
                (bl\<lparr>bnodes := (bnodes bl)(the out \<mapsto> n\<lparr>bn_pos := bn_pos n + of_nat sz,
                                                     bn_size := bn_size n - sz\<rparr>),
                   nbytes := nbytes bl - sz\<rparr>)
                0 (acc @ bytes))))
      else Inr (int (length acc), acc, bl))"
  by pat_completeness auto
termination
  by (relation "measures [\<lambda>(bl, sz, acc). nat (nr_nodes (base bl)), \<lambda>(bl, sz, acc). sz]")
    (auto dest!: fetch_head_decreases free_bnode_base)

declare buffer_read_loop.simps [simp del]

definition buffer_read :: "buffer_list \<Rightarrow> nat \<Rightarrow> ub + (int \<times> u8 list \<times> buffer_list)" where
  "buffer_read bl sz = buffer_read_loop bl sz []"

text \<open>
  \<open>buffer_write\<close>: the three allocations are those of the data block, of the buffer node and
  of the list node.  When a later one fails the earlier ones are freed again, so the memory is
  what it was.
\<close>

definition buffer_write ::
  "buffer_list \<Rightarrow> u8 list \<Rightarrow> intptr option \<Rightarrow> intptr option \<Rightarrow> intptr option
     \<Rightarrow> ub + (int \<times> buffer_list)" where
  "buffer_write bl buf mem_data mem_bn mem_node =
     (case mem_data of None \<Rightarrow> Inr (-1, bl)
      | Some data \<Rightarrow>
        (case mem_bn of None \<Rightarrow> Inr (-1, bl)
         | Some bn \<Rightarrow>
             bindE (llist_append_nb False (base bl) bn mem_node) (\<lambda>(ret, ll).
               if ret \<noteq> 0 then Inr (-1, bl\<lparr>base := ll\<rparr>)
               else Inr (int (length buf),
                 bl\<lparr>base := ll,
                    bmem := (bmem bl)(data \<mapsto> buf),
                    bnodes := (bnodes bl)(bn \<mapsto> buffer_new_node data (length buf)),
                    bufsize := bufsize bl + 1,
                    nbytes := nbytes bl + length buf\<rparr>))))"

text \<open>Walking the list from outside (\<open>0\<close> is \<open>NULL\<close>).\<close>

definition buffer_get_next :: "buffer_list \<Rightarrow> intptr \<Rightarrow> ub + intptr" where
  "buffer_get_next bl ptr = llist_get_next_nb False (base bl) ptr"

definition buffer_get_head :: "buffer_list \<Rightarrow> ub + intptr" where
  "buffer_get_head bl =
     bindE (llist_get_head_node_nb False (base bl)) (\<lambda>(ret, out).
       Inr (if ret \<noteq> 0 then 0 else the out))"

definition buffer_get_data :: "buffer_list \<Rightarrow> intptr \<Rightarrow> ub + intptr" where
  "buffer_get_data bl buf = bindE (ld (heap (base bl)) buf) (\<lambda>n. Inr (ln_ptr n))"

section \<open>The buffer as a stream of bytes\<close>

definition chunk :: "buffer_list \<Rightarrow> intptr \<Rightarrow> u8 list" where
  "chunk bl p =
     (case bnodes bl p of None \<Rightarrow> []
      | Some n \<Rightarrow> take (bn_size n)
          (drop (unat (bn_pos n - bn_start n)) (case bmem bl (bn_start n) of None \<Rightarrow> [] | Some b \<Rightarrow> b)))"

definition buffer_chunks :: "buffer_list \<Rightarrow> u8 list list" where
  "buffer_chunks bl = map (chunk bl) (llist_data (base bl))"

definition buffer_stream :: "buffer_list \<Rightarrow> u8 list" where
  "buffer_stream bl = concat (buffer_chunks bl)"

text \<open>A buffer node, at an address other than \<open>NULL\<close>, whose unread part lies inside its block.\<close>

definition node_ok :: "buffer_list \<Rightarrow> intptr \<Rightarrow> bool" where
  "node_ok bl p \<longleftrightarrow> p \<noteq> 0 \<and>
     (case bnodes bl p of None \<Rightarrow> False
      | Some n \<Rightarrow>
         (case bmem bl (bn_start n) of None \<Rightarrow> False
          | Some blk \<Rightarrow> unat (bn_pos n - bn_start n) + bn_size n \<le> length blk
                        \<and> length blk < 2 ^ 64))"

definition start_of :: "buffer_list \<Rightarrow> intptr \<Rightarrow> intptr" where
  "start_of bl p = bn_start (the (bnodes bl p))"

definition buffer_wf :: "buffer_list \<Rightarrow> bool" where
  "buffer_wf bl \<longleftrightarrow>
     llist_wf (base bl) \<and> volume (base bl) < 2 ^ 32
     \<and> unat (bufsize bl) = length (llist_data (base bl))
     \<and> distinct (llist_data (base bl)) \<and> distinct (map (start_of bl) (llist_data (base bl)))
     \<and> list_all (node_ok bl) (llist_data (base bl))
     \<and> nbytes bl = length (buffer_stream bl)"


lemma buffer_wf_nodes:
  assumes "buffer_wf bl" and "p \<in> set (llist_data (base bl))"
  obtains n blk where "bnodes bl p = Some n" "bmem bl (bn_start n) = Some blk"
    "unat (bn_pos n - bn_start n) + bn_size n \<le> length blk" "length blk < 2 ^ 64"
    "chunk bl p = take (bn_size n) (drop (unat (bn_pos n - bn_start n)) blk)"
proof -
  from assms have "node_ok bl p" by (auto simp: buffer_wf_def list_all_iff)
  then show thesis by (auto simp: node_ok_def chunk_def split: option.splits intro: that)
qed

text \<open>The counters do not matter to the contents.\<close>

lemma chunk_upd [simp]: "chunk (bl\<lparr>bufsize := k\<rparr>) = chunk bl" "chunk (bl\<lparr>base := ll\<rparr>) = chunk bl"
  by (auto simp: chunk_def split: option.split)

lemma node_ok_upd [simp]:
  "node_ok (bl\<lparr>bufsize := k\<rparr>) = node_ok bl" "node_ok (bl\<lparr>base := ll\<rparr>) = node_ok bl"
  by (auto simp: node_ok_def fun_eq_iff split: option.split)

lemma start_of_upd [simp]:
  "start_of (bl\<lparr>bufsize := k\<rparr>) = start_of bl" "start_of (bl\<lparr>base := ll\<rparr>) = start_of bl"
  by (auto simp: start_of_def)

lemma buffer_chunks_bufsize [simp]: "buffer_chunks (bl\<lparr>bufsize := k\<rparr>) = buffer_chunks bl"
  by (simp add: buffer_chunks_def)

lemma length_chunk: "node_ok bl p \<Longrightarrow> length (chunk bl p) = bn_size (the (bnodes bl p))"
  by (auto simp: node_ok_def chunk_def split: option.splits)

lemma copy_from_chunk:
  assumes "bnodes bl p = Some n" and "node_ok bl p" and "k \<le> bn_size n"
  shows "copy_from bl n k = Inr (take k (chunk bl p))"
  using assms by (auto simp: copy_from_def node_ok_def chunk_def Let_def min_def split: option.splits)

lemma buffer_chunks_frame:
  assumes "\<And>p. p \<in> set ps \<Longrightarrow> bnodes bl' p = bnodes bl p"
    and "\<And>p. p \<in> set ps \<Longrightarrow> bmem bl' (start_of bl p) = bmem bl (start_of bl p)"
  shows "map (chunk bl') ps = map (chunk bl) ps"
    and "list_all (node_ok bl') ps = list_all (node_ok bl) ps"
    and "map (start_of bl') ps = map (start_of bl) ps"
proof -
  have "chunk bl' p = chunk bl p \<and> node_ok bl' p = node_ok bl p \<and> start_of bl' p = start_of bl p"
    if "p \<in> set ps" for p
    using assms [OF that]
    by (cases "bnodes bl p") (simp_all add: chunk_def node_ok_def start_of_def)
  then show "map (chunk bl') ps = map (chunk bl) ps"
    "list_all (node_ok bl') ps = list_all (node_ok bl) ps"
    "map (start_of bl') ps = map (start_of bl) ps" by (auto simp: list_all_iff)
qed

lemma nr_nodes_bound: "buffer_wf bl \<Longrightarrow> length (llist_data (base bl)) < 2 ^ 32"
  using length_llist_data [of "base bl"] by (auto simp: buffer_wf_def llist_wf_def)

text \<open>Removing the first node: what \<open>buffer_pop\<close> and the first branch of the read loop share.\<close>

lemma drop_head_wf:
  assumes wf: "buffer_wf bl" and data: "llist_data (base bl) = p # ps" and n: "bnodes bl p = Some n"
    and ll: "llist_wf ll" "volume ll = volume (base bl)" "llist_data ll = ps"
  shows "\<exists>bl'. free_bnode (bl\<lparr>base := ll, nbytes := nbytes bl - bn_size n\<rparr>) p n = Inr bl'
     \<and> base bl' = ll \<and> bufsize bl' = bufsize bl
     \<and> buffer_wf (bl'\<lparr>bufsize := bufsize bl' - 1\<rparr>)
     \<and> buffer_chunks bl' = tl (buffer_chunks bl)"
proof -
  define bl' where "bl' = bl\<lparr>base := ll, nbytes := nbytes bl - bn_size n,
     bmem := (bmem bl)(bn_start n := None), bnodes := (bnodes bl)(p := None)\<rparr>"
  from wf data have ok: "node_ok bl p" "list_all (node_ok bl) ps"
    and dist: "p \<notin> set ps" "start_of bl p \<notin> start_of bl ` set ps" "distinct ps"
      "distinct (map (start_of bl) ps)"
    and nb: "nbytes bl = length (chunk bl p) + length (concat (map (chunk bl) ps))"
    and cnt: "unat (bufsize bl) = Suc (length ps)" and vol: "volume (base bl) < 2 ^ 32"
    by (auto simp: buffer_wf_def buffer_stream_def buffer_chunks_def)
  from n have start: "bn_start n = start_of bl p" by (simp add: start_of_def)
  have run: "free_bnode (bl\<lparr>base := ll, nbytes := nbytes bl - bn_size n\<rparr>) p n = Inr bl'"
    using ok(1) n by (auto simp: bl'_def free_bnode_def node_ok_def split: option.splits)
  have base: "base bl' = ll" "bufsize bl' = bufsize bl" "nbytes bl' = nbytes bl - bn_size n"
    by (simp_all add: bl'_def)
  have same: "\<And>q. q \<in> set ps \<Longrightarrow> bnodes bl' q = bnodes bl q"
      "\<And>q. q \<in> set ps \<Longrightarrow> bmem bl' (start_of bl q) = bmem bl (start_of bl q)"
    using dist start by (auto simp: bl'_def image_iff)
  note frame = buffer_chunks_frame [of ps bl' bl, OF same]
  have "bufsize bl \<noteq> 0" using cnt by auto
  then have "unat (bufsize bl - 1) = length ps" using cnt by (simp add: unat_pred_word)
  then have "buffer_wf (bl'\<lparr>bufsize := bufsize bl' - 1\<rparr>)"
    unfolding buffer_wf_def buffer_stream_def buffer_chunks_def
    using ll vol ok dist nb length_chunk [OF ok(1)] n by (simp add: base frame)
  moreover have "buffer_chunks bl' = tl (buffer_chunks bl)"
    using frame ll data by (simp add: buffer_chunks_def base)
  ultimately show ?thesis using run base by blast
qed

text \<open>Advancing inside the first node.\<close>

lemma advance_head_wf:
  assumes wf: "buffer_wf bl" and data: "llist_data (base bl) = p # ps" and n: "bnodes bl p = Some n"
    and k: "k < bn_size n"
    and bl': "bl' = bl\<lparr>bnodes := (bnodes bl)(p \<mapsto> n\<lparr>bn_pos := bn_pos n + of_nat k,
                          bn_size := bn_size n - k\<rparr>), nbytes := nbytes bl - k\<rparr>"
  shows "buffer_wf bl' \<and> buffer_chunks bl' = drop k (chunk bl p) # map (chunk bl) ps"
proof -
  from wf data have ok: "node_ok bl p" "list_all (node_ok bl) ps"
    and dist: "p \<notin> set ps" "start_of bl p \<notin> start_of bl ` set ps" "distinct ps"
      "distinct (map (start_of bl) ps)"
    and nb: "nbytes bl = length (chunk bl p) + length (concat (map (chunk bl) ps))"
    and cnt: "unat (bufsize bl) = Suc (length ps)" and vol: "volume (base bl) < 2 ^ 32"
    and lw: "llist_wf (base bl)"
    by (auto simp: buffer_wf_def buffer_stream_def buffer_chunks_def)
  from ok(1) n obtain blk where blk: "bmem bl (bn_start n) = Some blk"
      "unat (bn_pos n - bn_start n) + bn_size n \<le> length blk" "length blk < 2 ^ 64"
    by (auto simp: node_ok_def split: option.splits)
  have off: "unat (bn_pos n + of_nat k - bn_start n) = unat (bn_pos n - bn_start n) + k"
  proof -
    have "unat (bn_pos n + of_nat k - bn_start n) = unat ((bn_pos n - bn_start n) + of_nat k)"
      by (simp add: algebra_simps)
    also have "\<dots> = (unat (bn_pos n - bn_start n) + unat (of_nat k :: u64)) mod 2 ^ 64"
      by (simp add: unat_word_ariths)
    also have "unat (of_nat k :: u64) = k"
      using blk k by (simp add: unat_of_nat take_bit_nat_eq_self_iff)
    also have "(unat (bn_pos n - bn_start n) + k) mod 2 ^ 64 = unat (bn_pos n - bn_start n) + k"
      using blk k by (intro mod_less) linarith
    finally show ?thesis .
  qed
  have same: "\<And>q. q \<in> set ps \<Longrightarrow> bnodes bl' q = bnodes bl q"
      "\<And>q. q \<in> set ps \<Longrightarrow> bmem bl' (start_of bl q) = bmem bl (start_of bl q)"
    using dist by (auto simp: bl')
  note frame = buffer_chunks_frame [of ps bl' bl, OF same]
  have head: "chunk bl' p = drop k (chunk bl p)" "node_ok bl' p" "start_of bl' p = start_of bl p"
    using blk off k n ok(1)
    by (simp_all add: chunk_def node_ok_def start_of_def bl' drop_take add.commute)
  have base: "base bl' = base bl" "bufsize bl' = bufsize bl" "nbytes bl' = nbytes bl - k"
    by (simp_all add: bl')
  have "start_of bl p \<notin> set (map (start_of bl) ps)" using dist(2) by simp
  then have "buffer_wf bl'"
    unfolding buffer_wf_def buffer_stream_def buffer_chunks_def
    using data lw vol cnt head ok dist nb length_chunk [OF ok(1)] k n by (simp add: base frame)
  with frame head data show ?thesis by (simp add: buffer_chunks_def base)
qed

section \<open>Every operation on the chunks\<close>

lemma chunks_ConsD:
  assumes "buffer_wf bl" and "buffer_chunks bl = c # cs"
  obtains p ps n where "llist_data (base bl) = p # ps" "chunk bl p = c" "map (chunk bl) ps = cs"
    "bnodes bl p = Some n" "node_ok bl p" "bn_size n = length c"
proof -
  from assms(2) obtain p ps where
    ps: "llist_data (base bl) = p # ps" "chunk bl p = c" "map (chunk bl) ps = cs"
    by (auto simp: buffer_chunks_def map_eq_Cons_conv)
  with assms(1) have ok: "node_ok bl p" by (simp add: buffer_wf_def)
  then obtain n where "bnodes bl p = Some n" by (auto simp: node_ok_def split: option.splits)
  with that ps ok length_chunk [OF ok] show thesis by simp
qed

lemma buffer_pop_chunk:
  assumes wf: "buffer_wf bl" and chunks: "buffer_chunks bl = c # cs"
  shows "\<exists>bl'. buffer_pop bl = Inr (0, bl') \<and> buffer_wf bl' \<and> buffer_chunks bl' = cs
           \<and> bl_max bl' = bl_max bl"
proof -
  from chunks_ConsD [OF assms] obtain p ps n where
    p: "llist_data (base bl) = p # ps" "bnodes bl p = Some n" by metis
  from wf have lw: "llist_wf (base bl)" by (simp add: buffer_wf_def)
  from fetch_head_wf [OF lw p(1)] obtain ll where
    ll: "llist_fetch_head_nb False (base bl) = Inr (0, Some p, ll)" "llist_wf ll"
      "volume ll = volume (base bl)" "llist_data ll = ps"
    by (auto simp: llist_fetch_head_nb_def)
  from drop_head_wf [OF wf p ll(2-4)] obtain bl' where
    bl': "free_bnode (bl\<lparr>base := ll, nbytes := nbytes bl - bn_size n\<rparr>) p n = Inr bl'"
      "buffer_wf (bl'\<lparr>bufsize := bufsize bl' - 1\<rparr>)" "buffer_chunks bl' = tl (buffer_chunks bl)"
    by blast
  have "bl_max bl' = bl_max bl" using bl'(1) by (auto simp: free_bnode_def split: if_splits)
  with bl' ll(1) p(2) chunks show ?thesis by (simp add: buffer_pop_def ld_node_def)
qed

lemma buffer_pop_empty:
  assumes "buffer_wf bl" and "buffer_chunks bl = []"
  shows "buffer_pop bl = Inr (-1, bl)"
proof -
  from assms have "llist_fetch_head_nb False (base bl) = Inr (-1, None, base bl)"
    by (intro ll.deq_empty) (simp_all add: buffer_wf_def buffer_chunks_def)
  then show ?thesis by (simp add: buffer_pop_def)
qed

lemma buffer_move_head_inside:
  assumes wf: "buffer_wf bl" and chunks: "buffer_chunks bl = c # cs" and k: "k < length c"
  shows "\<exists>bl'. buffer_move_head bl k = Inr (0, bl') \<and> buffer_wf bl'
           \<and> buffer_chunks bl' = drop k c # cs"
proof -
  from chunks_ConsD [OF wf chunks] obtain p ps n where
    p: "llist_data (base bl) = p # ps" "chunk bl p = c" "map (chunk bl) ps = cs"
      "bnodes bl p = Some n" "bn_size n = length c" by metis
  have "llist_get_head_nb False (base bl) = Inr (0, Some p)"
    using wf p(1) by (intro ll.head_item) (auto simp: buffer_wf_def)
  with advance_head_wf [OF wf p(1,4) _ refl, of k] p k show ?thesis
    by (simp add: buffer_move_head_def ld_node_def)
qed

lemma buffer_move_head_past:
  assumes wf: "buffer_wf bl" and chunks: "buffer_chunks bl = c # cs" and k: "length c \<le> k"
  shows "buffer_move_head bl k = Inr (-1, bl)"
proof -
  from chunks_ConsD [OF wf chunks] obtain p ps n where
    p: "llist_data (base bl) = p # ps" "bnodes bl p = Some n" "bn_size n = length c" by metis
  have "llist_get_head_nb False (base bl) = Inr (0, Some p)"
    using wf p(1) by (intro ll.head_item) (auto simp: buffer_wf_def)
  with p k show ?thesis by (simp add: buffer_move_head_def ld_node_def)
qed

lemma buffer_nbytes_stream: "buffer_wf bl \<Longrightarrow> nbytes bl = length (buffer_stream bl)"
  by (simp add: buffer_wf_def)

text \<open>The read loop: one node less, or the end.\<close>

lemma buffer_read_loop_spec:
  "buffer_wf bl \<Longrightarrow>
     \<exists>bl'. buffer_read_loop bl sz acc
       = Inr (int (length (acc @ take sz (buffer_stream bl))), acc @ take sz (buffer_stream bl), bl')
       \<and> buffer_wf bl' \<and> buffer_stream bl' = drop sz (buffer_stream bl)"
proof (induction "length (buffer_chunks bl)" arbitrary: bl sz acc)
  case 0
  then show ?case
    by (subst buffer_read_loop.simps) (auto simp: buffer_wf_def buffer_stream_def)
next
  case (Suc m)
  then obtain c cs where chunks: "buffer_chunks bl = c # cs" by (cases "buffer_chunks bl") auto
  note wf = Suc.prems
  show ?case
  proof (cases "nbytes bl > 0 \<and> sz > 0")
    case False
    then show ?thesis using wf buffer_nbytes_stream [OF wf]
      by (subst buffer_read_loop.simps) auto
  next
    case True
    from chunks_ConsD [OF wf chunks] obtain p ps n where
      p: "llist_data (base bl) = p # ps" "chunk bl p = c" "map (chunk bl) ps = cs"
        "bnodes bl p = Some n" "node_ok bl p" "bn_size n = length c" .
    have lw: "llist_wf (base bl)" using wf by (simp add: buffer_wf_def)
    have head: "llist_get_head_nb False (base bl) = Inr (0, Some p)"
      using lw p(1) by (intro ll.head_item) auto
    show ?thesis
    proof (cases "bn_size n \<le> sz")
      case le: True
      from fetch_head_wf [OF lw p(1)] obtain ll where
        ll: "llist_fetch_head_nb False (base bl) = Inr (0, Some p, ll)" "llist_wf ll"
          "volume ll = volume (base bl)" "llist_data ll = ps"
        by (auto simp: llist_fetch_head_nb_def)
      from drop_head_wf [OF wf p(1,4) ll(2-4)] obtain bl' where
        bl': "free_bnode (bl\<lparr>base := ll, nbytes := nbytes bl - bn_size n\<rparr>) p n = Inr bl'"
          "buffer_wf (bl'\<lparr>bufsize := bufsize bl' - 1\<rparr>)" "buffer_chunks bl' = cs"
        using chunks by auto
      have "buffer_read_loop bl sz acc
          = buffer_read_loop (bl'\<lparr>bufsize := bufsize bl' - 1\<rparr>) (sz - length c) (acc @ c)"
        using True le p bl' head ll copy_from_chunk [OF p(4,5), of "bn_size n"]
        by (subst buffer_read_loop.simps) (simp add: ld_node_def)
      with Suc.hyps(1) [OF _ bl'(2), of "sz - length c" "acc @ c"] Suc.hyps(2) bl'(3) chunks le p(6)
      show ?thesis by (simp add: buffer_stream_def)
    next
      case False
      let ?bl' = "bl\<lparr>bnodes := (bnodes bl)(p \<mapsto> n\<lparr>bn_pos := bn_pos n + of_nat sz,
                       bn_size := bn_size n - sz\<rparr>), nbytes := nbytes bl - sz\<rparr>"
      from advance_head_wf [OF wf p(1,4) _ refl, of sz] False
      have bl': "buffer_wf ?bl'" "buffer_chunks ?bl' = drop sz c # cs" using p by auto
      have "buffer_read_loop bl sz acc = buffer_read_loop ?bl' 0 (acc @ take sz c)"
        using True False p head copy_from_chunk [OF p(4,5), of sz]
        by (subst buffer_read_loop.simps) (simp add: ld_node_def)
      also have "\<dots> = Inr (int (length (acc @ take sz c)), acc @ take sz c, ?bl')"
        by (subst buffer_read_loop.simps) simp
      finally show ?thesis using bl' False chunks p(6) by (auto simp: buffer_stream_def)
    qed
  qed
qed

text \<open>Appending a chunk; the three addresses are what the allocator returned.\<close>

definition buffer_fresh :: "buffer_list \<Rightarrow> intptr \<Rightarrow> intptr \<Rightarrow> intptr \<Rightarrow> bool" where
  "buffer_fresh bl data bn a \<longleftrightarrow>
     bmem bl data = None \<and> bnodes bl bn = None \<and> bn \<noteq> 0 \<and> fresh (base bl) a"

lemma buffer_write_room:
  assumes wf: "buffer_wf bl" and fr: "buffer_fresh bl data bn a"
    and room: "length (buffer_chunks bl) < nat (volume (base bl))" and len: "length buf < 2 ^ 64"
  shows "\<exists>bl'. buffer_write bl buf (Some data) (Some bn) (Some a) = Inr (int (length buf), bl')
     \<and> buffer_wf bl' \<and> buffer_chunks bl' = buffer_chunks bl @ [buf]
     \<and> volume (base bl') = volume (base bl)"
proof -
  let ?ps = "llist_data (base bl)"
  from wf have lw: "llist_wf (base bl)" and ok: "list_all (node_ok bl) ?ps"
    and vol: "volume (base bl) < 2 ^ 32" and cnt: "unat (bufsize bl) = length ?ps"
    and dist: "distinct ?ps" "distinct (map (start_of bl) ?ps)"
    and nb: "nbytes bl = length (concat (map (chunk bl) ?ps))"
    by (simp_all add: buffer_wf_def buffer_stream_def buffer_chunks_def)
  from room length_llist_data [OF lw] have "nr_nodes (base bl) < volume (base bl)"
    by (simp add: buffer_chunks_def)
  with append_wf [OF lw _ this, of a bn] fr obtain ll where
    ll: "llist_append_nb False (base bl) bn (Some a) = Inr (0, ll)" "llist_wf ll"
      "volume ll = volume (base bl)" "llist_data ll = ?ps @ [bn]"
    by (auto simp: llist_append_nb_def buffer_fresh_def)
  define bl' where "bl' = bl\<lparr>base := ll, bmem := (bmem bl)(data \<mapsto> buf),
     bnodes := (bnodes bl)(bn \<mapsto> buffer_new_node data (length buf)),
     bufsize := bufsize bl + 1, nbytes := nbytes bl + length buf\<rparr>"
  have base: "base bl' = ll" "bufsize bl' = bufsize bl + 1" "nbytes bl' = nbytes bl + length buf"
    by (simp_all add: bl'_def)
  have run: "buffer_write bl buf (Some data) (Some bn) (Some a) = Inr (int (length buf), bl')"
    by (simp add: buffer_write_def ll(1) bl'_def)
  have old: "bn \<noteq> p" "start_of bl p \<noteq> data" if "p \<in> set ?ps" for p
  proof -
    from buffer_wf_nodes [OF wf that] obtain n blk where
      "bnodes bl p = Some n" "bmem bl (bn_start n) = Some blk" .
    with fr show "bn \<noteq> p" "start_of bl p \<noteq> data" by (auto simp: buffer_fresh_def start_of_def)
  qed
  have same: "\<And>q. q \<in> set ?ps \<Longrightarrow> bnodes bl' q = bnodes bl q"
      "\<And>q. q \<in> set ?ps \<Longrightarrow> bmem bl' (start_of bl q) = bmem bl (start_of bl q)"
    using old by (auto simp: bl'_def)
  note frame = buffer_chunks_frame [of ?ps bl' bl, OF same]
  have new: "chunk bl' bn = buf" "node_ok bl' bn" "start_of bl' bn = data"
    using len fr
    by (simp_all add: chunk_def node_ok_def start_of_def bl'_def buffer_new_node_def buffer_fresh_def)
  have "length ?ps < 2 ^ 32 - 1" using room vol by (simp add: buffer_chunks_def)
  with cnt have "bufsize bl \<noteq> - 1" by (auto simp: unsigned_minus_1_eq_mask mask_eq_exp_minus_1)
  then have "unat (bufsize bl + 1) = Suc (length ?ps)" using cnt by (simp add: unat_Suc_not_max)
  moreover have "bn \<notin> set ?ps" "data \<notin> start_of bl ` set ?ps" using old by blast+
  ultimately have "buffer_wf bl'"
    unfolding buffer_wf_def buffer_stream_def buffer_chunks_def
    using ll(2-4) vol ok dist nb new by (simp add: base frame)
  moreover have "buffer_chunks bl' = buffer_chunks bl @ [buf]"
    using frame new ll by (simp add: buffer_chunks_def base)
  ultimately show ?thesis using run ll base by auto
qed

lemma buffer_write_full:
  assumes "buffer_wf bl" and "length (buffer_chunks bl) \<ge> nat (volume (base bl))
     \<or> mem_data = None \<or> mem_bn = None \<or> mem_node = None"
  shows "buffer_write bl buf mem_data mem_bn mem_node = Inr (-1, bl)"
proof -
  from assms have lw: "llist_wf (base bl)" by (simp add: buffer_wf_def)
  show ?thesis
    using assms(2) length_llist_data [OF lw]
    by (auto simp: buffer_write_def llist_append_nb_def llist_append_unlocked_def buffer_chunks_def
        llist_new_node_def split: option.split)
qed

text \<open>What a client reads of the first node: the size of its unread part.\<close>

definition buffer_head_size :: "buffer_list \<Rightarrow> ub + nat option" where
  "buffer_head_size bl =
     bindE (buffer_get_head bl) (\<lambda>buf.
       if buf = 0 then Inr None
       else bindE (buffer_get_data bl buf) (\<lambda>p.
            bindE (ld_node bl p) (\<lambda>n. Inr (Some (bn_size n)))))"

lemma buffer_get_head_node:
  assumes "buffer_wf bl" and "llist_data (base bl) = p # ps"
  shows "\<exists>a as. llist_nodes (base bl) = a # as \<and> a \<noteq> 0 \<and> buffer_get_head bl = Inr a
           \<and> buffer_get_data bl a = Inr p"
proof -
  from assms(1) have lw: "llist_wf (base bl)" by (simp add: buffer_wf_def)
  from data_nodes_Cons [OF lw assms(2)] obtain a as where
    a: "llist_rep (base bl) (a # as)" "the (dat (heap (base bl)) a) = p" .
  have "llist_nodes (base bl) = a # as" by (rule llist_rep_nodes [OF a(1)])
  moreover have "heap (base bl) a \<noteq> None" using llist_rep_mapped [OF a(1), of a] by simp
  moreover have "a \<noteq> 0" using a(1) by (simp add: llist_rep_def)
  ultimately show ?thesis using get_head_wf [OF lw assms(2)] a(2)
    by (auto simp: buffer_get_head_def llist_get_head_node_nb_def buffer_get_data_def ld_def dat_def)
qed

lemma buffer_head_size_chunk:
  assumes "buffer_wf bl" and "buffer_chunks bl = c # cs"
  shows "buffer_head_size bl = Inr (Some (length c))"
proof -
  from chunks_ConsD [OF assms] obtain p ps n where
    p: "llist_data (base bl) = p # ps" "bnodes bl p = Some n" "bn_size n = length c" by metis
  from buffer_get_head_node [OF assms(1) p(1)] p show ?thesis
    by (auto simp: buffer_head_size_def ld_node_def)
qed

lemma buffer_head_size_empty:
  assumes "buffer_wf bl" and "buffer_chunks bl = []"
  shows "buffer_head_size bl = Inr None"
  using assms llist_data_empty_iff [of "base bl"]
  by (simp add: buffer_head_size_def buffer_get_head_def llist_get_head_node_nb_def
      llist_get_head_node_unlocked_def buffer_wf_def buffer_chunks_def)

interpretation bl: chunk_buffer buffer_chunks buffer_wf buffer_head_size buffer_pop buffer_move_head
  by unfold_locales (use buffer_head_size_empty buffer_head_size_chunk buffer_pop_chunk
      buffer_move_head_inside in blast)+

section \<open>Properties\<close>

text \<open>
  Batches: write the blocks one after the other, each with the addresses its three allocations
  returned; read with a sequence of sizes, collecting what arrives.
\<close>

primrec buffer_writes ::
  "buffer_list \<Rightarrow> (u8 list \<times> intptr \<times> intptr \<times> intptr) list \<Rightarrow> ub + buffer_list" where
  "buffer_writes bl [] = Inr bl"
| "buffer_writes bl (w # ws) =
     (case w of (buf, data, bn, a) \<Rightarrow>
        bindE (buffer_write bl buf (Some data) (Some bn) (Some a)) (\<lambda>(ret, bl). buffer_writes bl ws))"

primrec buffer_reads :: "buffer_list \<Rightarrow> nat list \<Rightarrow> ub + (u8 list \<times> buffer_list)" where
  "buffer_reads bl [] = Inr ([], bl)"
| "buffer_reads bl (sz # szs) =
     bindE (buffer_read bl sz) (\<lambda>(res, bytes, bl).
     bindE (buffer_reads bl szs) (\<lambda>(rest, bl). Inr (bytes @ rest, bl)))"

text \<open>The allocator hands out addresses that are free at the time of each call.\<close>

primrec fresh_writes ::
  "buffer_list \<Rightarrow> (u8 list \<times> intptr \<times> intptr \<times> intptr) list \<Rightarrow> bool" where
  "fresh_writes bl [] = True"
| "fresh_writes bl (w # ws) =
     (case w of (buf, data, bn, a) \<Rightarrow>
        buffer_fresh bl data bn a \<and> length buf < 2 ^ 64
        \<and> (case buffer_write bl buf (Some data) (Some bn) (Some a) of
             Inl e \<Rightarrow> False | Inr (ret, bl') \<Rightarrow> fresh_writes bl' ws))"

lemma buffer_writes_chunks:
  "buffer_wf bl \<Longrightarrow> fresh_writes bl ws \<Longrightarrow>
     length (buffer_chunks bl) + length ws \<le> nat (volume (base bl)) \<Longrightarrow>
     \<exists>bl'. buffer_writes bl ws = Inr bl' \<and> buffer_wf bl'
       \<and> buffer_chunks bl' = buffer_chunks bl @ map fst ws"
proof (induction ws arbitrary: bl)
  case Nil
  then show ?case by simp
next
  case (Cons w ws)
  obtain buf data bn a where w: "w = (buf, data, bn, a)" by (cases w) auto
  from Cons.prems w have fr: "buffer_fresh bl data bn a" "length buf < 2 ^ 64"
    and room: "length (buffer_chunks bl) < nat (volume (base bl))" by auto
  from buffer_write_room [OF Cons.prems(1) fr(1) room fr(2)] obtain bl1 where
    bl1: "buffer_write bl buf (Some data) (Some bn) (Some a) = Inr (int (length buf), bl1)"
      "buffer_wf bl1" "buffer_chunks bl1 = buffer_chunks bl @ [buf]"
      "volume (base bl1) = volume (base bl)" by blast
  with Cons.prems w have "fresh_writes bl1 ws"
    "length (buffer_chunks bl1) + length ws \<le> nat (volume (base bl1))" by auto
  from Cons.IH [OF bl1(2) this] bl1 w show ?case by auto
qed

lemma buffer_reads_stream:
  "buffer_wf bl \<Longrightarrow>
     \<exists>bl'. buffer_reads bl szs = Inr (take (sum_list szs) (buffer_stream bl), bl') \<and> buffer_wf bl'
       \<and> buffer_stream bl' = drop (sum_list szs) (buffer_stream bl)"
proof (induction szs arbitrary: bl)
  case Nil
  then show ?case by simp
next
  case (Cons sz szs)
  from buffer_read_loop_spec [OF Cons.prems, of sz "[]"] obtain bl1 where
    bl1: "buffer_read bl sz
            = Inr (int (length (take sz (buffer_stream bl))), take sz (buffer_stream bl), bl1)"
      "buffer_wf bl1" "buffer_stream bl1 = drop sz (buffer_stream bl)"
    by (auto simp: buffer_read_def)
  from Cons.IH [OF bl1(2)] bl1 show ?case by (auto simp: take_add add.commute)
qed

text \<open>An empty buffer, and a buffer that holds one chunk.\<close>

definition buffer_empty :: buffer_list where
  "buffer_empty = \<lparr>base = \<lparr>nr_nodes = 0, volume = 4, dumb = 0x10,
                    heap = [0x10 \<mapsto> \<lparr>ln_prev = 0x10, ln_next = 0x10, ln_ptr = 0\<rparr>]\<rparr>,
     bufsize = 0, bl_max = 4, nbytes = 0, bnodes = Map.empty, bmem = Map.empty\<rparr>"

definition buffer_sample :: buffer_list where
  "buffer_sample = \<lparr>base = \<lparr>nr_nodes = 1, volume = 4, dumb = 0x10,
      heap = [0x10 \<mapsto> \<lparr>ln_prev = 0x20, ln_next = 0x20, ln_ptr = 0\<rparr>,
              0x20 \<mapsto> \<lparr>ln_prev = 0x10, ln_next = 0x10, ln_ptr = 0x30\<rparr>]\<rparr>,
     bufsize = 1, bl_max = 4, nbytes = 2,
     bnodes = [0x30 \<mapsto> \<lparr>bn_start = 0x40, bn_pos = 0x41, bn_size = 2\<rparr>],
     bmem = [0x40 \<mapsto> [1, 2, 3]]\<rparr>"

lemma new_list_wf: "a \<noteq> 0 \<Longrightarrow> llist_new mx (Some a) True True = Some ll \<Longrightarrow>
    llist_wf ll \<and> llist_data ll = [] \<and> volume ll = mx \<and> llist_nodes ll = []"
  by (auto simp: llist_new_def llist_wf_def llist_rep_def llist_nodes_def llist_data_def nxt_def prv_def)

lemma buffer_empty_wf: "buffer_wf buffer_empty \<and> buffer_chunks buffer_empty = []"
  using new_list_wf [of "0x10" 4 "base buffer_empty"]
  by (simp add: buffer_wf_def buffer_empty_def llist_new_def buffer_chunks_def buffer_stream_def)

lemma buffer_sample_wf: "buffer_wf buffer_sample \<and> buffer_chunks buffer_sample = [[2, 3]]"
proof -
  have rep: "llist_rep (base buffer_sample) [0x20]"
    by (simp add: llist_rep_def buffer_sample_def nxt_def prv_def)
  then have "llist_nodes (base buffer_sample) = [0x20]" by (rule llist_rep_nodes)
  then have data: "llist_data (base buffer_sample) = [0x30]" "llist_wf (base buffer_sample)"
    using rep by (simp_all add: llist_data_def buffer_sample_def dat_def llist_wf_def)
  then show ?thesis
    by (simp add: buffer_wf_def buffer_chunks_def buffer_stream_def chunk_def node_ok_def)
      (simp add: buffer_sample_def)
qed

text \<open>
  C20.  \<open>buffer_read\<close> reads the byte stream: on every well-formed buffer it stays inside the
  blocks, returns the number of bytes copied, copies the first \<open>sz\<close> bytes of the stream (all of
  it when there are fewer) whatever the block boundaries are, and leaves a well-formed buffer
  that holds the rest.
\<close>

theorem buffer_read_stream:
  assumes "buffer_wf bl"
  shows "\<exists>bl'. buffer_read bl sz
       = Inr (int (min sz (buffer_nbytes bl)), take sz (buffer_stream bl), bl')
     \<and> buffer_wf bl' \<and> buffer_stream bl' = drop sz (buffer_stream bl)
     \<and> buffer_nbytes bl' = buffer_nbytes bl - sz"
  using buffer_read_loop_spec [OF assms, of sz "[]"] assms
  by (auto simp: buffer_read_def buffer_nbytes_def buffer_nbytes_stream min.commute)

theorem buffer_read_stream_witness:
  "\<exists>bl'. buffer_read buffer_sample 1 = Inr (1, [2], bl') \<and> buffer_stream bl' = [3]"
  using buffer_read_stream [of buffer_sample 1] buffer_sample_wf
  by (auto simp: buffer_stream_def buffer_nbytes_def buffer_sample_def)

text \<open>
  C19.  Writing blocks and reading them back with any sequence of sizes yields the bytes that
  were in the buffer and then the written ones, in order and without loss, and leaves exactly
  the unread rest.
\<close>

theorem buffer_write_read_roundtrip:
  assumes "buffer_wf bl" and "fresh_writes bl ws"
    and "length (buffer_chunks bl) + length ws \<le> nat (volume (base bl))"
  shows "\<exists>bl1 bl2. buffer_writes bl ws = Inr bl1
     \<and> buffer_reads bl1 szs
         = Inr (take (sum_list szs) (buffer_stream bl @ concat (map fst ws)), bl2)
     \<and> buffer_wf bl2
     \<and> buffer_stream bl2 = drop (sum_list szs) (buffer_stream bl @ concat (map fst ws))"
proof -
  from buffer_writes_chunks [OF assms] obtain bl1 where
    bl1: "buffer_writes bl ws = Inr bl1" "buffer_wf bl1"
      "buffer_stream bl1 = buffer_stream bl @ concat (map fst ws)"
    by (auto simp: buffer_stream_def)
  from buffer_reads_stream [OF bl1(2), of szs] bl1 show ?thesis by auto
qed

theorem buffer_write_read_roundtrip_witness:
  "\<exists>bl1 bl2. buffer_writes buffer_empty [([1, 2], 0x100, 0x200, 0x300)] = Inr bl1
     \<and> buffer_reads bl1 [1, 5] = Inr ([1, 2], bl2)"
proof -
  have "fresh_writes buffer_empty [([1, 2], 0x100, 0x200, 0x300)]"
    by (simp add: buffer_fresh_def fresh_def buffer_empty_def buffer_write_def llist_append_nb_def
        llist_append_unlocked_def llist_new_node_def set_ptr_def set_prev_def set_next_def ld_def)
  from buffer_write_read_roundtrip [OF _ this, of "[1, 5]"] buffer_empty_wf show ?thesis
    by (auto simp: buffer_stream_def buffer_empty_def)
qed

text \<open>
  \<open>buffer_write\<close> is all or nothing: with room in the list and three successful
  allocations it appends the block and returns its length; when the list is full or any of the
  allocations fails it returns \<open>-1\<close> and leaves the buffer, its memory included, as it was.
\<close>

theorem buffer_write_all_or_nothing:
  assumes "buffer_wf bl" and "length buf < 2 ^ 64"
    and "mem_data \<noteq> None \<and> mem_bn \<noteq> None \<and> mem_node \<noteq> None \<longrightarrow>
           buffer_fresh bl (the mem_data) (the mem_bn) (the mem_node)"
  shows "(\<exists>bl'. buffer_write bl buf mem_data mem_bn mem_node = Inr (int (length buf), bl')
           \<and> buffer_wf bl' \<and> buffer_stream bl' = buffer_stream bl @ buf
           \<and> buffer_nbytes bl' = buffer_nbytes bl + length buf)
       \<or> (buffer_write bl buf mem_data mem_bn mem_node = Inr (-1, bl)
           \<and> (length (buffer_chunks bl) \<ge> nat (volume (base bl))
              \<or> mem_data = None \<or> mem_bn = None \<or> mem_node = None))"
proof (cases "length (buffer_chunks bl) \<ge> nat (volume (base bl))
     \<or> mem_data = None \<or> mem_bn = None \<or> mem_node = None")
  case True
  with buffer_write_full [OF assms(1) True, of buf] show ?thesis by blast
next
  case False
  then obtain d b a where mem: "mem_data = Some d" "mem_bn = Some b" "mem_node = Some a" by auto
  with False assms(3) have "buffer_fresh bl d b a"
    "length (buffer_chunks bl) < nat (volume (base bl))" by auto
  from buffer_write_room [OF assms(1) this assms(2)] obtain bl' where
    bl': "buffer_write bl buf mem_data mem_bn mem_node = Inr (int (length buf), bl')"
      "buffer_wf bl'" "buffer_stream bl' = buffer_stream bl @ buf"
    using mem by (auto simp: buffer_stream_def)
  with buffer_nbytes_stream [OF assms(1)] buffer_nbytes_stream [OF bl'(2)] show ?thesis
    by (auto simp: buffer_nbytes_def)
qed

theorem buffer_write_all_or_nothing_witness:
  "\<exists>bl'. buffer_write buffer_sample [9] (Some 0x100) (Some 0x200) (Some 0x300) = Inr (1, bl')
     \<and> buffer_stream bl' = [2, 3, 9]"
proof -
  have "buffer_fresh buffer_sample 0x100 0x200 0x300"
    by (simp add: buffer_fresh_def fresh_def buffer_sample_def)
  with buffer_write_all_or_nothing
      [of buffer_sample "[9]" "Some 0x100" "Some 0x200" "Some 0x300"] buffer_sample_wf
  show ?thesis by (auto simp: buffer_stream_def) (simp add: buffer_sample_def)
qed

text \<open>
  \<open>buffer_new\<close>: when the structure is allocated but \<open>llist_new\<close> fails, the code frees
  the structure and then stores into it; otherwise it returns \<open>NULL\<close> or a well-formed empty
  buffer whose capacity is the size asked for, \<open>65536\<close> when asked for none.
\<close>

theorem buffer_new_outcomes:
  assumes "ll_mem \<noteq> Some 0"
  shows "(buffer_new sz mem_ok ll_mem mutex_ok cond_ok = Inl BadPointer
            \<longleftrightarrow> mem_ok \<and> (ll_mem = None \<or> \<not> mutex_ok \<or> \<not> cond_ok))
       \<and> (buffer_new sz mem_ok ll_mem mutex_ok cond_ok = Inr None \<longleftrightarrow> \<not> mem_ok)
       \<and> (mem_ok \<and> ll_mem \<noteq> None \<and> mutex_ok \<and> cond_ok \<longrightarrow>
            (\<exists>bl. buffer_new sz mem_ok ll_mem mutex_ok cond_ok = Inr (Some bl) \<and> buffer_wf bl
               \<and> buffer_stream bl = []
               \<and> volume (base bl) = sint (if sz = 0 then 65536 else sz)))"
proof (cases "mem_ok \<and> ll_mem \<noteq> None \<and> mutex_ok \<and> cond_ok")
  case False
  then show ?thesis by (auto simp: buffer_new_def llist_new_def Let_def split: option.split)
next
  case True
  then obtain a where a: "ll_mem = Some a" "a \<noteq> 0" using assms by auto
  let ?mx = "sint (if sz = 0 then 65536 else sz)"
  obtain ll where ll: "llist_new ?mx (Some a) True True = Some ll" by (simp add: llist_new_def)
  from new_list_wf [OF a(2) ll] have
    wf: "llist_wf ll" "llist_data ll = []" "volume ll = ?mx" by auto
  have "?mx < 2 ^ 32" using sint_less [of "if sz = 0 then 65536 else sz"] by simp
  with wf True a ll show ?thesis
    by (auto simp: buffer_new_def Let_def buffer_wf_def buffer_stream_def buffer_chunks_def)
qed

theorem buffer_new_outcomes_witness:
  "buffer_new 0 True None True True = Inl BadPointer
   \<and> (\<exists>bl. buffer_new 0 True (Some 0x10) True True = Inr (Some bl) \<and> volume (base bl) = 65536)"
  using buffer_new_outcomes [of None 0 True True True]
    buffer_new_outcomes [of "Some 0x10" 0 True True True] by auto

end
