(* ===== verification/ConnTcp.thy ===== *)
theory ConnTcp
  imports Bufferlist
begin

text \<open>
  \<open>src/src/util_conn_tcp.c\<close>: non-blocking TCP connections.  What the socket calls answer is an
  argument: the result of \<open>recv\<close> with the bytes it delivered or the errno it set, the result
  of \<open>send\<close> and \<open>writev\<close>, the time of day.  Of a connection the model keeps the fields the
  functions read or write: the descriptor, the counters and the four time stamps.
\<close>

section \<open>Connections\<close>

type_synonym timeval = "int \<times> int"

record conn_tcp =
  first_r_tv :: timeval
  first_s_tv :: timeval
  last_r_tv :: timeval
  last_s_tv :: timeval
  rcount :: int
  scount :: int
  sd :: int

definition conn_zero :: conn_tcp where
  "conn_zero = \<lparr>first_r_tv = (0, 0), first_s_tv = (0, 0), last_r_tv = (0, 0), last_s_tv = (0, 0),
     rcount = 0, scount = 0, sd = 0\<rparr>"

definition msec_2_timeval :: "u32 \<Rightarrow> timeval" where
  "msec_2_timeval ms = (uint (ms div 1000), uint (ms mod 1000 * 1000))"

text \<open>What \<open>recv\<close> does: delivers bytes (none: end of file), or fails with an errno.\<close>

datatype io = Got "u8 list" | Failed int

definition conn_tcp_recv_nb :: "conn_tcp \<Rightarrow> io \<Rightarrow> timeval \<Rightarrow> int \<times> u8 list \<times> conn_tcp" where
  "conn_tcp_recv_nb conn r now =
     (case r of
        Got bytes \<Rightarrow>
          if length bytes > 0
          then let conn = (if fst (first_r_tv conn) = 0 then conn\<lparr>first_r_tv := now\<rparr> else conn) in
               (int (length bytes), bytes,
                conn\<lparr>last_r_tv := now, rcount := rcount conn + int (length bytes)\<rparr>)
          else (0, [], conn)
      | Failed e \<Rightarrow> (- e, [], conn))"

definition conn_tcp_send_nb :: "conn_tcp \<Rightarrow> int \<Rightarrow> timeval \<Rightarrow> int \<times> conn_tcp" where
  "conn_tcp_send_nb conn res now =
     (if res > 0
      then let conn = (if fst (first_s_tv conn) = 0 then conn\<lparr>first_s_tv := now\<rparr> else conn) in
           (res, conn\<lparr>last_s_tv := now, scount := scount conn + res\<rparr>)
      else (res, conn))"

text \<open>\<open>conn_tcp_suggest_bufsize\<close>: \<open>None\<close> is a failing \<open>ioctl\<close>.\<close>

definition conn_tcp_suggest_bufsize :: "int option \<Rightarrow> int" where
  "conn_tcp_suggest_bufsize r = (case r of None \<Rightarrow> 2048 | Some v \<Rightarrow> v)"

section \<open>Opening and closing\<close>

text \<open>
  The functions that open a connection return, beside their result, the descriptors they
  closed, so that nothing that was opened is lost from sight.
\<close>

definition conn_tcp_accept_nb :: "bool \<Rightarrow> int \<Rightarrow> int \<Rightarrow> int \<Rightarrow> int \<times> conn_tcp option" where
  "conn_tcp_accept_nb calloc_ok calloc_errno accept_res accept_errno =
     (if \<not> calloc_ok then (calloc_errno, None)
      else if accept_res < 0 then (accept_errno, None)
      else (0, Some (conn_zero\<lparr>sd := accept_res\<rparr>)))"

definition conn_tcp_connect_nb ::
  "conn_tcp option \<Rightarrow> int \<Rightarrow> int \<Rightarrow> bool \<Rightarrow> int \<Rightarrow> int \<times> conn_tcp option \<times> int list" where
  "conn_tcp_connect_nb conn sock_res sock_errno calloc_ok connect_errno =
     (case conn of
        None \<Rightarrow>
          if sock_res < 0 then (sock_errno, None, [])
          else if \<not> calloc_ok then (ENOMEM, None, [sock_res])
          else (connect_errno, Some (conn_zero\<lparr>sd := sock_res\<rparr>), [])
      | Some c \<Rightarrow> (connect_errno, Some c, []))"

definition conn_tcp_close_nb :: "conn_tcp option \<Rightarrow> int \<times> int list" where
  "conn_tcp_close_nb conn =
     (case conn of None \<Rightarrow> (0, []) | Some c \<Rightarrow> if sd c \<noteq> -1 then (0, [sd c]) else (0, []))"

record listen_tcp =
  l_sd :: int
  l_accepttimeo :: "timeval option"
  l_accept_count :: int

text \<open>\<open>None\<close> in \<open>l_accepttimeo\<close>: without a time-out the field keeps what \<open>malloc\<close> left there.\<close>

definition conn_tcp_listen_create ::
  "bool \<Rightarrow> int \<Rightarrow> bool \<Rightarrow> bool \<Rightarrow> u32 option \<Rightarrow> listen_tcp option \<times> int list" where
  "conn_tcp_listen_create malloc_ok sock_res bind_ok listen_ok accept_timeo =
     (if \<not> malloc_ok then (None, [])
      else if sock_res < 0 then (None, [])
      else if \<not> bind_ok then (None, [sock_res])
      else if \<not> listen_ok then (None, [sock_res])
      else (Some \<lparr>l_sd = sock_res, l_accepttimeo = map_option msec_2_timeval accept_timeo,
                  l_accept_count = 0\<rparr>, []))"

definition conn_tcp_listen_destroy :: "listen_tcp option \<Rightarrow> int \<times> int list" where
  "conn_tcp_listen_destroy l = (case l of None \<Rightarrow> (0, []) | Some l \<Rightarrow> (0, [l_sd l]))"

section \<open>Sending from a buffer\<close>

text \<open>
  The first loop of \<open>conn_tcp_sendv_nb\<close>: it fills at most \<open>DEFAULT_IOVS\<close> vectors with the
  bytes at the read positions of the first nodes.  A node whose data pointer were null would
  keep it looping on the spot.
\<close>

abbreviation (input) DEFAULT_IOVS :: nat where "DEFAULT_IOVS \<equiv> 8"

partial_function (option) gather ::
  "buffer_list \<Rightarrow> intptr \<Rightarrow> nat \<Rightarrow> nat \<Rightarrow> u8 list list \<Rightarrow> (ub + u8 list list) option" where
  "gather bl buf bytes i iovs =
     (if buf \<noteq> 0 \<and> bytes > 0 \<and> i < DEFAULT_IOVS
      then case buffer_get_data bl buf of
             Inl e \<Rightarrow> Some (Inl e)
           | Inr p \<Rightarrow>
               if p = 0 then gather bl buf bytes i iovs
               else (case bindE (ld_node bl p) (\<lambda>n.
                        let len = (if bytes > bn_size n then bn_size n else bytes) in
                        bindE (copy_from bl n len) (\<lambda>iov.
                        bindE (buffer_get_next bl buf) (\<lambda>buf.
                        Inr (buf, bytes - len, iov)))) of
                       Inl e \<Rightarrow> Some (Inl e)
                     | Inr (buf', bytes', iov) \<Rightarrow> gather bl buf' bytes' (i + 1) (iovs @ [iov]))
      else Some (Inr iovs))"

text \<open>
  \<open>conn_tcp_sendv_nb\<close>.  \<open>writev\<close> tells for the offered vectors what the call returns; the bytes
  it transferred are the first ones of the vectors.  \<open>None\<close> is a loop that never ends.
\<close>

definition conn_tcp_sendv_nb ::
  "buffer_list \<Rightarrow> nat \<Rightarrow> (u8 list list \<Rightarrow> int) \<Rightarrow> (ub + (int \<times> u8 list \<times> buffer_list)) option" where
  "conn_tcp_sendv_nb bl sz writev =
     (case buffer_get_head bl of
        Inl e \<Rightarrow> Some (Inl e)
      | Inr buf \<Rightarrow>
          (case gather bl buf sz 0 [] of
             None \<Rightarrow> None
           | Some (Inl e) \<Rightarrow> Some (Inl e)
           | Some (Inr iovs) \<Rightarrow>
               let res = writev iovs in
               if res < 0 then Some (Inr (res, [], bl))
               else map_option (\<lambda>r. bindE r (\<lambda>bl. Inr (res, take (nat res) (concat iovs), bl)))
                      (consume buffer_head_size buffer_pop buffer_move_head bl (nat res))))"

section \<open>Receiving into a buffer\<close>

text \<open>
  The loop of \<open>conn_tcp_recvv_nb\<close>.  \<open>recv k s\<close> is what the \<open>k\<close>-th call with size \<open>s\<close> does at
  time \<open>now k\<close>, \<open>mem k\<close> are the three allocations of the following \<open>buffer_write\<close>, \<open>err\<close> is
  \<open>errno\<close>, which a successful call and the end of file leave alone.  The result is the return
  value, the bytes received so far, the connection and the buffer.
\<close>

abbreviation (input) DATA_BUFSIZE :: nat where "DATA_BUFSIZE \<equiv> 4096"

function recvv_loop ::
  "(nat \<Rightarrow> nat \<Rightarrow> io) \<Rightarrow> (nat \<Rightarrow> timeval) \<Rightarrow> (nat \<Rightarrow> intptr option \<times> intptr option \<times> intptr option)
     \<Rightarrow> nat \<Rightarrow> nat \<Rightarrow> int \<Rightarrow> nat \<Rightarrow> u8 list \<Rightarrow> conn_tcp \<Rightarrow> buffer_list
     \<Rightarrow> ub + (int \<times> u8 list \<times> conn_tcp \<times> buffer_list)" where
  "recvv_loop recv now mem k sz err tot got conn bl =
     (if sz > 0 then
        let s = (if sz > DATA_BUFSIZE then DATA_BUFSIZE else sz);
            (res, bytes, conn) = conn_tcp_recv_nb conn (recv k s) (now k);
            err = (case recv k s of Failed e \<Rightarrow> e | Got _ \<Rightarrow> err) in
        if res \<le> 0
        then if (err = EAGAIN \<or> err = EINTR) \<and> tot > 0 then Inr (int tot, got, conn, bl)
             else if res = 0 then Inr (res, got, conn, bl)
             else Inr (- err, got, conn, bl)
        else
          (case mem k of (m1, m2, m3) \<Rightarrow>
           bindE (buffer_write bl bytes m1 m2 m3) (\<lambda>(ret, bl).
             if ret < 0 then Inr (int tot, got @ bytes, conn, bl)
             else if bufsize bl = bl_max bl
             then Inr (int (tot + length bytes), got @ bytes, conn, bl)
             else recvv_loop recv now mem (Suc k) (sz - s) err (tot + length bytes)
                    (got @ bytes) conn bl))
      else Inr (int tot, got, conn, bl))"
  by pat_completeness auto
termination
  by (relation "measure (\<lambda>(recv, now, mem, k, sz, err, tot, got, conn, bl). sz)") (auto simp: Let_def)

declare recvv_loop.simps [simp del]

definition conn_tcp_recvv_nb ::
  "bool \<Rightarrow> (nat \<Rightarrow> nat \<Rightarrow> io) \<Rightarrow> (nat \<Rightarrow> timeval)
     \<Rightarrow> (nat \<Rightarrow> intptr option \<times> intptr option \<times> intptr option)
     \<Rightarrow> int \<Rightarrow> conn_tcp \<Rightarrow> buffer_list \<Rightarrow> nat \<Rightarrow> ub + (int \<times> u8 list \<times> conn_tcp \<times> buffer_list)" where
  "conn_tcp_recvv_nb malloc_ok recv now mem err conn bl sz =
     (if \<not> malloc_ok then Inr (- EINVAL, [], conn, bl)
      else recvv_loop recv now mem 0 sz err 0 [] conn bl)"

section \<open>What is offered to the kernel\<close>

primrec offer :: "nat \<Rightarrow> nat \<Rightarrow> u8 list list \<Rightarrow> u8 list list" where
  "offer bytes k [] = []"
| "offer bytes k (c # cs) =
     (if bytes = 0 \<or> k = 0 then [] else take bytes c # offer (bytes - length c) (k - 1) cs)"

lemma concat_offer: "concat (offer bytes k cs) = take bytes (concat (take k cs))"
proof (induction cs arbitrary: bytes k)
  case (Cons c cs)
  then show ?case by (cases k) auto
qed simp

lemma gather_chain:
  assumes "buffer_wf bl"
  shows "linked (heap (base bl)) (x # as @ [dumb (base bl)]) \<Longrightarrow> dumb (base bl) \<notin> set as \<Longrightarrow> 0 \<notin> set as \<Longrightarrow>
     set (map (\<lambda>a. the (dat (heap (base bl)) a)) as) \<subseteq> set (llist_data (base bl)) \<Longrightarrow> i \<le> DEFAULT_IOVS \<Longrightarrow>
     gather bl (if as = [] then 0 else hd as) bytes i iovs
       = Some (Inr (iovs @ offer bytes (DEFAULT_IOVS - i)
                      (map (\<lambda>a. chunk bl (the (dat (heap (base bl)) a))) as)))"
proof (induction as arbitrary: x bytes i iovs)
  case Nil
  then show ?case by (simp add: gather.simps)
next
  case (Cons a as)
  let ?h = "heap (base bl)" and ?d = "dumb (base bl)" and ?p = "the (dat (heap (base bl)) a)"
  show ?case
  proof (cases "bytes = 0 \<or> i = DEFAULT_IOVS")
    case True
    then show ?thesis by (auto simp: gather.simps)
  next
    case False
    from Cons.prems have tail: "linked ?h (a # as @ [?d])" by simp
    then have "nxt ?h a = Some (hd (as @ [?d]))" by (cases as) auto
    then obtain n where n: "?h a = Some n" "ln_next n = hd (as @ [?d])" by (auto dest: nxt_SomeD)
    then have p: "?p = ln_ptr n" by (simp add: dat_def)
    have "?p \<in> set (llist_data (base bl))" using Cons.prems(4) by simp
    with assms have ok: "node_ok bl ?p" by (auto simp: buffer_wf_def list_all_iff)
    then obtain bn where bn: "bnodes bl ?p = Some bn" by (auto simp: node_ok_def split: option.splits)
    have p0: "?p \<noteq> 0" using ok by (simp add: node_ok_def)
    have len: "length (chunk bl ?p) = bn_size bn" using length_chunk [OF ok] bn by simp
    let ?len = "if bytes > bn_size bn then bn_size bn else bytes"
    have copy: "copy_from bl bn ?len = Inr (take bytes (chunk bl ?p))"
      using copy_from_chunk [OF bn ok, of ?len] len by simp
    have nextp: "buffer_get_next bl a = Inr (if as = [] then 0 else hd as)"
      using n Cons.prems(2)
      by (cases as) (auto simp: buffer_get_next_def llist_get_next_nb_def llist_get_next_unlocked_def ld_def)
    have "gather bl a bytes i iovs
        = gather bl (if as = [] then 0 else hd as) (bytes - ?len) (i + 1) (iovs @ [take bytes (chunk bl ?p)])"
      using False Cons.prems(3,5) n p p0 bn copy nextp
      by (subst gather.simps) (simp add: buffer_get_data_def ld_def ld_node_def Let_def)
    also have "\<dots> = Some (Inr ((iovs @ [take bytes (chunk bl ?p)]) @ offer (bytes - ?len)
        (DEFAULT_IOVS - (i + 1)) (map (\<lambda>a. chunk bl (the (dat ?h a))) as)))"
      using Cons.prems False by (intro Cons.IH [OF tail]) auto
    also have "bytes - ?len = bytes - length (chunk bl ?p)" using len by simp
    finally show ?thesis using False Cons.prems(5) by (simp add: Suc_diff_le)
  qed
qed

lemma gather_offer:
  assumes "buffer_wf bl"
  shows "\<exists>buf. buffer_get_head bl = Inr buf
     \<and> gather bl buf bytes 0 [] = Some (Inr (offer bytes DEFAULT_IOVS (buffer_chunks bl)))"
proof -
  from assms have lw: "llist_wf (base bl)" by (simp add: buffer_wf_def)
  then have rep: "llist_rep (base bl) (llist_nodes (base bl))" by (rule llist_wf_rep)
  have "buffer_get_head bl
      = Inr (if llist_nodes (base bl) = [] then 0 else hd (llist_nodes (base bl)))"
  proof (cases "llist_data (base bl)")
    case Nil
    with lw have "nr_nodes (base bl) \<le> 0" by (simp add: llist_data_empty_iff [symmetric])
    with Nil show ?thesis
      by (simp add: buffer_get_head_def llist_get_head_node_nb_def llist_get_head_node_unlocked_def
          llist_data_def)
  next
    case (Cons p ps)
    with buffer_get_head_node [OF assms Cons] show ?thesis by auto
  qed
  moreover have "gather bl (if llist_nodes (base bl) = [] then 0 else hd (llist_nodes (base bl))) bytes 0 []
      = Some (Inr ([] @ offer bytes (DEFAULT_IOVS - 0)
          (map (\<lambda>a. chunk bl (the (dat (heap (base bl)) a))) (llist_nodes (base bl)))))"
    using rep by (intro gather_chain [OF assms, of "dumb (base bl)"]) (auto simp: llist_rep_def llist_data_def)
  moreover have "map (\<lambda>a. chunk bl (the (dat (heap (base bl)) a))) (llist_nodes (base bl)) = buffer_chunks bl"
    by (simp add: buffer_chunks_def llist_data_def)
  ultimately show ?thesis by simp
qed

section \<open>What is received\<close>

text \<open>
  The allocations of a whole call return addresses that are unused at its start and are all
  different.
\<close>

definition mem_fresh ::
  "(nat \<Rightarrow> intptr option \<times> intptr option \<times> intptr option) \<Rightarrow> nat \<Rightarrow> buffer_list \<Rightarrow> bool" where
  "mem_fresh mem k bl \<longleftrightarrow>
     (\<forall>j d b a. k \<le> j \<longrightarrow> mem j = (Some d, Some b, Some a) \<longrightarrow> buffer_fresh bl d b a)
     \<and> (\<forall>i j d b a m1 m2 m3. k \<le> i \<longrightarrow> i < j \<longrightarrow> mem j = (Some d, Some b, Some a) \<longrightarrow>
          mem i = (m1, m2, m3) \<longrightarrow> m1 \<noteq> Some d \<and> m2 \<noteq> Some b \<and> m3 \<noteq> Some a)"

lemma append_heap_None:
  assumes "llist_append_unlocked ll x mem = Inr (ret, ll')" and "heap ll c = None" and "mem \<noteq> Some c"
  shows "heap ll' c = None"
  using assms
  by (auto simp: llist_append_unlocked_def llist_new_node_def set_ptr_def set_prev_def set_next_def
      ld_def bindE_eq_Inr_iff Let_def split: if_splits option.splits)

lemma buffer_write_fresh:
  assumes "buffer_write bl buf m1 m2 m3 = Inr (ret, bl')" and "buffer_fresh bl d b a"
    and "m1 \<noteq> Some d" and "m2 \<noteq> Some b" and "m3 \<noteq> Some a"
  shows "buffer_fresh bl' d b a"
proof -
  have "heap (base bl') a = None"
  proof (cases m1)
    case None
    with assms show ?thesis by (auto simp: buffer_write_def buffer_fresh_def fresh_def)
  next
    case (Some d1)
    show ?thesis
    proof (cases m2)
      case None
      with Some assms show ?thesis by (auto simp: buffer_write_def buffer_fresh_def fresh_def)
    next
      case (Some b1)
      from \<open>m1 = Some d1\<close> Some assms(1) obtain r ll where
        "llist_append_unlocked (base bl) b1 m3 = Inr (r, ll)" "base bl' = ll"
        by (auto simp: buffer_write_def llist_append_nb_def bindE_eq_Inr_iff split: if_splits)
      with append_heap_None assms(2,5) show ?thesis by (auto simp: buffer_fresh_def fresh_def)
    qed
  qed
  then show ?thesis
    using assms
    by (auto simp: buffer_write_def buffer_fresh_def fresh_def bindE_eq_Inr_iff
        split: option.splits if_splits)
qed

lemma mem_fresh_write:
  assumes "mem_fresh mem k bl" and "mem k = (m1, m2, m3)"
    and "buffer_write bl buf m1 m2 m3 = Inr (ret, bl')"
  shows "mem_fresh mem (Suc k) bl'"
  unfolding mem_fresh_def
proof (intro conjI allI impI)
  fix j d b a assume j: "Suc k \<le> j" "mem j = (Some d, Some b, Some a)"
  then have "k \<le> j" "k < j" by simp_all
  with assms(1,2) j(2) have "buffer_fresh bl d b a" "m1 \<noteq> Some d \<and> m2 \<noteq> Some b \<and> m3 \<noteq> Some a"
    unfolding mem_fresh_def by blast+
  with buffer_write_fresh [OF assms(3)] show "buffer_fresh bl' d b a" by blast
next
  fix i j d b a n1 n2 n3
  assume "Suc k \<le> i" "i < j" "mem j = (Some d, Some b, Some a)" "mem i = (n1, n2, n3)"
  moreover from this(1) have "k \<le> i" by simp
  ultimately show "n1 \<noteq> Some d" "n2 \<noteq> Some b" "n3 \<noteq> Some a"
    using assms(1) unfolding mem_fresh_def by blast+
qed

text \<open>
  What a call may ask for, and when the buffer takes a piece: the \<open>i\<close>-th \<open>recv\<close> asks for what is left
  after \<open>i\<close> full portions, and \<open>buffer_write\<close> needs a place in the list and its three
  allocations.
\<close>

definition ask :: "nat \<Rightarrow> nat \<Rightarrow> nat" where
  "ask sz i = min DATA_BUFSIZE (sz - DATA_BUFSIZE * i)"

definition takes :: "buffer_list \<Rightarrow> nat \<Rightarrow> intptr option \<times> intptr option \<times> intptr option \<Rightarrow> bool" where
  "takes bl n m \<longleftrightarrow> n < nat (volume (base bl)) \<and> (case m of (m1, m2, m3) \<Rightarrow> m1 \<noteq> None \<and> m2 \<noteq> None \<and> m3 \<noteq> None)"

lemma buffer_write_takes:
  assumes "buffer_wf bl" and "mem_fresh mem k bl" and "mem k = (m1, m2, m3)"
    and "length bytes < 2 ^ 64"
  shows "if takes bl (length (buffer_chunks bl)) (mem k)
     then \<exists>bl'. buffer_write bl bytes m1 m2 m3 = Inr (int (length bytes), bl') \<and> buffer_wf bl'
            \<and> buffer_chunks bl' = buffer_chunks bl @ [bytes] \<and> volume (base bl') = volume (base bl)
            \<and> bl_max bl' = bl_max bl
     else buffer_write bl bytes m1 m2 m3 = Inr (-1, bl)"
proof (cases "takes bl (length (buffer_chunks bl)) (mem k)")
  case False
  with assms(3) have "length (buffer_chunks bl) \<ge> nat (volume (base bl)) \<or> m1 = None \<or> m2 = None \<or> m3 = None"
    by (auto simp: takes_def)
  with False buffer_write_full [OF assms(1) this] show ?thesis by simp
next
  case True
  then obtain d b a where m: "m1 = Some d" "m2 = Some b" "m3 = Some a"
    and room: "length (buffer_chunks bl) < nat (volume (base bl))" using assms(3) by (auto simp: takes_def)
  with assms(2,3) have "buffer_fresh bl d b a" unfolding mem_fresh_def by blast
  from buffer_write_room [OF assms(1) this room assms(4)] obtain bl' where
    "buffer_write bl bytes m1 m2 m3 = Inr (int (length bytes), bl')" "buffer_wf bl'"
    "buffer_chunks bl' = buffer_chunks bl @ [bytes]" "volume (base bl') = volume (base bl)" using m by blast
  moreover from this(1) have "bl_max bl' = bl_max bl"
    by (auto simp: buffer_write_def bindE_eq_Inr_iff split: option.splits if_splits)
  ultimately show ?thesis using True by auto
qed

text \<open>
  The pieces that \<open>recv\<close> delivers from the \<open>k\<close>-th call on and the buffer takes, when it holds
  \<open>n\<close> blocks: each is one answer of \<open>recv\<close>, none is empty, and none but the last fills the buffer up
  to its maximum.
\<close>

definition delivered :: "(nat \<Rightarrow> nat \<Rightarrow> io) \<Rightarrow> (nat \<Rightarrow> intptr option \<times> intptr option \<times> intptr option)
    \<Rightarrow> buffer_list \<Rightarrow> nat \<Rightarrow> nat \<Rightarrow> nat \<Rightarrow> u8 list list \<Rightarrow> bool" where
  "delivered recv mem bl n k sz ps \<longleftrightarrow>
     (\<forall>i<length ps. recv (k + i) (ask sz i) = Got (ps ! i) \<and> ps ! i \<noteq> [] \<and> takes bl (n + i) (mem (k + i))
        \<and> DATA_BUFSIZE * i < sz \<and> (Suc i < length ps \<longrightarrow> n + Suc i \<noteq> unat (bl_max bl)))"

text \<open>
  How a call ends after \<open>j\<close> pieces of \<open>t\<close> bytes in total: everything was asked for; or the last piece
  filled the buffer; or the next \<open>recv\<close> fails, finds the end of file, or delivers a piece
  (\<open>lost\<close>) that the buffer refuses.
\<close>

definition ended :: "(nat \<Rightarrow> nat \<Rightarrow> io) \<Rightarrow> (nat \<Rightarrow> intptr option \<times> intptr option \<times> intptr option)
    \<Rightarrow> buffer_list \<Rightarrow> nat \<Rightarrow> nat \<Rightarrow> nat \<Rightarrow> int \<Rightarrow> nat \<Rightarrow> nat \<Rightarrow> u8 list \<Rightarrow> int \<Rightarrow> bool" where
  "ended recv mem bl n k sz err j t lost ret \<longleftrightarrow>
     (if j > 0 \<and> n + j = unat (bl_max bl) \<or> sz \<le> DATA_BUFSIZE * j then lost = [] \<and> ret = int t
      else case recv (k + j) (ask sz j) of
          Failed e \<Rightarrow> lost = [] \<and> ret = (if (e = EAGAIN \<or> e = EINTR) \<and> t > 0 then int t else - e)
        | Got [] \<Rightarrow> lost = [] \<and> ret = (if (err = EAGAIN \<or> err = EINTR) \<and> t > 0 then int t else 0)
        | Got bytes \<Rightarrow> lost = bytes \<and> ret = int t \<and> \<not> takes bl (n + j) (mem (k + j)))"

definition received :: "(nat \<Rightarrow> nat \<Rightarrow> io) \<Rightarrow> (nat \<Rightarrow> intptr option \<times> intptr option \<times> intptr option)
    \<Rightarrow> buffer_list \<Rightarrow> conn_tcp \<Rightarrow> nat \<Rightarrow> nat \<Rightarrow> int \<Rightarrow> nat \<Rightarrow> u8 list
    \<Rightarrow> int \<times> u8 list \<times> conn_tcp \<times> buffer_list \<Rightarrow> bool" where
  "received recv mem bl conn k sz err tot got r \<longleftrightarrow>
     (case r of (ret, got', conn', bl') \<Rightarrow>
        buffer_wf bl' \<and> (\<exists>ps lost. got' = got @ concat ps @ lost \<and> buffer_chunks bl' = buffer_chunks bl @ ps
          \<and> rcount conn' = rcount conn + int (length (concat ps @ lost))
          \<and> delivered recv mem bl (length (buffer_chunks bl)) k sz ps
          \<and> ended recv mem bl (length (buffer_chunks bl)) k sz err (length ps) (tot + length (concat ps)) lost ret))"

lemma receivedI:
  "buffer_wf bl' \<Longrightarrow> got' = got @ concat ps @ lost \<Longrightarrow> buffer_chunks bl' = buffer_chunks bl @ ps \<Longrightarrow>
   rcount conn' = rcount conn + int (length (concat ps @ lost)) \<Longrightarrow>
   delivered recv mem bl (length (buffer_chunks bl)) k sz ps \<Longrightarrow>
   ended recv mem bl (length (buffer_chunks bl)) k sz err (length ps) (tot + length (concat ps)) lost ret \<Longrightarrow>
   received recv mem bl conn k sz err tot got (ret, got', conn', bl')"
  unfolding received_def by blast

lemma ask_Suc: "ask (sz - min DATA_BUFSIZE sz) i = ask sz (Suc i)"
  by (simp add: ask_def min_def)

lemma bl_max_reached:
  assumes "buffer_wf bl"
  shows "bufsize bl = bl_max bl \<longleftrightarrow> length (buffer_chunks bl) = unat (bl_max bl)"
  using assms by (auto simp: buffer_wf_def buffer_chunks_def word_unat_eq_iff)

lemma asks_left:
  "ask (sz - ask sz 0) i = ask sz (Suc i)" "sz - ask sz 0 \<le> DATA_BUFSIZE * i \<longleftrightarrow> sz \<le> DATA_BUFSIZE * Suc i"
  using ask_Suc [of sz i] by (auto simp: ask_def min_def)

lemma ended_Suc:
  assumes "volume (base bl1) = volume (base bl)" and "bl_max bl1 = bl_max bl" and "Suc n \<noteq> unat (bl_max bl)"
    and "ended recv mem bl1 (Suc n) (Suc k) (sz - ask sz 0) err j t lost ret"
  shows "ended recv mem bl n k sz err (Suc j) t lost ret"
proof -
  have same: "takes bl1 = takes bl" using assms(1) by (simp add: takes_def fun_eq_iff)
  have cond: "(0 < j \<and> Suc n + j = unat (bl_max bl)) = (0 < Suc j \<and> n + Suc j = unat (bl_max bl))"
    using assms(3) by (cases j) simp_all
  from assms(4) show ?thesis
    unfolding ended_def asks_left same assms(2) cond unfolding add_Suc add_Suc_right .
qed

lemma received_more:
  assumes "received recv mem bl1 conn1 (Suc k) (sz - ask sz 0) err (tot + length bytes) (got @ bytes) r"
    and "buffer_chunks bl1 = buffer_chunks bl @ [bytes]" and "volume (base bl1) = volume (base bl)" "bl_max bl1 = bl_max bl"
    and "rcount conn1 = rcount conn + int (length bytes)"
    and "recv k (ask sz 0) = Got bytes" "bytes \<noteq> []" "takes bl (length (buffer_chunks bl)) (mem k)" "0 < sz"
    and "length (buffer_chunks bl1) \<noteq> unat (bl_max bl)"
  shows "received recv mem bl conn k sz err tot got r"
proof -
  obtain ret got' conn' bl' where r: "r = (ret, got', conn', bl')" by (cases r) auto
  let ?n = "length (buffer_chunks bl)"
  have same: "takes bl1 = takes bl" using assms(3) by (simp add: takes_def fun_eq_iff)
  from assms(1) r obtain ps lost where *:
    "buffer_wf bl'" "got' = (got @ bytes) @ concat ps @ lost" "buffer_chunks bl' = buffer_chunks bl1 @ ps"
    "rcount conn' = rcount conn1 + int (length (concat ps @ lost))"
    "delivered recv mem bl1 (length (buffer_chunks bl1)) (Suc k) (sz - ask sz 0) ps"
    "ended recv mem bl1 (length (buffer_chunks bl1)) (Suc k) (sz - ask sz 0) err (length ps)
       (tot + length bytes + length (concat ps)) lost ret" by (auto simp: received_def)
  have "delivered recv mem bl ?n k sz (bytes # ps)"
    unfolding delivered_def
  proof (intro allI impI)
    fix i assume "i < length (bytes # ps)"
    then show "recv (k + i) (ask sz i) = Got ((bytes # ps) ! i) \<and> (bytes # ps) ! i \<noteq> [] \<and> takes bl (?n + i) (mem (k + i))
        \<and> DATA_BUFSIZE * i < sz \<and> (Suc i < length (bytes # ps) \<longrightarrow> ?n + Suc i \<noteq> unat (bl_max bl))"
    proof (cases i)
      case 0
      then show ?thesis using assms(2,6-10) by simp
    next
      case (Suc j)
      with \<open>i < length (bytes # ps)\<close> have "j < length ps" by simp
      with *(5) have "recv (Suc k + j) (ask (sz - ask sz 0) j) = Got (ps ! j)" "ps ! j \<noteq> []"
        "takes bl1 (length (buffer_chunks bl1) + j) (mem (Suc k + j))" "DATA_BUFSIZE * j < sz - ask sz 0"
        "Suc j < length ps \<longrightarrow> length (buffer_chunks bl1) + Suc j \<noteq> unat (bl_max bl1)"
        unfolding delivered_def by blast+
      moreover from this(4) have "DATA_BUFSIZE * Suc j < sz" using asks_left(2) [of sz j] by linarith
      ultimately show ?thesis using Suc assms(2,4) by (simp add: same asks_left)
    qed
  qed
  moreover have "ended recv mem bl ?n k sz err (length (bytes # ps)) (tot + length (concat (bytes # ps))) lost ret"
    using *(6) ended_Suc [OF assms(3,4), of "?n"] assms(2,4,10) by (simp add: add.assoc)
  ultimately show ?thesis
    unfolding r using *(1-4) assms(2,5) by (intro receivedI [of _ _ _ "bytes # ps" lost]) simp_all
qed

text \<open>A socket delivers at most what it was asked for, and an errno is positive.\<close>

definition recv_ok :: "(nat \<Rightarrow> nat \<Rightarrow> io) \<Rightarrow> bool" where
  "recv_ok recv \<longleftrightarrow>
     (\<forall>k s. case recv k s of Got bytes \<Rightarrow> length bytes \<le> s | Failed e \<Rightarrow> e > 0)"

lemma recv_okD:
  assumes "recv_ok recv"
  shows "recv k s = Got bytes \<Longrightarrow> length bytes \<le> s" and "recv k s = Failed e \<Longrightarrow> e > 0"
  using assms unfolding recv_ok_def by (metis io.case)+

lemma recvv_loop_spec:
  assumes "recv_ok recv"
  shows "buffer_wf bl \<Longrightarrow> mem_fresh mem k bl \<Longrightarrow>
     \<exists>r. recvv_loop recv now mem k sz err tot got conn bl = Inr r \<and> received recv mem bl conn k sz err tot got r"
proof (induction sz arbitrary: k tot got conn bl rule: less_induct)
  case (less sz)
  let ?n = "length (buffer_chunks bl)"
  have nil: "delivered recv mem bl ?n k sz []" by (simp add: delivered_def)
  show ?case
  proof (cases "sz = 0")
    case True
    with less.prems nil show ?thesis
      by (subst recvv_loop.simps) (auto intro!: receivedI [of _ _ _ "[]" "[]"] simp: ended_def)
  next
    case False
    have s: "(if sz > DATA_BUFSIZE then DATA_BUFSIZE else sz) = ask sz 0" by (simp add: ask_def)
    show ?thesis
    proof (cases "recv k (ask sz 0)")
      case (Failed e)
      with recv_okD(2) [OF assms this] have "e > 0" by blast
      with False Failed less.prems nil show ?thesis
        by (subst recvv_loop.simps) (auto simp: s Let_def conn_tcp_recv_nb_def ended_def
            intro!: receivedI [of _ _ _ "[]" "[]"])
    next
      case (Got bytes)
      show ?thesis
      proof (cases "bytes = []")
        case True
        with False Got less.prems nil show ?thesis
          by (subst recvv_loop.simps) (auto simp: s Let_def conn_tcp_recv_nb_def ended_def
              intro!: receivedI [of _ _ _ "[]" "[]"])
      next
        case some: False
        obtain conn1 where rc: "conn_tcp_recv_nb conn (Got bytes) (now k) = (int (length bytes), bytes, conn1)"
          "rcount conn1 = rcount conn + int (length bytes)"
          using some by (simp add: conn_tcp_recv_nb_def Let_def)
        have "length bytes \<le> ask sz 0" by (rule recv_okD(1) [OF assms Got])
        then have lb: "length bytes < 2 ^ 64" by (simp add: ask_def)
        obtain m1 m2 m3 where mk: "mem k = (m1, m2, m3)" by (cases "mem k") auto
        have step: "recvv_loop recv now mem k sz err tot got conn bl =
            bindE (buffer_write bl bytes m1 m2 m3) (\<lambda>(ret, bl).
             if ret < 0 then Inr (int tot, got @ bytes, conn1, bl)
             else if bufsize bl = bl_max bl then Inr (int (tot + length bytes), got @ bytes, conn1, bl)
             else recvv_loop recv now mem (Suc k) (sz - ask sz 0) err (tot + length bytes) (got @ bytes) conn1 bl)"
          using False some by (subst recvv_loop.simps) (simp add: s Let_def Got rc(1) mk cong: if_cong)
        show ?thesis
        proof (cases "takes bl ?n (mem k)")
          case refused: False
          then have "buffer_write bl bytes m1 m2 m3 = Inr (-1, bl)"
            using buffer_write_takes [OF less.prems mk lb] by simp
          then have "recvv_loop recv now mem k sz err tot got conn bl = Inr (int tot, got @ bytes, conn1, bl)"
            unfolding step by simp
          moreover have "ended recv mem bl ?n k sz err 0 tot bytes (int tot)"
            using False some refused Got by (simp add: ended_def split: list.split)
          ultimately show ?thesis
            using less.prems(1) nil rc(2) by (auto intro!: receivedI [of _ _ _ "[]" bytes])
        next
          case True
          with buffer_write_takes [OF less.prems mk lb] obtain bl1 where
            w: "buffer_write bl bytes m1 m2 m3 = Inr (int (length bytes), bl1)" "buffer_wf bl1"
              "buffer_chunks bl1 = buffer_chunks bl @ [bytes]" "volume (base bl1) = volume (base bl)"
              "bl_max bl1 = bl_max bl" by auto
          show ?thesis
          proof (cases "bufsize bl1 = bl_max bl1")
            case full: True
            then have "?n + 1 = unat (bl_max bl)" using bl_max_reached [OF w(2)] w(3,5) by simp
            then have "ended recv mem bl ?n k sz err 1 (tot + length bytes) [] (int (tot + length bytes))"
              by (simp add: ended_def)
            moreover have "delivered recv mem bl ?n k sz [bytes]"
              using Got some True False by (simp add: delivered_def)
            ultimately show ?thesis
              unfolding step using w full rc(2) by (auto intro!: receivedI [of _ _ _ "[bytes]" "[]"])
          next
            case go: False
            have "sz - ask sz 0 < sz" using False by (simp add: ask_def)
            from less.IH [OF this w(2) mem_fresh_write [OF less.prems(2) mk w(1)]] obtain r where
              r: "recvv_loop recv now mem (Suc k) (sz - ask sz 0) err (tot + length bytes) (got @ bytes) conn1 bl1 = Inr r"
                "received recv mem bl1 conn1 (Suc k) (sz - ask sz 0) err (tot + length bytes) (got @ bytes) r" by blast
            have "length (buffer_chunks bl1) \<noteq> unat (bl_max bl)" using bl_max_reached [OF w(2)] w(5) go by simp
            with received_more [OF r(2) w(3-5) rc(2) Got some True] False
            have "received recv mem bl conn k sz err tot got r" by simp
            with r(1) go w(1) show ?thesis unfolding step by simp
          qed
        qed
      qed
    qed
  qed
qed

section \<open>Properties\<close>

text \<open>
  C16.  Sending a stream out of the buffer.  For every buffer and every answer of \<open>writev\<close>
  that is at most what it was offered, \<open>conn_tcp_sendv_nb\<close> terminates; what it
  hands to the kernel is a prefix of the stream, at most \<open>size\<close> bytes out of at most eight
  blocks; and it removes from the buffer exactly the bytes the kernel took, nothing when
  the call fails.
\<close>

theorem sendv_sends_prefix:
  assumes "buffer_wf bl"
    and "writev (offer sz DEFAULT_IOVS (buffer_chunks bl))
           \<le> int (length (concat (offer sz DEFAULT_IOVS (buffer_chunks bl))))"
  shows "\<exists>res sent bl'. conn_tcp_sendv_nb bl sz writev = Some (Inr (res, sent, bl'))
     \<and> buffer_wf bl' \<and> buffer_stream bl = sent @ buffer_stream bl'
     \<and> length sent = nat res \<and> length sent \<le> sz
     \<and> (res < 0 \<longrightarrow> bl' = bl)"
proof -
  let ?iovs = "offer sz DEFAULT_IOVS (buffer_chunks bl)" and ?res = "writev (offer sz DEFAULT_IOVS (buffer_chunks bl))"
  from gather_offer [OF assms(1)] obtain buf where
    g: "buffer_get_head bl = Inr buf" "gather bl buf sz 0 [] = Some (Inr ?iovs)" by blast
  show ?thesis
  proof (cases "?res < 0")
    case True
    with g assms(1) show ?thesis by (simp add: conn_tcp_sendv_nb_def)
  next
    case False
    from bl.consume_stream [OF assms(1), of "nat ?res"] obtain bl' where
      bl': "consume buffer_head_size buffer_pop buffer_move_head bl (nat ?res) = Some (Inr bl')"
        "buffer_wf bl'" "buffer_stream bl' = drop (nat ?res) (buffer_stream bl)"
      by (auto simp: buffer_stream_def)
    have pre: "concat ?iovs = take sz (concat (take DEFAULT_IOVS (buffer_chunks bl)))"
      by (rule concat_offer)
    have le: "nat ?res \<le> length (concat ?iovs)" using assms(2) by simp
    let ?A = "concat (take DEFAULT_IOVS (buffer_chunks bl))"
      and ?B = "concat (drop DEFAULT_IOVS (buffer_chunks bl))"
    have split: "buffer_stream bl = ?A @ ?B"
      by (simp add: buffer_stream_def flip: concat_append)
    have "nat ?res \<le> sz" "nat ?res \<le> length ?A" using le unfolding pre by simp_all
    then have same: "take (nat ?res) (concat ?iovs) = take (nat ?res) (buffer_stream bl)"
      and "length (take (nat ?res) (buffer_stream bl)) = nat ?res"
      unfolding pre split by (simp_all add: min_absorb1)
    moreover have "conn_tcp_sendv_nb bl sz writev
        = Some (Inr (?res, take (nat ?res) (buffer_stream bl), bl'))"
      using g False bl'(1) same by (simp add: conn_tcp_sendv_nb_def Let_def)
    ultimately show ?thesis using \<open>nat ?res \<le> sz\<close> bl'(2,3) False
      by (intro exI [of _ ?res] exI [of _ "take (nat ?res) (buffer_stream bl)"] exI [of _ bl']) simp
  qed
qed

theorem sendv_sends_prefix_witness:
  "\<exists>bl'. conn_tcp_sendv_nb buffer_sample 5 (\<lambda>iovs. 1) = Some (Inr (1, [2], bl'))
     \<and> buffer_stream bl' = [3]"
proof -
  have ch: "buffer_wf buffer_sample" "buffer_chunks buffer_sample = [[2, 3]]"
    using buffer_sample_wf by simp_all
  obtain res sent bl' where r: "conn_tcp_sendv_nb buffer_sample 5 (\<lambda>iovs. 1) = Some (Inr (res, sent, bl'))"
    "buffer_stream buffer_sample = sent @ buffer_stream bl'" "length sent = nat res"
    using sendv_sends_prefix [OF ch(1), of "\<lambda>iovs. 1" 5] ch(2) by auto
  have "res = 1"
    using r(1) gather_offer [OF ch(1), of 5]
    by (auto simp: conn_tcp_sendv_nb_def Let_def bindE_eq_Inr_iff split: option.splits)
  with r ch(2) show ?thesis by (cases sent) (auto simp: buffer_stream_def)
qed

text \<open>
  C8.  Receiving into the buffer.  However the socket and the allocator behave, \<open>conn_tcp_recvv_nb\<close> with
  its block of memory ends without undefined behaviour.  The bytes it received are the pieces
  \<open>ps\<close>, each the answer of one \<open>recv\<close> and now a block of its own at the end of the buffer, and
  \<open>lost\<close>, which is nothing or exactly the answer of the next \<open>recv\<close> when the buffer refuses it,
  full or without memory.  The loop goes on as long as it may (\<open>delivered\<close>) and stops only because
  everything was asked for, the buffer reached its maximum, a piece was refused, or \<open>recv\<close> failed or
  found the end of file (\<open>ended\<close>).  The result is the number of bytes stored, except that after a
  failure or the end of file it is that number only when some were stored and errno, which at the end
  of file is stale, says so.
\<close>

theorem recvv_appends_received:
  assumes "buffer_wf bl" and "mem_fresh mem 0 bl" and "recv_ok recv"
  shows "\<exists>ret ps lost conn' bl'.
     conn_tcp_recvv_nb True recv now mem err conn bl sz = Inr (ret, concat ps @ lost, conn', bl')
     \<and> buffer_wf bl' \<and> buffer_chunks bl' = buffer_chunks bl @ ps
     \<and> rcount conn' = rcount conn + int (length (concat ps @ lost))
     \<and> delivered recv mem bl (length (buffer_chunks bl)) 0 sz ps
     \<and> ended recv mem bl (length (buffer_chunks bl)) 0 sz err (length ps) (length (concat ps)) lost ret"
proof -
  from recvv_loop_spec [OF assms(3,1,2)] obtain r where
    r: "recvv_loop recv now mem 0 sz err 0 [] conn bl = Inr r" "received recv mem bl conn 0 sz err 0 [] r" by blast
  obtain ret got' conn' bl' where "r = (ret, got', conn', bl')" by (cases r) auto
  with r show ?thesis by (auto simp: conn_tcp_recvv_nb_def received_def)
qed

text \<open>A piece of one byte arrives for which there is no memory; it is lost, and the call returns 0.\<close>

theorem recvv_appends_received_witness:
  "\<exists>conn' bl'.
     conn_tcp_recvv_nb True (\<lambda>k s. if s > 0 then Got [7] else Failed 11)
       (\<lambda>k. (0, 0)) (\<lambda>k. (None, None, None)) 0 conn_zero buffer_sample 10 = Inr (0, [7], conn', bl')
     \<and> buffer_stream bl' = [2, 3] \<and> rcount conn' = rcount conn_zero + 1"
proof -
  let ?recv = "\<lambda>k s. if s > 0 then Got [7] else Failed 11" and ?mem = "\<lambda>k. (None, None, None)"
  have "mem_fresh ?mem 0 buffer_sample" "recv_ok ?recv" by (simp_all add: mem_fresh_def recv_ok_def)
  from recvv_appends_received [OF conjunct1 [OF buffer_sample_wf] this] obtain ret ps lost conn' bl' where
    r: "conn_tcp_recvv_nb True ?recv (\<lambda>k. (0, 0)) ?mem 0 conn_zero buffer_sample 10 = Inr (ret, concat ps @ lost, conn', bl')"
      "buffer_chunks bl' = buffer_chunks buffer_sample @ ps"
      "rcount conn' = rcount conn_zero + int (length (concat ps @ lost))"
      "delivered ?recv ?mem buffer_sample 1 0 10 ps"
      "ended ?recv ?mem buffer_sample 1 0 10 0 (length ps) (length (concat ps)) lost ret"
    using buffer_sample_wf by fastforce
  have "ps = []" using r(4) by (auto simp: delivered_def takes_def)
  with r(5) have "lost = [7] \<and> ret = 0" by (simp add: ended_def ask_def split: if_splits)
  with r \<open>ps = []\<close> show ?thesis using buffer_sample_wf by (auto simp: buffer_stream_def)
qed

end
