(* ===== verification/Room_Interface.thy ===== *)
theory Room_Interface
  imports Dungeon ConnTcp
begin

text \<open>
  The contract between the dungeon and a room module's soul (\<open>imp_soul.h\<close>).  A turn of
  \<open>fsm_driver\<close> takes the soul's memory, the event mask of the imp and what the outside world
  answers to the calls it makes; it leaves the memory and gives the return code, the services it
  called and the bytes it sent.  \<open>closes m\<close> are the descriptors that \<open>fsm_delete\<close> closes.
\<close>

type_synonym 'm turn = "'m \<times> driver_retcode \<times> 'm service list \<times> u8 list"

text \<open>
  A soul driven turn by turn, until it asks to be terminated or there is nothing more to happen:
  the memory, the return codes, the services and all the bytes it sent.
\<close>

primrec soul_run ::
  "('m \<Rightarrow> u64 \<Rightarrow> 'i \<Rightarrow> ub + 'm turn) \<Rightarrow> 'm \<Rightarrow> (u64 \<times> 'i) list
     \<Rightarrow> ub + ('m \<times> driver_retcode list \<times> 'm service list \<times> u8 list)" where
  "soul_run driver m [] = Inr (m, [], [], [])"
| "soul_run driver m (i # is) =
     bindE (driver m (fst i) (snd i)) (\<lambda>(m', ret, svcs, out).
       if ret = TO_TERM then Inr (m', [ret], svcs, out)
       else bindE (soul_run driver m' is) (\<lambda>(m'', rets, svcs', out').
              Inr (m'', ret # rets, svcs @ svcs', out @ out')))"

definition awaits :: "'m service list \<Rightarrow> int set" where
  "awaits svcs = {fd. \<exists>ev malloc_ok nomem. SetIoev fd ev malloc_ok nomem \<in> set svcs}"

lemma awaits_Nil [simp]: "awaits [] = {}"
  by (simp add: awaits_def)

lemma awaits_append [simp]: "awaits (xs @ ys) = awaits xs \<union> awaits ys"
  by (auto simp: awaits_def)

lemma awaits_SetIoev [simp]: "awaits (SetIoev fd ev a b # xs) = insert fd (awaits xs)"
  by (auto simp: awaits_def)

lemma awaits_SetTimer [simp]: "awaits (SetTimer ms b # xs) = awaits xs"
  by (auto simp: awaits_def)

text \<open>
  What the dungeon relies on: a soul that asks to be terminated does not set its timer in the
  same turn, and it only waits for descriptors that it will close.
\<close>

locale room_soul =
  fixes driver :: "'m \<Rightarrow> u64 \<Rightarrow> 'i \<Rightarrow> ub + 'm turn"
    and closes :: "'m \<Rightarrow> int list"
    and inv :: "'m \<Rightarrow> bool"
  assumes term_no_timer: "driver m evs i = Inr (m', TO_TERM, svcs, out) \<Longrightarrow>
        list_all (\<lambda>s. \<not> is_set_timer s) svcs"
    and awaits_closed: "inv m \<Longrightarrow> driver m evs i = Inr (m', ret, svcs, out) \<Longrightarrow>
        awaits svcs \<subseteq> set (closes m)"
    and inv_step: "inv m \<Longrightarrow> driver m evs i = Inr (m', ret, svcs, out) \<Longrightarrow>
        inv m' \<and> closes m' = closes m"
begin

text \<open>Over a whole life: whatever the soul waited for is closed in the end.\<close>

lemma run_awaits_closed:
  "inv m \<Longrightarrow> soul_run driver m is = Inr (m', rets, svcs, out) \<Longrightarrow>
     awaits svcs \<subseteq> set (closes m') \<and> closes m' = closes m"
proof (induction "is" arbitrary: m rets svcs out)
  case Nil
  then show ?case by simp
next
  case (Cons i "is")
  then obtain m1 ret svcs1 out1 where
    d: "driver m (fst i) (snd i) = Inr (m1, ret, svcs1, out1)"
    by (auto simp: bindE_eq_Inr_iff)
  note c = awaits_closed [OF Cons.prems(1) d] inv_step [OF Cons.prems(1) d]
  show ?case
  proof (cases "ret = TO_TERM")
    case True
    with Cons.prems d c show ?thesis by auto
  next
    case False
    with Cons.prems d obtain rets2 svcs2 out2 where
      r: "soul_run driver m1 is = Inr (m', rets2, svcs2, out2)" "svcs = svcs1 @ svcs2"
      by (auto simp: bindE_eq_Inr_iff)
    from c have "inv m1" by simp
    from Cons.IH [OF this r(1)] c r(2) show ?thesis by auto
  qed
qed

text \<open>The worker's turn on such a soul meets what the dungeon requires of a termination.\<close>

lemma work_term_ok:
  assumes "driver m evs i = Inr (m', ret, svcs, out)"
    and "runq d = p # ps" and "services_ok d [] svcs"
  shows "action_ok d (DoWork False rd_e m' ret svcs ctl)"
  using assms term_no_timer by (auto simp: action_ok_def)

end

end
