(* ===== verification/Room_Dumb.thy ===== *)
theory Room_Dumb
  imports Room_Interface
begin

text \<open>
  \<open>src/src/modules/dumb/mod.c\<close>: a soul that runs a number of times and then terminates.
\<close>

record dumb_memory =
  dm_count :: int

text \<open>The memory \<open>mod_init\<close> summons its imp with.\<close>

definition dumb_init :: dumb_memory where
  "dumb_init = \<lparr>dm_count = 5\<rparr>"

definition dumb_fsm_driver :: "dumb_memory \<Rightarrow> u64 \<Rightarrow> unit \<Rightarrow> ub + dumb_memory turn" where
  "dumb_fsm_driver mem evs i =
     (if dm_count mem = 0 then Inr (mem, TO_TERM, [], [])
      else if dm_count mem - 1 < - 2147483648 then Inl IntOverflow
      else Inr (mem\<lparr>dm_count := dm_count mem - 1\<rparr>, TO_RUN, [], []))"

interpretation dumb: room_soul dumb_fsm_driver "\<lambda>mem. []" "\<lambda>mem. True"
  by unfold_locales (auto simp: dumb_fsm_driver_def awaits_def split: if_splits)

text \<open>
  A dumb soul whose counter is \<open>n\<close> is driven exactly \<open>n\<close> times and asks to be
  terminated the next time, never waiting for anything: given at least \<open>n + 1\<close> turns its return
  codes are \<open>n\<close> times \<open>TO_RUN\<close> and then \<open>TO_TERM\<close>.
\<close>

theorem dumb_runs_then_terminates:
  assumes "n < length is"
  shows "soul_run dumb_fsm_driver \<lparr>dm_count = int n\<rparr> is
     = Inr (\<lparr>dm_count = 0\<rparr>, replicate n TO_RUN @ [TO_TERM], [], [])"
  using assms
proof (induction n arbitrary: "is")
  case 0
  then show ?case by (cases "is") (simp_all add: dumb_fsm_driver_def)
next
  case (Suc n)
  then obtain i is' where "is = i # is'" "n < length is'" by (cases "is") auto
  with Suc.IH [of is'] show ?case by (simp add: dumb_fsm_driver_def)
qed

theorem dumb_runs_then_terminates_witness:
  "soul_run dumb_fsm_driver dumb_init (replicate 6 (0, ()))
     = Inr (\<lparr>dm_count = 0\<rparr>, [TO_RUN, TO_RUN, TO_RUN, TO_RUN, TO_RUN, TO_TERM], [], [])"
  using dumb_runs_then_terminates [of 5 "replicate 6 (0, ())"]
  by (simp add: dumb_init_def numeral_eq_Suc)

end
