(* ===== verification/Room_Echo.thy ===== *)
theory Room_Echo
  imports Room_Interface
begin

text \<open>
  \<open>src/src/modules/echo/mod.c\<close>: the soul of one connection, which sends back every byte it
  receives, and the listener that summons one imp per connection.  The \<open>int state\<close> is the
  enumeration; only its values are ever stored.
\<close>

abbreviation (input) BUFSIZE :: nat where "BUFSIZE \<equiv> 4096"

datatype echo_state = ST_RECV | ST_SEND | ST_TERM | ST_Ex

text \<open>The enumeration in its C order.\<close>

primrec echo_state_num :: "echo_state \<Rightarrow> nat" where
  "echo_state_num ST_RECV = 1"
| "echo_state_num ST_SEND = 2"
| "echo_state_num ST_TERM = 3"
| "echo_state_num ST_Ex = 4"

instantiation echo_state :: linorder
begin

definition less_eq_echo_state :: "echo_state \<Rightarrow> echo_state \<Rightarrow> bool" where
  "less_eq_echo_state a b \<longleftrightarrow> echo_state_num a \<le> echo_state_num b"

definition less_echo_state :: "echo_state \<Rightarrow> echo_state \<Rightarrow> bool" where
  "less_echo_state a b \<longleftrightarrow> echo_state_num a < echo_state_num b"

instance
proof
  fix a b :: echo_state
  assume "a \<le> b" and "b \<le> a"
  then show "a = b" by (cases a; cases b) (simp_all add: less_eq_echo_state_def)
qed (auto simp: less_eq_echo_state_def less_echo_state_def)

end

record echoer =
  e_conn :: conn_tcp
  e_state :: echo_state
  e_buf :: "u8 list"
  e_len :: int
  e_pos :: int

text \<open>
  What the calls of one turn answer: \<open>recv\<close>, \<open>send\<close> (a function of the size it is offered) with
  its errno, and whether the request list cannot take another request.
\<close>

record echo_io =
  io_recv :: io
  io_send :: "nat \<Rightarrow> int"
  io_errno :: int
  io_nomem :: bool
  io_now :: timeval

definition echo_new :: "echoer \<Rightarrow> echoer" where
  "echo_new m = m\<lparr>e_state := ST_RECV, e_len := 0, e_pos := 0\<rparr>"

text \<open>\<open>echo_delete\<close>: the descriptors it closes.\<close>

definition echo_delete :: "echoer \<Rightarrow> int list" where
  "echo_delete m = snd (conn_tcp_close_nb (Some (e_conn m)))"

text \<open>\<open>buf + pos\<close> and \<open>len\<close>: the bytes handed to the kernel, if they lie inside the buffer.\<close>

definition send_from :: "u8 list \<Rightarrow> int \<Rightarrow> int \<Rightarrow> ub + u8 list" where
  "send_from buf pos len =
     (if 0 \<le> pos \<and> 0 \<le> len \<and> pos + len \<le> int (length buf)
      then Inr (take (nat len) (drop (nat pos) buf)) else Inl OutOfBounds)"

definition timed_out :: "u64 \<Rightarrow> bool" where
  "timed_out evs \<longleftrightarrow> and evs EV_MASK_TIMER \<noteq> 0"

text \<open>Waiting for the connection; a failing \<open>imp_set_ioev\<close> makes the imp terminate itself.\<close>

definition echo_block :: "echoer \<Rightarrow> u32 \<Rightarrow> echo_io \<Rightarrow> u8 list \<Rightarrow> echoer turn" where
  "echo_block mem ev i out =
     (mem, if io_nomem i then TO_TERM else TO_BLOCK,
      [SetIoev (sd (e_conn mem)) ev True (io_nomem i)], out)"

text \<open>The two busy states of the driver's switch.\<close>

definition echo_recv_state :: "echoer \<Rightarrow> u64 \<Rightarrow> echo_io \<Rightarrow> ub + echoer turn" where
  "echo_recv_state mem evs i =
     (if timed_out evs then Inr (mem\<lparr>e_state := ST_Ex\<rparr>, TO_RUN, [], [])
      else case conn_tcp_recv_nb (e_conn mem) (io_recv i) (io_now i) of (len, bytes, conn) \<Rightarrow>
        if length bytes > length (e_buf mem) then Inl OutOfBounds
        else
          let mem = mem\<lparr>e_conn := conn, e_len := len,
                        e_buf := bytes @ drop (length bytes) (e_buf mem)\<rparr> in
          if len = 0 then Inr (mem\<lparr>e_state := ST_TERM\<rparr>, TO_RUN, [], [])
          else if len < 0 then
            if len = - EAGAIN then Inr (echo_block mem (or EPOLLIN EPOLLRDHUP) i [])
            else Inr (mem\<lparr>e_state := ST_Ex\<rparr>, TO_RUN, [], [])
          else Inr (mem\<lparr>e_pos := 0, e_state := ST_SEND\<rparr>, TO_RUN, [], []))"

definition echo_send_state :: "echoer \<Rightarrow> u64 \<Rightarrow> echo_io \<Rightarrow> ub + echoer turn" where
  "echo_send_state mem evs i =
     (if timed_out evs then Inr (mem\<lparr>e_state := ST_Ex\<rparr>, TO_RUN, [], [])
      else bindE (send_from (e_buf mem) (e_pos mem) (e_len mem)) (\<lambda>offered.
        case conn_tcp_send_nb (e_conn mem) (io_send i (length offered)) (io_now i) of (ret, conn) \<Rightarrow>
        let mem = mem\<lparr>e_conn := conn\<rparr> in
        if ret \<le> 0 then
          if io_errno i = EAGAIN then Inr (echo_block mem (or EPOLLOUT EPOLLRDHUP) i [])
          else Inr (mem\<lparr>e_state := ST_Ex\<rparr>, TO_RUN, [], [])
        else
          let mem = mem\<lparr>e_pos := e_pos mem + ret, e_len := e_len mem - ret\<rparr>;
              out = take (nat ret) offered in
          if e_len mem \<le> 0 then Inr (mem\<lparr>e_state := ST_RECV\<rparr>, TO_RUN, [], out)
          else Inr (echo_block mem (or EPOLLOUT EPOLLRDHUP) i out)))"

definition echo_driver :: "echoer \<Rightarrow> u64 \<Rightarrow> echo_io \<Rightarrow> ub + echoer turn" where
  "echo_driver mem evs i =
     (case e_state mem of
        ST_RECV \<Rightarrow> echo_recv_state mem evs i
      | ST_SEND \<Rightarrow> echo_send_state mem evs i
      | ST_Ex \<Rightarrow> Inr (mem\<lparr>e_state := ST_TERM\<rparr>, TO_RUN, [], [])
      | ST_TERM \<Rightarrow> Inr (mem, TO_TERM, [], []))"

lemma recv_nb_sd: "conn_tcp_recv_nb c r now = (len, bytes, c') \<Longrightarrow> sd c' = sd c"
  by (auto simp: conn_tcp_recv_nb_def Let_def split: io.splits if_splits)

lemma send_nb_sd: "conn_tcp_send_nb c r now = (ret, c') \<Longrightarrow> sd c' = sd c"
  by (auto simp: conn_tcp_send_nb_def Let_def split: if_splits)

lemma send_nb_fst: "fst (conn_tcp_send_nb c res now) = res"
  by (simp add: conn_tcp_send_nb_def Let_def)

section \<open>The soul keeps the contract\<close>

definition contract_ok :: "echoer \<Rightarrow> echoer turn \<Rightarrow> bool" where
  "contract_ok m t \<longleftrightarrow> (case t of (m', ret, svcs, out) \<Rightarrow>
     sd (e_conn m') = sd (e_conn m) \<and> awaits svcs \<subseteq> {sd (e_conn m)}
     \<and> list_all (\<lambda>s. \<not> is_set_timer s) svcs)"

lemma contract_simps [simp]:
  "contract_ok m (m', ret, [], out) \<longleftrightarrow> sd (e_conn m') = sd (e_conn m)"
  "contract_ok m (echo_block m' ev i out) \<longleftrightarrow> sd (e_conn m') = sd (e_conn m)"
  by (auto simp: contract_ok_def echo_block_def)

lemma echo_recv_contract: "echo_recv_state m evs i = Inr t \<Longrightarrow> contract_ok m t"
  by (cases "conn_tcp_recv_nb (e_conn m) (io_recv i) (io_now i)")
     (auto simp: echo_recv_state_def Let_def recv_nb_sd split: if_splits)

lemma echo_send_contract:
  assumes "echo_send_state m evs i = Inr t"
  shows "contract_ok m t"
proof (cases "timed_out evs")
  case True
  with assms show ?thesis by (auto simp: echo_send_state_def)
next
  case False
  with assms obtain offered where o: "send_from (e_buf m) (e_pos m) (e_len m) = Inr offered"
    by (auto simp: echo_send_state_def bindE_eq_Inr_iff)
  obtain ret c where
    c: "conn_tcp_send_nb (e_conn m) (io_send i (length offered)) (io_now i) = (ret, c)"
    by fastforce
  have "sd c = sd (e_conn m)" using c by (rule send_nb_sd)
  with assms False o c show ?thesis
    by (auto simp: echo_send_state_def Let_def split: if_splits)
qed

lemma echo_driver_contract: "echo_driver m evs i = Inr t \<Longrightarrow> contract_ok m t"
  by (cases "e_state m") (auto simp: echo_driver_def echo_recv_contract echo_send_contract)

interpretation echo: room_soul echo_driver echo_delete "\<lambda>m. sd (e_conn m) \<noteq> - 1"
proof
  fix m evs i m' svcs out
  assume "echo_driver m evs i = Inr (m', TO_TERM, svcs, out)"
  from echo_driver_contract [OF this] show "list_all (\<lambda>s. \<not> is_set_timer s) svcs"
    by (simp add: contract_ok_def)
next
  fix m evs i m' ret svcs out
  assume "sd (e_conn m) \<noteq> - 1" and "echo_driver m evs i = Inr (m', ret, svcs, out)"
  with echo_driver_contract [OF this(2)]
  show "awaits svcs \<subseteq> set (echo_delete m)"
    and "sd (e_conn m') \<noteq> - 1 \<and> echo_delete m' = echo_delete m"
    by (auto simp: contract_ok_def echo_delete_def conn_tcp_close_nb_def)
qed

section \<open>Every byte comes back, in order\<close>

text \<open>
  What the kernel guarantees of the calls of a turn: \<open>recv\<close> stays within the size it is given
  and a failure has a positive errno, \<open>send\<close> takes at most what it is offered.
\<close>

definition echo_io_ok :: "echo_io \<Rightarrow> bool" where
  "echo_io_ok i \<longleftrightarrow> (\<forall>n. io_send i n \<le> int n)
     \<and> (case io_recv i of Got bytes \<Rightarrow> length bytes \<le> BUFSIZE | Failed e \<Rightarrow> 0 < e)"

definition echo_ok :: "echoer \<Rightarrow> bool" where
  "echo_ok m \<longleftrightarrow> length (e_buf m) = BUFSIZE
     \<and> (e_state m = ST_SEND \<longrightarrow> 0 \<le> e_pos m \<and> 0 < e_len m \<and> e_pos m + e_len m \<le> int BUFSIZE)"

text \<open>The bytes received but not yet sent back.\<close>

definition pending :: "echoer \<Rightarrow> u8 list" where
  "pending m = (if e_state m = ST_SEND then take (nat (e_len m)) (drop (nat (e_pos m)) (e_buf m)) else [])"

text \<open>The bytes a turn receives, and those of a whole run.\<close>

definition hears :: "echoer \<Rightarrow> u64 \<Rightarrow> echo_io \<Rightarrow> u8 list" where
  "hears m evs i =
     (if e_state m = ST_RECV \<and> \<not> timed_out evs
      then (case io_recv i of Got bytes \<Rightarrow> bytes | Failed e \<Rightarrow> []) else [])"

primrec heard :: "echoer \<Rightarrow> (u64 \<times> echo_io) list \<Rightarrow> u8 list" where
  "heard m [] = []"
| "heard m (i # is) = hears m (fst i) (snd i) @
     (case echo_driver m (fst i) (snd i) of
        Inl e \<Rightarrow> []
      | Inr (m', ret, svcs, out) \<Rightarrow> if ret = TO_TERM then [] else heard m' is)"

definition alive :: "echoer \<Rightarrow> bool" where
  "alive m \<longleftrightarrow> e_state m < ST_TERM"

lemma alive_iff: "alive m \<longleftrightarrow> e_state m = ST_RECV \<or> e_state m = ST_SEND"
  by (cases "e_state m") (simp_all add: alive_def less_echo_state_def)

definition faithful :: "u8 list \<Rightarrow> echoer turn \<Rightarrow> bool" where
  "faithful bytes t \<longleftrightarrow> (case t of (m', ret, svcs, out) \<Rightarrow> echo_ok m'
     \<and> (\<exists>rest. bytes = out @ pending m' @ rest \<and> (alive m' \<longrightarrow> rest = [])))"

lemma faithful_Nil [simp]:
  "faithful bytes (m', ret, svcs, []) \<longleftrightarrow>
     echo_ok m' \<and> (\<exists>rest. bytes = pending m' @ rest \<and> (alive m' \<longrightarrow> rest = []))"
  by (simp add: faithful_def)

lemma faithful_block [simp]:
  "faithful bytes (echo_block m' ev i out) \<longleftrightarrow> faithful bytes (m', TO_BLOCK, [], out)"
  by (simp add: faithful_def echo_block_def)

lemma echo_recv_faithful:
  assumes "echo_ok m" and "echo_io_ok i" and "e_state m = ST_RECV"
  shows "\<exists>t. echo_recv_state m evs i = Inr t \<and> faithful (hears m evs i) t"
proof (cases "timed_out evs")
  case True
  with assms show ?thesis
    by (simp add: echo_recv_state_def hears_def echo_ok_def pending_def alive_iff)
next
  case False
  show ?thesis
  proof (cases "io_recv i")
    case (Failed e)
    with False assms show ?thesis
      by (auto simp: echo_recv_state_def hears_def echo_ok_def pending_def echo_io_ok_def
          conn_tcp_recv_nb_def Let_def alive_iff simp del: split_paired_Ex)
  next
    case (Got bytes)
    with assms have "length bytes \<le> BUFSIZE" by (simp add: echo_io_ok_def)
    with Got False assms show ?thesis
      by (auto simp: echo_recv_state_def hears_def echo_ok_def pending_def
          conn_tcp_recv_nb_def Let_def alive_iff simp del: split_paired_Ex)
  qed
qed

lemma take_split:
  "k \<le> n \<Longrightarrow> take n (drop p xs) = take k (drop p xs) @ take (n - k) (drop (p + k) xs)"
  by (metis add.commute drop_drop le_add_diff_inverse take_add)

lemma echo_send_faithful:
  assumes "echo_ok m" and "echo_io_ok i" and "e_state m = ST_SEND"
  shows "\<exists>t. echo_send_state m evs i = Inr t \<and> faithful (pending m) t"
proof (cases "timed_out evs")
  case True
  with assms show ?thesis by (simp add: echo_send_state_def echo_ok_def pending_def alive_iff)
next
  case False
  let ?off = "take (nat (e_len m)) (drop (nat (e_pos m)) (e_buf m))"
  from assms have off: "send_from (e_buf m) (e_pos m) (e_len m) = Inr ?off"
    and len: "length ?off = nat (e_len m)"
    and bounds: "0 \<le> e_pos m" "0 < e_len m" "e_pos m + e_len m \<le> int BUFSIZE"
    by (auto simp: send_from_def echo_ok_def)
  define res where "res = io_send i (nat (e_len m))"
  obtain c where c: "conn_tcp_send_nb (e_conn m) res (io_now i) = (res, c)"
    by (metis prod.collapse send_nb_fst)
  have le: "res \<le> e_len m" using assms(2) bounds unfolding echo_io_ok_def res_def
    by (metis int_nat_eq order_less_imp_le)
  show ?thesis
  proof (cases "res \<le> 0")
    case True
    with False off c len assms show ?thesis
      by (auto simp: echo_send_state_def Let_def res_def [symmetric] echo_ok_def pending_def
          alive_iff simp del: split_paired_Ex)
  next
    case r: False
    have pos: "nat (e_pos m + res) = nat (e_pos m) + nat res" using r bounds by (simp add: nat_add_distrib)
    have rest: "nat (e_len m - res) = nat (e_len m) - nat res" using r by (simp add: nat_diff_distrib)
    let ?m = "m\<lparr>e_conn := c, e_pos := e_pos m + res, e_len := e_len m - res\<rparr>"
    have pre: "take (nat res) ?off = take (nat res) (drop (nat (e_pos m)) (e_buf m))"
      using le by (simp add: min_absorb1)
    have "?off = take (nat res) (drop (nat (e_pos m)) (e_buf m))
        @ take (nat (e_len m) - nat res) (drop (nat (e_pos m) + nat res) (e_buf m))"
      using le by (intro take_split) simp
    moreover have "nat (e_len ?m) = nat (e_len m) - nat res" "nat (e_pos ?m) = nat (e_pos m) + nat res"
      "e_buf ?m = e_buf m" using pos rest by simp_all
    ultimately have off_split: "?off = take (nat res) ?off
        @ take (nat (e_len ?m)) (drop (nat (e_pos ?m)) (e_buf ?m))"
      using pre by metis
    have pend: "pending m = ?off" using assms(3) by (simp add: pending_def)
    have turn: "echo_send_state m evs i =
        Inr (if e_len m \<le> res then (?m\<lparr>e_state := ST_RECV\<rparr>, TO_RUN, [], take (nat res) ?off)
             else echo_block ?m (or EPOLLOUT EPOLLRDHUP) i (take (nat res) ?off))"
      using False r off c len by (simp add: echo_send_state_def Let_def res_def [symmetric])
    show ?thesis
    proof (cases "e_len m \<le> res")
      case True
      with le have "res = e_len m" by simp
      then show ?thesis using turn pend assms by (simp add: faithful_def echo_ok_def pending_def)
    next
      case more: False
      have "pending ?m = take (nat (e_len ?m)) (drop (nat (e_pos ?m)) (e_buf ?m))"
        using assms(3) by (simp add: pending_def)
      then have "pending m = take (nat res) ?off @ pending ?m" using off_split pend by (simp only:)
      moreover have "echo_ok ?m" using assms bounds more r by (simp add: echo_ok_def)
      ultimately have "faithful (pending m) (?m, TO_BLOCK, [], take (nat res) ?off)"
        by (simp only: faithful_def prod.case) (metis append_Nil2)
      with turn more show ?thesis by (simp del: split_paired_Ex)
    qed
  qed
qed

lemma echo_driver_faithful:
  assumes "echo_ok m" and "echo_io_ok i"
  shows "\<exists>t. echo_driver m evs i = Inr t \<and> faithful (pending m @ hears m evs i) t
    \<and> (\<not> alive m \<longrightarrow> \<not> alive (fst t))"
proof (cases "e_state m")
  case ST_RECV
  with echo_recv_faithful [OF assms ST_RECV, of evs] show ?thesis
    by (auto simp: echo_driver_def pending_def alive_iff)
next
  case ST_SEND
  with echo_send_faithful [OF assms ST_SEND, of evs] show ?thesis
    by (auto simp: echo_driver_def hears_def alive_iff)
qed (use assms in \<open>simp_all add: echo_driver_def pending_def hears_def echo_ok_def alive_iff\<close>)

lemma heard_dead: "\<not> alive m \<Longrightarrow> heard m is = []"
proof (induction "is" arbitrary: m)
  case (Cons i "is")
  then have "e_state m = ST_Ex \<or> e_state m = ST_TERM" by (cases "e_state m") (simp_all add: alive_iff)
  then show ?case using Cons.IH [of "m\<lparr>e_state := ST_TERM\<rparr>"]
    by (auto simp: hears_def echo_driver_def alive_iff)
qed simp

lemma echo_run_faithful:
  assumes "echo_ok m" and "\<forall>i\<in>set is. echo_io_ok (snd i)"
  shows "\<exists>m' rets svcs out rest. soul_run echo_driver m is = Inr (m', rets, svcs, out)
     \<and> echo_ok m' \<and> pending m @ heard m is = out @ pending m' @ rest \<and> (alive m' \<longrightarrow> rest = [])
     \<and> (\<not> alive m \<longrightarrow> \<not> alive m')"
  using assms
proof (induction "is" arbitrary: m)
  case Nil
  then show ?case by simp
next
  case (Cons i "is")
  then obtain m1 ret svcs1 out1 rest1 where
    d: "echo_driver m (fst i) (snd i) = Inr (m1, ret, svcs1, out1)" "echo_ok m1"
      "pending m @ hears m (fst i) (snd i) = out1 @ pending m1 @ rest1" "alive m1 \<Longrightarrow> rest1 = []"
      "\<not> alive m \<Longrightarrow> \<not> alive m1"
    using echo_driver_faithful [of m "snd i" "fst i"] unfolding faithful_def by fastforce
  show ?case
  proof (cases "ret = TO_TERM")
    case True
    with d show ?thesis by simp
  next
    case False
    from Cons.IH [OF d(2)] Cons.prems obtain m' rets svcs out rest where
      r: "soul_run echo_driver m1 is = Inr (m', rets, svcs, out)" "echo_ok m'"
        "pending m1 @ heard m1 is = out @ pending m' @ rest"
        "alive m' \<longrightarrow> rest = []" "\<not> alive m1 \<longrightarrow> \<not> alive m'" by (metis list.set_intros(2))
    have run: "soul_run echo_driver m (i # is) = Inr (m', ret # rets, svcs1 @ svcs, out1 @ out)"
      using False d(1) r(1) by simp
    have "heard m (i # is) = hears m (fst i) (snd i) @ heard m1 is" using False d(1) by simp
    then have eq: "pending m @ heard m (i # is) = out1 @ pending m1 @ rest1 @ heard m1 is"
      using d(3) by (metis append_assoc)
    show ?thesis
    proof (cases "alive m1")
      case True
      then have "rest1 = []" by (rule d(4))
      with eq r(3) have "pending m @ heard m (i # is) = (out1 @ out) @ pending m' @ rest"
        by simp
      with run r d show ?thesis by blast
    next
      case dead: False
      then have "pending m1 = []" "heard m1 is = []" by (auto simp: pending_def heard_dead alive_iff)
      with r(3) have "out = []" by simp
      moreover from dead r(5) have "pending m' = []" "\<not> alive m'" by (auto simp: pending_def alive_iff)
      ultimately have "pending m @ heard m (i # is) = (out1 @ out) @ pending m' @ rest1"
        using eq \<open>pending m1 = []\<close> \<open>heard m1 is = []\<close> by simp
      with run r(2) \<open>\<not> alive m'\<close> show ?thesis by blast
    qed
  qed
qed

text \<open>
  C12.  The echo soul is faithful.  However the calls answer, its life meets no undefined behaviour:
  it never touches memory outside its buffer; what it has sent, followed by what it still holds
  in the buffer, is what it has received, byte for byte and in order, as long as it is receiving or
  sending; once it is in \<open>ST_Ex\<close> or \<open>ST_TERM\<close>, what it sent is a prefix of what it received.
\<close>

theorem echo_returns_received:
  assumes "length (e_buf m) = 4096" and "\<forall>i\<in>set is. echo_io_ok (snd i)"
  shows "\<exists>m' rets svcs out rest. soul_run echo_driver (echo_new m) is = Inr (m', rets, svcs, out)
     \<and> heard (echo_new m) is = out @ pending m' @ rest
     \<and> (e_state m' = ST_RECV \<or> e_state m' = ST_SEND \<longrightarrow> rest = [])"
proof -
  have "echo_ok (echo_new m)" "pending (echo_new m) = []"
    using assms(1) by (simp_all add: echo_ok_def echo_new_def pending_def)
  with echo_run_faithful [OF this(1) assms(2)] show ?thesis unfolding alive_iff by simp metis
qed

definition echo_sample :: echoer where
  "echo_sample = \<lparr>e_conn = conn_zero\<lparr>sd := 7\<rparr>, e_state = ST_TERM, e_buf = replicate 4096 0,
     e_len = 0, e_pos = 0\<rparr>"

theorem echo_returns_received_witness:
  "\<exists>m' rets svcs out rest.
     soul_run echo_driver (echo_new echo_sample)
       [(0, \<lparr>io_recv = Got [65, 66], io_send = (\<lambda>n. min 1 (int n)), io_errno = 0, io_nomem = False,
             io_now = (1, 0)\<rparr>)] = Inr (m', rets, svcs, out)
     \<and> [65, 66] = out @ pending m' @ rest \<and> (e_state m' = ST_RECV \<or> e_state m' = ST_SEND \<longrightarrow> rest = [])"
proof -
  let ?is = "[(0, \<lparr>io_recv = Got [65, 66], io_send = (\<lambda>n. min 1 (int n)), io_errno = 0,
      io_nomem = False, io_now = (1, 0)\<rparr>)] :: (u64 \<times> echo_io) list"
  have "length (e_buf echo_sample) = 4096" "\<forall>i\<in>set ?is. echo_io_ok (snd i)"
    by (simp_all add: echo_sample_def echo_io_ok_def)
  moreover have "heard (echo_new echo_sample) ?is = [65, 66]"
    by (simp add: hears_def timed_out_def echo_new_def split: sum.splits)
  ultimately show ?thesis using echo_returns_received [of echo_sample ?is] by simp
qed

section \<open>The listener\<close>

text \<open>The two kinds of memory the module's imps have.\<close>

datatype echo_memory = ListenerMem "listen_tcp option" | EchoerMem echoer

text \<open>
  What the calls of one round of the accepting loop answer: \<open>conn_tcp_accept_nb\<close> (its
  \<open>calloc\<close> and \<open>accept\<close>), the \<open>calloc\<close> of the echoer's memory, and \<open>imp_summon\<close>.
\<close>

record 'm accept_call =
  ac_conn_ok :: bool
  ac_conn_errno :: int
  ac_fd :: int
  ac_errno :: int
  ac_mem_ok :: bool
  ac_summoning :: "'m summoning"
  ac_summoned :: bool

definition accepted :: "'m accept_call \<Rightarrow> int \<times> conn_tcp option" where
  "accepted c = conn_tcp_accept_nb (ac_conn_ok c) (ac_conn_errno c) (ac_fd c) (ac_errno c)"

text \<open>
  The memory \<open>calloc\<close> gives.  Its state is 0, which is none of the enumeration; \<open>echo_new\<close>
  overwrites it before anything reads it.
\<close>

definition echoer_zero :: "conn_tcp \<Rightarrow> echoer" where
  "echoer_zero conn = \<lparr>e_conn = conn, e_state = ST_RECV, e_buf = replicate BUFSIZE 0, e_len = 0, e_pos = 0\<rparr>"

text \<open>
  The loop, which is the same in the room \<open>fake_httpd\<close>: the services it calls and the descriptors
  it closes; it ends with the first refusal.  \<open>mk\<close> is the memory for a connection.
\<close>

primrec listener_loop :: "(conn_tcp \<Rightarrow> 'm) \<Rightarrow> 'm accept_call list \<Rightarrow> ub + ('m service list \<times> int list)" where
  "listener_loop mk [] = Inr ([], [])"
| "listener_loop mk (c # cs) =
     (case accepted c of (ret, conn) \<Rightarrow>
      if ret \<noteq> 0 then Inr ([], [])
      else if \<not> ac_mem_ok c then Inl NullDeref
      else bindE (listener_loop mk cs) (\<lambda>(svcs, closed).
             Inr (Summon (mk (the conn)) (ac_summoning c) # svcs,
                  (if ac_summoned c then [] else snd (conn_tcp_close_nb conn)) @ closed)))"

text \<open>\<open>None\<close> is a null \<open>listen\<close>, whose descriptor cannot be read.\<close>

definition listener_driver ::
  "listen_tcp option \<Rightarrow> echo_memory accept_call list \<Rightarrow> bool \<Rightarrow> ub + (driver_retcode \<times> echo_memory service list \<times> int list)" where
  "listener_driver listen calls nomem =
     (case listen of None \<Rightarrow> Inl NullDeref
      | Some lmem \<Rightarrow>
          bindE (listener_loop (\<lambda>conn. EchoerMem (echoer_zero conn)) calls) (\<lambda>(svcs, closed).
          Inr (TO_BLOCK, svcs @ [SetIoev (l_sd lmem) (or EPOLLIN EPOLLOUT) True nomem], closed)))"

text \<open>\<open>listener_delete\<close> frees the memory only: the listening socket stays open.\<close>

definition listener_delete :: "listen_tcp option \<Rightarrow> int list" where
  "listener_delete listen = []"

definition takes :: "'m accept_call \<Rightarrow> bool" where
  "takes c \<longleftrightarrow> fst (accepted c) = 0"

definition call_ok :: "'m accept_call \<Rightarrow> bool" where
  "call_ok c \<longleftrightarrow> ac_mem_ok c \<and> ac_errno c \<noteq> 0 \<and> ac_conn_errno c \<noteq> 0"

lemma accepted_takes:
  "call_ok c \<Longrightarrow> takes c \<Longrightarrow> accepted c = (0, Some (conn_zero\<lparr>sd := ac_fd c\<rparr>)) \<and> 0 \<le> ac_fd c"
  by (auto simp: takes_def accepted_def conn_tcp_accept_nb_def call_ok_def split: if_splits)

lemma listener_loop_spec:
  "\<forall>c\<in>set cs. call_ok c \<Longrightarrow>
   listener_loop mk cs = Inr
     (map (\<lambda>c. Summon (mk (conn_zero\<lparr>sd := ac_fd c\<rparr>)) (ac_summoning c)) (takeWhile takes cs),
      map ac_fd (filter (\<lambda>c. \<not> ac_summoned c) (takeWhile takes cs)))"
proof (induction cs)
  case (Cons c cs)
  show ?case
  proof (cases "takes c")
    case True
    moreover have "ac_mem_ok c" using Cons.prems by (simp add: call_ok_def)
    ultimately show ?thesis using Cons accepted_takes [of c] by (simp add: conn_tcp_close_nb_def)
  next
    case False
    then show ?thesis by (cases "accepted c") (simp add: takes_def)
  qed
qed simp

text \<open>
  C34.  The listener.  As long as memory for the echoers can be had, one turn of the listener summons one
  imp per accepted connection, in the order of acceptance, closes exactly the connections whose imp
  could not be summoned, and goes to sleep on its listening socket, which \<open>listener_delete\<close> will
  not close.
\<close>

theorem listener_serves_each:
  assumes "\<forall>c\<in>set calls. call_ok c"
  shows "\<exists>svcs closed. listener_driver (Some lmem) calls nomem = Inr (TO_BLOCK, svcs, closed)
     \<and> svcs = map (\<lambda>c. Summon (EchoerMem (echoer_zero (conn_zero\<lparr>sd := ac_fd c\<rparr>))) (ac_summoning c))
                  (takeWhile takes calls) @ [SetIoev (l_sd lmem) 5 True nomem]
     \<and> closed = map ac_fd (filter (\<lambda>c. \<not> ac_summoned c) (takeWhile takes calls))
     \<and> awaits svcs = {l_sd lmem} \<and> l_sd lmem \<notin> set (listener_delete (Some lmem))"
  using listener_loop_spec [OF assms]
  by (auto simp: listener_driver_def listener_delete_def awaits_def)

definition call_sample :: "int \<Rightarrow> bool \<Rightarrow> echo_memory accept_call" where
  "call_sample fd s = \<lparr>ac_conn_ok = True, ac_conn_errno = 12, ac_fd = fd, ac_errno = 11, ac_mem_ok = True,
     ac_summoning = \<lparr>alloc = None, ll_ok = True, new_body = None, fsm_new = id\<rparr>, ac_summoned = s\<rparr>"

theorem listener_serves_each_witness:
  "\<exists>svcs. listener_driver (Some \<lparr>l_sd = 3, l_accepttimeo = None, l_accept_count = 0\<rparr>)
       [call_sample 7 True, call_sample 8 False, call_sample (- 1) True] False = Inr (TO_BLOCK, svcs, [8])
     \<and> awaits svcs = {3}"
proof -
  have "\<forall>c\<in>set [call_sample 7 True, call_sample 8 False, call_sample (- 1) True]. call_ok c"
    by (simp add: call_sample_def call_ok_def)
  from listener_serves_each [OF this, of "\<lparr>l_sd = 3, l_accepttimeo = None, l_accept_count = 0\<rparr>" False]
  show ?thesis
    by (auto simp: takes_def accepted_def conn_tcp_accept_nb_def call_sample_def)
qed

end
