(* ===== verification/Room_Httpd.thy ===== *)
theory Room_Httpd
  imports Room_Echo
begin

text \<open>
  \<open>src/src/modules/fake_httpd/mod.c\<close>: the soul that answers whatever it receives with an
  HTTP header and as many bytes of padding as it received.  Every turn appends a line to the
  \<open>memoirs\<close> in the soul's memory with \<open>strcat\<close>, which does not look at their size.  The debug
  counters and what is written to \<open>stderr\<close> are left out.
\<close>

section \<open>State\<close>

datatype httpd_state = H_RECV | H_PREPARE_HEADER | H_SEND_HEADER | H_SEND_BODY | H_TERM | H_Ex

text \<open>
  The memory of the soul.  \<open>length\<close>, \<open>header_len\<close> and \<open>header_pos\<close> are of type \<open>size_t\<close> and
  wrap at 2 to the 64; \<open>memoirs\<close> is the text up to its final zero.
\<close>

record httpd_memory =
  h_conn :: conn_tcp
  h_state :: httpd_state
  h_length :: int
  h_header :: "u8 list"
  h_header_len :: int
  h_header_pos :: int
  h_memoirs :: string

definition size_t :: "int \<Rightarrow> int" where
  "size_t x = x mod 18446744073709551616"

lemma size_t_small [simp]: "0 \<le> x \<Longrightarrow> x < 18446744073709551616 \<Longrightarrow> size_t x = x"
  by (simp add: size_t_def)

text \<open>
  What the calls of one turn answer; \<open>hi_delta\<close> is \<open>delta_t()\<close> and \<open>hi_error\<close> the text
  of \<open>%m\<close>.
\<close>

record httpd_io =
  hi_recv :: io
  hi_send :: "nat \<Rightarrow> int"
  hi_errno :: int
  hi_error :: string
  hi_delta :: int
  hi_nomem_io :: bool
  hi_nomem_timer :: bool
  hi_now :: timeval

text \<open>The module's timeouts, \<open>timeo.recv\<close> and \<open>timeo.send\<close>.\<close>

record timeouts =
  t_recv :: int
  t_send :: int

definition CRLF :: string where
  "CRLF = [char_of (13 :: nat), char_of (10 :: nat)]"

definition fake_http_header :: "nat \<Rightarrow> string" where
  "fake_http_header n =
     ''HTTP/1.1 200 OK'' @ CRLF
     @ ''Content-Type: text/plain; charset=utf-8'' @ CRLF
     @ ''Content-Length: '' @ show_nat n @ CRLF @ CRLF"

text \<open>\<open>padding_data\<close>: 1024 letters and, as its size is that of the array, the final zero.\<close>

definition padding_data :: "u8 list" where
  "padding_data = replicate 1024 97 @ [0]"

section \<open>The driver\<close>

text \<open>\<open>strcat(mem->memoirs, log)\<close>.\<close>

definition memoir :: "httpd_memory \<Rightarrow> string \<Rightarrow> ub + httpd_memory" where
  "memoir mem log =
     (if length (h_memoirs mem) + length log < BUFSIZE
      then Inr (mem\<lparr>h_memoirs := h_memoirs mem @ log\<rparr>) else Inl OutOfBounds)"

text \<open>The text of a log line: the state, the seconds since the dungeon started, what happened.\<close>

definition log_line :: "string \<Rightarrow> httpd_io \<Rightarrow> string \<Rightarrow> string" where
  "log_line st i what = st @ ''[+'' @ show_int (hi_delta i) @ ''s] '' @ what"

definition goes_to :: "httpd_memory \<Rightarrow> string \<Rightarrow> httpd_state \<Rightarrow> u8 list \<Rightarrow> ub + httpd_memory turn" where
  "goes_to mem log st out = bindE (memoir mem log) (\<lambda>mem. Inr (mem\<lparr>h_state := st\<rparr>, TO_RUN, [], out))"

definition sleeps :: "httpd_memory \<Rightarrow> string \<Rightarrow> u32 \<Rightarrow> int \<Rightarrow> httpd_io \<Rightarrow> ub + httpd_memory turn" where
  "sleeps mem log ev ms i = bindE (memoir mem log) (\<lambda>mem.
     Inr (mem, TO_BLOCK, [SetIoev (sd (h_conn mem)) ev True (hi_nomem_io i), SetTimer ms (hi_nomem_timer i)], []))"

definition alarmed :: "u64 \<Rightarrow> bool" where
  "alarmed evs \<longleftrightarrow> and evs EV_MASK_TIMER \<noteq> 0 \<or> and evs EV_MASK_ERR \<noteq> 0"

definition httpd_new :: "httpd_memory \<Rightarrow> int \<Rightarrow> string \<Rightarrow> int \<Rightarrow> int \<Rightarrow> httpd_memory" where
  "httpd_new m iid ipstr port delta =
     m\<lparr>h_state := H_RECV, h_length := 0,
       h_memoirs := take (BUFSIZE - 1) (''imp['' @ show_int iid @ ''] for '' @ ipstr @ '':'' @ show_int port
                      @ '' (+'' @ show_int delta @ ''s)->'')\<rparr>"

text \<open>\<open>echo_delete\<close>: one more line, then the connection is closed.\<close>

definition httpd_delete :: "httpd_memory \<Rightarrow> int list" where
  "httpd_delete m = snd (conn_tcp_close_nb (Some (h_conn m)))"

definition httpd_last_words :: "httpd_memory \<Rightarrow> int \<Rightarrow> ub + httpd_memory" where
  "httpd_last_words m delta =
     memoir m (''[+'' @ show_int delta @ ''s] echo_delete() conn_tcp_close_nb(conn) .'')"

definition httpd_recv_state :: "timeouts \<Rightarrow> httpd_memory \<Rightarrow> u64 \<Rightarrow> httpd_io \<Rightarrow> ub + httpd_memory turn" where
  "httpd_recv_state timeo mem evs i =
     (if alarmed evs then goes_to mem (log_line ''ST_RECV'' i ''timed out->'') H_Ex []
      else case conn_tcp_recv_nb (h_conn mem) (hi_recv i) (hi_now i) of (len, bytes, conn) \<Rightarrow>
        if length bytes > BUFSIZE then Inl OutOfBounds
        else
          let mem = mem\<lparr>h_conn := conn\<rparr> in
          if len = 0 then goes_to mem (log_line ''ST_RECV'' i ''EOF->'') H_TERM []
          else if len < 0 then
            if len = - EAGAIN
            then sleeps mem (log_line ''ST_RECV'' i ''sleep->'') (or EPOLLIN EPOLLRDHUP) (t_recv timeo) i
            else goes_to mem (log_line ''ST_RECV'' i (''error: '' @ hi_error i @ ''->'')) H_Ex []
          else goes_to (mem\<lparr>h_length := len\<rparr>) (log_line ''ST_RECV'' i ''OK->'') H_PREPARE_HEADER [])"

text \<open>\<open>snprintf\<close> writes at most \<open>BUFSIZE - 1\<close> bytes and a zero, and returns the untruncated length.\<close>

definition httpd_prepare_state :: "httpd_memory \<Rightarrow> httpd_io \<Rightarrow> ub + httpd_memory turn" where
  "httpd_prepare_state mem i =
     (let text = ascii (fake_http_header (nat (h_length mem)));
          stored = take (BUFSIZE - 1) text @ [0];
          mem = mem\<lparr>h_header := stored @ drop (length stored) (h_header mem),
                    h_header_len := int (length text)\<rparr> in
      if h_header_len mem = int BUFSIZE
      then goes_to mem (log_line ''ST_PREPARE_HEADER'' i ''Header id too long!->'') H_Ex []
      else bindE (memoir mem (log_line ''ST_PREPARE_HEADER'' i ''OK->'')) (\<lambda>mem.
           Inr (mem\<lparr>h_header_pos := 0, h_state := H_SEND_HEADER\<rparr>, TO_RUN, [], [])))"

definition httpd_send_header_state ::
  "timeouts \<Rightarrow> httpd_memory \<Rightarrow> u64 \<Rightarrow> httpd_io \<Rightarrow> ub + httpd_memory turn" where
  "httpd_send_header_state timeo mem evs i =
     (if alarmed evs then goes_to mem (log_line ''ST_SEND_HEADER'' i ''timed out or error->'') H_Ex []
      else bindE (send_from (h_header mem) (h_header_pos mem) (h_header_len mem)) (\<lambda>offered.
        case conn_tcp_send_nb (h_conn mem) (hi_send i (length offered)) (hi_now i) of (ret, conn) \<Rightarrow>
        let mem = mem\<lparr>h_conn := conn\<rparr> in
        if ret \<le> 0 then
          if hi_errno i = EAGAIN
          then sleeps mem (log_line ''ST_SEND_HEADER'' i ''sleep->'') (or EPOLLOUT EPOLLRDHUP) (t_recv timeo) i
          else goes_to mem (log_line ''ST_SEND_HEADER'' i (''error: '' @ hi_error i @ ''->'')) H_Ex []
        else
          let mem = mem\<lparr>h_header_pos := size_t (h_header_pos mem + ret),
                        h_header_len := size_t (h_header_len mem - ret)\<rparr>;
              out = take (nat ret) offered in
          if h_header_len mem = 0
          then goes_to mem (log_line ''ST_SEND_HEADER'' i (show_int ret @ '' bytes sent, OK->'')) H_SEND_BODY out
          else goes_to mem (log_line ''ST_SEND_HEADER'' i (show_int ret @ '' bytes sent, again->''))
                 H_SEND_HEADER out))"

definition httpd_send_body_state ::
  "timeouts \<Rightarrow> httpd_memory \<Rightarrow> u64 \<Rightarrow> httpd_io \<Rightarrow> ub + httpd_memory turn" where
  "httpd_send_body_state timeo mem evs i =
     (if alarmed evs then goes_to mem (log_line ''ST_SEND_BODY'' i ''timed out or error->'') H_Ex []
      else
        let offered = take (nat (min (int (length padding_data)) (h_length mem))) padding_data in
        case conn_tcp_send_nb (h_conn mem) (hi_send i (length offered)) (hi_now i) of (ret, conn) \<Rightarrow>
        let mem = mem\<lparr>h_conn := conn\<rparr> in
        if ret \<le> 0 then
          if hi_errno i = EAGAIN
          then sleeps mem (log_line ''ST_SEND_BODY'' i ''sleep->'') (or EPOLLOUT EPOLLRDHUP) (t_send timeo) i
          else goes_to mem (log_line ''ST_SEND_BODY'' i (''error: '' @ hi_error i @ ''->'')) H_Ex []
        else
          let mem = mem\<lparr>h_length := size_t (h_length mem - ret)\<rparr>; out = take (nat ret) offered in
          if h_length mem \<le> 0
          then goes_to mem (log_line ''ST_SEND_BODY'' i (show_int ret @ '' bytes sent, OK->'')) H_TERM out
          else goes_to mem (log_line ''ST_SEND_BODY'' i (show_int ret @ '' bytes sent, again->''))
                 H_SEND_BODY out)"

definition httpd_driver :: "timeouts \<Rightarrow> httpd_memory \<Rightarrow> u64 \<Rightarrow> httpd_io \<Rightarrow> ub + httpd_memory turn" where
  "httpd_driver timeo mem evs i =
     (case h_state mem of
        H_RECV \<Rightarrow> httpd_recv_state timeo mem evs i
      | H_PREPARE_HEADER \<Rightarrow> httpd_prepare_state mem i
      | H_SEND_HEADER \<Rightarrow> httpd_send_header_state timeo mem evs i
      | H_SEND_BODY \<Rightarrow> httpd_send_body_state timeo mem evs i
      | H_Ex \<Rightarrow> goes_to mem (log_line ''ST_Ex'' i ''Exception happened!'') H_TERM []
      | H_TERM \<Rightarrow> Inr (mem, TO_TERM, [], []))"

section \<open>The soul keeps the contract\<close>

lemma goes_to_iff [simp]:
  "goes_to mem log st out = Inr t \<longleftrightarrow> length (h_memoirs mem) + length log < BUFSIZE
     \<and> t = (mem\<lparr>h_memoirs := h_memoirs mem @ log, h_state := st\<rparr>, TO_RUN, [], out)"
  by (auto simp: goes_to_def memoir_def)

lemma sleeps_iff [simp]:
  "sleeps mem log ev ms i = Inr t \<longleftrightarrow> length (h_memoirs mem) + length log < BUFSIZE
     \<and> t = (mem\<lparr>h_memoirs := h_memoirs mem @ log\<rparr>, TO_BLOCK,
           [SetIoev (sd (h_conn mem)) ev True (hi_nomem_io i), SetTimer ms (hi_nomem_timer i)], [])"
  by (auto simp: sleeps_def memoir_def)

text \<open>What a turn does to the connection: nothing but count, and wait for it.\<close>

definition httpd_contract :: "httpd_memory \<Rightarrow> httpd_memory turn \<Rightarrow> bool" where
  "httpd_contract m t \<longleftrightarrow> (case t of (m', ret, svcs, out) \<Rightarrow>
     sd (h_conn m') = sd (h_conn m) \<and> awaits svcs \<subseteq> {sd (h_conn m)} \<and> (ret = TO_TERM \<longrightarrow> svcs = []))"

lemma httpd_contract_Nil [simp]: "httpd_contract m (m', ret, [], out) \<longleftrightarrow> sd (h_conn m') = sd (h_conn m)"
  by (simp add: httpd_contract_def)

lemma httpd_recv_contract: "httpd_recv_state timeo m evs i = Inr t \<Longrightarrow> httpd_contract m t"
  by (cases "conn_tcp_recv_nb (h_conn m) (hi_recv i) (hi_now i)")
     (auto simp: httpd_recv_state_def httpd_contract_def Let_def recv_nb_sd split: if_splits)

lemma httpd_prepare_contract: "httpd_prepare_state m i = Inr t \<Longrightarrow> httpd_contract m t"
  by (auto simp: httpd_prepare_state_def httpd_contract_def memoir_def Let_def split: if_splits)

lemma httpd_send_header_contract:
  assumes "httpd_send_header_state timeo m evs i = Inr t"
  shows "httpd_contract m t"
proof (cases "alarmed evs")
  case True
  with assms show ?thesis by (simp add: httpd_send_header_state_def httpd_contract_def)
next
  case False
  with assms obtain offered where o: "send_from (h_header m) (h_header_pos m) (h_header_len m) = Inr offered"
    by (auto simp: httpd_send_header_state_def bindE_eq_Inr_iff)
  obtain ret c where c: "conn_tcp_send_nb (h_conn m) (hi_send i (length offered)) (hi_now i) = (ret, c)"
    by fastforce
  have "sd c = sd (h_conn m)" using c by (rule send_nb_sd)
  with assms False o c show ?thesis
    by (auto simp: httpd_send_header_state_def httpd_contract_def Let_def split: if_splits)
qed

lemma httpd_send_body_contract:
  assumes "httpd_send_body_state timeo m evs i = Inr t"
  shows "httpd_contract m t"
proof -
  define off where "off = take (nat (min (int (length padding_data)) (h_length m))) padding_data"
  obtain ret c where c: "conn_tcp_send_nb (h_conn m) (hi_send i (length off)) (hi_now i) = (ret, c)"
    by fastforce
  have "sd c = sd (h_conn m)" using c by (rule send_nb_sd)
  with assms c show ?thesis
    by (auto simp: httpd_send_body_state_def httpd_contract_def Let_def off_def [symmetric]
        simp del: length_take split: if_splits)
qed

lemma httpd_driver_contract: "httpd_driver timeo m evs i = Inr t \<Longrightarrow> httpd_contract m t"
  by (cases "h_state m")
     (auto simp: httpd_driver_def httpd_recv_contract httpd_prepare_contract httpd_send_header_contract
       httpd_send_body_contract)

interpretation httpd: room_soul "httpd_driver timeo" httpd_delete "\<lambda>m. sd (h_conn m) \<noteq> - 1" for timeo
proof
  fix m evs i m' svcs out
  assume "httpd_driver timeo m evs i = Inr (m', TO_TERM, svcs, out)"
  from httpd_driver_contract [OF this] show "list_all (\<lambda>s. \<not> is_set_timer s) svcs"
    by (simp add: httpd_contract_def)
next
  fix m evs i m' ret svcs out
  assume "sd (h_conn m) \<noteq> - 1" and "httpd_driver timeo m evs i = Inr (m', ret, svcs, out)"
  with httpd_driver_contract [OF this(2)]
  show "awaits svcs \<subseteq> set (httpd_delete m)"
    and "sd (h_conn m') \<noteq> - 1 \<and> httpd_delete m' = httpd_delete m"
    by (auto simp: httpd_contract_def httpd_delete_def conn_tcp_close_nb_def)
qed

section \<open>The memoirs\<close>

text \<open>A turn in which nothing has come, and no timeout is reported.\<close>

definition silent :: "u64 \<times> httpd_io \<Rightarrow> bool" where
  "silent i \<longleftrightarrow> \<not> alarmed (fst i) \<and> hi_recv (snd i) = Failed EAGAIN"

lemma log_line_length: "length st + 5 + length what < length (log_line st i what)"
  using show_int_nonempty [of "hi_delta i"] by (simp add: log_line_def)

lemma silent_turn:
  assumes "silent i" and "h_state m = H_RECV"
  shows "httpd_driver timeo m (fst i) (snd i) = Inl OutOfBounds
     \<or> (\<exists>m' svcs. httpd_driver timeo m (fst i) (snd i) = Inr (m', TO_BLOCK, svcs, [])
          \<and> h_state m' = H_RECV \<and> length (h_memoirs m) + 20 \<le> length (h_memoirs m')
          \<and> length (h_memoirs m') < BUFSIZE)"
  using assms log_line_length [of "''ST_RECV''" "''sleep->''" "snd i"]
  by (auto simp: httpd_driver_def httpd_recv_state_def silent_def conn_tcp_recv_nb_def sleeps_def
      memoir_def)

text \<open>
  C35.  A silent client overflows the server's heap.  While nothing comes, every turn of the soul (it is
  woken by its timer, which is never reported as a timeout) appends at least 20 characters to the
  \<open>memoirs\<close>: at the latest the 205th of them writes past the 4096 bytes.
\<close>

theorem httpd_silence_overflows:
  assumes "h_state m = H_RECV" and "\<forall>i\<in>set is. silent i" and "205 \<le> length is"
  shows "soul_run (httpd_driver timeo) m is = Inl OutOfBounds"
proof -
  have "4096 \<le> length (h_memoirs m) + 20 * length is \<Longrightarrow> h_state m = H_RECV \<Longrightarrow>
      \<forall>i\<in>set is. silent i \<Longrightarrow> is \<noteq> [] \<Longrightarrow> soul_run (httpd_driver timeo) m is = Inl OutOfBounds" for m "is"
  proof (induction "is" arbitrary: m)
    case (Cons i "is")
    from Cons.prems silent_turn [of i m timeo] consider
        "httpd_driver timeo m (fst i) (snd i) = Inl OutOfBounds"
      | m' svcs where "httpd_driver timeo m (fst i) (snd i) = Inr (m', TO_BLOCK, svcs, [])"
          "h_state m' = H_RECV" "length (h_memoirs m) + 20 \<le> length (h_memoirs m')"
          "length (h_memoirs m') < BUFSIZE"
      by auto
    then show ?case
    proof cases
      case 2
      with Cons.prems(1) have "4096 \<le> length (h_memoirs m') + 20 * length is" "is \<noteq> []" by auto
      with 2 Cons.IH [of m'] Cons.prems(3) show ?thesis by simp
    qed simp
  qed simp
  from this [of m "is"] assms show ?thesis by (cases "is") auto
qed

definition silent_sample :: "u64 \<times> httpd_io" where
  "silent_sample = (0, \<lparr>hi_recv = Failed 11, hi_send = (\<lambda>n. 0), hi_errno = 11, hi_error = '''',
     hi_delta = 3, hi_nomem_io = False, hi_nomem_timer = False, hi_now = (0, 0)\<rparr>)"

definition httpd_sample :: httpd_memory where
  "httpd_sample = httpd_new \<lparr>h_conn = conn_zero\<lparr>sd := 7\<rparr>, h_state = H_TERM, h_length = 0,
     h_header = replicate 4096 0, h_header_len = 0, h_header_pos = 0, h_memoirs = ''''\<rparr>
     1 ''127.0.0.1'' 4000 0"

lemma httpd_sample_simps [simp]:
  "h_state httpd_sample = H_RECV" "h_header httpd_sample = replicate 4096 0"
  by (simp_all add: httpd_sample_def httpd_new_def)

theorem httpd_silence_overflows_witness:
  "soul_run (httpd_driver \<lparr>t_recv = 1000, t_send = 1000\<rparr>) httpd_sample (replicate 205 silent_sample)
     = Inl OutOfBounds"
  using httpd_silence_overflows [of httpd_sample "replicate 205 silent_sample"]
  by (simp add: silent_def silent_sample_def alarmed_def)

section \<open>The answer is as long as announced\<close>

text \<open>
  A turn without failures: no alarm; something is received, or the end of file, or nothing yet;
  \<open>send\<close> takes some of what it is offered, or nothing yet.
\<close>

definition calm :: "u64 \<times> httpd_io \<Rightarrow> bool" where
  "calm i \<longleftrightarrow> \<not> alarmed (fst i)
     \<and> (case hi_recv (snd i) of Got bytes \<Rightarrow> length bytes \<le> BUFSIZE | Failed e \<Rightarrow> e = EAGAIN)
     \<and> (\<forall>n. hi_send (snd i) n \<le> int n) \<and> hi_errno (snd i) = EAGAIN"

definition announces :: "nat \<Rightarrow> u8 list" where
  "announces n = ascii (fake_http_header n)"

lemma length_announces: "n \<le> BUFSIZE \<Longrightarrow> 0 < length (announces n) \<and> length (announces n) < BUFSIZE"
  using length_show_nat [of n 4] by (simp add: announces_def fake_http_header_def CRLF_def)

text \<open>What has been sent when the soul is in each of its states.\<close>

definition served :: "httpd_memory \<Rightarrow> u8 list \<Rightarrow> bool" where
  "served m out \<longleftrightarrow> length (h_header m) = BUFSIZE \<and>
     (case h_state m of
        H_RECV \<Rightarrow> out = []
      | H_PREPARE_HEADER \<Rightarrow> out = [] \<and> 0 < h_length m \<and> h_length m \<le> int BUFSIZE
      | H_SEND_HEADER \<Rightarrow> 0 < h_length m \<and> h_length m \<le> int BUFSIZE
          \<and> 0 \<le> h_header_pos m \<and> 0 < h_header_len m \<and> h_header_pos m + h_header_len m \<le> int BUFSIZE
          \<and> announces (nat (h_length m)) = out @ take (nat (h_header_len m)) (drop (nat (h_header_pos m)) (h_header m))
      | H_SEND_BODY \<Rightarrow> (\<exists>body. 0 < h_length m \<and> h_length m + int (length body) \<le> int BUFSIZE
          \<and> out = announces (length body + nat (h_length m)) @ body)
      | H_TERM \<Rightarrow> out = [] \<or> (\<exists>body. out = announces (length body) @ body)
      | H_Ex \<Rightarrow> False)"

lemma served_recv:
  assumes "served m out0" "h_state m = H_RECV" "calm (evs, i)"
    and "httpd_recv_state timeo m evs i = Inr (m', ret, svcs, out)"
  shows "served m' (out0 @ out)"
proof (cases "hi_recv i")
  case (Failed e)
  with assms show ?thesis
    by (auto simp: served_def httpd_recv_state_def conn_tcp_recv_nb_def calm_def)
next
  case (Got bytes)
  then have "length bytes \<le> BUFSIZE" using assms(3) by (simp add: calm_def)
  with Got assms show ?thesis
    by (cases "bytes = []") (auto simp: served_def httpd_recv_state_def conn_tcp_recv_nb_def calm_def Let_def)
qed

lemma served_prepare:
  assumes "served m out0" "h_state m = H_PREPARE_HEADER"
    and "httpd_prepare_state m i = Inr (m', ret, svcs, out)"
  shows "served m' (out0 @ out)"
proof -
  let ?text = "announces (nat (h_length m))"
  have len: "0 < length ?text" "length ?text < BUFSIZE"
    using assms(1,2) length_announces [of "nat (h_length m)"] by (auto simp: served_def nat_le_iff)
  then have "out = [] \<and> h_state m' = H_SEND_HEADER \<and> h_length m' = h_length m \<and> h_header_pos m' = 0
     \<and> h_header_len m' = int (length ?text)
     \<and> h_header m' = ?text @ 0 # drop (Suc (length ?text)) (h_header m)"
    using assms(3)
    by (auto simp: httpd_prepare_state_def Let_def memoir_def announces_def split: if_splits)
  then show ?thesis using len assms(1,2) by (simp add: served_def)
qed

lemma served_send_header:
  assumes "served m out0" "h_state m = H_SEND_HEADER" "calm (evs, i)"
    and "httpd_send_header_state timeo m evs i = Inr (m', ret, svcs, out)"
  shows "served m' (out0 @ out)"
proof -
  let ?pos = "h_header_pos m" and ?len = "h_header_len m" and ?h = "h_header m"
  define off where "off = take (nat ?len) (drop (nat ?pos) ?h)"
  from assms(1,2) have b: "0 \<le> ?pos" "0 < ?len" "?pos + ?len \<le> int BUFSIZE" "length ?h = BUFSIZE"
      "0 < h_length m" "h_length m \<le> int BUFSIZE" "announces (nat (h_length m)) = out0 @ off"
    by (auto simp: served_def off_def)
  have off: "send_from ?h ?pos ?len = Inr off" "length off = nat ?len"
    using b by (auto simp: send_from_def off_def)
  define res where "res = hi_send i (nat ?len)"
  obtain c where c: "conn_tcp_send_nb (h_conn m) res (hi_now i) = (res, c)"
    by (metis prod.collapse send_nb_fst)
  have le: "res \<le> ?len" using assms(3) b unfolding calm_def res_def
    by (metis int_nat_eq order_less_imp_le snd_conv)
  show ?thesis
  proof (cases "res \<le> 0")
    case True
    with assms off c show ?thesis
      by (auto simp: served_def httpd_send_header_state_def Let_def calm_def res_def [symmetric])
  next
    case False
    define pre where "pre = take (nat res) off"
    define post where "post = take (nat (?len - res)) (drop (nat (?pos + res)) ?h)"
    have n1: "nat (?len - res) = nat ?len - nat res" using False by (simp add: nat_diff_distrib)
    have n2: "nat (?pos + res) = nat ?pos + nat res" using False b by (simp add: nat_add_distrib)
    have "off = take (nat res) (drop (nat ?pos) ?h) @ take (nat ?len - nat res) (drop (nat ?pos + nat res) ?h)"
      unfolding off_def using le by (intro take_split) simp
    moreover have "take (nat res) (drop (nat ?pos) ?h) = pre"
      using le by (simp add: pre_def off_def min_absorb1)
    ultimately have split: "off = pre @ post"
      using n1 n2 by (simp only: post_def)
    have new: "h_length m' = h_length m \<and> h_header m' = ?h \<and> h_header_pos m' = ?pos + res
        \<and> h_header_len m' = ?len - res \<and> out = pre
        \<and> h_state m' = (if ?len = res then H_SEND_BODY else H_SEND_HEADER)"
      using assms(3,4) False off c b le
      by (auto simp: httpd_send_header_state_def Let_def calm_def res_def [symmetric] pre_def split: if_splits)
    have all: "announces (nat (h_length m)) = (out0 @ pre) @ post" using b(7) split by simp
    show ?thesis
    proof (cases "?len = res")
      case True
      then have "post = []" by (simp add: post_def)
      with all new b True show ?thesis
        by (auto simp: served_def simp del: append_assoc intro!: exI [of _ "[]"])
    next
      case more: False
      with all new b le False show ?thesis by (simp add: served_def post_def del: append_assoc)
    qed
  qed
qed

lemma served_send_body:
  assumes "served m out0" "h_state m = H_SEND_BODY" "calm (evs, i)"
    and "httpd_send_body_state timeo m evs i = Inr (m', ret, svcs, out)"
  shows "served m' (out0 @ out)"
proof -
  define off where "off = take (nat (min (int (length padding_data)) (h_length m))) padding_data"
  from assms(1,2) obtain body where b: "0 < h_length m" "h_length m + int (length body) \<le> int BUFSIZE"
      "out0 = announces (length body + nat (h_length m)) @ body" "length (h_header m) = BUFSIZE"
    by (auto simp: served_def)
  have lenoff: "int (length off) \<le> h_length m" using b(1) by (auto simp: off_def)
  define res where "res = hi_send i (length off)"
  obtain c where c: "conn_tcp_send_nb (h_conn m) res (hi_now i) = (res, c)"
    by (metis prod.collapse send_nb_fst)
  have le: "res \<le> int (length off)" using assms(3) by (simp add: calm_def res_def)
  show ?thesis
  proof (cases "res \<le> 0")
    case True
    with assms c show ?thesis
      by (auto simp: served_def httpd_send_body_state_def Let_def calm_def off_def [symmetric]
          res_def [symmetric] simp del: length_take)
  next
    case False
    let ?new = "take (nat res) off"
    have new: "h_length m' = h_length m - res \<and> h_header m' = h_header m \<and> out = ?new
        \<and> h_state m' = (if h_length m \<le> res then H_TERM else H_SEND_BODY)"
      using assms(3,4) False c b le lenoff
      by (auto simp: httpd_send_body_state_def Let_def calm_def off_def [symmetric] res_def [symmetric]
          simp del: length_take split: if_splits)
    have len: "length ?new = nat res" using le False by simp
    show ?thesis
    proof (cases "h_length m \<le> res")
      case True
      with le lenoff have "res = h_length m" by simp
      with len b(3) have "out0 @ ?new = announces (length (body @ ?new)) @ body @ ?new" by simp
      then have "\<exists>body. out0 @ out = announces (length body) @ body" using new by metis
      with True new b(4) show ?thesis by (simp add: served_def del: append_assoc)
    next
      case more: False
      have "length (body @ ?new) + nat (h_length m - res) = length body + nat (h_length m)"
        using len more False by (simp add: nat_diff_distrib)
      with b(3) have "out0 @ ?new = announces (length (body @ ?new) + nat (h_length m - res)) @ body @ ?new"
        by (simp only: append_assoc)
      moreover have "h_length m - res + int (length (body @ ?new)) \<le> int BUFSIZE"
        using b(2) len False by simp
      ultimately have "\<exists>body. 0 < h_length m - res \<and> h_length m - res + int (length body) \<le> int BUFSIZE
          \<and> out0 @ out = announces (length body + nat (h_length m - res)) @ body"
        using more new by (metis diff_gt_0_iff_gt not_le)
      then show ?thesis using more new b(4) by (simp add: served_def del: append_assoc)
    qed
  qed
qed

lemma served_turn:
  assumes "served m out0" "calm i" "httpd_driver timeo m (fst i) (snd i) = Inr (m', ret, svcs, out)"
  shows "served m' (out0 @ out)"
proof (cases "h_state m")
  case H_RECV
  with assms served_recv [of m out0 "fst i" "snd i"] show ?thesis by (simp add: httpd_driver_def)
next
  case H_PREPARE_HEADER
  with assms served_prepare [of m out0 "snd i"] show ?thesis by (simp add: httpd_driver_def)
next
  case H_SEND_HEADER
  with assms served_send_header [of m out0 "fst i" "snd i"] show ?thesis by (simp add: httpd_driver_def)
next
  case H_SEND_BODY
  with assms served_send_body [of m out0 "fst i" "snd i"] show ?thesis by (simp add: httpd_driver_def)
next
  case H_TERM
  with assms show ?thesis by (auto simp: httpd_driver_def)
next
  case H_Ex
  with assms(1) show ?thesis by (simp add: served_def)
qed

lemma served_run:
  "served m out0 \<Longrightarrow> \<forall>i\<in>set is. calm i \<Longrightarrow> soul_run (httpd_driver timeo) m is = Inr (m', rets, svcs, out)
     \<Longrightarrow> served m' (out0 @ out)"
proof (induction "is" arbitrary: m out0 rets svcs out)
  case (Cons i "is")
  from Cons.prems(3) obtain m1 ret svcs1 out1 where
    d: "httpd_driver timeo m (fst i) (snd i) = Inr (m1, ret, svcs1, out1)"
    by (auto simp: bindE_eq_Inr_iff)
  have s: "served m1 (out0 @ out1)" using Cons.prems d by (intro served_turn [OF _ _ d]) auto
  show ?case
  proof (cases "ret = TO_TERM")
    case True
    with Cons.prems(3) d s show ?thesis by auto
  next
    case False
    with Cons.prems(3) d obtain rets2 svcs2 out2 where
      r: "soul_run (httpd_driver timeo) m1 is = Inr (m', rets2, svcs2, out2)" "out = out1 @ out2"
      by (auto simp: bindE_eq_Inr_iff)
    have "\<forall>i\<in>set is. calm i" using Cons.prems(2) by simp
    from Cons.IH [OF s this r(1)] r(2) show ?thesis by simp
  qed
qed simp

text \<open>
  C13.  The server keeps what its header announces.  When no call fails and the \<open>memoirs\<close> do not
  overflow, the soul ends in \<open>ST_TERM\<close> with either nothing sent (the peer closed first) or the
  header followed by exactly the announced number of bytes; while it sends the body, what it sent
  and what it has still to send make up the announced number; and it never enters \<open>ST_Ex\<close>.
\<close>

theorem httpd_sends_announced:
  assumes "h_state m = H_RECV" and "length (h_header m) = 4096" and "\<forall>i\<in>set is. calm i"
    and "soul_run (httpd_driver timeo) m is = Inr (m', rets, svcs, out)"
  shows "h_state m' \<noteq> H_Ex
     \<and> (h_state m' = H_TERM \<longrightarrow> out = [] \<or> (\<exists>body. out = ascii (fake_http_header (length body)) @ body))
     \<and> (h_state m' = H_SEND_BODY \<longrightarrow>
          (\<exists>body. out = ascii (fake_http_header (length body + nat (h_length m'))) @ body))"
proof -
  have "served m []" using assms(1,2) by (simp add: served_def)
  from served_run [OF this assms(3,4)] show ?thesis
    by (cases "h_state m'") (auto simp: served_def announces_def)
qed

definition calm_sample :: "u64 \<times> httpd_io" where
  "calm_sample = (0, \<lparr>hi_recv = Got [71, 69, 84], hi_send = int, hi_errno = 11, hi_error = '''',
     hi_delta = 3, hi_nomem_io = False, hi_nomem_timer = False, hi_now = (1, 0)\<rparr>)"

lemma header_3: "length (fake_http_header 3) = 79"
  by (simp add: fake_http_header_def CRLF_def show_nat.simps)

lemma calm_run:
  "case soul_run (httpd_driver \<lparr>t_recv = 1000, t_send = 1000\<rparr>) httpd_sample
     [calm_sample, calm_sample, calm_sample, calm_sample] of
     Inl e \<Rightarrow> False | Inr (m', rets, svcs, out) \<Rightarrow> h_state m' = H_TERM \<and> out \<noteq> []"
proof -
  let ?t = "\<lparr>t_recv = 1000, t_send = 1000\<rparr>"
  have show3: "length (show_int 3) = 1" "length (show_int 79) = 2" by (simp_all add: show_int_def show_nat.simps)
  obtain m1 where m1: "httpd_driver ?t httpd_sample (fst calm_sample) (snd calm_sample) = Inr (m1, TO_RUN, [], [])"
    "h_state m1 = H_PREPARE_HEADER" "h_length m1 = 3" "length (h_header m1) = 4096" "length (h_memoirs m1) < 100"
    by (auto simp: httpd_driver_def httpd_recv_state_def calm_sample_def alarmed_def conn_tcp_recv_nb_def
        Let_def log_line_def show3 httpd_sample_def httpd_new_def goes_to_def memoir_def
        show_int_def show_nat.simps)
  obtain m2 where m2: "httpd_driver ?t m1 (fst calm_sample) (snd calm_sample) = Inr (m2, TO_RUN, [], [])"
    "h_state m2 = H_SEND_HEADER" "h_length m2 = 3" "h_header_pos m2 = 0" "h_header_len m2 = 79"
    "length (h_header m2) = 4096" "length (h_memoirs m2) < 200"
    using m1(2-5) by (auto simp: httpd_driver_def httpd_prepare_state_def calm_sample_def Let_def
        log_line_def show3 memoir_def header_3)
  obtain c2 where c2: "conn_tcp_send_nb (h_conn m2) 79 (1, 0) = (79, c2)"
    by (metis prod.collapse send_nb_fst)
  have nonempty: "h_header m2 \<noteq> []" using m2(6) by auto
  obtain m3 out where m3: "httpd_driver ?t m2 (fst calm_sample) (snd calm_sample) = Inr (m3, TO_RUN, [], out)"
    "h_state m3 = H_SEND_BODY" "h_length m3 = 3" "out \<noteq> []" "length (h_memoirs m3) < 300"
    using m2(2-7) c2 nonempty by (auto simp: httpd_driver_def httpd_send_header_state_def calm_sample_def Let_def alarmed_def
        log_line_def show3 goes_to_def memoir_def send_from_def)
  obtain c3 where c3: "conn_tcp_send_nb (h_conn m3) 3 (1, 0) = (3, c3)"
    by (metis prod.collapse send_nb_fst)
  obtain m4 out2 where m4: "httpd_driver ?t m3 (fst calm_sample) (snd calm_sample) = Inr (m4, TO_RUN, [], out2)"
    "h_state m4 = H_TERM"
    using m3(2-5) c3 by (auto simp: httpd_driver_def httpd_send_body_state_def calm_sample_def Let_def alarmed_def
        log_line_def show3 goes_to_def memoir_def padding_data_def)
  show ?thesis using m1(1) m2(1) m3(1,4) m4 by simp
qed

theorem httpd_sends_announced_witness:
  "\<exists>m' rets svcs body. soul_run (httpd_driver \<lparr>t_recv = 1000, t_send = 1000\<rparr>) httpd_sample
       [calm_sample, calm_sample, calm_sample, calm_sample]
        = Inr (m', rets, svcs, ascii (fake_http_header (length body)) @ body)"
proof -
  obtain m' rets svcs out where r: "soul_run (httpd_driver \<lparr>t_recv = 1000, t_send = 1000\<rparr>) httpd_sample
       [calm_sample, calm_sample, calm_sample, calm_sample] = Inr (m', rets, svcs, out)"
      "h_state m' = H_TERM" "out \<noteq> []"
    using calm_run by (auto split: sum.splits)
  have "\<forall>i\<in>set [calm_sample, calm_sample, calm_sample, calm_sample]. calm i"
    by (simp add: calm_def calm_sample_def alarmed_def)
  from httpd_sends_announced [OF _ _ this r(1)] r show ?thesis by auto
qed

end
