(* ===== verification/Cjson.thy ===== *)
theory Cjson
  imports Prelude
begin

text \<open>
  \<open>src/src/cJSON.c\<close>: JSON items as trees, JSON strings, and reading and writing JSON over a file
  descriptor.  A C string is the list of its characters without the final zero; a pointer into it
  is the rest of the list, and moving past the zero is \<open>OutOfBounds\<close>.  Numbers are floating
  point in the source: of an item's number only \<open>valueint\<close> is kept, and parsing and printing a
  number is an argument of the functions that need it.
\<close>

section \<open>Items\<close>

text \<open>
  \<open>struct cJSON\<close>: the children are the chain of \<open>next\<close> pointers from \<open>child\<close>.  References
  (\<open>cJSON_IsReference\<close>) share their children with another item and have no place in a tree.
\<close>

datatype cjson = Cjson (jtype: nat) (jchild: "cjson list") (jvaluestring: "string option")
    (jvalueint: int) (jstring: "string option")

abbreviation (input) cJSON_False :: nat where "cJSON_False \<equiv> 0"
abbreviation (input) cJSON_True :: nat where "cJSON_True \<equiv> 1"
abbreviation (input) cJSON_NULL :: nat where "cJSON_NULL \<equiv> 2"
abbreviation (input) cJSON_Number :: nat where "cJSON_Number \<equiv> 3"
abbreviation (input) cJSON_String :: nat where "cJSON_String \<equiv> 4"
abbreviation (input) cJSON_Array :: nat where "cJSON_Array \<equiv> 5"
abbreviation (input) cJSON_Object :: nat where "cJSON_Object \<equiv> 6"

definition cJSON_New_Item :: cjson where
  "cJSON_New_Item = Cjson 0 [] None 0 None"

definition cJSON_CreateNull :: cjson where "cJSON_CreateNull = Cjson cJSON_NULL [] None 0 None"
definition cJSON_CreateTrue :: cjson where "cJSON_CreateTrue = Cjson cJSON_True [] None 0 None"
definition cJSON_CreateFalse :: cjson where "cJSON_CreateFalse = Cjson cJSON_False [] None 0 None"

definition cJSON_CreateBool :: "bool \<Rightarrow> cjson" where
  "cJSON_CreateBool b = (if b then cJSON_CreateTrue else cJSON_CreateFalse)"

definition cJSON_CreateNumber :: "int \<Rightarrow> cjson" where
  "cJSON_CreateNumber n = Cjson cJSON_Number [] None n None"

text \<open>\<open>cJSON_strdup\<close> takes the length of the string without looking whether there is one.\<close>

definition cJSON_CreateString :: "string option \<Rightarrow> ub + cjson" where
  "cJSON_CreateString s =
     (case s of None \<Rightarrow> Inl NullDeref | Some t \<Rightarrow> Inr (Cjson cJSON_String [] (Some t) 0 None))"

definition cJSON_CreateArray :: cjson where "cJSON_CreateArray = Cjson cJSON_Array [] None 0 None"
definition cJSON_CreateObject :: cjson where "cJSON_CreateObject = Cjson cJSON_Object [] None 0 None"

definition cJSON_CreateIntArray :: "int list \<Rightarrow> cjson" where
  "cJSON_CreateIntArray ns = Cjson cJSON_Array (map cJSON_CreateNumber ns) None 0 None"

definition cJSON_CreateStringArray :: "string list \<Rightarrow> cjson" where
  "cJSON_CreateStringArray ss
     = Cjson cJSON_Array (map (\<lambda>s. Cjson cJSON_String [] (Some s) 0 None) ss) None 0 None"

section \<open>Children by position and by name\<close>

definition with_child :: "cjson \<Rightarrow> cjson list \<Rightarrow> cjson" where
  "with_child c cs = Cjson (jtype c) cs (jvaluestring c) (jvalueint c) (jstring c)"

definition with_name :: "cjson \<Rightarrow> string option \<Rightarrow> cjson" where
  "with_name c s = Cjson (jtype c) (jchild c) (jvaluestring c) (jvalueint c) s"

lemma with_simps [simp]:
  "jchild (with_child c cs) = cs" "jtype (with_child c cs) = jtype c" "jstring (with_child c cs) = jstring c"
  "jstring (with_name c s) = s" "jtype (with_name c s) = jtype c" "jchild (with_name c s) = jchild c"
  "jvaluestring (with_name c s) = jvaluestring c" "jvalueint (with_name c s) = jvalueint c"
  by (simp_all add: with_child_def with_name_def)

definition tolower :: "char \<Rightarrow> char" where
  "tolower c = (if 65 \<le> (of_char c :: nat) \<and> (of_char c :: nat) \<le> 90 then char_of ((of_char c :: nat) + 32) else c)"

text \<open>The result 0 of \<open>cJSON_strcasecmp\<close>: both names are missing, or both are equal up to case.\<close>

definition cJSON_strcasecmp :: "string option \<Rightarrow> string option \<Rightarrow> bool" where
  "cJSON_strcasecmp s1 s2 =
     (case s1 of None \<Rightarrow> s2 = None
      | Some t1 \<Rightarrow> (case s2 of None \<Rightarrow> False | Some t2 \<Rightarrow> map tolower t1 = map tolower t2))"

definition cJSON_GetArraySize :: "cjson \<Rightarrow> nat" where
  "cJSON_GetArraySize a = length (jchild a)"

text \<open>A negative position is the first one.\<close>

definition cJSON_GetArrayItem :: "cjson \<Rightarrow> int \<Rightarrow> cjson option" where
  "cJSON_GetArrayItem a i =
     (if nat i < length (jchild a) then Some (jchild a ! nat i) else None)"

definition find_name :: "cjson \<Rightarrow> string \<Rightarrow> nat option" where
  "find_name obj s = index_of (\<lambda>c. cJSON_strcasecmp (jstring c) (Some s)) (jchild obj)"

text \<open>\<open>None\<close> is the null pointer, for the object as for the result.\<close>

definition cJSON_GetObjectItem :: "cjson option \<Rightarrow> string \<Rightarrow> ub + cjson option" where
  "cJSON_GetObjectItem obj s =
     (case obj of None \<Rightarrow> Inl NullDeref
      | Some c \<Rightarrow> Inr (map_option ((!) (jchild c)) (find_name c s)))"

text \<open>The member that a lookup finds: the first one whose name fits up to case.\<close>

definition first_member :: "cjson \<Rightarrow> string \<Rightarrow> cjson option" where
  "first_member c s = List.find (\<lambda>m. cJSON_strcasecmp (jstring m) (Some s)) (jchild c)"

lemma index_of_find: "map_option ((!) xs) (index_of P xs) = List.find P xs"
  by (induction xs) (auto simp: option.map_comp comp_def)

lemma GetObjectItem_first: "cJSON_GetObjectItem (Some c) s = Inr (first_member c s)"
  by (simp add: cJSON_GetObjectItem_def find_name_def first_member_def index_of_find)

definition cJSON_AddItemToArray :: "cjson \<Rightarrow> cjson option \<Rightarrow> cjson" where
  "cJSON_AddItemToArray a item =
     (case item of None \<Rightarrow> a | Some i \<Rightarrow> with_child a (jchild a @ [i]))"

definition cJSON_AddItemToObject :: "cjson \<Rightarrow> string \<Rightarrow> cjson option \<Rightarrow> cjson" where
  "cJSON_AddItemToObject obj s item =
     (case item of None \<Rightarrow> obj | Some i \<Rightarrow> cJSON_AddItemToArray obj (Some (with_name i (Some s))))"

text \<open>
  \<open>cJSON_AddNumberToObject\<close>.  The number arrives as a \<open>double\<close>, which \<open>cJSON_CreateNumber\<close>
  converts to an \<open>int\<close>: outside its range that is undefined.
\<close>

definition add_number :: "cjson \<Rightarrow> string \<Rightarrow> int \<Rightarrow> ub + cjson" where
  "add_number obj s n =
     (if - 2147483648 \<le> n \<and> n < 2147483648
      then Inr (cJSON_AddItemToObject obj s (Some (cJSON_CreateNumber n))) else Inl IntOverflow)"

definition cJSON_DetachItemFromArray :: "cjson \<Rightarrow> int \<Rightarrow> cjson option \<times> cjson" where
  "cJSON_DetachItemFromArray a i =
     (let cs = jchild a; k = nat i in
      if k < length cs then (Some (cs ! k), with_child a (take k cs @ drop (Suc k) cs)) else (None, a))"

definition cJSON_DetachItemFromObject :: "cjson \<Rightarrow> string \<Rightarrow> cjson option \<times> cjson" where
  "cJSON_DetachItemFromObject obj s =
     (case find_name obj s of None \<Rightarrow> (None, obj) | Some k \<Rightarrow> cJSON_DetachItemFromArray obj (int k))"

definition cJSON_DeleteItemFromArray :: "cjson \<Rightarrow> int \<Rightarrow> cjson" where
  "cJSON_DeleteItemFromArray a i = snd (cJSON_DetachItemFromArray a i)"

definition cJSON_DeleteItemFromObject :: "cjson \<Rightarrow> string \<Rightarrow> cjson" where
  "cJSON_DeleteItemFromObject obj s = snd (cJSON_DetachItemFromObject obj s)"

definition cJSON_ReplaceItemInArray :: "cjson \<Rightarrow> int \<Rightarrow> cjson \<Rightarrow> cjson" where
  "cJSON_ReplaceItemInArray a i new =
     (if nat i < length (jchild a) then with_child a ((jchild a)[nat i := new]) else a)"

definition cJSON_ReplaceItemInObject :: "cjson \<Rightarrow> string \<Rightarrow> cjson \<Rightarrow> cjson" where
  "cJSON_ReplaceItemInObject obj s new =
     (case find_name obj s of None \<Rightarrow> obj
      | Some k \<Rightarrow> cJSON_ReplaceItemInArray obj (int k) (with_name new (Some s)))"

section \<open>Strings\<close>

definition code :: "char \<Rightarrow> nat" where
  "code c = of_char c"

definition hex_digit :: "nat \<Rightarrow> char" where
  "hex_digit n = (if n < 10 then char_of (48 + n) else char_of (87 + n))"

definition hex4 :: "nat \<Rightarrow> string" where
  "hex4 n = [hex_digit (n div 4096 mod 16), hex_digit (n div 256 mod 16),
             hex_digit (n div 16 mod 16), hex_digit (n mod 16)]"

text \<open>One character in a printed string.\<close>

definition print_char :: "char \<Rightarrow> string" where
  "print_char c =
     (if code c > 31 \<and> c \<noteq> CHR 0x22 \<and> c \<noteq> CHR 0x5C then [c]
      else CHR 0x5C #
        (if c = CHR 0x5C then [CHR 0x5C] else if c = CHR 0x22 then [CHR 0x22]
         else if code c = 8 then ''b'' else if code c = 12 then ''f'' else if code c = 10 then ''n''
         else if code c = 13 then ''r'' else if code c = 9 then ''t''
         else CHR ''u'' # hex4 (code c)))"

text \<open>What the first pass of \<open>print_string_ptr\<close> counts for a character.\<close>

definition print_width :: "char \<Rightarrow> nat" where
  "print_width c =
     (if c \<in> {CHR 0x22, CHR 0x5C} \<or> code c \<in> {8, 12, 10, 13, 9} then 2 else if code c < 32 then 6 else 1)"

definition print_text :: "string option \<Rightarrow> string" where
  "print_text s =
     (case s of None \<Rightarrow> [] | Some t \<Rightarrow> CHR 0x22 # concat (map print_char t) @ [CHR 0x22])"

text \<open>The buffer has room for what was counted, two quotes and the zero.\<close>

definition print_string_ptr :: "string option \<Rightarrow> ub + string" where
  "print_string_ptr s =
     (case s of None \<Rightarrow> Inr []
      | Some t \<Rightarrow>
          if length (print_text s) + 1 > sum_list (map print_width t) + 3 then Inl OutOfBounds
          else Inr (print_text s))"

definition is_space :: "char \<Rightarrow> bool" where
  "is_space c \<longleftrightarrow> code c = 32 \<or> 9 \<le> code c \<and> code c \<le> 13"

definition hex_value :: "char \<Rightarrow> nat option" where
  "hex_value c =
     (if 48 \<le> code c \<and> code c \<le> 57 then Some (code c - 48)
      else if 65 \<le> code c \<and> code c \<le> 70 then Some (code c - 55)
      else if 97 \<le> code c \<and> code c \<le> 102 then Some (code c - 87) else None)"

definition hex_number :: "string \<Rightarrow> nat option" where
  "hex_number s =
     (let ds = takeWhile (\<lambda>c. hex_value c \<noteq> None) s in
      if ds = [] then None else Some (foldl (\<lambda>n c. 16 * n + the (hex_value c)) 0 ds))"

text \<open>
  \<open>sscanf(s, "%4x", &uc)\<close>: white space, then at most four characters of an optional sign, an
  optional prefix and digits.  \<open>None\<close> leaves the variable as it was.
\<close>

definition scan_4x :: "string \<Rightarrow> u32 option" where
  "scan_4x s =
     (let t = take 4 (dropWhile is_space s);
          neg = (t \<noteq> [] \<and> hd t = CHR ''-'');
          t = (if t \<noteq> [] \<and> (hd t = CHR ''-'' \<or> hd t = CHR ''+'') then tl t else t);
          t = (if take 2 t = ''0x'' \<or> take 2 t = ''0X'' then (if drop 2 t = [] then ''0'' else drop 2 t) else t) in
      map_option (\<lambda>n. if neg then - of_nat n else of_nat n) (hex_number t))"

text \<open>The bytes of a code point in UTF-8.\<close>

definition utf8 :: "nat \<Rightarrow> string" where
  "utf8 uc =
     (if uc < 0x80 then [char_of uc]
      else if uc < 0x800 then [char_of (0xC0 + uc div 64 mod 32), char_of (0x80 + uc mod 64)]
      else if uc < 0x10000
      then [char_of (0xE0 + uc div 4096 mod 16), char_of (0x80 + uc div 64 mod 64), char_of (0x80 + uc mod 64)]
      else [char_of (0xF0 + uc div 262144 mod 16), char_of (0x80 + uc div 4096 mod 64),
            char_of (0x80 + uc div 64 mod 64), char_of (0x80 + uc mod 64)])"

text \<open>What is left of the variable after \<open>utf8\<close> has shifted the lower bytes out of it.\<close>

definition spent :: "nat \<Rightarrow> nat" where
  "spent uc = (if uc < 0x80 then uc else if uc < 0x800 then uc div 64
               else if uc < 0x10000 then uc div 4096 else uc div 262144)"

text \<open>
  The first pass of \<open>parse_string\<close>: the number of characters up to the closing quote, an escape
  counted once.
\<close>

fun scan_len :: "string \<Rightarrow> ub + nat" where
  "scan_len [] = Inr 0"
| "scan_len (c # s) =
     (if c = CHR 0x22 then Inr 0
      else if c = CHR 0x5C
      then (case s of [] \<Rightarrow> Inl OutOfBounds | e # t \<Rightarrow> bindE (scan_len t) (\<lambda>n. Inr (Suc n)))
      else bindE (scan_len s) (\<lambda>n. Inr (Suc n)))"

definition prepend :: "string \<Rightarrow> ub + (string \<times> string) \<Rightarrow> ub + (string \<times> string)" where
  "prepend out r = bindE r (\<lambda>(out', rest). Inr (out @ out', rest))"

lemma prepend_Inr [simp]: "prepend out (Inr (out', rest)) = Inr (out @ out', rest)"
  by (simp add: prepend_def)

text \<open>
  The second pass.  \<open>u\<close> and \<open>u2\<close> are the variables \<open>uc\<close> and \<open>uc2\<close>, unset at first.  The four
  characters after \<open>\u\<close> are skipped whatever they are.
\<close>

function unescape :: "nat option \<Rightarrow> nat option \<Rightarrow> string \<Rightarrow> ub + (string \<times> string)" where
  "unescape u u2 [] = Inr ([], [])"
| "unescape u u2 (c # s) =
     (if c = CHR 0x22 then Inr ([], c # s)
      else if c \<noteq> CHR 0x5C then prepend [c] (unescape u u2 s)
      else case s of
        [] \<Rightarrow> Inl OutOfBounds
      | e # t \<Rightarrow>
          if e = CHR ''b'' then prepend [char_of (8 :: nat)] (unescape u u2 t)
          else if e = CHR ''f'' then prepend [char_of (12 :: nat)] (unescape u u2 t)
          else if e = CHR ''n'' then prepend [char_of (10 :: nat)] (unescape u u2 t)
          else if e = CHR ''r'' then prepend [char_of (13 :: nat)] (unescape u u2 t)
          else if e = CHR ''t'' then prepend [char_of (9 :: nat)] (unescape u u2 t)
          else if e \<noteq> CHR ''u'' then prepend [e] (unescape u u2 t)
          else
            case (case scan_4x t of Some w \<Rightarrow> Some (unat w) | None \<Rightarrow> u) of
              None \<Rightarrow> Inl Uninitialised
            | Some uc \<Rightarrow>
                if length t < 4 then Inl OutOfBounds
                else if 0xDC00 \<le> uc \<and> uc \<le> 0xDFFF \<or> uc = 0 then unescape (Some uc) u2 (drop 4 t)
                else if 0xD800 \<le> uc \<and> uc \<le> 0xDBFF then
                  if take 2 (drop 4 t) \<noteq> [CHR 0x5C, CHR ''u''] then unescape (Some uc) u2 (drop 4 t)
                  else
                    (case (case scan_4x (drop 6 t) of Some w \<Rightarrow> Some (unat w) | None \<Rightarrow> u2) of
                       None \<Rightarrow> Inl Uninitialised
                     | Some uc2 \<Rightarrow>
                         if length t < 10 then Inl OutOfBounds
                         else if uc2 < 0xDC00 \<or> uc2 > 0xDFFF
                         then unescape (Some uc) (Some uc2) (drop 10 t)
                         else
                           let full = or 0x10000 (or ((uc mod 1024) * 1024) (uc2 mod 1024)) in
                           prepend (utf8 full) (unescape (Some (spent full)) (Some uc2) (drop 10 t)))
                else prepend (utf8 uc) (unescape (Some (spent uc)) u2 (drop 4 t)))"
  by pat_completeness auto
termination
  by (relation "measure (\<lambda>(u, u2, s). length s)") auto

declare unescape.simps(2) [simp del]

text \<open>
  \<open>parse_string\<close>: the text starts with a quote, or it is no string.  The buffer of the first pass
  has \<open>len + 1\<close> bytes; the second pass fills it.  The result is the string and what follows it.
\<close>

definition parse_string :: "string \<Rightarrow> ub + (string \<times> string) option" where
  "parse_string text =
     (if text = [] \<or> hd text \<noteq> CHR 0x22 then Inr None
      else bindE (scan_len (tl text)) (\<lambda>len.
           bindE (unescape None None (tl text)) (\<lambda>(out, rest).
           if length out > len then Inl OutOfBounds
           else Inr (Some (out, if rest \<noteq> [] then tl rest else [])))))"

section \<open>Printed strings are read back\<close>

lemma length_print_char: "length (print_char c) = print_width c"
  by (auto simp: print_char_def print_width_def hex4_def code_def)

text \<open>\<open>print_string_ptr\<close> never leaves its buffer.\<close>

lemma print_string_fits:
  "print_string_ptr (Some t) = Inr (CHR 0x22 # concat (map print_char t) @ [CHR 0x22])"
  by (simp add: print_string_ptr_def print_text_def length_concat length_print_char comp_def)

lemma code_less_32: "code c < 32 \<Longrightarrow> \<exists>n<32. c = char_of n \<and> code c = n"
  by (intro exI [of _ "code c"]) (simp add: code_def)

lemma hex_value_digit [simp]: "k < 16 \<Longrightarrow> hex_value (hex_digit k) = Some k"
  by (auto simp: hex_value_def hex_digit_def code_def)

lemma hex_digit_0: "hex_digit 0 = CHR ''0''"
  by code_simp

lemma hex_digit_neq:
  assumes "k < 16" and "hex_value c = None"
  shows "hex_digit k \<noteq> c"
  using hex_value_digit [OF assms(1)] assms(2) by auto

lemma no_digits:
  "hex_value (CHR ''-'') = None" "hex_value (CHR ''+'') = None" "hex_value (CHR ''x'') = None"
  "hex_value (CHR ''X'') = None" "is_space c \<Longrightarrow> hex_value c = None"
  by (auto simp: hex_value_def is_space_def code_def)

lemma four_digits:
  fixes n :: nat
  assumes "n < 65536"
  shows "16 * (16 * (16 * (n div 4096 mod 16) + n div 256 mod 16) + n div 16 mod 16) + n mod 16 = n"
proof -
  have "n div 4096 = n div 256 div 16" "n div 256 = n div 16 div 16"
    using div_mult2_eq [of n 256 16] div_mult2_eq [of n 16 16] by simp_all
  moreover have "n div 4096 < 16" using assms by simp
  ultimately have "n div 4096 mod 16 = n div 256 div 16" "n div 256 = n div 16 div 16" by simp_all
  moreover have "16 * (m div 16) + m mod 16 = m" for m :: nat by simp
  ultimately show ?thesis by metis
qed

lemma scan_4x_hex4:
  assumes "n < 65536"
  shows "scan_4x (hex4 n @ rest) = Some (of_nat n)"
proof -
  define a b c d where "a = n div 4096 mod 16" "b = n div 256 mod 16" "c = n div 16 mod 16" "d = n mod 16"
  then have lt: "a < 16" "b < 16" "c < 16" "d < 16" by simp_all
  have hex: "hex4 n = [hex_digit a, hex_digit b, hex_digit c, hex_digit d]"
    by (simp add: hex4_def a_b_c_d_def)
  have "\<not> is_space (hex_digit a)" using no_digits(5) [of "hex_digit a"] hex_value_digit [OF lt(1)] by auto
  then have "take 4 (dropWhile is_space (hex4 n @ rest)) = hex4 n" by (simp add: hex)
  moreover have "hex_number (hex4 n) = Some (16 * (16 * (16 * a + b) + c) + d)"
    using lt by (simp add: hex_number_def hex Let_def)
  moreover have "16 * (16 * (16 * a + b) + c) + d = n"
    unfolding a_b_c_d_def by (rule four_digits [OF assms])
  moreover have "hex_digit a \<noteq> CHR ''-''" "hex_digit a \<noteq> CHR ''+''"
    "hex_digit b \<noteq> CHR ''x''" "hex_digit b \<noteq> CHR ''X''"
    using hex_digit_neq lt no_digits by blast+
  ultimately show ?thesis by (simp add: scan_4x_def Let_def hex)
qed

text \<open>One printed character is read back, whatever the variables of the reader hold.\<close>

lemma unescape_print_char:
  assumes "code c \<noteq> 0"
  shows "\<exists>u'. unescape u u2 (print_char c @ s) = prepend [c] (unescape u' u2 s)"
proof -
  consider "code c > 31" "c \<noteq> CHR 0x22" "c \<noteq> CHR 0x5C" | "c = CHR 0x22 \<or> c = CHR 0x5C"
    | "code c \<in> {8, 12, 10, 13, 9}" "c \<noteq> CHR 0x22" "c \<noteq> CHR 0x5C"
    | "code c \<le> 31" "code c \<notin> {8, 12, 10, 13, 9}" "c \<noteq> CHR 0x22" "c \<noteq> CHR 0x5C"
    by fastforce
  then show ?thesis
  proof cases
    case 1
    then show ?thesis by (auto simp: print_char_def unescape.simps(2))
  next
    case 2
    then show ?thesis by (auto simp: print_char_def unescape.simps(2) code_def)
  next
    case 3
    then have "c = char_of (code c)" by (simp add: code_def)
    with 3 show ?thesis by (auto simp: print_char_def unescape.simps(2))
  next
    case 4
    let ?n = "code c"
    have p: "print_char c = CHR 0x5C # CHR ''u'' # hex4 ?n" using 4 by (simp add: print_char_def)
    have "unat (of_nat ?n :: u32) = ?n" using 4(1) by (simp add: unsigned_of_nat take_bit_nat_eq_self)
    moreover have "utf8 ?n = [c]" using 4(1) by (simp add: utf8_def code_def)
    moreover have "length (hex4 ?n) = 4" by (simp add: hex4_def)
    ultimately have "unescape u u2 (print_char c @ s) = prepend [c] (unescape (Some (spent ?n)) u2 s)"
      using 4(1) assms scan_4x_hex4 [of ?n s] by (simp add: p unescape.simps(2))
    then show ?thesis by blast
  qed
qed

lemma unescape_printed:
  "\<forall>c\<in>set t. code c \<noteq> 0 \<Longrightarrow>
     unescape u u2 (concat (map print_char t) @ CHR 0x22 # rest) = Inr (t, CHR 0x22 # rest)"
proof (induction t arbitrary: u)
  case Nil
  then show ?case by (simp add: unescape.simps(2))
next
  case (Cons c t)
  obtain u' where "unescape u u2 (print_char c @ concat (map print_char t) @ CHR 0x22 # rest)
      = prepend [c] (unescape u' u2 (concat (map print_char t) @ CHR 0x22 # rest))"
    using unescape_print_char [of c u u2] Cons.prems by auto
  with Cons show ?case by simp
qed

lemma scan_len_plain:
  "CHR 0x22 \<notin> set xs \<Longrightarrow> CHR 0x5C \<notin> set xs \<Longrightarrow>
     scan_len (xs @ s) = bindE (scan_len s) (\<lambda>n. Inr (length xs + n))"
proof (induction xs)
  case Nil
  then show ?case by (cases "scan_len s") simp_all
next
  case (Cons x xs)
  then show ?case by (cases "scan_len s") auto
qed

lemma hex_digit_plain: "k < 16 \<Longrightarrow> CHR 0x22 \<noteq> hex_digit k \<and> CHR 0x5C \<noteq> hex_digit k"
proof -
  have "hex_value (CHR 0x22) = None" "hex_value (CHR 0x5C) = None"
    by (simp_all add: hex_value_def code_def)
  then show "k < 16 \<Longrightarrow> ?thesis" using hex_value_digit [of k] by force
qed

lemma scan_len_print_char:
  "\<exists>k>0. scan_len (print_char c @ s) = bindE (scan_len s) (\<lambda>n. Inr (k + n))"
proof (cases "code c > 31 \<and> c \<noteq> CHR 0x22 \<and> c \<noteq> CHR 0x5C")
  case True
  then show ?thesis by (intro exI [of _ 1]) (simp add: print_char_def)
next
  case False
  then have "\<exists>e t. print_char c = CHR 0x5C # e # t \<and> CHR 0x22 \<notin> set t \<and> CHR 0x5C \<notin> set t"
    using hex_digit_plain by (auto simp: print_char_def hex4_def)
  then obtain e t where p: "print_char c = CHR 0x5C # e # t" "CHR 0x22 \<notin> set t" "CHR 0x5C \<notin> set t"
    by blast
  have "scan_len (print_char c @ s) = bindE (scan_len (t @ s)) (\<lambda>n. Inr (Suc n))" by (simp add: p(1))
  also have "\<dots> = bindE (scan_len s) (\<lambda>n. Inr (Suc (length t) + n))"
    using scan_len_plain [OF p(2,3), of s] by (cases "scan_len s") simp_all
  finally show ?thesis by (intro exI [of _ "Suc (length t)"]) simp
qed

lemma scan_len_printed:
  "\<exists>n\<ge>length t. scan_len (concat (map print_char t) @ CHR 0x22 # rest) = Inr n"
proof (induction t)
  case (Cons c t)
  then obtain n where n: "length t \<le> n" "scan_len (concat (map print_char t) @ CHR 0x22 # rest) = Inr n"
    by blast
  obtain k where k: "k > 0" "scan_len (print_char c @ concat (map print_char t) @ CHR 0x22 # rest)
      = bindE (scan_len (concat (map print_char t) @ CHR 0x22 # rest)) (\<lambda>n. Inr (k + n))"
    using scan_len_print_char by blast
  show ?case using n k by (intro exI [of _ "k + n"]) simp
qed simp

lemma parse_printed:
  assumes "\<forall>c\<in>set t. code c \<noteq> 0"
  shows "parse_string (print_text (Some t) @ rest) = Inr (Some (t, rest))"
proof -
  obtain n where "length t \<le> n" "scan_len (concat (map print_char t) @ CHR 0x22 # rest) = Inr n"
    using scan_len_printed by blast
  with unescape_printed [OF assms, of None None rest] show ?thesis
    by (simp add: print_text_def parse_string_def)
qed

text \<open>
  Strings survive printing and parsing.  Every string (without the terminating zero) is printed
  without leaving the buffer, and from the printed text, whatever follows it, \<open>parse_string\<close> reads
  back exactly the string, control characters and bytes above 127 included, and stops right behind
  the closing quote.
\<close>

theorem json_string_roundtrip:
  assumes "\<forall>c\<in>set t. code c \<noteq> 0"
  shows "\<exists>out. print_string_ptr (Some t) = Inr out \<and> parse_string (out @ rest) = Inr (Some (t, rest))"
  using parse_printed [OF assms, of rest] by (simp add: print_string_fits print_text_def)

theorem json_string_roundtrip_witness:
  "\<exists>out. print_string_ptr (Some ''a\<newline>b'') = Inr out \<and> parse_string (out @ '', x'') = Inr (Some (''a\<newline>b'', '', x''))"
  using json_string_roundtrip [of "''a\<newline>b''" "'', x''"] by (simp add: code_def)

text \<open>
  Parsing a hostile string overflows the heap.  The first pass ends at a quote inside the four
  characters after \<open>\u\<close>, while the second pass skips them: what follows up to the next quote,
  however long, is written into a buffer of three bytes.
\<close>

theorem json_string_overflow:
  assumes "CHR 0x22 \<notin> set payload" and "CHR 0x5C \<notin> set payload" and "2 \<le> length payload"
  shows "parse_string ([CHR 0x22, CHR 0x5C, CHR ''u'', CHR ''1'', CHR 0x22, x, y] @ payload @ CHR 0x22 # rest)
     = Inl OutOfBounds"
proof -
  have plain: "unescape u u2 (payload @ CHR 0x22 # rest) = Inr (payload, CHR 0x22 # rest)" for u u2
    using assms(1,2) by (induction payload) (auto simp: unescape.simps(2))
  let ?t = "CHR ''1'' # CHR 0x22 # x # y # payload @ CHR 0x22 # rest"
  have "scan_4x ?t = Some 1"
    by (simp add: scan_4x_def is_space_def code_def hex_number_def hex_value_def Let_def)
  then have "unescape None None (CHR 0x5C # CHR ''u'' # ?t) = Inr (utf8 1 @ payload, CHR 0x22 # rest)"
    using plain by (simp add: unescape.simps(2))
  moreover have "scan_len (CHR 0x5C # CHR ''u'' # ?t) = Inr 2" by (simp add: numeral_2_eq_2)
  ultimately show ?thesis using assms(3) by (simp add: parse_string_def utf8_def)
qed

theorem json_string_overflow_witness:
  "parse_string ([CHR 0x22, CHR 0x5C, CHR ''u'', CHR ''1'', CHR 0x22, CHR ''x'', CHR ''y''] @ ''abc'' @ CHR 0x22 # [])
     = Inl OutOfBounds"
  by (rule json_string_overflow) simp_all

section \<open>Surrogate pairs\<close>

lemma unat_u32: "n < 65536 \<Longrightarrow> unat (of_nat n :: u32) = n"
  by (simp add: unsigned_of_nat take_bit_nat_eq_self)

lemma low_or: "(x :: nat) < 1024 \<Longrightarrow> or (y * 1024) x = y * 1024 + x"
proof -
  assume x: "x < 1024"
  have "push_bit 10 y + take_bit 10 x = or (push_bit 10 y) (take_bit 10 x)"
    by (rule disjunctive_add) (simp add: bit_push_bit_iff_nat bit_take_bit_iff)
  with x show ?thesis by (simp add: push_bit_eq_mult take_bit_nat_eq_self)
qed

lemma or_bit_16: "or 0x10000 q = (if odd (q div 0x10000) then q else 0x10000 + q)" for q :: nat
proof -
  have b: "bit (push_bit 16 (1 :: nat)) n \<longleftrightarrow> n = 16" for n
    by (auto simp only: bit_push_bit_iff_nat bit_1_iff)
  have "or (push_bit 16 1) q = (if bit q 16 then q else push_bit 16 1 + q)"
  proof (cases "bit q 16")
    case True
    then have "or (push_bit 16 1) q = q"
      by (intro bit_eqI) (auto simp only: bit_or_iff b)
    with True show ?thesis by simp
  next
    case False
    then have "push_bit 16 1 + q = or (push_bit 16 1) q"
      by (intro disjunctive_add) (auto simp only: b)
    with False show ?thesis by simp
  qed
  then show ?thesis by (simp add: bit_iff_odd push_bit_eq_mult)
qed

text \<open>
  A character beyond the basic plane, written as a pair of surrogates: the high bits are joined
  with \<open>|\<close> instead of \<open>+\<close>, so that only the characters of the odd planes are read correctly; a
  character of an even plane, for example of the second ideographic plane, becomes the one
  65536 below it.
\<close>

theorem json_surrogates:
  assumes "0x10000 \<le> p" and "p < 0x110000"
  shows "unescape u u2 (CHR 0x5C # CHR ''u'' # hex4 (0xD800 + (p - 0x10000) div 1024)
            @ CHR 0x5C # CHR ''u'' # hex4 (0xDC00 + (p - 0x10000) mod 1024) @ CHR 0x22 # rest)
       = Inr (utf8 (if odd (p div 0x10000) then p else p - 0x10000), CHR 0x22 # rest)"
proof -
  define q where "q = p - 0x10000"
  define hi lo where "hi = 0xD800 + q div 1024" "lo = 0xDC00 + q mod 1024"
  have q: "q < 0x100000" "p = 0x10000 + q" using assms by (simp_all add: q_def)
  have plane: "p div 0x10000 = Suc (q div 0x10000)" using q(2) div_add_self1 [of "0x10000" q] by simp
  from q have "q div 1024 < 1024" by simp
  then have hi: "0xD800 \<le> hi" "hi \<le> 0xDBFF" "hi mod 1024 = q div 1024"
    using mod_mult_self3 [of 54 1024 "q div 1024"] by (simp_all add: hi_lo_def)
  have "q mod 1024 < 1024" by simp
  then have lo: "0xDC00 \<le> lo" "lo \<le> 0xDFFF" "lo mod 1024 = q mod 1024"
    using mod_mult_self3 [of 55 1024 "q mod 1024"] by (simp_all add: hi_lo_def del: mod_less_divisor)
  have "or (0x10000 :: nat) (or (hi mod 1024 * 1024) (lo mod 1024)) = or 0x10000 (q div 1024 * 1024 + q mod 1024)"
    by (simp add: hi lo low_or)
  also have "\<dots> = or 0x10000 q" by simp
  also have "\<dots> = (if odd (p div 0x10000) then p else p - 0x10000)"
    using or_bit_16 [of q] plane q(2) by simp
  finally have full: "or (0x10000 :: nat) (or (hi mod 1024 * 1024) (lo mod 1024)) = (if odd (p div 0x10000) then p else q)" unfolding q_def .
  have len: "length (hex4 n) = 4" and ne: "hex4 n \<noteq> []" for n by (simp_all add: hex4_def)
  have w: "unat (of_nat hi :: u32) = hi" "unat (of_nat lo :: u32) = lo" using hi lo by (simp_all add: unat_u32)
  have s: "scan_4x (hex4 hi @ r) = Some (of_nat hi)" "scan_4x (hex4 lo @ r) = Some (of_nat lo)" for r
    using hi lo by (simp_all add: scan_4x_hex4)
  let ?s = "hex4 hi @ CHR 0x5C # CHR ''u'' # hex4 lo @ CHR 0x22 # rest"
  have drops: "drop 4 ?s = CHR 0x5C # CHR ''u'' # hex4 lo @ CHR 0x22 # rest" "drop 6 ?s = hex4 lo @ CHR 0x22 # rest"
    "drop 10 ?s = CHR 0x22 # rest" "length ?s = 11 + length rest"
    by (simp_all add: len)
  show ?thesis
    unfolding q_def [symmetric] hi_lo_def [symmetric]
    using hi lo full
    by (subst unescape.simps(2)) (simp add: drops s w len ne unescape.simps(2) [of _ _ "CHR 0x22"] Let_def del: drop_append)
qed

theorem json_surrogates_witness:
  "unescape None None (CHR 0x5C # CHR ''u'' # hex4 (0xD800 + (0x20000 - 0x10000) div 1024)
            @ CHR 0x5C # CHR ''u'' # hex4 (0xDC00 + (0x20000 - 0x10000) mod 1024) @ CHR 0x22 # [])
       = Inr (utf8 0x10000, [CHR 0x22])"
  using json_surrogates [where p = "0x20000" and u = None and ?u2.0 = None and rest = "[]"] by simp

end
