(* ===== verification/Room_Config.thy ===== *)
theory Room_Config
  imports Cjson
begin

text \<open>
  The configuration of the rooms \<open>echo\<close> and \<open>fake_httpd\<close>: the function \<open>get_config\<close>, which both
  modules have in the same words (\<open>src/src/modules/*/mod.c\<close>).  Name resolution is an argument.
\<close>

text \<open>The static variables that are set; the other two time-outs stay zero.\<close>

record 'a room_vars =
  local_addr :: "'a option"
  timeo_recv :: u32
  timeo_send :: u32

definition room_vars_start :: "'a room_vars" where
  "room_vars_start = \<lparr>local_addr = None, timeo_recv = 0, timeo_send = 0\<rparr>"

text \<open>\<open>value = cJSON_GetObjectItem(conf, s); value->type\<close>: a missing member is a null pointer.\<close>

definition conf_value :: "cjson option \<Rightarrow> string \<Rightarrow> ub + cjson" where
  "conf_value conf s =
     bindE (cJSON_GetObjectItem conf s) (\<lambda>v. case v of None \<Rightarrow> Inl NullDeref | Some c \<Rightarrow> Inr c)"

definition get_config ::
  "(string option \<Rightarrow> string \<Rightarrow> 'a option) \<Rightarrow> cjson option \<Rightarrow> 'a room_vars \<Rightarrow> ub + int \<times> 'a room_vars" where
  "get_config getaddrinfo conf g =
     bindE (conf_value conf ''Enabled'') (\<lambda>value.
     if jtype value \<noteq> cJSON_True then Inr (-1, g) else
     bindE (conf_value conf ''LocalAddr'') (\<lambda>value.
     if jtype value \<noteq> cJSON_String then Inr (-1, g) else
     let Host = jvaluestring value in
     bindE (conf_value conf ''LocalPort'') (\<lambda>value.
     if jtype value \<noteq> cJSON_Number then Inr (-1, g) else
     let Port = show_int (jvalueint value) in
     case getaddrinfo Host Port of
       None \<Rightarrow> Inr (-1, g)
     | Some addr \<Rightarrow>
         let g = g\<lparr>local_addr := Some addr\<rparr> in
         bindE (conf_value conf ''TimeOut_Recv_ms'') (\<lambda>value.
         if jtype value \<noteq> cJSON_Number then Inr (-1, g) else
         let g = g\<lparr>timeo_recv := word_of_int (jvalueint value)\<rparr> in
         bindE (conf_value conf ''TimeOut_Send_ms'') (\<lambda>value.
         if jtype value \<noteq> cJSON_Number then Inr (-1, g) else
         Inr (0, g\<lparr>timeo_send := word_of_int (jvalueint value)\<rparr>))))))"

text \<open>\<open>fake_httpd\<close> has the same function once more, but for a comment.\<close>

definition httpd_get_config ::
  "(string option \<Rightarrow> string \<Rightarrow> 'a option) \<Rightarrow> cjson option \<Rightarrow> 'a room_vars \<Rightarrow> ub + int \<times> 'a room_vars" where
  "httpd_get_config = get_config"

section \<open>What is accepted\<close>

text \<open>The members in the order they are looked at, with the type each must have.\<close>

definition config_members :: "(string \<times> nat) list" where
  "config_members = [(''Enabled'', cJSON_True), (''LocalAddr'', cJSON_String), (''LocalPort'', cJSON_Number),
     (''TimeOut_Recv_ms'', cJSON_Number), (''TimeOut_Send_ms'', cJSON_Number)]"

definition member_of :: "cjson \<Rightarrow> string \<Rightarrow> cjson" where
  "member_of c s = the (first_member c s)"

definition complete_config :: "cjson \<Rightarrow> bool" where
  "complete_config c \<longleftrightarrow> list_all (\<lambda>(s, t). first_member c s \<noteq> None) config_members"

definition legal_config :: "cjson \<Rightarrow> bool" where
  "legal_config c \<longleftrightarrow> list_all (\<lambda>(s, t). map_option jtype (first_member c s) = Some t) config_members"

text \<open>The first member that is missing comes before any of a wrong type.\<close>

definition missing_first :: "cjson \<Rightarrow> bool" where
  "missing_first c \<longleftrightarrow>
     (case List.find (\<lambda>(s, t). map_option jtype (first_member c s) \<noteq> Some t) config_members of
        None \<Rightarrow> False | Some (s, t) \<Rightarrow> first_member c s = None)"

definition config_host :: "cjson \<Rightarrow> string option" where
  "config_host c = jvaluestring (member_of c ''LocalAddr'')"

definition config_port :: "cjson \<Rightarrow> string" where
  "config_port c = show_int (jvalueint (member_of c ''LocalPort''))"

lemma conf_value_first:
  "conf_value (Some c) s = (case first_member c s of None \<Rightarrow> Inl NullDeref | Some m \<Rightarrow> Inr m)"
  by (simp add: conf_value_def GetObjectItem_first split: option.splits)

text \<open>
  When the address can be resolved, the configuration of a room is accepted exactly when all its
  members have their types, and then the variables are what it says; the module crashes exactly
  when the first member that is not as it should be is missing, and refuses otherwise.
\<close>

lemma get_config_cases:
  assumes "\<forall>host port. getaddrinfo host port \<noteq> None"
  shows "(if missing_first c then get_config getaddrinfo (Some c) g = Inl NullDeref
     else if legal_config c
     then get_config getaddrinfo (Some c) g = Inr (0,
       \<lparr>local_addr = getaddrinfo (config_host c) (config_port c),
        timeo_recv = word_of_int (jvalueint (member_of c ''TimeOut_Recv_ms'')),
        timeo_send = word_of_int (jvalueint (member_of c ''TimeOut_Send_ms''))\<rparr>)
     else \<exists>g'. get_config getaddrinfo (Some c) g = Inr (-1, g'))"
proof -
  have addr: "\<exists>a. getaddrinfo h p = Some a" for h p
    using assms by blast
  obtain a where a: "getaddrinfo (config_host c) (config_port c) = Some a" using addr by blast
  note defs = get_config_def conf_value_first Let_def missing_first_def legal_config_def config_members_def
    config_host_def config_port_def member_of_def
  show ?thesis
  proof (cases "map_option jtype (first_member c ''Enabled'') = Some cJSON_True
      \<and> map_option jtype (first_member c ''LocalAddr'') = Some cJSON_String
      \<and> map_option jtype (first_member c ''LocalPort'') = Some cJSON_Number")
    case False
    then show ?thesis
      by (cases "first_member c ''Enabled''"; cases "first_member c ''LocalAddr''"; cases "first_member c ''LocalPort''")
         (auto simp: defs split: if_splits)
  next
    case True
    then obtain e h p where m: "first_member c ''Enabled'' = Some e" "jtype e = cJSON_True"
      "first_member c ''LocalAddr'' = Some h" "jtype h = cJSON_String"
      "first_member c ''LocalPort'' = Some p" "jtype p = cJSON_Number" by auto
    with a have "getaddrinfo (jvaluestring h) (show_int (jvalueint p)) = Some a"
      by (simp add: config_host_def config_port_def member_of_def)
    with m show ?thesis
      by (cases "first_member c ''TimeOut_Recv_ms''"; cases "first_member c ''TimeOut_Send_ms''")
         (auto simp: defs)
  qed
qed

text \<open>The text of a port fits the twelve characters of \<open>Port\<close>.\<close>

lemma port_fits:
  assumes "- 2147483648 \<le> n" and "n \<le> 2147483647"
  shows "length (show_int n) + 1 \<le> 12"
proof -
  have "length (show_nat (nat (abs n))) \<le> 10" by (rule length_show_nat) (use assms in simp_all)
  then show ?thesis by (cases "n < 0") (simp_all add: show_int_def)
qed

end
