(* ===== verification/Cjson_Io.thy ===== *)
theory Cjson_Io
  imports Cjson
begin

text \<open>
  \<open>cJSON_fdParse\<close> and \<open>cJSON_fdPrint\<close> of \<open>src/src/cJSON.c\<close>: finding one JSON document in a
  stream of bytes by counting brackets, and writing one out.
\<close>

section \<open>Reading\<close>

text \<open>The answers of \<open>read(fd, c, 1)\<close>; the end of the list is the end of the file.\<close>

datatype fd_read = Byte char | ReadErr int

record fd_state =
  fs_c :: char
  fs_str :: string
  fs_strsize :: int
  fs_freecount :: int
  fs_level :: int
  fs_begun :: bool

definition fd_init :: fd_state where
  "fd_init = \<lparr>fs_c = CHR 0x00, fs_str = [], fs_strsize = 0, fs_freecount = 0, fs_level = 0, fs_begun = False\<rparr>"

text \<open>\<open>strchr\<close> also finds the terminating zero of the set.\<close>

definition strchr_set :: "char set \<Rightarrow> char \<Rightarrow> bool" where
  "strchr_set marks c \<longleftrightarrow> c \<in> marks \<or> code c = 0"

definition open_mark :: "char \<Rightarrow> bool" where
  "open_mark = strchr_set {CHR ''['', CHR ''{''}"

definition close_mark :: "char \<Rightarrow> bool" where
  "close_mark = strchr_set {CHR '']'', CHR ''}''}"

abbreviation (input) MEMSTEP :: int where "MEMSTEP \<equiv> 1024"

text \<open>
  One character: the body of the loop.  \<open>None\<close> is a failing \<open>realloc\<close>.  \<open>strcat\<close> of a
  character needs room for it and for the zero.
\<close>

definition fd_char :: "(int \<Rightarrow> bool) \<Rightarrow> fd_state \<Rightarrow> ub + fd_state option" where
  "fd_char realloc_ok s =
     (let c = fs_c s;
          s = (if open_mark c then s\<lparr>fs_begun := True, fs_level := fs_level s + 1\<rparr>
               else if close_mark c then s\<lparr>fs_level := fs_level s - 1\<rparr> else s) in
      if fs_begun s then
        if fs_freecount s < 1 \<and> \<not> realloc_ok (fs_strsize s + MEMSTEP) then Inr None
        else
          let s = (if fs_freecount s < 1
                   then s\<lparr>fs_strsize := fs_strsize s + MEMSTEP, fs_freecount := fs_freecount s + MEMSTEP\<rparr>
                   else s);
              str = fs_str s @ (if code c = 0 then [] else [c]) in
          if int (length str) + 1 > fs_strsize s then Inl OutOfBounds
          else Inr (Some (s\<lparr>fs_str := str, fs_freecount := fs_freecount s - 1\<rparr>))
      else Inr (Some s))"

text \<open>
  The loop.  A read error other than \<open>EINTR\<close> and \<open>EAGAIN\<close> does not end it: the last character is
  looked at again.  The result is the text handed to \<open>cJSON_Parse\<close>, if any.
\<close>

primrec fd_loop :: "(int \<Rightarrow> bool) \<Rightarrow> fd_read list \<Rightarrow> fd_state \<Rightarrow> ub + string option" where
  "fd_loop realloc_ok [] s =
     Inr (if fs_begun s \<and> fs_level s = 0 then Some (fs_str s) else None)"
| "fd_loop realloc_ok (r # rs) s =
     (if r \<in> {ReadErr EINTR, ReadErr EAGAIN} then fd_loop realloc_ok rs s
      else
        let s = (case r of Byte c \<Rightarrow> s\<lparr>fs_c := c\<rparr> | ReadErr e \<Rightarrow> s) in
        bindE (fd_char realloc_ok s) (\<lambda>r.
        case r of
          None \<Rightarrow> Inr None
        | Some s \<Rightarrow>
            if fs_begun s \<and> fs_level s = 0 then Inr (Some (fs_str s)) else fd_loop realloc_ok rs s))"

definition cJSON_fdParse :: "(int \<Rightarrow> bool) \<Rightarrow> fd_read list \<Rightarrow> ub + string option" where
  "cJSON_fdParse realloc_ok rs = fd_loop realloc_ok rs fd_init"

section \<open>Which text is found\<close>

fun depth :: "string \<Rightarrow> int" where
  "depth [] = 0"
| "depth (c # s) = (if open_mark c then 1 else if close_mark c then -1 else 0) + depth s"

lemma depth_append [simp]: "depth (xs @ ys) = depth xs + depth ys"
  by (induction xs) simp_all

text \<open>A document: brackets that are closed at its end and not before.\<close>

definition document :: "string \<Rightarrow> bool" where
  "document d \<longleftrightarrow> d \<noteq> [] \<and> open_mark (hd d) \<and> (\<forall>c\<in>set d. code c \<noteq> 0) \<and> depth d = 0
     \<and> (\<forall>k. 0 < k \<and> k < length d \<longrightarrow> depth (take k d) \<noteq> 0)"

definition noise :: "string \<Rightarrow> bool" where
  "noise g \<longleftrightarrow> (\<forall>c\<in>set g. \<not> open_mark c \<and> \<not> close_mark c)"

definition inside :: "string \<Rightarrow> char \<Rightarrow> fd_state" where
  "inside ys c = \<lparr>fs_c = c, fs_str = ys, fs_strsize = 1024, fs_freecount = 1024 - int (length ys),
     fs_level = depth ys, fs_begun = True\<rparr>"

lemma fd_char_inside:
  assumes "code c \<noteq> 0" and "ys \<noteq> []" and "length ys \<le> 1023"
  shows "fd_char realloc_ok ((inside ys c')\<lparr>fs_c := c\<rparr>)
       = (if length ys = 1023 then Inl OutOfBounds else Inr (Some (inside (ys @ [c]) c)))"
  using assms by (auto simp: fd_char_def inside_def Let_def)

lemma fd_loop_inside:
  "document (ys @ xs) \<Longrightarrow> ys \<noteq> [] \<Longrightarrow> xs \<noteq> [] \<Longrightarrow> length ys \<le> 1023 \<Longrightarrow>
   fd_loop realloc_ok (map Byte xs @ rest) (inside ys c)
     = (if length (ys @ xs) < 1024 then Inr (Some (ys @ xs)) else Inl OutOfBounds)"
proof (induction xs arbitrary: ys c)
  case (Cons x xs)
  have x: "code x \<noteq> 0" using Cons.prems(1) by (simp add: document_def)
  have step: "fd_char realloc_ok ((inside ys c)\<lparr>fs_c := x\<rparr>)
      = (if length ys = 1023 then Inl OutOfBounds else Inr (Some (inside (ys @ [x]) x)))"
    using fd_char_inside [OF x Cons.prems(2,4)] .
  have lvl: "fs_level (inside (ys @ [x]) x) = depth (ys @ [x])" "fs_begun (inside (ys @ [x]) x)"
    "fs_str (inside (ys @ [x]) x) = ys @ [x]" by (simp_all add: inside_def)
  show ?case
  proof (cases "length ys = 1023")
    case True
    with step show ?thesis by (simp add: Let_def)
  next
    case False
    show ?thesis
    proof (cases "xs = []")
      case True
      then have "depth (ys @ [x]) = 0" using Cons.prems(1) by (simp add: document_def)
      with True False step lvl Cons.prems(4) show ?thesis by (simp add: Let_def)
    next
      case more: False
      from Cons.prems(1) have "0 < length (ys @ [x]) \<and> length (ys @ [x]) < length (ys @ x # xs) \<longrightarrow>
          depth (take (length (ys @ [x])) (ys @ x # xs)) \<noteq> 0"
        unfolding document_def by blast
      with more have d: "depth (ys @ [x]) \<noteq> 0" by simp
      have "fd_loop realloc_ok (map Byte (x # xs) @ rest) (inside ys c)
          = fd_loop realloc_ok (map Byte xs @ rest) (inside (ys @ [x]) x)"
        using False step lvl d by (simp add: Let_def)
      also have "\<dots> = (if length ((ys @ [x]) @ xs) < 1024 then Inr (Some ((ys @ [x]) @ xs)) else Inl OutOfBounds)"
        using Cons.prems False more by (intro Cons.IH) simp_all
      finally show ?thesis by simp
    qed
  qed
qed simp

lemma fd_loop_noise:
  "noise g \<Longrightarrow> \<exists>c'. fd_loop realloc_ok (map Byte g @ rs) (fd_init\<lparr>fs_c := c\<rparr>)
      = fd_loop realloc_ok rs (fd_init\<lparr>fs_c := c'\<rparr>)"
proof (induction g arbitrary: c)
  case (Cons x g)
  then have "\<not> open_mark x" "\<not> close_mark x" "noise g" by (simp_all add: noise_def)
  then have "fd_loop realloc_ok (map Byte (x # g) @ rs) (fd_init\<lparr>fs_c := c\<rparr>)
      = fd_loop realloc_ok (map Byte g @ rs) (fd_init\<lparr>fs_c := x\<rparr>)"
    by (simp add: fd_char_def fd_init_def Let_def)
  with Cons.IH [OF \<open>noise g\<close>, of x] show ?case by simp
qed auto

text \<open>
  C33.  Framing.  After any text without brackets or zeros, \<open>cJSON_fdParse\<close> hands exactly the first
  document of the stream to the parser, whatever follows it, as long as the document is shorter
  than 1024 characters; one of 1024 characters or more makes \<open>strcat\<close> write the terminating zero
  behind the block of \<open>MEMSTEP\<close> bytes.
\<close>

theorem fdParse_frames:
  assumes "noise g" and "document d" and "realloc_ok 1024"
  shows "cJSON_fdParse realloc_ok (map Byte (g @ d) @ rest)
     = (if length d < 1024 then Inr (Some d) else Inl OutOfBounds)"
proof -
  from assms(2) obtain x xs where d: "d = x # xs" "open_mark x" "code x \<noteq> 0"
    by (cases d) (auto simp: document_def)
  have "xs \<noteq> []" using assms(2) d by (auto simp: document_def)
  obtain c where "fd_loop realloc_ok (map Byte g @ map Byte d @ rest) fd_init
      = fd_loop realloc_ok (map Byte d @ rest) (fd_init\<lparr>fs_c := c\<rparr>)"
    using fd_loop_noise [OF assms(1), of realloc_ok "map Byte d @ rest" "CHR 0x00"] by (auto simp: fd_init_def)
  also have "\<dots> = fd_loop realloc_ok (map Byte xs @ rest) (inside [x] x)"
    using d assms(3) by (simp add: fd_char_def fd_init_def inside_def Let_def)
  also have "\<dots> = (if length ([x] @ xs) < 1024 then Inr (Some ([x] @ xs)) else Inl OutOfBounds)"
    using assms(2) d \<open>xs \<noteq> []\<close> by (intro fd_loop_inside) simp_all
  finally show ?thesis by (simp add: cJSON_fdParse_def d)
qed

theorem fdParse_frames_witness:
  "cJSON_fdParse (\<lambda>n. True) (map Byte (''x '' @ ''{[]}'') @ [Byte CHR ''!'']) = Inr (Some ''{[]}'')"
proof -
  have "noise ''x ''" by (simp add: noise_def open_mark_def close_mark_def strchr_set_def code_def)
  moreover have "document ''{[]}''"
  proof -
    have "depth (take k ''{[]}'') \<noteq> 0" if "0 < k" "k < 4" for k
    proof -
      have "k \<in> {1, 2, 3}" using that by auto
      then show ?thesis
        by (auto simp: numeral_eq_Suc open_mark_def close_mark_def strchr_set_def code_def)
    qed
    then show ?thesis by (simp add: document_def open_mark_def close_mark_def strchr_set_def code_def)
  qed
  ultimately show ?thesis using fdParse_frames [of "''x ''" "''{[]}''" "\<lambda>n. True" "[Byte CHR ''!'']"] by simp
qed

section \<open>Writing\<close>

text \<open>
  The loop of \<open>cJSON_fdPrint\<close>: \<open>w\<close> are the results of the calls of \<open>write\<close> with their errno;
  \<open>None\<close>: the calls answered so far do not end the loop.  The result is the return value and the
  bytes written.
\<close>

fun write_loop :: "(int \<times> int) list \<Rightarrow> string \<Rightarrow> int \<Rightarrow> string \<Rightarrow> (int \<times> string) option" where
  "write_loop ws [] ret out = Some (ret, out)"
| "write_loop [] (c # s) ret out = None"
| "write_loop ((res, err) # ws) (c # s) ret out =
     (if res < 0
      then if err = EINTR \<or> err = EAGAIN then write_loop ws (c # s) res out else Some (- 1, out)
      else write_loop ws (drop (nat res) (c # s)) res (out @ take (nat res) (c # s)))"

definition cJSON_fdPrint :: "string option \<Rightarrow> (int \<times> int) list \<Rightarrow> ub + (int \<times> string) option" where
  "cJSON_fdPrint text ws =
     (case text of None \<Rightarrow> Inr (Some (- 1, []))
      | Some s \<Rightarrow> if s = [] then Inl Uninitialised else Inr (write_loop ws s 0 []))"

text \<open>
  Whenever the loop ends it has written a prefix of the text, and everything unless it answers -1.
\<close>

lemma write_loop_spec:
  "write_loop ws s ret out = Some (ret', out') \<Longrightarrow> s \<noteq> [] \<or> 0 \<le> ret \<Longrightarrow>
     0 \<le> ret' \<and> out' = out @ s \<or> ret' = - 1 \<and> (\<exists>k. out' = out @ take k s)"
proof (induction ws s ret out rule: write_loop.induct)
  case (3 res err ws c s ret out)
  show ?case
  proof (cases "res < 0")
    case True
    with 3 show ?thesis by (auto split: if_splits intro: exI [of _ 0])
  next
    case False
    let ?t = "take (nat res) (c # s)" and ?d = "drop (nat res) (c # s)"
    from False 3 consider "0 \<le> ret'" "out' = (out @ ?t) @ ?d" | k where "ret' = - 1" "out' = (out @ ?t) @ take k ?d"
      by auto
    then show ?thesis
    proof cases
      case 1
      then show ?thesis by simp
    next
      case 2
      have "?t @ take k ?d = take (nat res + k) (c # s)" by (simp only: take_add)
      with 2 show ?thesis by (metis append.assoc)
    qed
  qed
qed auto

end
