(* ===== verification/Cjson_Text.thy ===== *)
theory Cjson_Text
  imports Cjson
begin

text \<open>
  Parsing and printing of whole JSON values in \<open>src/src/cJSON.c\<close>.  Allocation succeeds here.
  Of the numbers, the integers that fit an \<open>int\<close> are modelled; what floating point makes of any
  other number is the argument \<open>fl\<close>: the \<open>valueint\<close> it stores and the rest of the text.
\<close>

section \<open>Outcomes\<close>

text \<open>A parse runs out of fuel, has undefined behaviour, is refused, or yields a result.\<close>

datatype 'a outcome = NoFuel | Fault ub | Refused | Done 'a

definition bindP :: "'a outcome \<Rightarrow> ('a \<Rightarrow> 'b outcome) \<Rightarrow> 'b outcome" where
  "bindP m f = (case m of NoFuel \<Rightarrow> NoFuel | Fault e \<Rightarrow> Fault e | Refused \<Rightarrow> Refused | Done x \<Rightarrow> f x)"

lemma bindP_simps [simp]:
  "bindP NoFuel f = NoFuel" "bindP (Fault e) f = Fault e" "bindP Refused f = Refused" "bindP (Done x) f = f x"
  by (simp_all add: bindP_def)

lemma bindP_Done_iff: "bindP m f = Done y \<longleftrightarrow> (\<exists>x. m = Done x \<and> f x = Done y)"
  by (cases m) simp_all

lemma bindP_NoFuel_iff: "bindP m f = NoFuel \<longleftrightarrow> m = NoFuel \<or> (\<exists>x. m = Done x \<and> f x = NoFuel)"
  by (cases m) simp_all

definition string_outcome :: "string \<Rightarrow> (string \<times> string) outcome" where
  "string_outcome v =
     (case parse_string v of Inl e \<Rightarrow> Fault e | Inr None \<Rightarrow> Refused | Inr (Some r) \<Rightarrow> Done r)"

section \<open>Parsing\<close>

definition skip :: "string \<Rightarrow> string" where
  "skip s = dropWhile (\<lambda>c. 0 < code c \<and> code c \<le> 32) s"

definition is_digit :: "char \<Rightarrow> bool" where
  "is_digit c \<longleftrightarrow> 48 \<le> code c \<and> code c \<le> 57"

text \<open>The character at a pointer, zero at the end.\<close>

definition at :: "string \<Rightarrow> char" where
  "at s = (case s of [] \<Rightarrow> CHR 0x00 | c # _ \<Rightarrow> c)"

lemma at_simps [simp]: "at [] = CHR 0x00" "at (c # s) = c"
  by (simp_all add: at_def)

definition digits_value :: "string \<Rightarrow> nat" where
  "digits_value ds = foldl (\<lambda>n c. n * 10 + (code c - 48)) 0 ds"

text \<open>An optional sign, at most one leading zero, and the digits of a number without more zeros.\<close>

definition scan_int :: "string \<Rightarrow> bool \<times> string \<times> string" where
  "scan_int num =
     (let neg = (at num = CHR ''-'');
          s = (if neg then tl num else num);
          s = (if at s = CHR ''0'' then tl s else s);
          ds = (if is_digit (at s) \<and> at s \<noteq> CHR ''0'' then takeWhile is_digit s else []) in
      (neg, ds, drop (length ds) s))"

text \<open>A fraction or an exponent follows, or the integer is too large.\<close>

definition needs_float :: "string \<Rightarrow> string \<Rightarrow> bool" where
  "needs_float ds rest \<longleftrightarrow> at rest = CHR ''.'' \<and> is_digit (at (tl rest)) \<or> at rest = CHR ''e''
     \<or> at rest = CHR ''E'' \<or> 2147483648 \<le> digits_value ds"

definition parse_number :: "(string \<Rightarrow> int \<times> string) \<Rightarrow> string \<Rightarrow> cjson \<times> string" where
  "parse_number fl num =
     (case scan_int num of (neg, ds, rest) \<Rightarrow>
      case (if needs_float ds rest then fl num
            else (if neg then - int (digits_value ds) else int (digits_value ds), rest)) of
        (v, rest) \<Rightarrow> (Cjson cJSON_Number [] None v None, rest))"

text \<open>
  \<open>parse_value\<close>, and the loops of \<open>parse_array\<close> and \<open>parse_object\<close> from an element or a member
  on.
\<close>

fun parse_value :: "nat \<Rightarrow> (string \<Rightarrow> int \<times> string) \<Rightarrow> string \<Rightarrow> (cjson \<times> string) outcome"
and parse_elements :: "nat \<Rightarrow> (string \<Rightarrow> int \<times> string) \<Rightarrow> string \<Rightarrow> (cjson list \<times> string) outcome"
and parse_members :: "nat \<Rightarrow> (string \<Rightarrow> int \<times> string) \<Rightarrow> string \<Rightarrow> (cjson list \<times> string) outcome" where
  "parse_value 0 fl v = NoFuel"
| "parse_value (Suc k) fl v =
     (if take 4 v = ''null'' then Done (Cjson cJSON_NULL [] None 0 None, drop 4 v)
      else if take 5 v = ''false'' then Done (Cjson cJSON_False [] None 0 None, drop 5 v)
      else if take 4 v = ''true'' then Done (Cjson cJSON_True [] None 1 None, drop 4 v)
      else if at v = CHR 0x22
      then bindP (string_outcome v) (\<lambda>(s, rest). Done (Cjson cJSON_String [] (Some s) 0 None, rest))
      else if at v = CHR ''-'' \<or> is_digit (at v) then Done (parse_number fl v)
      else if at v = CHR ''['' then
        let v = skip (tl v) in
        if at v = CHR '']'' then Done (Cjson cJSON_Array [] None 0 None, tl v)
        else bindP (parse_elements k fl v) (\<lambda>(cs, rest). Done (Cjson cJSON_Array cs None 0 None, rest))
      else if at v = CHR ''{'' then
        let v = skip (tl v) in
        if at v = CHR ''}'' then Done (Cjson cJSON_Object [] None 0 None, tl v)
        else bindP (parse_members k fl v) (\<lambda>(cs, rest). Done (Cjson cJSON_Object cs None 0 None, rest))
      else Refused)"
| "parse_elements 0 fl v = NoFuel"
| "parse_elements (Suc k) fl v =
     bindP (parse_value k fl (skip v)) (\<lambda>(c, rest).
       let v = skip rest in
       if at v = CHR '','' then bindP (parse_elements k fl (tl v)) (\<lambda>(cs, rest). Done (c # cs, rest))
       else if at v = CHR '']'' then Done ([c], tl v)
       else Refused)"
| "parse_members 0 fl v = NoFuel"
| "parse_members (Suc k) fl v =
     bindP (string_outcome (skip v)) (\<lambda>(name, rest).
       let v = skip rest in
       if at v \<noteq> CHR '':'' then Refused
       else bindP (parse_value k fl (skip (tl v))) (\<lambda>(c, rest).
         let c = with_name c (Some name); v = skip rest in
         if at v = CHR '','' then bindP (parse_members k fl (tl v)) (\<lambda>(cs, rest). Done (c # cs, rest))
         else if at v = CHR ''}'' then Done ([c], tl v)
         else Refused))"

text \<open>The fuel of \<open>cJSON_Parse\<close>; \<open>parse_ends\<close> shows that it is enough.\<close>

definition cJSON_Parse :: "(string \<Rightarrow> int \<times> string) \<Rightarrow> string \<Rightarrow> cjson outcome" where
  "cJSON_Parse fl text =
     bindP (parse_value (2 * length text + 2) fl (skip text)) (\<lambda>(c, rest). Done c)"

section \<open>Printing\<close>

definition print_number :: "cjson \<Rightarrow> string" where
  "print_number item = show_int (jvalueint item)"

definition tabs :: "nat \<Rightarrow> string" where
  "tabs n = replicate n (char_of (9 :: nat))"

definition newline :: string where
  "newline = [char_of (10 :: nat)]"

fun join :: "string \<Rightarrow> string list \<Rightarrow> string" where
  "join sep [] = []"
| "join sep [e] = e"
| "join sep (e # es) = e @ sep @ join sep es"

definition array_text :: "bool \<Rightarrow> string list \<Rightarrow> string" where
  "array_text fmt entries =
     ''['' @ join (if fmt then '', '' else '','') entries @ '']''"

definition member_text :: "bool \<Rightarrow> nat \<Rightarrow> string \<times> string \<Rightarrow> string" where
  "member_text fmt depth m =
     (if fmt then tabs depth else []) @ fst m @ '':'' @ (if fmt then tabs 1 else []) @ snd m"

text \<open>\<open>depth\<close> has been incremented: the closing bracket is indented by one less.\<close>

definition object_text :: "bool \<Rightarrow> nat \<Rightarrow> (string \<times> string) list \<Rightarrow> string" where
  "object_text fmt depth ms =
     ''{'' @ (if fmt then newline else [])
     @ join ('','' @ (if fmt then newline else [])) (map (member_text fmt depth) ms)
     @ (if fmt \<and> ms \<noteq> [] then newline else []) @ (if fmt then tabs (depth - 1) else []) @ ''}''"

fun print_value :: "bool \<Rightarrow> nat \<Rightarrow> cjson \<Rightarrow> string option" where
  "print_value fmt depth (Cjson t cs vs n nm) =
     (if t = cJSON_NULL then Some ''null''
      else if t = cJSON_False then Some ''false''
      else if t = cJSON_True then Some ''true''
      else if t = cJSON_Number then Some (print_number (Cjson t cs vs n nm))
      else if t = cJSON_String then Some (print_text vs)
      else if t = cJSON_Array
      then map_option (array_text fmt) (those (map (print_value fmt (depth + 1)) cs))
      else if t = cJSON_Object
      then map_option (\<lambda>es. object_text fmt (depth + 1) (zip (map (\<lambda>c. print_text (jstring c)) cs) es))
             (those (map (print_value fmt (depth + 1)) cs))
      else None)"

text \<open>What \<open>print_array\<close> and \<open>print_object\<close> allocate.\<close>

definition array_len :: "bool \<Rightarrow> string list \<Rightarrow> nat" where
  "array_len fmt entries = 5 + sum_list (map (\<lambda>e. length e + 2 + (if fmt then 1 else 0)) entries)"

definition object_len :: "bool \<Rightarrow> nat \<Rightarrow> (string \<times> string) list \<Rightarrow> nat" where
  "object_len fmt depth ms = 7 + (if fmt then depth else 0)
     + sum_list (map (\<lambda>(n, e). length e + length n + 2 + (if fmt then 2 + depth else 0)) ms)"

definition cJSON_Print :: "cjson \<Rightarrow> string option" where
  "cJSON_Print item = print_value True 0 item"

definition cJSON_PrintUnformatted :: "cjson \<Rightarrow> string option" where
  "cJSON_PrintUnformatted item = print_value False 0 item"

section \<open>The buffers are large enough\<close>

lemma length_join: "length (join sep es) + (if es = [] then 0 else length sep) = sum_list (map (\<lambda>e. length e + length sep) es)"
  by (induction sep es rule: join.induct) simp_all

lemma array_fits: "length (array_text fmt es) + 1 \<le> array_len fmt es"
  using length_join [of "if fmt then '', '' else '',''" es]
  by (auto simp: array_text_def array_len_def sum_list_Suc split: if_splits)

lemma length_member: "length (member_text fmt d m) = length (fst m) + length (snd m) + 1 + (if fmt then d + 1 else 0)"
  by (simp add: member_text_def tabs_def)

lemma object_fits:
  assumes "0 < depth"
  shows "length (object_text fmt depth ms) + 1 \<le> object_len fmt depth ms"
  using length_join [of "'','' @ (if fmt then newline else [])" "map (member_text fmt depth) ms"] assms
  by (auto simp: object_text_def object_len_def length_member tabs_def newline_def comp_def split_def
      algebra_simps split: if_splits)

section \<open>Parsing ends\<close>

lemma length_skip: "length (skip s) \<le> length s"
  by (simp add: skip_def length_dropWhile_le)

lemma prepend_eq_Inr: "prepend p r = Inr (out, rest) \<longleftrightarrow> (\<exists>out'. r = Inr (out', rest) \<and> out = p @ out')"
  by (cases r) (auto simp: prepend_def)

lemma unescape_shorter: "unescape u u2 s = Inr (out, rest) \<Longrightarrow> length rest \<le> length s"
proof (induction s arbitrary: u u2 out rest rule: length_induct)
  case (1 s)
  have ih: "length r \<le> n" if "unescape u u2 t = Inr (out, r)" "length t \<le> n" "n < length s" for u u2 t out r n
    using 1(1) that by (meson le_less_trans le_trans)
  show ?case
  proof (cases s)
    case Nil
    with 1(2) show ?thesis by simp
  next
    case (Cons c t)
    show ?thesis
    proof (cases "c = CHR 0x5C")
      case False
      with 1(2) Cons show ?thesis
        using ih [of _ _ t _ _ "length t"] by (auto simp: unescape.simps(2) prepend_eq_Inr le_SucI split: if_splits)
    next
      case True
      then obtain e t' where t: "t = e # t'" using 1(2) Cons by (cases t) (auto simp: unescape.simps(2))
      have shorter: "length rest \<le> length s" if "unescape u' u2' (drop n t') = Inr (out', rest)" for u' u2' n out'
        using ih [OF that, of "length t'"] Cons t by simp
      from 1(2) Cons True t shorter [of _ _ 0] shorter [of _ _ 4] shorter [of _ _ 10] show ?thesis
        by (auto simp: unescape.simps(2) prepend_eq_Inr Let_def split: if_splits option.splits)
    qed
  qed
qed

lemma string_outcome_shorter: "string_outcome v = Done (s, rest) \<Longrightarrow> length rest < length v"
proof -
  assume "string_outcome v = Done (s, rest)"
  then have "parse_string v = Inr (Some (s, rest))"
    by (auto simp: string_outcome_def split: sum.splits option.splits)
  then obtain r where r: "v \<noteq> []" "unescape None None (tl v) = Inr (s, r)" "rest = (if r \<noteq> [] then tl r else [])"
    by (auto simp: parse_string_def bindE_eq_Inr_iff split: if_splits)
  have "length rest \<le> length r" by (simp add: r(3))
  then have "length rest \<le> length (tl v)" using unescape_shorter [OF r(2)] by linarith
  then show ?thesis using r(1) by (cases v) auto
qed

definition fl_ok :: "(string \<Rightarrow> int \<times> string) \<Rightarrow> bool" where
  "fl_ok fl \<longleftrightarrow> (\<forall>s. s \<noteq> [] \<longrightarrow> length (snd (fl s)) < length s)"

lemma scan_int_shorter:
  assumes "at v = CHR ''-'' \<or> is_digit (at v)" and "scan_int v = (neg, ds, rest)"
  shows "v \<noteq> [] \<and> length rest < length v"
proof -
  from assms(1) obtain x t where v: "v = x # t" by (cases v) (auto simp: is_digit_def code_def)
  show ?thesis
  proof (cases "x = CHR ''-''")
    case True
    with assms(2) v have "length rest \<le> length t" by (auto simp: scan_int_def Let_def)
    with v show ?thesis by simp
  next
    case False
    with assms v show ?thesis by (auto simp: scan_int_def Let_def)
  qed
qed

lemma parse_number_shorter:
  assumes "fl_ok fl" and "at v = CHR ''-'' \<or> is_digit (at v)" and "parse_number fl v = (c, rest)"
  shows "length rest < length v"
proof -
  obtain neg ds r where r: "scan_int v = (neg, ds, r)" by (cases "scan_int v") auto
  with assms(3) have "rest = snd (fl v) \<or> rest = r"
    by (auto simp: parse_number_def split: if_splits prod.splits)
  with scan_int_shorter [OF assms(2) r] assms(1) show ?thesis by (auto simp: fl_ok_def)
qed

lemma literal_shorter:
  "take 4 v = ''null'' \<Longrightarrow> length (drop 4 v) < length v"
  "take 5 v = ''false'' \<Longrightarrow> length (drop 5 v) < length v"
  "take 4 v = ''true'' \<Longrightarrow> length (drop 4 v) < length v"
  by (cases v; simp)+

lemma parse_value_cases:
  assumes "parse_value (Suc k) fl v = Done (c, r)"
  obtains "length r < length v" | s where "string_outcome v = Done (s, r)"
    | "at v = CHR ''-'' \<or> is_digit (at v)" "parse_number fl v = (c, r)"
    | "v \<noteq> []" "r = tl (skip (tl v))" | cs where "v \<noteq> []" "parse_elements k fl (skip (tl v)) = Done (cs, r)"
    | cs where "v \<noteq> []" "parse_members k fl (skip (tl v)) = Done (cs, r)"
proof (cases "take 4 v = ''null'' \<or> take 5 v = ''false'' \<or> take 4 v = ''true''")
  case True
  then have "length r < length v" using assms literal_shorter [of v] by (auto split: if_splits)
  then show ?thesis by (rule that(1))
next
  case False
  then consider "at v = CHR 0x22" | "at v \<noteq> CHR 0x22" "at v = CHR ''-'' \<or> is_digit (at v)"
    | "at v = CHR ''[''" | "at v = CHR ''{''"
    using assms by (auto split: if_splits)
  then show ?thesis
  proof cases
    case 1
    with False assms that(2) show ?thesis by (auto simp: bindP_Done_iff)
  next
    case 2
    with False assms that(3) show ?thesis by auto
  next
    case 3
    then have "v \<noteq> []" by auto
    with 3 False assms that(4,5) show ?thesis
      by (auto simp: bindP_Done_iff Let_def is_digit_def code_def split: if_splits)
  next
    case 4
    then have "v \<noteq> []" by auto
    with 4 False assms that(4,6) show ?thesis
      by (auto simp: bindP_Done_iff Let_def is_digit_def code_def split: if_splits)
  qed
qed

lemma parse_shorter:
  assumes "fl_ok fl"
  shows "(\<forall>v c r. parse_value k fl v = Done (c, r) \<longrightarrow> length r < length v)
     \<and> (\<forall>v cs r. parse_elements k fl v = Done (cs, r) \<longrightarrow> length r < length v)
     \<and> (\<forall>v cs r. parse_members k fl v = Done (cs, r) \<longrightarrow> length r < length v)"
proof (induction k)
  case (Suc k)
  have tls: "length (tl s) \<le> length s" "length (skip s) \<le> length s" for s :: string
    by (simp_all add: length_skip)
  have ihe: "length r < length v" if "parse_elements k fl v = Done (cs, r)" for v cs r
    using Suc.IH that by blast
  have ihm: "length r < length v" if "parse_members k fl v = Done (cs, r)" for v cs r
    using Suc.IH that by blast
  have v: "length r < length v" if "parse_value (Suc k) fl v = Done (c, r)" for v c r
  proof -
    from that show ?thesis
    proof (cases rule: parse_value_cases)
      case 2
      then show ?thesis by (rule string_outcome_shorter)
    next
      case 3
      then show ?thesis by (rule parse_number_shorter [OF assms])
    next
      case 4
      then show ?thesis using tls(1) [of "skip (tl v)"] tls(2) [of "tl v"] by (cases v) auto
    next
      case (5 cs)
      then have "length r < length (skip (tl v))" using Suc.IH by blast
      then show ?thesis using tls(2) [of "tl v"] tls(1) [of v] by linarith
    next
      case (6 cs)
      then have "length r < length (skip (tl v))" using Suc.IH by blast
      then show ?thesis using tls(2) [of "tl v"] tls(1) [of v] by linarith
    qed
  qed
  have e: "length r < length v" if run: "parse_elements (Suc k) fl v = Done (cs, r)" for v cs r
  proof -
    from run obtain c r1 where 1: "parse_value k fl (skip v) = Done (c, r1)"
      by (auto simp: bindP_Done_iff)
    then have "length r1 < length v" using Suc.IH tls(2) [of v] by (meson less_le_trans)
    moreover from run 1 have "length r \<le> length (tl (skip r1))"
      by (auto simp: bindP_Done_iff Let_def split: if_splits dest!: ihe)
    ultimately show ?thesis using tls(1) [of "skip r1"] tls(2) [of r1] by linarith
  qed
  have m: "length r < length v" if run: "parse_members (Suc k) fl v = Done (cs, r)" for v cs r
  proof -
    from run obtain s r0 c r1 where 1: "string_outcome (skip v) = Done (s, r0)"
      "parse_value k fl (skip (tl (skip r0))) = Done (c, r1)"
      by (auto simp: bindP_Done_iff Let_def split: if_splits)
    have "length r0 < length v" using string_outcome_shorter [OF 1(1)] tls(2) [of v] by linarith
    moreover have "length r1 < length (skip (tl (skip r0)))" using Suc.IH 1(2) by blast
    moreover from run 1 have "length r \<le> length (tl (skip r1))"
      by (auto simp: bindP_Done_iff Let_def split: if_splits dest!: ihm)
    ultimately show ?thesis
      using tls(1) [of "skip r1"] tls(2) [of r1] tls(1) [of "skip r0"] tls(2) [of r0] tls(2) [of "tl (skip r0)"]
      by linarith
  qed
  from v e m show ?case by blast
qed simp

text \<open>With more fuel than twice the length of the text, parsing ends.\<close>

lemma parse_fuel:
  assumes "fl_ok fl"
  shows "(\<forall>v. 2 * length v < k \<longrightarrow> parse_value k fl v \<noteq> NoFuel)
     \<and> (\<forall>v. 2 * length v + 1 < k \<longrightarrow> parse_elements k fl v \<noteq> NoFuel)
     \<and> (\<forall>v. 2 * length v + 1 < k \<longrightarrow> parse_members k fl v \<noteq> NoFuel)"
proof (induction k)
  case (Suc k)
  note shorter = parse_shorter [OF assms, of k]
  have tls: "length (tl s) \<le> length s" "length (skip s) \<le> length s" for s :: string
    by (simp_all add: length_skip)
  have so: "string_outcome v \<noteq> NoFuel" for v
    by (auto simp: string_outcome_def split: sum.splits option.splits)
  have v: "parse_value (Suc k) fl v \<noteq> NoFuel" if len: "2 * length v < Suc k" for v
  proof (cases "v = []")
    case True
    then show ?thesis by (simp add: is_digit_def code_def)
  next
    case False
    then have "length (skip (tl v)) < length v" using tls(2) [of "tl v"] by (cases v) auto
    then have "2 * length (skip (tl v)) + 1 < k" using len by linarith
    with Suc.IH so show ?thesis by (auto simp: bindP_NoFuel_iff Let_def)
  qed
  have e: "parse_elements (Suc k) fl v \<noteq> NoFuel" if len: "2 * length v + 1 < Suc k" for v
  proof
    assume run: "parse_elements (Suc k) fl v = NoFuel"
    have "2 * length (skip v) < k" using len tls(2) [of v] by linarith
    with Suc.IH run obtain c r where r: "parse_value k fl (skip v) = Done (c, r)"
      "parse_elements k fl (tl (skip r)) = NoFuel" "skip r \<noteq> []"
      by (auto simp: bindP_NoFuel_iff Let_def split: if_splits) force
    have "length r < length (skip v)" using shorter r(1) by blast
    moreover have "length (tl (skip r)) < length (skip r)" using r(3) by (cases "skip r") auto
    ultimately have "2 * length (tl (skip r)) + 1 < k" using len tls(2) [of r] tls(2) [of v] by linarith
    with Suc.IH r(2) show False by blast
  qed
  have m: "parse_members (Suc k) fl v \<noteq> NoFuel" if len: "2 * length v + 1 < Suc k" for v
  proof
    assume run: "parse_members (Suc k) fl v = NoFuel"
    obtain name r0 where r0: "string_outcome (skip v) = Done (name, r0)" "at (skip r0) = CHR '':''"
      using run so by (auto simp: bindP_NoFuel_iff Let_def split: if_splits)
    have l0: "length r0 < length v" using string_outcome_shorter [OF r0(1)] tls(2) [of v] by linarith
    let ?w = "skip (tl (skip r0))"
    have lw: "length ?w \<le> length r0"
      using tls(2) [of "tl (skip r0)"] tls(1) [of "skip r0"] tls(2) [of r0] by linarith
    then have "2 * length ?w < k" using len l0 by linarith
    with Suc.IH run r0 obtain c r where r: "parse_value k fl ?w = Done (c, r)"
      "parse_members k fl (tl (skip r)) = NoFuel"
      by (auto simp: bindP_NoFuel_iff Let_def split: if_splits)
    have "length r < length ?w" using shorter r(1) by blast
    then have "2 * length (tl (skip r)) + 1 < k"
      using len l0 lw tls(1) [of "skip r"] tls(2) [of r] by linarith
    with Suc.IH r(2) show False by blast
  qed
  from v e m show ?case by blast
qed simp

text \<open>
  C32.  Parsing terminates: whatever the text, \<open>cJSON_Parse\<close> ends with a value, a refusal or undefined
  behaviour, if reading a floating-point number always consumes some of the text.
\<close>

theorem parse_ends:
  assumes "fl_ok fl"
  shows "cJSON_Parse fl doc \<noteq> NoFuel"
  using parse_fuel [OF assms, of "2 * length doc + 2"] length_skip [of doc]
  by (auto simp: cJSON_Parse_def bindP_NoFuel_iff)

theorem parse_ends_witness:
  "cJSON_Parse (\<lambda>s. (0, tl s)) ''[1, {]'' \<noteq> NoFuel"
  by (rule parse_ends) (simp add: fl_ok_def)

end
