(* ===== verification/Conf.thy ===== *)
theory Conf
  imports Cjson_Io Cjson_Text
begin

text \<open>
  The configuration (\<open>src/src/conf.c\<close>): a JSON object read from a file, kept in the static
  variable \<open>global_conf\<close> and asked for its members.  \<open>INSTALL_PREFIX\<close> and \<open>MODDIR\<close>, which the
  build sets, are arguments.
\<close>

section \<open>State and file reading\<close>

text \<open>\<open>conf_live\<close> counts the configuration trees that were allocated and not deleted.\<close>

record conf_state =
  global_conf :: "cjson option"
  conf_live :: nat

definition conf_start :: conf_state where
  "conf_start = \<lparr>global_conf = None, conf_live = 0\<rparr>"

text \<open>\<open>Refused\<close> is the null pointer: the stream holds no document, or one that does not parse.\<close>

definition cJSON_fParse :: "(string \<Rightarrow> int \<times> string) \<Rightarrow> (int \<Rightarrow> bool) \<Rightarrow> fd_read list \<Rightarrow> cjson outcome" where
  "cJSON_fParse fl realloc_ok rs =
     (case cJSON_fdParse realloc_ok rs of
        Inl e \<Rightarrow> Fault e | Inr None \<Rightarrow> Refused | Inr (Some s) \<Rightarrow> cJSON_Parse fl s)"

section \<open>Members\<close>

abbreviation (input) DEFAULT_DAEMON :: int where "DEFAULT_DAEMON \<equiv> 1"
abbreviation (input) DEFAULT_CONCURRENT_MAX :: int where "DEFAULT_CONCURRENT_MAX \<equiv> 20000"
abbreviation (input) DEFAULT_MONITOR_PORT :: int where "DEFAULT_MONITOR_PORT \<equiv> 19990"

text \<open>The value of an integer member: a default when missing, -1 when no number.\<close>

definition number_or :: "int \<Rightarrow> cjson option \<Rightarrow> int" where
  "number_or default_value tmp =
     (case tmp of None \<Rightarrow> default_value
      | Some c \<Rightarrow> if jtype c \<noteq> cJSON_Number then -1 else jvalueint c)"

definition conf_get_concurrent_max_internal :: "cjson option \<Rightarrow> ub + int" where
  "conf_get_concurrent_max_internal conf =
     bindE (cJSON_GetObjectItem conf ''ConcurrentMax'') (\<lambda>tmp. Inr (number_or DEFAULT_CONCURRENT_MAX tmp))"

definition conf_get_log_level_internal :: "cjson option \<Rightarrow> ub + int" where
  "conf_get_log_level_internal conf =
     bindE (cJSON_GetObjectItem conf ''LogLevel'') (\<lambda>tmp. Inr (number_or 6 tmp))"

definition conf_get_daemon_internal :: "cjson option \<Rightarrow> ub + int" where
  "conf_get_daemon_internal conf =
     bindE (cJSON_GetObjectItem conf ''Daemon'') (\<lambda>tmp.
       Inr (case tmp of None \<Rightarrow> DEFAULT_DAEMON | Some c \<Rightarrow> if jtype c = cJSON_True then 1 else 0))"

definition conf_get_workers_internal :: "cjson option \<Rightarrow> int \<Rightarrow> ub + int" where
  "conf_get_workers_internal conf n =
     bindE (cJSON_GetObjectItem conf ''Workers'') (\<lambda>tmp.
       Inr (case tmp of None \<Rightarrow> n
            | Some c \<Rightarrow> if jtype c = cJSON_Number then (if jvalueint c = 0 then n else jvalueint c) else n))"

definition conf_get_monitor_port_internal :: "cjson option \<Rightarrow> ub + int" where
  "conf_get_monitor_port_internal conf =
     bindE (cJSON_GetObjectItem conf ''MonitorPort'') (\<lambda>tmp. Inr (number_or DEFAULT_MONITOR_PORT tmp))"

text \<open>The value of a string member; \<open>None\<close> is the null pointer.\<close>

definition string_or :: "string \<Rightarrow> cjson option \<Rightarrow> string option" where
  "string_or default_value tmp =
     (case tmp of None \<Rightarrow> Some default_value
      | Some c \<Rightarrow> if jtype c \<noteq> cJSON_String then None else jvaluestring c)"

definition conf_get_working_dir_internal :: "string \<Rightarrow> cjson option \<Rightarrow> ub + string option" where
  "conf_get_working_dir_internal install_prefix conf =
     bindE (cJSON_GetObjectItem conf ''WorkingDir'') (\<lambda>tmp. Inr (string_or install_prefix tmp))"

definition conf_get_module_dir_internal :: "cjson option \<Rightarrow> ub + string option" where
  "conf_get_module_dir_internal conf =
     bindE (cJSON_GetObjectItem conf ''ModuleDir'') (\<lambda>tmp. Inr (string_or ''./'' tmp))"

definition conf_get_modules_desc_internal :: "cjson option \<Rightarrow> ub + cjson option" where
  "conf_get_modules_desc_internal conf =
     bindE (cJSON_GetObjectItem conf ''Modules'') (\<lambda>tmp.
       Inr (case tmp of None \<Rightarrow> None | Some c \<Rightarrow> if jtype c \<noteq> cJSON_Array then None else Some c))"

definition conf_check_legal :: "cjson option \<Rightarrow> ub + int" where
  "conf_check_legal conf =
     bindE (conf_get_log_level_internal conf) (\<lambda>LogLevel.
     if LogLevel < 0 then Inr (-1) else
     bindE (conf_get_concurrent_max_internal conf) (\<lambda>ConcurrentMax.
     if ConcurrentMax < 0 then Inr (-1) else
     bindE (conf_get_module_dir_internal conf) (\<lambda>ModuleDir.
     if ModuleDir = None then Inr (-1) else
     bindE (conf_get_modules_desc_internal conf) (\<lambda>Modules.
     if Modules = None then Inr (-1) else Inr 0))))"

section \<open>The global configuration\<close>

text \<open>\<open>cJSON_Delete\<close> of a tree or of the null pointer.\<close>

definition conf_freed :: "cjson option \<Rightarrow> conf_state \<Rightarrow> conf_state" where
  "conf_freed c st = (if c = None then st else st\<lparr>conf_live := conf_live st - 1\<rparr>)"

definition conf_load_json :: "cjson option \<Rightarrow> conf_state \<Rightarrow> ub + int \<times> conf_state" where
  "conf_load_json conf st =
     (if conf = None then Inr (-1, st)
      else bindE (conf_check_legal conf) (\<lambda>r.
        if r \<noteq> 0 then Inr (-1, st)
        else Inr (0, (conf_freed (global_conf st) st)\<lparr>global_conf := conf\<rparr>)))"

text \<open>
  The default configuration.  \<open>DEFAULT_WORKERS\<close> is 0 and is passed where a string is expected.
\<close>

definition conf_create_default_config :: "string \<Rightarrow> string \<Rightarrow> ub + cjson" where
  "conf_create_default_config install_prefix moddir =
     (let conf = cJSON_CreateObject;
          conf = cJSON_AddItemToObject conf ''Debug'' (Some cJSON_CreateTrue);
          conf = cJSON_AddItemToObject conf ''MonitorPort'' (Some (cJSON_CreateNumber DEFAULT_MONITOR_PORT));
          conf = cJSON_AddItemToObject conf ''ConcurrentMax'' (Some (cJSON_CreateNumber DEFAULT_CONCURRENT_MAX)) in
      bindE (cJSON_CreateString (Some install_prefix)) (\<lambda>dir.
      let conf = cJSON_AddItemToObject conf ''WorkingDir'' (Some dir) in
      bindE (cJSON_CreateString (Some moddir)) (\<lambda>dir.
      let conf = cJSON_AddItemToObject conf ''ModuleDir'' (Some dir) in
      bindE (cJSON_CreateString None) (\<lambda>workers.
      Inr (cJSON_AddItemToObject conf ''Workers'' (Some workers))))))"

text \<open>The result of reading a file, with the tree that reading allocated.\<close>

definition conf_read :: "cjson outcome \<Rightarrow> (cjson option \<Rightarrow> conf_state \<Rightarrow> 'a outcome) \<Rightarrow> conf_state \<Rightarrow> 'a outcome" where
  "conf_read parsed f st =
     (case parsed of NoFuel \<Rightarrow> NoFuel | Fault e \<Rightarrow> Fault e | Refused \<Rightarrow> f None st
      | Done c \<Rightarrow> f (Some c) (st\<lparr>conf_live := conf_live st + 1\<rparr>))"

definition ub_outcome :: "ub + 'a \<Rightarrow> 'a outcome" where
  "ub_outcome r = (case r of Inl e \<Rightarrow> Fault e | Inr x \<Rightarrow> Done x)"

text \<open>
  \<open>fopen\<close> is \<open>None\<close> when the file cannot be opened, else what reading it yields.
\<close>

definition conf_new ::
  "string \<Rightarrow> string \<Rightarrow> (string \<Rightarrow> cjson outcome option) \<Rightarrow> string option \<Rightarrow> conf_state \<Rightarrow> (int \<times> conf_state) outcome" where
  "conf_new install_prefix moddir fopen filename st =
     (case filename of
        Some name \<Rightarrow>
          (case fopen name of None \<Rightarrow> Done (-1, st)
           | Some parsed \<Rightarrow> conf_read parsed (\<lambda>conf st. ub_outcome (conf_load_json conf st)) st)
      | None \<Rightarrow>
          bindP (ub_outcome (conf_create_default_config install_prefix moddir)) (\<lambda>conf.
            Done (0, st\<lparr>global_conf := Some conf, conf_live := conf_live st + 1\<rparr>)))"

definition conf_delete :: "conf_state \<Rightarrow> int \<times> conf_state" where
  "conf_delete st =
     (if global_conf st \<noteq> None then (0, (conf_freed (global_conf st) st)\<lparr>global_conf := None\<rparr>) else (-1, st))"

definition conf_reload :: "(string \<Rightarrow> cjson outcome option) \<Rightarrow> string option \<Rightarrow> conf_state \<Rightarrow> (int \<times> conf_state) outcome" where
  "conf_reload fopen filename st =
     (case filename of None \<Rightarrow> Done (-1, st)
      | Some name \<Rightarrow>
          (case fopen name of None \<Rightarrow> Done (-1, st)
           | Some parsed \<Rightarrow> conf_read parsed (\<lambda>conf st.
               bindP (ub_outcome (conf_load_json conf st)) (\<lambda>(ret, st).
                 Done (ret, if ret < 0 then conf_freed conf st else st))) st))"

definition conf_get_monitor_port :: "conf_state \<Rightarrow> ub + int" where
  "conf_get_monitor_port st = conf_get_monitor_port_internal (global_conf st)"

definition conf_get_concurrent_max :: "conf_state \<Rightarrow> ub + int" where
  "conf_get_concurrent_max st = conf_get_concurrent_max_internal (global_conf st)"

definition conf_get_log_level :: "conf_state \<Rightarrow> ub + int" where
  "conf_get_log_level st = conf_get_log_level_internal (global_conf st)"

definition conf_get_daemon :: "conf_state \<Rightarrow> ub + int" where
  "conf_get_daemon st = conf_get_daemon_internal (global_conf st)"

definition conf_get_workers :: "conf_state \<Rightarrow> int \<Rightarrow> ub + int" where
  "conf_get_workers st n = conf_get_workers_internal (global_conf st) n"

definition conf_get_working_dir :: "string \<Rightarrow> conf_state \<Rightarrow> ub + string option" where
  "conf_get_working_dir install_prefix st = conf_get_working_dir_internal install_prefix (global_conf st)"

definition conf_get_module_dir :: "conf_state \<Rightarrow> ub + string option" where
  "conf_get_module_dir st = conf_get_module_dir_internal (global_conf st)"

definition conf_get_modules_desc :: "conf_state \<Rightarrow> ub + cjson option" where
  "conf_get_modules_desc st = conf_get_modules_desc_internal (global_conf st)"

section \<open>What a legal configuration is\<close>

text \<open>The types of the members, as the rest of the program relies on them.\<close>

definition natural_member :: "cjson \<Rightarrow> bool" where
  "natural_member m \<longleftrightarrow> jtype m = cJSON_Number \<and> 0 \<le> jvalueint m"

definition text_member :: "cjson \<Rightarrow> bool" where
  "text_member m \<longleftrightarrow> jtype m = cJSON_String \<and> jvaluestring m \<noteq> None"

definition conf_typed :: "cjson \<Rightarrow> bool" where
  "conf_typed c \<longleftrightarrow>
     pred_option natural_member (first_member c ''LogLevel'')
     \<and> pred_option natural_member (first_member c ''ConcurrentMax'')
     \<and> pred_option text_member (first_member c ''ModuleDir'')
     \<and> (case first_member c ''Modules'' of None \<Rightarrow> False | Some m \<Rightarrow> jtype m = cJSON_Array)"

lemma number_or_legal: "0 \<le> d \<Longrightarrow> number_or d tmp < 0 \<longleftrightarrow> \<not> pred_option natural_member tmp"
  by (cases tmp) (auto simp: number_or_def natural_member_def)

lemma string_or_legal: "string_or d tmp = None \<longleftrightarrow> \<not> pred_option text_member tmp"
  by (cases tmp) (auto simp: string_or_def text_member_def)

lemma check_legal_typed: "conf_check_legal (Some c) = Inr (if conf_typed c then 0 else -1)"
  by (cases "first_member c ''Modules''")
     (simp_all add: conf_check_legal_def conf_get_log_level_internal_def conf_get_concurrent_max_internal_def
        conf_get_module_dir_internal_def conf_get_modules_desc_internal_def GetObjectItem_first
        number_or_legal string_or_legal conf_typed_def)

lemma load_json_typed:
  "conf_load_json (Some c) st =
     Inr (if conf_typed c then (0, (conf_freed (global_conf st) st)\<lparr>global_conf := Some c\<rparr>) else (-1, st))"
  by (simp add: conf_load_json_def check_legal_typed)

lemma load_json_None: "conf_load_json None st = Inr (-1, st)"
  by (simp add: conf_load_json_def)

section \<open>Reloading\<close>

text \<open>
  C24.  \<open>conf_reload\<close> is all or nothing: a file that cannot be opened, does not parse or is not legal
  leaves the configuration in force and no tree behind; a legal one replaces it, and the tree of
  the old configuration is deleted.
\<close>

theorem conf_reload_atomic:
  assumes "global_conf st = Some old" and "0 < conf_live st"
  shows "conf_reload fopen (Some name) st =
     (case fopen name of
        None \<Rightarrow> Done (-1, st)
      | Some Refused \<Rightarrow> Done (-1, st)
      | Some (Done c) \<Rightarrow> Done (if conf_typed c then (0, st\<lparr>global_conf := Some c\<rparr>) else (-1, st))
      | Some (Fault e) \<Rightarrow> Fault e
      | Some NoFuel \<Rightarrow> NoFuel)"
  using assms
  by (cases "fopen name"; cases "the (fopen name)")
     (auto simp: conf_reload_def conf_read_def load_json_typed ub_outcome_def conf_freed_def load_json_None)

theorem conf_reload_atomic_witness:
  "conf_reload (\<lambda>n. Some (Done cJSON_CreateNull)) (Some ''f'') \<lparr>global_conf = Some cJSON_CreateObject, conf_live = 1\<rparr>
     = Done (-1, \<lparr>global_conf = Some cJSON_CreateObject, conf_live = 1\<rparr>)"
proof -
  have "\<not> conf_typed cJSON_CreateNull"
    by (simp add: conf_typed_def first_member_def cJSON_CreateNull_def)
  then show ?thesis
    using conf_reload_atomic [of "\<lparr>global_conf = Some cJSON_CreateObject, conf_live = 1\<rparr>" cJSON_CreateObject
        "\<lambda>n. Some (Done cJSON_CreateNull)" "''f''"]
    by simp
qed

section \<open>Histories\<close>

datatype conf_op = New string | Reload string | Delete

text \<open>Each operation with the file system it finds.\<close>

type_synonym files = "string \<Rightarrow> cjson outcome option"

definition conf_step :: "string \<Rightarrow> string \<Rightarrow> files \<times> conf_op \<Rightarrow> conf_state \<Rightarrow> conf_state outcome" where
  "conf_step install_prefix moddir a st =
     bindP (case snd a of
              New name \<Rightarrow> conf_new install_prefix moddir (fst a) (Some name) st
            | Reload name \<Rightarrow> conf_reload (fst a) (Some name) st
            | Delete \<Rightarrow> Done (conf_delete st)) (\<lambda>(ret, st). Done st)"

primrec conf_run :: "string \<Rightarrow> string \<Rightarrow> (files \<times> conf_op) list \<Rightarrow> conf_state \<Rightarrow> conf_state outcome" where
  "conf_run install_prefix moddir [] st = Done st"
| "conf_run install_prefix moddir (a # as) st =
     bindP (conf_step install_prefix moddir a st) (conf_run install_prefix moddir as)"

text \<open>The trees \<open>conf_new\<close> reads and neither keeps nor deletes.\<close>

fun leaks :: "files \<times> conf_op \<Rightarrow> nat" where
  "leaks (fopen, New name) = (case fopen name of Some (Done c) \<Rightarrow> if conf_typed c then 0 else 1 | _ \<Rightarrow> 0)"
| "leaks (fopen, _) = 0"

definition conf_inv :: "nat \<Rightarrow> conf_state \<Rightarrow> bool" where
  "conf_inv leaked st \<longleftrightarrow>
     (case global_conf st of None \<Rightarrow> conf_live st = leaked
      | Some c \<Rightarrow> conf_typed c \<and> conf_live st = leaked + 1)"

lemma conf_step_inv:
  assumes "conf_inv n st" and "conf_step ip md a st = Done st'"
  shows "conf_inv (n + leaks a) st'"
proof -
  obtain fopen opn where a: "a = (fopen, opn)" by (cases a)
  have load: "conf_inv (if conf_typed c then n else Suc n) st2"
    if "conf_load_json (Some c) (st\<lparr>conf_live := Suc (conf_live st)\<rparr>) = Inr (r, st2)" for c r st2
    using that assms(1)
    by (auto simp: load_json_typed conf_inv_def conf_freed_def split: if_splits option.splits)
  have load': "conf_inv n (if r < 0 then conf_freed (Some c) st2 else st2)"
    if "conf_load_json (Some c) (st\<lparr>conf_live := Suc (conf_live st)\<rparr>) = Inr (r, st2)" for c r st2
    using that assms(1)
    by (auto simp: load_json_typed conf_inv_def conf_freed_def split: if_splits option.splits)
  show ?thesis
  proof (cases opn)
    case (New name)
    with assms(2) a consider "fopen name = None" "st' = st" | "fopen name = Some Refused" "st' = st"
      | c r where "fopen name = Some (Done c)"
          "conf_load_json (Some c) (st\<lparr>conf_live := Suc (conf_live st)\<rparr>) = Inr (r, st')"
      by (auto simp: conf_step_def conf_new_def conf_read_def ub_outcome_def bindP_Done_iff load_json_None
          split: option.splits outcome.splits sum.splits)
    then show ?thesis
    proof cases
      case (3 c r)
      then show ?thesis using load [of c r st'] a New by auto
    qed (use assms(1) a New in auto)
  next
    case (Reload name)
    with assms(2) a consider "fopen name = None" "st' = st" | "fopen name = Some Refused" "st' = st"
      | c r st2 where "fopen name = Some (Done c)" "st' = (if r < 0 then conf_freed (Some c) st2 else st2)"
          "conf_load_json (Some c) (st\<lparr>conf_live := Suc (conf_live st)\<rparr>) = Inr (r, st2)"
      by (auto simp: conf_step_def conf_reload_def conf_read_def ub_outcome_def bindP_Done_iff load_json_None
          conf_freed_def [of None] split: option.splits outcome.splits sum.splits)
    then show ?thesis
    proof cases
      case (3 c r st2)
      then show ?thesis using load' [of c r st2] a Reload by auto
    qed (use assms(1) a Reload in auto)
  next
    case Delete
    with assms a show ?thesis
      by (auto simp: conf_step_def conf_delete_def conf_inv_def conf_freed_def split: option.splits if_splits)
  qed
qed

lemma conf_run_inv:
  "conf_inv n st \<Longrightarrow> conf_run ip md as st = Done st' \<Longrightarrow> conf_inv (n + sum_list (map leaks as)) st'"
proof (induction as arbitrary: n st)
  case (Cons a as)
  then obtain st1 where "conf_step ip md a st = Done st1" "conf_run ip md as st1 = Done st'"
    by (auto simp: bindP_Done_iff)
  with conf_step_inv [OF Cons.prems(1)] Cons.IH [of "n + leaks a" st1] show ?case by (simp add: add.assoc)
qed simp

text \<open>
  C23.  Typing: after any history of loading, reloading and deleting, the configuration in force is
  missing or has members of the right types, so that the log level and the number of connections
  it yields are not negative and the module directory and the list of modules are there.  Every
  other tree alive was read by \<open>conf_new\<close> from a file that is not legal.
\<close>

theorem conf_always_typed:
  assumes "conf_run install_prefix moddir as conf_start = Done st"
  shows "case global_conf st of
      None \<Rightarrow> conf_live st = sum_list (map leaks as)
    | Some c \<Rightarrow> conf_typed c \<and> conf_live st = sum_list (map leaks as) + 1
        \<and> (\<exists>level n dir ms. conf_get_log_level st = Inr level \<and> 0 \<le> level
             \<and> conf_get_concurrent_max st = Inr n \<and> 0 \<le> n
             \<and> conf_get_module_dir st = Inr (Some dir)
             \<and> conf_get_modules_desc st = Inr (Some ms) \<and> jtype ms = cJSON_Array)"
proof -
  have "conf_inv 0 conf_start" by (simp add: conf_inv_def conf_start_def)
  from conf_run_inv [OF this assms] have inv: "conf_inv (sum_list (map leaks as)) st" by simp
  show ?thesis
  proof (cases "global_conf st")
    case (Some c)
    with inv have c: "conf_typed c" "conf_live st = sum_list (map leaks as) + 1" by (simp_all add: conf_inv_def)
    from c(1) have "\<exists>level. conf_get_log_level st = Inr level \<and> 0 \<le> level"
      "\<exists>n. conf_get_concurrent_max st = Inr n \<and> 0 \<le> n"
      "\<exists>dir. conf_get_module_dir st = Inr (Some dir)"
      "\<exists>ms. conf_get_modules_desc st = Inr (Some ms) \<and> jtype ms = cJSON_Array"
      by (auto simp: conf_get_log_level_def conf_get_log_level_internal_def conf_get_concurrent_max_def
          conf_get_concurrent_max_internal_def conf_get_module_dir_def conf_get_module_dir_internal_def
          conf_get_modules_desc_def conf_get_modules_desc_internal_def Some GetObjectItem_first
          number_or_def string_or_def conf_typed_def natural_member_def text_member_def split: option.splits)
    with c Some show ?thesis by auto
  qed (use inv in \<open>simp add: conf_inv_def\<close>)
qed

definition sample_conf :: cjson where
  "sample_conf = Cjson cJSON_Object [Cjson cJSON_Array [] None 0 (Some ''Modules'')] None 0 None"

theorem conf_always_typed_witness:
  "conf_typed sample_conf \<and> conf_get_log_level \<lparr>global_conf = Some sample_conf, conf_live = 1\<rparr> = Inr 6"
proof -
  have "first_member sample_conf ''LogLevel'' = None" "first_member sample_conf ''ConcurrentMax'' = None"
    "first_member sample_conf ''ModuleDir'' = None" "map_option jtype (first_member sample_conf ''Modules'') = Some cJSON_Array"
    by code_simp+
  then have "conf_typed sample_conf" "conf_get_log_level \<lparr>global_conf = Some sample_conf, conf_live = 1\<rparr> = Inr 6"
    by (auto simp: conf_typed_def conf_get_log_level_def conf_get_log_level_internal_def GetObjectItem_first number_or_def)
  moreover have "conf_run ''/'' ''/'' [(\<lambda>n. Some (Done sample_conf), New ''f'')] conf_start
      = Done \<lparr>global_conf = Some sample_conf, conf_live = 1\<rparr>"
    using calculation(1)
    by (simp add: conf_step_def conf_new_def conf_read_def load_json_typed ub_outcome_def conf_start_def conf_freed_def)
  from conf_always_typed [OF this] have "conf_typed sample_conf" by simp
  ultimately show ?thesis by blast
qed

text \<open>
  Without a file there is no default configuration: \<open>conf_new(NULL)\<close> takes the length of the
  string that \<open>DEFAULT_WORKERS\<close> is not.
\<close>

lemma conf_new_null: "conf_new install_prefix moddir fopen None st = Fault NullDeref"
  by (simp add: conf_new_def conf_create_default_config_def cJSON_CreateString_def Let_def ub_outcome_def)

end
