(* ===== verification/Room_Loading.thy ===== *)
theory Room_Loading
  imports Conf "HOL-Library.Multiset" "HOL-Library.Sublist"
begin

text \<open>
  Loading and unloading the rooms: \<open>src/src/module_handler.c\<close> and \<open>dungeon_add_rooms\<close>,
  \<open>dungeon_add_room\<close> and \<open>dungeon_demolish_allrooms\<close> of \<open>src/src/dungeon.c\<close>.  The dynamic linker
  and the code of the modules are arguments; what an initializer does to the rest of the program is
  a change of the world \<open>'d\<close>.
\<close>

section \<open>Modules\<close>

text \<open>
  \<open>dlopen\<close>, the \<open>malloc\<close> after it, \<open>dlsym\<close>, and the two functions of the interface that are
  called, for the file of a name.
\<close>

record 'd linker =
  dlopen_ok :: "string \<Rightarrow> bool"
  malloc_ok :: "string \<Rightarrow> bool"
  symbol_ok :: "string \<Rightarrow> bool"
  mod_initializer :: "string \<Rightarrow> cjson \<Rightarrow> 'd \<Rightarrow> ub + int \<times> 'd"
  mod_destroier :: "string \<Rightarrow> 'd \<Rightarrow> ub + 'd"

text \<open>
  A loaded module and where its path is kept.  A path of 256 characters or more leaves the array
  without a terminating zero.
\<close>

record module_handler =
  mod_file :: string
  mod_path :: string

definition path_terminated :: "module_handler \<Rightarrow> bool" where
  "path_terminated m \<longleftrightarrow> length (mod_path m) < 256"

text \<open>The rooms of the dungeon in the order of their list, its volume, and the files kept open.\<close>

record 'd rooms_state =
  rooms :: "module_handler list"
  rooms_volume :: int
  open_files :: "string list"
  world :: 'd

definition dlclose :: "string \<Rightarrow> 'd rooms_state \<Rightarrow> 'd rooms_state" where
  "dlclose f st = st\<lparr>open_files := remove1 f (open_files st)\<rparr>"

text \<open>When \<open>malloc\<close> fails the file stays open.\<close>

definition module_load_only :: "'d linker \<Rightarrow> string \<Rightarrow> 'd rooms_state \<Rightarrow> module_handler option \<times> 'd rooms_state" where
  "module_load_only ld fname st =
     (if \<not> dlopen_ok ld fname then (None, st)
      else
        let st = st\<lparr>open_files := fname # open_files st\<rparr> in
        if \<not> malloc_ok ld fname then (None, st)
        else if \<not> symbol_ok ld fname then (None, dlclose fname st)
        else (Some \<lparr>mod_file = fname, mod_path = take 256 fname\<rparr>, st))"

definition module_unload_only :: "module_handler \<Rightarrow> 'd rooms_state \<Rightarrow> 'd rooms_state" where
  "module_unload_only m st = dlclose (mod_file m) st"

text \<open>The process ends by \<open>exit\<close> or \<open>abort\<close>, or goes on.\<close>

datatype 'a proc = Ends | Goes 'a

text \<open>
  \<open>llist_append\<close> waits while the list of rooms is full, and nothing ever takes a room out of it.
  \<open>node_ok\<close>: the list finds memory for its node.
\<close>

definition dungeon_add_room ::
  "'d linker \<Rightarrow> (string \<Rightarrow> bool) \<Rightarrow> string \<Rightarrow> cjson \<Rightarrow> 'd rooms_state \<Rightarrow> ub + (int \<times> 'd rooms_state) proc" where
  "dungeon_add_room ld node_ok fname conf st =
     (case module_load_only ld fname st of
        (None, st) \<Rightarrow> Inr (Goes (-1, st))
      | (Some handle, st) \<Rightarrow>
          bindE (mod_initializer ld fname conf (world st)) (\<lambda>(ret, w).
          let st = st\<lparr>world := w\<rparr> in
          if ret = 0 then
            if int (length (rooms st)) \<ge> rooms_volume st then Inl Deadlock
            else if node_ok fname then Inr (Goes (0, st\<lparr>rooms := rooms st @ [handle]\<rparr>))
            else Inr (Goes (-1, st))
          else if ret = -1 then Inr (Goes (-1, module_unload_only handle st))
          else Inr Ends))"

text \<open>\<open>snprintf(pat, 1024, ...)\<close>\<close>

definition room_path :: "string \<Rightarrow> string \<Rightarrow> string" where
  "room_path dir path = take 1023 (if at path \<noteq> CHR ''/'' then dir @ ''/'' @ path else path)"

text \<open>
  What one description asks for: a file and its configuration, or nothing.  A missing \<open>Path\<close> or
  \<open>Config\<close> is a null pointer whose type is read.
\<close>

definition described_room :: "conf_state \<Rightarrow> cjson \<Rightarrow> ub + (string \<times> cjson) option" where
  "described_room cst mod_desc =
     bindE (cJSON_GetObjectItem (Some mod_desc) ''Path'') (\<lambda>mod_path.
     if mod_path = None then Inl NullDeref
     else if jtype (the mod_path) \<noteq> cJSON_String then Inr None
     else
       bindE (cJSON_GetObjectItem (Some mod_desc) ''Config'') (\<lambda>mod_conf.
       if mod_conf = None then Inl NullDeref
       else if jtype (the mod_conf) \<noteq> cJSON_Object then Inr None
       else if jvaluestring (the mod_path) = None then Inl NullDeref
       else
         let path = the (jvaluestring (the mod_path)) in
         if at path = CHR ''/'' then Inr (Some (room_path [] path, the mod_conf))
         else
           bindE (conf_get_module_dir cst) (\<lambda>dir.
           if dir = None then Inl NullDeref
           else Inr (Some (room_path (the dir) path, the mod_conf)))))"

text \<open>The loop of \<open>dungeon_add_rooms\<close> over the descriptions from some position on.\<close>

primrec add_rooms_loop ::
  "'d linker \<Rightarrow> (string \<Rightarrow> bool) \<Rightarrow> conf_state \<Rightarrow> cjson list \<Rightarrow> int \<Rightarrow> 'd rooms_state
     \<Rightarrow> ub + (int \<times> 'd rooms_state) proc" where
  "add_rooms_loop ld node_ok cst [] cnt st = Inr (Goes (cnt, st))"
| "add_rooms_loop ld node_ok cst (mod_desc # descs) cnt st =
     bindE (described_room cst mod_desc) (\<lambda>r.
     case r of
       None \<Rightarrow> add_rooms_loop ld node_ok cst descs cnt st
     | Some (pat, mod_conf) \<Rightarrow>
         bindE (dungeon_add_room ld node_ok pat mod_conf st) (\<lambda>r.
         case r of
           Ends \<Rightarrow> Inr Ends
         | Goes (ret, st) \<Rightarrow> add_rooms_loop ld node_ok cst descs (if ret = 0 then cnt + 1 else cnt) st))"

definition dungeon_add_rooms ::
  "'d linker \<Rightarrow> (string \<Rightarrow> bool) \<Rightarrow> conf_state \<Rightarrow> 'd rooms_state \<Rightarrow> ub + (int \<times> 'd rooms_state) proc" where
  "dungeon_add_rooms ld node_ok cst st =
     bindE (conf_get_modules_desc cst) (\<lambda>conf_mods.
     case conf_mods of None \<Rightarrow> Inr Ends
     | Some mods \<Rightarrow> if jtype mods \<noteq> cJSON_Array then Inr Ends
                   else add_rooms_loop ld node_ok cst (jchild mods) 0 st)"

text \<open>\<open>do_unload\<close> for every room, in the order of the list.\<close>

definition do_unload :: "'d linker \<Rightarrow> module_handler \<Rightarrow> 'd rooms_state \<Rightarrow> ub + 'd rooms_state" where
  "do_unload ld m st =
     bindE (mod_destroier ld (mod_file m) (world st)) (\<lambda>w. Inr (module_unload_only m (st\<lparr>world := w\<rparr>)))"

primrec unload_all :: "'d linker \<Rightarrow> module_handler list \<Rightarrow> 'd rooms_state \<Rightarrow> ub + 'd rooms_state" where
  "unload_all ld [] st = Inr st"
| "unload_all ld (m # ms) st = bindE (do_unload ld m st) (unload_all ld ms)"

definition dungeon_demolish_allrooms :: "'d linker \<Rightarrow> 'd rooms_state \<Rightarrow> ub + 'd rooms_state" where
  "dungeon_demolish_allrooms ld st = unload_all ld (rooms st) st"

section \<open>Which rooms there are\<close>

text \<open>A description that can be used: \<open>Path\<close> and \<open>Config\<close> are there, and the path is a string if it says so.\<close>

definition usable :: "cjson \<Rightarrow> bool" where
  "usable c \<longleftrightarrow> first_member c ''Path'' \<noteq> None \<and> first_member c ''Config'' \<noteq> None
     \<and> (\<forall>m. first_member c ''Path'' = Some m \<and> jtype m = cJSON_String \<longrightarrow> jvaluestring m \<noteq> None)"

lemma described_fails:
  assumes "described_room cst c = Inl e" and "conf_get_module_dir cst = Inr (Some dir)"
  shows "e = NullDeref \<and> \<not> usable c"
  using assms by (auto simp: usable_def described_room_def GetObjectItem_first Let_def split: if_splits)

definition files_of :: "'d rooms_state \<Rightarrow> string multiset" where
  "files_of st = mset (map mod_file (rooms st))"

text \<open>
  The files open beyond those of the rooms.  The code of the modules may do anything: what an
  operation does is stated for each of its outcomes.
\<close>

definition rooms_inv :: "string multiset \<Rightarrow> 'd rooms_state \<Rightarrow> bool" where
  "rooms_inv extra st \<longleftrightarrow> mset (open_files st) = files_of st + extra"

lemma add_room_outcome:
  assumes "\<forall>f. malloc_ok ld f \<and> node_ok f" and "rooms_inv extra st"
  shows "case dungeon_add_room ld node_ok f conf st of
     Inr (Goes (ret, st')) \<Rightarrow> rooms_inv extra st' \<and> rooms_volume st' = rooms_volume st
       \<and> (if ret = 0 then \<exists>m. rooms st' = rooms st @ [m] \<and> mod_file m = f else rooms st' = rooms st)
   | Inr Ends \<Rightarrow> \<exists>ret w'. mod_initializer ld f conf (world st) = Inr (ret, w') \<and> ret \<noteq> 0 \<and> ret \<noteq> -1
   | Inl e \<Rightarrow> mod_initializer ld f conf (world st) = Inl e
       \<or> e = Deadlock \<and> int (length (rooms st)) \<ge> rooms_volume st"
proof (cases "dlopen_ok ld f \<and> symbol_ok ld f")
  case False
  with assms show ?thesis
    by (auto simp: dungeon_add_room_def module_load_only_def dlclose_def rooms_inv_def files_of_def Let_def)
next
  case True
  show ?thesis
  proof (cases "mod_initializer ld f conf (world st)")
    case (Inl e)
    with True assms(1) show ?thesis by (simp add: dungeon_add_room_def module_load_only_def Let_def)
  next
    case (Inr r)
    obtain ret w' where "r = (ret, w')" by (cases r)
    with True assms Inr show ?thesis
      by (simp add: dungeon_add_room_def module_load_only_def module_unload_only_def dlclose_def
          rooms_inv_def files_of_def Let_def)
  qed
qed

text \<open>The files the descriptions ask for, in order.\<close>

definition asks_for :: "conf_state \<Rightarrow> cjson \<Rightarrow> string \<Rightarrow> cjson \<Rightarrow> bool" where
  "asks_for cst d f conf \<longleftrightarrow> described_room cst d = Inr (Some (f, conf))"

definition room_files :: "conf_state \<Rightarrow> cjson list \<Rightarrow> string list" where
  "room_files cst descs = concat (map (\<lambda>d. case described_room cst d of Inr (Some (f, conf)) \<Rightarrow> [f] | _ \<Rightarrow> []) descs)"

text \<open>Why loading the rooms of \<open>descs\<close> goes wrong, or ends the process.\<close>

definition loading_fault :: "'d linker \<Rightarrow> conf_state \<Rightarrow> cjson list \<Rightarrow> int \<Rightarrow> ub \<Rightarrow> bool" where
  "loading_fault ld cst descs left e \<longleftrightarrow>
     (\<exists>d\<in>set descs. \<exists>f conf w. asks_for cst d f conf \<and> mod_initializer ld f conf w = Inl e)
     \<or> e = NullDeref \<and> (\<exists>d\<in>set descs. \<not> usable d)
     \<or> e = Deadlock \<and> left < int (length descs)"

definition refuses_oddly :: "'d linker \<Rightarrow> conf_state \<Rightarrow> cjson list \<Rightarrow> bool" where
  "refuses_oddly ld cst descs \<longleftrightarrow> (\<exists>d\<in>set descs. \<exists>f conf w ret w'. asks_for cst d f conf
     \<and> mod_initializer ld f conf w = Inr (ret, w') \<and> ret \<noteq> 0 \<and> ret \<noteq> -1)"

lemma add_rooms_loop_outcome:
  assumes mem: "\<forall>f. malloc_ok ld f \<and> node_ok f" and dir: "conf_get_module_dir cst = Inr (Some dir)"
  shows "rooms_inv extra st \<Longrightarrow>
     (case add_rooms_loop ld node_ok cst descs cnt st of
        Inr (Goes (n, st')) \<Rightarrow> rooms_inv extra st' \<and> (\<exists>fs. map mod_file (rooms st') = map mod_file (rooms st) @ fs
          \<and> subseq fs (room_files cst descs) \<and> n = cnt + int (length fs))
      | Inr Ends \<Rightarrow> refuses_oddly ld cst descs
      | Inl e \<Rightarrow> loading_fault ld cst descs (rooms_volume st - int (length (rooms st))) e)"
proof (induction descs arbitrary: cnt st)
  case Nil
  then show ?case by simp
next
  case (Cons c descs)
  show ?case
  proof (cases "described_room cst c")
    case (Inl e)
    with described_fails [OF Inl dir] show ?thesis by (simp add: loading_fault_def)
  next
    case (Inr r)
    show ?thesis
    proof (cases r)
      case None
      then have files: "room_files cst (c # descs) = room_files cst descs" using Inr by (simp add: room_files_def)
      from None Inr have same: "add_rooms_loop ld node_ok cst (c # descs) cnt st = add_rooms_loop ld node_ok cst descs cnt st"
        by simp
      from Cons.IH [OF Cons.prems, of cnt] show ?thesis
        unfolding same files by (auto simp: loading_fault_def refuses_oddly_def split: sum.splits proc.splits)
    next
      case (Some fc)
      obtain f conf where fc: "fc = (f, conf)" by (cases fc)
      note out = add_room_outcome [OF mem Cons.prems, of f conf]
      have asks: "asks_for cst c f conf" and files: "room_files cst (c # descs) = f # room_files cst descs"
        using Inr Some fc by (simp_all add: asks_for_def room_files_def)
      show ?thesis
      proof (cases "dungeon_add_room ld node_ok f conf st")
        case (Inl e)
        with out asks have "loading_fault ld cst (c # descs) (rooms_volume st - int (length (rooms st))) e"
          by (auto simp: loading_fault_def)
        with Inl Inr Some fc show ?thesis by simp
      next
        case run: (Inr r1)
        show ?thesis
        proof (cases r1)
          case Ends
          with out run asks have "refuses_oddly ld cst (c # descs)" unfolding refuses_oddly_def by simp blast
          with Ends run Inr Some fc show ?thesis by simp
        next
          case (Goes x)
          obtain ret st1 where x: "x = (ret, st1)" by (cases x)
          define fs1 where "fs1 = (if ret = 0 then [f] else [])"
          from out run Goes x have 1: "rooms_inv extra st1" "rooms_volume st1 = rooms_volume st"
            "map mod_file (rooms st1) = map mod_file (rooms st) @ fs1" by (auto simp: fs1_def split: if_splits)
          from this(3) have len: "length (rooms st1) = length (rooms st) + length fs1"
            by (metis length_append length_map)
          have step: "add_rooms_loop ld node_ok cst (c # descs) cnt st
              = add_rooms_loop ld node_ok cst descs (cnt + int (length fs1)) st1"
            using Inr Some fc run Goes x by (simp add: fs1_def)
          have sub: "subseq (fs1 @ fs) (f # room_files cst descs)" if "subseq fs (room_files cst descs)" for fs
            using that by (auto simp: fs1_def)
          show ?thesis
          proof (cases "add_rooms_loop ld node_ok cst descs (cnt + int (length fs1)) st1")
            case (Inl e)
            with Cons.IH [OF 1(1), of "cnt + int (length fs1)"] 1(2) len
            have "loading_fault ld cst (c # descs) (rooms_volume st - int (length (rooms st))) e"
              by (auto simp: loading_fault_def fs1_def split: if_splits)
            with Inl show ?thesis unfolding step by simp
          next
            case (Inr r2)
            show ?thesis
            proof (cases r2)
              case Ends
              with Inr Cons.IH [OF 1(1), of "cnt + int (length fs1)"] show ?thesis
                unfolding step by (auto simp: refuses_oddly_def)
            next
              case (Goes y)
              obtain n st' where y: "y = (n, st')" by (cases y)
              from Inr Goes y Cons.IH [OF 1(1), of "cnt + int (length fs1)"] obtain fs where
                fs: "rooms_inv extra st'" "map mod_file (rooms st') = map mod_file (rooms st1) @ fs"
                  "subseq fs (room_files cst descs)" "n = cnt + int (length fs1) + int (length fs)" by auto
              with 1(3) sub [OF fs(3)] have "\<exists>fs. map mod_file (rooms st') = map mod_file (rooms st) @ fs
                  \<and> subseq fs (f # room_files cst descs) \<and> n = cnt + int (length fs)"
                by (intro exI [of _ "fs1 @ fs"]) simp
              with fs(1) Inr Goes y show ?thesis unfolding step files by simp
            qed
          qed
        qed
      qed
    qed
  qed
qed

lemma unload_all_outcome:
  "mset (open_files st) = mset (map mod_file ms) + extra \<Longrightarrow>
     (case unload_all ld ms st of
        Inr st' \<Rightarrow> mset (open_files st') = extra
      | Inl e \<Rightarrow> \<exists>m\<in>set ms. \<exists>w. mod_destroier ld (mod_file m) w = Inl e)"
proof (induction ms arbitrary: st)
  case (Cons m ms)
  show ?case
  proof (cases "mod_destroier ld (mod_file m) (world st)")
    case (Inl e)
    then show ?thesis by (auto simp: do_unload_def)
  next
    case (Inr w)
    let ?st = "module_unload_only m (st\<lparr>world := w\<rparr>)"
    have "mset (open_files ?st) = mset (map mod_file ms) + extra"
      using Cons.prems by (simp add: module_unload_only_def dlclose_def)
    from Cons.IH [OF this] Inr show ?thesis by (auto simp: do_unload_def split: sum.splits)
  qed
qed simp

text \<open>With a typed configuration, loading is the loop over the descriptions.\<close>

lemma add_rooms_typed:
  assumes "global_conf cst = Some c" and "conf_typed c"
  shows "\<exists>mods dir. first_member c ''Modules'' = Some mods \<and> conf_get_module_dir cst = Inr (Some dir)
     \<and> dungeon_add_rooms ld node_ok cst st = add_rooms_loop ld node_ok cst (jchild mods) 0 st"
proof -
  from assms(2) obtain mods where m: "first_member c ''Modules'' = Some mods" "jtype mods = cJSON_Array"
    by (auto simp: conf_typed_def split: option.splits)
  from assms have "\<exists>dir. conf_get_module_dir cst = Inr (Some dir)"
    by (auto simp: conf_get_module_dir_def conf_get_module_dir_internal_def GetObjectItem_first string_or_def
        conf_typed_def text_member_def split: option.splits)
  moreover have "dungeon_add_rooms ld node_ok cst st = add_rooms_loop ld node_ok cst (jchild mods) 0 st"
    using assms(1) m
    by (simp add: dungeon_add_rooms_def conf_get_modules_desc_def conf_get_modules_desc_internal_def GetObjectItem_first)
  ultimately show ?thesis using m by blast
qed

end
