(* ===== verification/Room_Init.thy ===== *)
theory Room_Init
  imports Room_Echo Room_Httpd Room_Config Room_Loading Dungeon_Safety
begin

text \<open>
  What the modules do when they are loaded and unloaded (\<open>mod_init\<close> and \<open>mod_destroy\<close> of
  \<open>src/src/modules/*/mod.c\<close>), and the listener of the room \<open>fake_httpd\<close>.
\<close>

section \<open>The listener of fake_httpd\<close>

datatype httpd_room_memory = HListenerMem "listen_tcp option" | HEchoerMem httpd_memory

definition httpd_zero :: "conn_tcp \<Rightarrow> httpd_memory" where
  "httpd_zero conn = \<lparr>h_conn = conn, h_state = H_RECV, h_length = 0, h_header = replicate BUFSIZE 0,
     h_header_len = 0, h_header_pos = 0, h_memoirs = []\<rparr>"

text \<open>The loop is that of the room \<open>echo\<close>; \<open>debug_accept\<close> counts the imps it could summon.\<close>

definition httpd_listener_driver ::
  "listen_tcp option \<Rightarrow> httpd_room_memory accept_call list \<Rightarrow> bool \<Rightarrow> int
     \<Rightarrow> ub + (driver_retcode \<times> httpd_room_memory service list \<times> int list \<times> int)" where
  "httpd_listener_driver listen calls nomem debug_accept =
     (case listen of None \<Rightarrow> Inl NullDeref
      | Some lmem \<Rightarrow>
          bindE (listener_loop (\<lambda>conn. HEchoerMem (httpd_zero conn)) calls) (\<lambda>(svcs, closed).
          Inr (TO_BLOCK, svcs @ [SetIoev (l_sd lmem) (or (or EPOLLIN EPOLLOUT) EPOLLRDHUP) True nomem], closed,
               debug_accept + int (length (filter ac_summoned (takeWhile (\<lambda>c. fst (accepted c) = 0) calls))))))"

section \<open>Loading and unloading\<close>

text \<open>The variables of a module: those of its configuration and \<open>id_listener\<close>, at first null.\<close>

record 'a room_globals =
  vars :: "'a room_vars"
  id_listener :: "intptr option"

text \<open>
  What \<open>mod_init\<close> gets from the system: its \<open>calloc\<close>, the calls of \<open>conn_tcp_listen_create\<close> and
  those of \<open>imp_summon\<close>.
\<close>

record 'm init_calls =
  ic_mem_ok :: bool
  ic_listen_mem_ok :: bool
  ic_sock :: int
  ic_bind_ok :: bool
  ic_listen_ok :: bool
  ic_summoning :: "'m summoning"

text \<open>\<open>timeo.accept\<close> is not configured and stays zero.\<close>

definition created :: "'m init_calls \<Rightarrow> listen_tcp option" where
  "created ic = fst (conn_tcp_listen_create (ic_listen_mem_ok ic) (ic_sock ic) (ic_bind_ok ic) (ic_listen_ok ic) (Some 0))"

text \<open>A listener that could not be created is summoned all the same.\<close>

definition echo_mod_init ::
  "(string option \<Rightarrow> string \<Rightarrow> 'a option) \<Rightarrow> cjson option \<Rightarrow> echo_memory init_calls
     \<Rightarrow> 'a room_globals \<times> echo_memory dungeon \<Rightarrow> ub + int \<times> 'a room_globals \<times> echo_memory dungeon" where
  "echo_mod_init getaddrinfo conf ic gd =
     (case gd of (g, d) \<Rightarrow>
      bindE (get_config getaddrinfo conf (vars g)) (\<lambda>(ret, v).
      let g = g\<lparr>vars := v\<rparr> in
      if ret \<noteq> 0 then Inr (-1, g, d)
      else if \<not> ic_mem_ok ic then Inl NullDeref
      else
        bindE (imp_summon d (ListenerMem (created ic)) (ic_summoning ic)) (\<lambda>(d, new).
        Inr (0, g\<lparr>id_listener := new\<rparr>, d))))"

definition httpd_mod_init ::
  "(string option \<Rightarrow> string \<Rightarrow> 'a option) \<Rightarrow> cjson option \<Rightarrow> httpd_room_memory init_calls
     \<Rightarrow> 'a room_globals \<times> httpd_room_memory dungeon \<Rightarrow> ub + int \<times> 'a room_globals \<times> httpd_room_memory dungeon" where
  "httpd_mod_init getaddrinfo conf ic gd =
     (case gd of (g, d) \<Rightarrow>
      bindE (httpd_get_config getaddrinfo conf (vars g)) (\<lambda>(ret, v).
      let g = g\<lparr>vars := v\<rparr> in
      if ret \<noteq> 0 then Inr (-1, g, d)
      else if \<not> ic_mem_ok ic then Inl NullDeref
      else if created ic = None then Inr (-1, g, d)
      else
        bindE (imp_summon d (HListenerMem (created ic)) (ic_summoning ic)) (\<lambda>(d, new).
        Inr (0, g\<lparr>id_listener := new\<rparr>, d))))"

text \<open>Both modules kill their listener; \<open>fake_httpd\<close> then frees the address.\<close>

definition kill_listener :: "'a room_globals \<Rightarrow> 'm dungeon \<Rightarrow> ub + 'm dungeon" where
  "kill_listener g d = (case id_listener g of None \<Rightarrow> Inl NullDeref | Some p \<Rightarrow> imp_kill d p)"

definition echo_mod_destroy ::
  "'a room_globals \<times> echo_memory dungeon \<Rightarrow> ub + int \<times> 'a room_globals \<times> echo_memory dungeon" where
  "echo_mod_destroy gd = bindE (kill_listener (fst gd) (snd gd)) (\<lambda>d. Inr (0, fst gd, d))"

text \<open>\<open>freeaddrinfo\<close> of an address that was never resolved takes a null pointer.\<close>

definition httpd_mod_destroy ::
  "'a room_globals \<times> httpd_room_memory dungeon \<Rightarrow> ub + int \<times> 'a room_globals \<times> httpd_room_memory dungeon" where
  "httpd_mod_destroy gd =
     bindE (kill_listener (fst gd) (snd gd)) (\<lambda>d.
     if local_addr (vars (fst gd)) = None then Inl NullDeref
     else Inr (0, fst gd, d))"

text \<open>The room \<open>dumb\<close> closes \<open>listen_sd\<close>, a variable nothing ever sets: descriptor 0.\<close>

definition dumb_mod_destroy :: "int \<times> int list" where
  "dumb_mod_destroy = (0, [0])"


section \<open>What loading leaves behind\<close>

lemma created_None:
  "created ic = None \<longleftrightarrow> \<not> ic_listen_mem_ok ic \<or> ic_sock ic < 0 \<or> \<not> ic_bind_ok ic \<or> \<not> ic_listen_ok ic"
  by (simp add: created_def conn_tcp_listen_create_def)

lemma get_config_legal:
  assumes "\<forall>host port. getaddrinfo host port \<noteq> None" and "legal_config c"
  shows "\<exists>v. get_config getaddrinfo (Some c) g = Inr (0, v) \<and> local_addr v \<noteq> None"
proof -
  have "\<not> missing_first c"
    using assms(2) by (auto simp: missing_first_def legal_config_def config_members_def)
  with get_config_cases [OF assms(1), of c g] assms show ?thesis by simp
qed

text \<open>
  The two rooms, given a legal configuration.  \<open>echo\<close> reports success whatever happens: without a
  listening socket it summons a listener that crashes in its first turn, and without a listener its
  unloading crashes.  \<open>fake_httpd\<close> refuses when there is no listening socket, and shares only the
  second fault.
\<close>

lemma mod_init_outcomes:
  assumes "\<forall>host port. getaddrinfo host port \<noteq> None" and "legal_config c" and "ic_mem_ok ic" and "ic_mem_ok ich"
    and "imp_summon d (ListenerMem (created ic)) (ic_summoning ic) = Inr (d1, new)"
    and "imp_summon dh (HListenerMem (created ich)) (ic_summoning ich) = Inr (dh1, newh)"
  shows "\<exists>g1 gh1. echo_mod_init getaddrinfo (Some c) ic (g, d) = Inr (0, g1, d1)
     \<and> (new = None \<longleftrightarrow> echo_mod_destroy (g1, d2) = Inl NullDeref \<and> id_listener g1 = None)
     \<and> ((\<not> ic_listen_mem_ok ic \<or> ic_sock ic < 0 \<or> \<not> ic_bind_ok ic \<or> \<not> ic_listen_ok ic)
          \<longleftrightarrow> listener_driver (created ic) [] nomem = Inl NullDeref)
     \<and> httpd_mod_init getaddrinfo (Some c) ich (gh, dh) = (if created ich = None then Inr (-1, gh1, dh) else Inr (0, gh1, dh1))
     \<and> (created ich \<noteq> None \<and> newh = None \<longrightarrow> httpd_mod_destroy (gh1, dh2) = Inl NullDeref)"
proof -
  from get_config_legal [OF assms(1,2)] obtain v where v: "get_config getaddrinfo (Some c) (vars g) = Inr (0, v)" by blast
  from get_config_legal [OF assms(1,2)] obtain vh where vh: "get_config getaddrinfo (Some c) (vars gh) = Inr (0, vh)" by blast
  let ?g1 = "g\<lparr>vars := v, id_listener := new\<rparr>"
  let ?gh1 = "if created ich = None then gh\<lparr>vars := vh\<rparr> else gh\<lparr>vars := vh, id_listener := newh\<rparr>"
  have e: "echo_mod_init getaddrinfo (Some c) ic (g, d) = Inr (0, ?g1, d1)"
    using assms(3,5) v by (simp add: echo_mod_init_def Let_def)
  have h: "httpd_mod_init getaddrinfo (Some c) ich (gh, dh) = (if created ich = None then Inr (-1, ?gh1, dh) else Inr (0, ?gh1, dh1))"
    using assms(4,6) vh by (simp add: httpd_mod_init_def httpd_get_config_def Let_def)
  have n: "new = None \<longleftrightarrow> echo_mod_destroy (?g1, d2) = Inl NullDeref \<and> id_listener ?g1 = None"
    by (auto simp: echo_mod_destroy_def kill_listener_def)
  have l: "created ic = None \<longleftrightarrow> listener_driver (created ic) [] nomem = Inl NullDeref"
    by (cases "created ic") (simp_all add: listener_driver_def)
  have hd: "created ich \<noteq> None \<and> newh = None \<longrightarrow> httpd_mod_destroy (?gh1, dh2) = Inl NullDeref"
    by (simp add: httpd_mod_destroy_def kill_listener_def)
  from l have "(\<not> ic_listen_mem_ok ic \<or> ic_sock ic < 0 \<or> \<not> ic_bind_ok ic \<or> \<not> ic_listen_ok ic)
      \<longleftrightarrow> listener_driver (created ic) [] nomem = Inl NullDeref" by (simp add: created_None)
  with e h n hd show ?thesis by blast
qed

section \<open>Unloading at the end of the dungeon\<close>

lemma kill_listener_after_delete:
  assumes "dungeon_reachable d" and "all_close d closed" and "id_listener g = Some p" and "p \<noteq> 0"
  shows "\<exists>d1. dungeon_delete d closed = Inr (Some d1)
     \<and> (if p \<in> sleepers d
        then \<exists>d2. kill_listener g d1 = Inr d2 \<and> dom (imps d2) = sleepers d
        else kill_listener g d1 = Inl BadPointer)"
proof -
  from dungeon_delete_drains [OF assms(1,2)] obtain d1 where
    d1: "dungeon_delete d closed = Inr (Some d1)" "dom (imps d1) = sleepers d" by blast
  show ?thesis
  proof (cases "p \<in> sleepers d")
    case True
    with d1(2) obtain i where "imps d1 p = Some i" by blast
    with True d1 assms(3) show ?thesis
      by (auto simp: kill_listener_def imp_kill_def upd_imp_def ld_imp_def)
  next
    case False
    with d1(2) have "imps d1 p = None" by blast
    with False d1(1) assms(3,4) show ?thesis
      by (simp add: kill_listener_def imp_kill_def upd_imp_def ld_imp_def)
  qed
qed

text \<open>
  C27.  The order in which \<open>dungeon_delete\<close> works.  It dismisses every queued imp before it unloads the
  rooms, whose \<open>mod_destroy\<close> writes to the listener: the write goes to freed memory exactly when the
  listener was not asleep, for instance because a connection had just arrived.  When it was asleep
  it is marked as killed, but nothing dismisses it any more.
\<close>

theorem unload_after_delete:
  assumes "dungeon_reachable d" and "all_close d closed" and "id_listener g = Some p" and "p \<noteq> 0"
  shows "\<exists>d1. dungeon_delete d closed = Inr (Some d1)
     \<and> (if p \<in> sleepers d
        then \<exists>d2. echo_mod_destroy (g, d1) = Inr (0, g, d2) \<and> dom (imps d2) = sleepers d
        else echo_mod_destroy (g, d1) = Inl BadPointer)"
proof -
  from kill_listener_after_delete [OF assms] obtain d1 where
    d1: "dungeon_delete d closed = Inr (Some d1)"
      "if p \<in> sleepers d then \<exists>d2. kill_listener g d1 = Inr d2 \<and> dom (imps d2) = sleepers d
       else kill_listener g d1 = Inl BadPointer" by blast
  then show ?thesis by (intro exI [of _ d1]) (auto simp: echo_mod_destroy_def)
qed

definition echo_summoning :: "echo_memory summoning" where
  "echo_summoning = \<lparr>alloc = Some 0x100, ll_ok = True,
     new_body = Some \<lparr>timer_fd = 5, event_fd = 6, timer_on = False\<rparr>, fsm_new = (\<lambda>m. m)\<rparr>"

definition echo_loaded :: "echo_memory dungeon" where
  "echo_loaded = dungeon_empty\<lparr>nr_total := 1, next_imp_id := 2,
     imps := [0x100 \<mapsto> \<lparr>imp_id = 1, waitio = False, requested_events = Some [], event_mask = 0,
       body = \<lparr>timer_fd = 5, event_fd = 6, timer_on = False\<rparr>, memory = ListenerMem None\<rparr>],
     run_queue := sample_queue\<lparr>q_nr := 1, en_count := 1, windex := 1, bucket := [0x100, 0]\<rparr>\<rparr>"

lemma echo_loaded_summon: "imp_summon dungeon_empty (ListenerMem None) echo_summoning = Inr (echo_loaded, Some 0x100)"
  by (simp add: imp_summon_def imp_new_def Let_def imp_run_def queue_enqueue_uniq_nb_def queue_scan_def
      scan.simps queue_store_def bucket_put_def queue_next_def echo_loaded_def dungeon_empty_def
      echo_summoning_def sample_queue_def word_le_nat_alt)

lemma echo_loaded_reachable: "dungeon_reachable echo_loaded"
proof -
  have "dungeon_step (DoSummon (ListenerMem None) echo_summoning) dungeon_empty = Inr echo_loaded"
    by (simp add: dungeon_step_def echo_loaded_summon)
  then show ?thesis
    by (rule dungeon_reachable.acted [OF dungeon_empty_reachable, rotated])
       (simp add: action_ok_def summoning_ok_def echo_summoning_def dungeon_empty_def)
qed

theorem unload_after_delete_witness:
  "\<exists>d1. dungeon_delete echo_loaded (\<lambda>p. []) = Inr (Some d1)
     \<and> echo_mod_destroy (\<lparr>vars = room_vars_start :: nat room_vars, id_listener = Some 0x100\<rparr>, d1) = Inl BadPointer"
proof -
  have "all_close echo_loaded (\<lambda>p. [])"
    by (auto simp: all_close_def closes_all_def echo_loaded_def dungeon_empty_def split: option.splits)
  moreover have "0x100 \<notin> sleepers echo_loaded" by (simp add: sleepers_def echo_loaded_def)
  ultimately show ?thesis
    using unload_after_delete [OF echo_loaded_reachable,
        of _ "\<lparr>vars = room_vars_start :: nat room_vars, id_listener = Some 0x100\<rparr>" "0x100"]
    by auto
qed

definition config_sample :: cjson where
  "config_sample = Cjson cJSON_Object
     [Cjson cJSON_True [] None 1 (Some ''Enabled''), Cjson cJSON_String [] (Some ''0'') 0 (Some ''LocalAddr''),
      Cjson cJSON_Number [] None 7 (Some ''LocalPort''), Cjson cJSON_Number [] None 100 (Some ''TimeOut_Recv_ms''),
      Cjson cJSON_Number [] None 100 (Some ''TimeOut_Send_ms'')] None 0 None"

definition calls_sample :: "'m summoning \<Rightarrow> 'm init_calls" where
  "calls_sample s = \<lparr>ic_mem_ok = True, ic_listen_mem_ok = True, ic_sock = 3, ic_bind_ok = False, ic_listen_ok = True,
     ic_summoning = s\<rparr>"

lemma mod_init_sample:
  "\<exists>g1 gh1. echo_mod_init (\<lambda>h p. Some 5) (Some config_sample) (calls_sample echo_summoning)
        (\<lparr>vars = room_vars_start :: nat room_vars, id_listener = None\<rparr>, dungeon_empty) = Inr (0, g1, echo_loaded)
     \<and> listener_driver (created (calls_sample echo_summoning)) [] False = Inl NullDeref
     \<and> httpd_mod_init (\<lambda>h p. Some 5) (Some config_sample)
         (calls_sample \<lparr>alloc = None, ll_ok = True, new_body = None, fsm_new = id\<rparr>)
         (\<lparr>vars = room_vars_start :: nat room_vars, id_listener = None\<rparr>, dungeon_empty) = Inr (-1, gh1, dungeon_empty)"
proof -
  have legal: "legal_config config_sample" by code_simp
  have none: "created (calls_sample s) = None" for s :: "'m summoning" by (simp add: created_None calls_sample_def)
  let ?hs = "\<lparr>alloc = None, ll_ok = True, new_body = None, fsm_new = id\<rparr>"
  have s: "imp_summon dungeon_empty (ListenerMem (created (calls_sample echo_summoning))) (ic_summoning (calls_sample echo_summoning))
      = Inr (echo_loaded, Some 0x100)"
    unfolding none using echo_loaded_summon by (simp add: calls_sample_def)
  have h: "imp_summon dungeon_empty (HListenerMem (created (calls_sample ?hs))) (ic_summoning (calls_sample ?hs))
      = Inr (dungeon_empty, None)"
    by (simp add: imp_summon_def dungeon_empty_def calls_sample_def)
  have m: "ic_mem_ok (calls_sample s)" "\<not> ic_bind_ok (calls_sample s)" for s :: "'m summoning"
    by (simp_all add: calls_sample_def)
  show ?thesis
    using mod_init_outcomes [OF _ legal m(1) m(1) s h, of "\<lambda>h p. Some 5"
        "\<lparr>vars = room_vars_start :: nat room_vars, id_listener = None\<rparr>" dungeon_empty False
        "\<lparr>vars = room_vars_start :: nat room_vars, id_listener = None\<rparr>" dungeon_empty]
      m(2) none by auto
qed

section \<open>Loading and unloading all rooms\<close>

text \<open>
  C26.  Loading and unloading balance, whatever the code of the modules does.  Take a typed
  configuration, memory for the handlers and for the nodes of the list, and no room yet.  When
  \<open>dungeon_add_rooms\<close> comes back, the rooms are some of those described, in the order of their
  descriptions, its result is their number and the files open are exactly theirs; whatever the program does to the rest of the world before
  \<open>dungeon_demolish_allrooms\<close>, that either closes every file or fails inside the
  \<open>mod_destroy\<close> of a loaded room.  Otherwise the process was ended because the initializer of a
  described room answered neither 0 nor -1, or loading failed: inside such an initializer, at a
  description without \<open>Path\<close> or \<open>Config\<close>, or because there are more descriptions than the list of
  rooms holds.
\<close>

theorem rooms_balance:
  assumes "global_conf cst = Some c" and "conf_typed c"
    and "\<forall>f. linker.malloc_ok lnk f \<and> node_mem f" and "rooms st = []" and "open_files st = []"
  shows "case dungeon_add_rooms lnk node_mem cst st of
     Inr (Goes (n, st')) \<Rightarrow> n = int (length (rooms st')) \<and> mset (open_files st') = mset (map mod_file (rooms st'))
       \<and> subseq (map mod_file (rooms st')) (room_files cst (jchild (the (first_member c ''Modules''))))
       \<and> (\<forall>w. case dungeon_demolish_allrooms lnk (st'\<lparr>world := w\<rparr>) of
               Inr st'' \<Rightarrow> open_files st'' = []
             | Inl e \<Rightarrow> \<exists>m\<in>set (rooms st'). \<exists>w. mod_destroier lnk (mod_file m) w = Inl e)
   | Inr Ends \<Rightarrow> refuses_oddly lnk cst (jchild (the (first_member c ''Modules'')))
   | Inl e \<Rightarrow> loading_fault lnk cst (jchild (the (first_member c ''Modules''))) (rooms_volume st) e"
proof -
  from add_rooms_typed [OF assms(1,2)] obtain mods dir where
    m: "first_member c ''Modules'' = Some mods" "conf_get_module_dir cst = Inr (Some dir)"
      "dungeon_add_rooms lnk node_mem cst st = add_rooms_loop lnk node_mem cst (jchild mods) 0 st" by blast
  have "rooms_inv {#} st" using assms(4,5) by (simp add: rooms_inv_def files_of_def)
  note out = add_rooms_loop_outcome [OF assms(3) m(2) this, of "jchild mods" 0]
  show ?thesis
  proof (cases "add_rooms_loop lnk node_mem cst (jchild mods) 0 st")
    case (Inl e)
    with out show ?thesis by (simp add: m(1,3) assms(4))
  next
    case (Inr r)
    show ?thesis
    proof (cases r)
      case Ends
      with out Inr show ?thesis by (simp add: m(1,3))
    next
      case (Goes x)
      obtain n st' where x: "x = (n, st')" by (cases x)
      with out Inr Goes obtain fs where inv: "rooms_inv {#} st'" "map mod_file (rooms st') = fs"
        "subseq fs (room_files cst (jchild mods))" "n = int (length fs)" by (auto simp: assms(4))
      have sub: "subseq (map mod_file (rooms st')) (room_files cst (jchild mods))" using inv(2,3) by simp
      have len: "n = int (length (rooms st'))" using inv(4) unfolding inv(2) [symmetric] by simp
      from inv(1) have files: "mset (open_files st') = mset (map mod_file (rooms st'))"
        by (simp add: rooms_inv_def files_of_def)
      have "case dungeon_demolish_allrooms lnk (st'\<lparr>world := w\<rparr>) of Inr st'' \<Rightarrow> open_files st'' = []
          | Inl e \<Rightarrow> \<exists>m\<in>set (rooms st'). \<exists>w. mod_destroier lnk (mod_file m) w = Inl e" for w
      proof -
        have "mset (open_files (st'\<lparr>world := w\<rparr>)) = mset (map mod_file (rooms st')) + {#}" using files by simp
        from unload_all_outcome [OF this, of lnk] show ?thesis
          by (simp add: dungeon_demolish_allrooms_def split: sum.splits)
      qed
      with sub len files Inr Goes x show ?thesis by (simp add: m(1,3))
    qed
  qed
qed

text \<open>
  The room \<open>echo\<close> itself: its \<open>mod_init\<close> and \<open>mod_destroy\<close> in a dungeon that was just built, for a
  configuration that describes this room alone.
\<close>

definition echo_linker :: "(nat room_globals \<times> echo_memory dungeon) linker" where
  "echo_linker = \<lparr>dlopen_ok = (\<lambda>f. True), malloc_ok = (\<lambda>f. True), symbol_ok = (\<lambda>f. True),
     mod_initializer = (\<lambda>f conf gd. echo_mod_init (\<lambda>h p. Some 5) (Some conf) (calls_sample echo_summoning) gd),
     mod_destroier = (\<lambda>f gd. bindE (echo_mod_destroy gd) (\<lambda>(ret, gd). Inr gd))\<rparr>"

definition echo_conf :: cjson where
  "echo_conf = Cjson cJSON_Object
     [Cjson cJSON_Array
        [Cjson cJSON_Object
           [Cjson cJSON_String [] (Some ''/echo.so'') 0 (Some ''Path''),
            Cjson cJSON_Object (jchild config_sample) None 0 (Some ''Config'')] None 0 None]
        None 0 (Some ''Modules'')] None 0 None"

definition echo_start :: "(nat room_globals \<times> echo_memory dungeon) rooms_state" where
  "echo_start = \<lparr>rooms = [], rooms_volume = 2, open_files = [],
     world = (\<lparr>vars = room_vars_start, id_listener = None\<rparr>, dungeon_empty)\<rparr>"

lemma echo_conf_members:
  "first_member echo_conf ''Modules'' = Some (Cjson cJSON_Array (jchild (hd (jchild echo_conf))) None 0 (Some ''Modules''))"
  "first_member echo_conf ''LogLevel'' = None" "first_member echo_conf ''ConcurrentMax'' = None"
  "first_member echo_conf ''ModuleDir'' = None"
  "jchild (hd (jchild echo_conf)) = [Cjson cJSON_Object
     [Cjson cJSON_String [] (Some ''/echo.so'') 0 (Some ''Path''),
      Cjson cJSON_Object (jchild config_sample) None 0 (Some ''Config'')] None 0 None]"
  by code_simp+

lemma echo_described:
  "described_room cst (Cjson cJSON_Object
     [Cjson cJSON_String [] (Some ''/echo.so'') 0 (Some ''Path''),
      Cjson cJSON_Object (jchild config_sample) None 0 (Some ''Config'')] None 0 None)
   = Inr (Some (''/echo.so'', Cjson cJSON_Object (jchild config_sample) None 0 (Some ''Config'')))"
proof -
  let ?c = "Cjson cJSON_Object
     [Cjson cJSON_String [] (Some ''/echo.so'') 0 (Some ''Path''),
      Cjson cJSON_Object (jchild config_sample) None 0 (Some ''Config'')] None 0 None"
  have "first_member ?c ''Path'' = Some (Cjson cJSON_String [] (Some ''/echo.so'') 0 (Some ''Path''))"
    "first_member ?c ''Config'' = Some (Cjson cJSON_Object (jchild config_sample) None 0 (Some ''Config''))"
    "room_path [] ''/echo.so'' = ''/echo.so''" "at ''/echo.so'' = CHR ''/''" by code_simp+
  then show ?thesis by (simp add: described_room_def GetObjectItem_first Let_def)
qed

lemma echo_loads:
  "\<exists>g. id_listener g = Some 0x100
     \<and> dungeon_add_rooms echo_linker (\<lambda>f. True) \<lparr>global_conf = Some echo_conf, conf_live = 1\<rparr> echo_start
         = Inr (Goes (1, \<lparr>rooms = [\<lparr>mod_file = ''/echo.so'', mod_path = ''/echo.so''\<rparr>], rooms_volume = 2,
             open_files = [''/echo.so''], world = (g, echo_loaded)\<rparr>))"
proof -
  let ?c = "Cjson cJSON_Object (jchild config_sample) None 0 (Some ''Config'')"
  have "legal_config ?c" by code_simp
  from get_config_legal [OF _ this, of "\<lambda>h p. Some 5" room_vars_start] obtain v where
    v: "get_config (\<lambda>h p. Some 5) (Some ?c) (room_vars_start :: nat room_vars) = Inr (0, v)" by auto
  let ?g = "\<lparr>vars = v, id_listener = Some 0x100\<rparr>"
  have "created (calls_sample echo_summoning) = None" by (simp add: created_None calls_sample_def)
  with v echo_loaded_summon have init: "echo_mod_init (\<lambda>h p. Some 5) (Some ?c) (calls_sample echo_summoning)
      (\<lparr>vars = room_vars_start, id_listener = None\<rparr>, dungeon_empty) = Inr (0, ?g, echo_loaded)"
    by (simp add: echo_mod_init_def Let_def calls_sample_def)
  have "dungeon_add_room echo_linker (\<lambda>f. True) ''/echo.so'' ?c echo_start
      = Inr (Goes (0, \<lparr>rooms = [\<lparr>mod_file = ''/echo.so'', mod_path = ''/echo.so''\<rparr>], rooms_volume = 2,
             open_files = [''/echo.so''], world = (?g, echo_loaded)\<rparr>))"
    using init by (simp add: dungeon_add_room_def module_load_only_def Let_def echo_linker_def echo_start_def)
  then show ?thesis
    by (intro exI [of _ ?g])
      (simp add: dungeon_add_rooms_def conf_get_modules_desc_def conf_get_modules_desc_internal_def GetObjectItem_first
        echo_conf_members(1,5) echo_described)
qed

theorem rooms_balance_witness:
  "\<exists>st' st'' d1. dungeon_add_rooms echo_linker (\<lambda>f. True) \<lparr>global_conf = Some echo_conf, conf_live = 1\<rparr> echo_start
       = Inr (Goes (1, st'))
     \<and> length (rooms st') = 1 \<and> mset (open_files st') = {#''/echo.so''#}
     \<and> dungeon_demolish_allrooms echo_linker st' = Inr st'' \<and> open_files st'' = []
     \<and> dungeon_delete (snd (world st')) (\<lambda>p. []) = Inr (Some d1)
     \<and> dungeon_demolish_allrooms echo_linker (st'\<lparr>world := (fst (world st'), d1)\<rparr>) = Inl BadPointer"
proof -
  from echo_loads obtain g where g: "id_listener g = Some 0x100" and
    run: "dungeon_add_rooms echo_linker (\<lambda>f. True) \<lparr>global_conf = Some echo_conf, conf_live = 1\<rparr> echo_start
         = Inr (Goes (1, \<lparr>rooms = [\<lparr>mod_file = ''/echo.so'', mod_path = ''/echo.so''\<rparr>], rooms_volume = 2,
             open_files = [''/echo.so''], world = (g, echo_loaded)\<rparr>))" (is "_ = Inr (Goes (1, ?st))") by blast
  have typed: "conf_typed echo_conf" by (simp add: conf_typed_def echo_conf_members)
  have mem: "\<forall>f. linker.malloc_ok echo_linker f \<and> True" and start: "rooms echo_start = []" "open_files echo_start = []"
    by (simp_all add: echo_linker_def echo_start_def)
  have bal: "length (rooms ?st) = 1 \<and> mset (open_files ?st) = {#''/echo.so''#}
      \<and> (\<forall>w. case dungeon_demolish_allrooms echo_linker (?st\<lparr>world := w\<rparr>) of Inr st'' \<Rightarrow> open_files st'' = []
            | Inl e \<Rightarrow> \<exists>m\<in>set (rooms ?st). \<exists>w. mod_destroier echo_linker (mod_file m) w = Inl e)"
    using rooms_balance [OF _ typed mem start, of "\<lparr>global_conf = Some echo_conf, conf_live = 1\<rparr>"]
    unfolding run by simp
  have "imps echo_loaded 0x100 \<noteq> None" by (simp add: echo_loaded_def)
  then obtain st'' where st'': "dungeon_demolish_allrooms echo_linker ?st = Inr st''"
    using g by (auto simp: dungeon_demolish_allrooms_def do_unload_def echo_linker_def echo_mod_destroy_def
        kill_listener_def imp_kill_def upd_imp_def ld_imp_def)
  moreover have "open_files st'' = []" using spec [OF conjunct2 [OF conjunct2 [OF bal]], of "(g, echo_loaded)"] st'' by simp
  moreover have "all_close echo_loaded (\<lambda>p. [])" "0x100 \<notin> sleepers echo_loaded"
    by (auto simp: all_close_def closes_all_def echo_loaded_def dungeon_empty_def sleepers_def split: option.splits)
  then obtain d1 where "dungeon_delete echo_loaded (\<lambda>p. []) = Inr (Some d1)" "kill_listener g d1 = Inl BadPointer"
    using kill_listener_after_delete [OF echo_loaded_reachable _ g] by auto
  moreover from this(2) have "dungeon_demolish_allrooms echo_linker (?st\<lparr>world := (g, d1)\<rparr>) = Inl BadPointer"
    by (simp add: dungeon_demolish_allrooms_def do_unload_def echo_linker_def echo_mod_destroy_def)
  ultimately show ?thesis using run bal by (intro exI [of _ ?st] exI [of _ st''] exI [of _ d1]) simp
qed

end
