(* ===== verification/Hasht.thy ===== *)
theory Hasht
  imports Prelude "HOL-Library.Multiset"
begin

text \<open>
  \<open>src/src/ds_hasht.c\<close>: a hash table of pointers to items whose keys lie inside the items.  Each
  bucket is an array of nodes in which a null value marks a free place.  The memory of the items is
  an argument: reading a key reads the bytes of the item.  The time stamps of the nodes are set to
  zero and never read; they are left out.
\<close>

section \<open>The memory of the items\<close>

type_synonym item_mem = "intptr \<rightharpoonup> u8 list"

record hashkey =
  k_offset :: int
  k_len :: int

definition rd_bytes :: "item_mem \<Rightarrow> intptr \<Rightarrow> int \<Rightarrow> int \<Rightarrow> ub + u8 list" where
  "rd_bytes mem p off len =
     (case mem p of
        None \<Rightarrow> Inl BadPointer
      | Some bs \<Rightarrow> if 0 \<le> off \<and> 0 \<le> len \<and> off + len \<le> int (length bs)
                  then Inr (take (nat len) (drop (nat off) bs)) else Inl OutOfBounds)"

section \<open>The default hash function\<close>

definition rotl32 :: "nat \<Rightarrow> u32 \<Rightarrow> u32" where
  "rotl32 r k = or (push_bit r k) (drop_bit (32 - r) k)"

text \<open>The bytes of a word, the lowest first.\<close>

definition le32 :: "u8 \<Rightarrow> u8 \<Rightarrow> u8 \<Rightarrow> u8 \<Rightarrow> u32" where
  "le32 a b c d = ucast a + push_bit 8 (ucast b) + push_bit 16 (ucast c) + push_bit 24 (ucast d)"

definition hash_mix :: "u32 \<Rightarrow> u32 \<Rightarrow> u32" where
  "hash_mix hash k =
     (let k = k * 0xcc9e2d51; k = rotl32 15 k; k = k * 0x1b873593;
          hash = xor hash k; hash = rotl32 13 hash in
      hash * 5 + 0xe6546b64)"

fun hash_blocks :: "u32 \<Rightarrow> u8 list \<Rightarrow> u32" where
  "hash_blocks hash (a # b # c # d # rest) = hash_blocks (hash_mix hash (le32 a b c d)) rest"
| "hash_blocks hash rest = hash"

text \<open>The remainder is read through \<open>ptr\<close>, which still points to the start of the data.\<close>

definition hash_tail :: "u8 list \<Rightarrow> u32" where
  "hash_tail data =
     (if length data mod 4 = 3
      then ucast (data ! 0) + push_bit 8 (ucast (data ! 1)) + push_bit 16 (ucast (data ! 2))
      else if length data mod 4 = 2 then ucast (data ! 0) + push_bit 8 (ucast (data ! 1))
      else if length data mod 4 = 1 then ucast (data ! 0) else 0)"

definition hash_finish :: "u32 \<Rightarrow> u32" where
  "hash_finish hash =
     (let hash = xor hash (drop_bit 16 hash); hash = hash * 0x85ebca6b;
          hash = xor hash (drop_bit 13 hash); hash = hash * 0xc2b2ae35 in
      xor hash (drop_bit 16 hash))"

definition default_hash_func :: "u8 list \<Rightarrow> u32" where
  "default_hash_func data =
     (let hash = hash_blocks 20000033 data; t = hash_tail data;
          t = or (drop_bit 16 t) (push_bit 16 t);
          hash = xor hash t; hash = xor hash (of_nat (length data)) in
      hash_finish hash)"

section \<open>The table\<close>

record hnode =
  n_keyval :: nat
  n_key :: hashkey
  n_value :: intptr
  n_updates :: int
  n_lookups :: int

text \<open>A place that was never used: of its fields only the null value is initialised.\<close>

definition free_node :: hnode where
  "free_node = \<lparr>n_keyval = 0, n_key = \<lparr>k_offset = 0, k_len = 0\<rparr>, n_value = 0, n_updates = 0, n_lookups = 0\<rparr>"

text \<open>
  A bucket; \<open>bucket_size\<close> is the length of the array, 0 without one.  \<open>b_locked\<close>: its lock is
  held by an operation that has returned.
\<close>

record bucket =
  b_locked :: bool
  b_node :: "hnode list option"
  b_nr_nodes :: int

definition b_nodes :: "bucket \<Rightarrow> hnode list" where
  "b_nodes b = (case b_node b of None \<Rightarrow> [] | Some ns \<Rightarrow> ns)"

record hasht =
  ht_func :: "u8 list \<Rightarrow> u32"
  ht_volume :: int
  ht_nr_nodes :: int
  ht_bucket :: "bucket list"
  ht_lookups :: int
  ht_hits :: int

abbreviation (input) BUCKET_DEFAULT_SIZE :: nat where "BUCKET_DEFAULT_SIZE \<equiv> 1024"

definition bucket_new_bucket :: "nat \<Rightarrow> bool \<Rightarrow> hnode list option" where
  "bucket_new_bucket sz malloc_ok =
     (if sz = 0 then None else if \<not> malloc_ok then None else Some (replicate sz free_node))"

definition free_pos :: "hnode list \<Rightarrow> nat" where
  "free_pos ns = length (takeWhile (\<lambda>n. n_value n \<noteq> 0) ns)"

text \<open>\<open>mem_ok\<close>: the \<open>malloc\<close> or \<open>realloc\<close>, if there is one, succeeds.\<close>

definition bucket_get_free_pos :: "bucket \<Rightarrow> bool \<Rightarrow> int \<times> bucket" where
  "bucket_get_free_pos b mem_ok =
     (case b_node b of
        None \<Rightarrow>
          (case bucket_new_bucket BUCKET_DEFAULT_SIZE mem_ok of
             None \<Rightarrow> (- 1, b)
           | Some ns \<Rightarrow> (0, b\<lparr>b_node := Some ns\<rparr>))
      | Some ns \<Rightarrow>
          if free_pos ns < length ns then (int (free_pos ns), b)
          else if \<not> mem_ok then (- 1, b)
          else (int (length ns),
                b\<lparr>b_node := Some (ns @ replicate (drop_bit 2 (length ns) + 1) free_node)\<rparr>))"

text \<open>\<open>hasht_new\<close>: the two allocations may fail; no function means the default one.\<close>

definition hasht_new :: "(u8 list \<Rightarrow> u32) option \<Rightarrow> int \<Rightarrow> bool \<Rightarrow> bool \<Rightarrow> hasht option" where
  "hasht_new func volume malloc_ok bucket_ok =
     (if volume \<le> 0 then None
      else if \<not> malloc_ok then None
      else if \<not> bucket_ok then None
      else
        let nr_buckets = (if drop_bit 3 volume = 0 then 1 else drop_bit 3 volume) in
        Some \<lparr>ht_func = (case func of None \<Rightarrow> default_hash_func | Some f \<Rightarrow> f), ht_volume = volume,
              ht_nr_nodes = 0,
              ht_bucket = replicate (nat nr_buckets) \<lparr>b_locked = False, b_node = None, b_nr_nodes = 0\<rparr>,
              ht_lookups = 0, ht_hits = 0\<rparr>)"

definition hash_index :: "item_mem \<Rightarrow> hasht \<Rightarrow> hashkey \<Rightarrow> intptr \<Rightarrow> ub + nat" where
  "hash_index mem h key data =
     bindE (rd_bytes mem data (k_offset key) (k_len key)) (\<lambda>bs.
     Inr (unat (ht_func h bs) mod length (ht_bucket h)))"

text \<open>
  \<open>hasht_add_item\<close>.  When the bucket cannot grow the function returns between
  \<open>pthread_cleanup_push\<close> and \<open>pthread_cleanup_pop\<close>, and the lock stays held.
\<close>

definition hasht_add_item ::
  "item_mem \<Rightarrow> hasht \<Rightarrow> hashkey \<Rightarrow> intptr \<Rightarrow> bool \<Rightarrow> ub + (int \<times> hasht)" where
  "hasht_add_item mem h key data mem_ok =
     (if ht_nr_nodes h \<ge> ht_volume h then Inr (ENOMEM, h)
      else bindE (hash_index mem h key data) (\<lambda>hash.
        let b = ht_bucket h ! hash in
        if b_locked b then Inl Deadlock
        else
          case bucket_get_free_pos b mem_ok of (pos, b) \<Rightarrow>
          if pos = - 1
          then Inr (ENOMEM, h\<lparr>ht_bucket := (ht_bucket h)[hash := b\<lparr>b_locked := True\<rparr>]\<rparr>)
          else
            let new = \<lparr>n_keyval = hash, n_key = key, n_value = data, n_updates = 0, n_lookups = 0\<rparr>;
                b = b\<lparr>b_node := Some ((b_nodes b)[nat pos := new]), b_nr_nodes := b_nr_nodes b + 1\<rparr> in
            Inr (0, h\<lparr>ht_bucket := (ht_bucket h)[hash := b], ht_nr_nodes := ht_nr_nodes h + 1\<rparr>)))"

section \<open>Looking up\<close>

text \<open>\<open>memcmp\<close> on as many bytes as the shorter key has.\<close>

definition key_match :: "item_mem \<Rightarrow> hashkey \<Rightarrow> intptr \<Rightarrow> hnode \<Rightarrow> ub + bool" where
  "key_match mem key data n =
     (let len = min (k_len key) (k_len (n_key n)) in
      bindE (rd_bytes mem (n_value n) (k_offset (n_key n)) len) (\<lambda>a.
      bindE (rd_bytes mem data (k_offset key) len) (\<lambda>b. Inr (a = b))))"

primrec find_in :: "item_mem \<Rightarrow> hashkey \<Rightarrow> intptr \<Rightarrow> hnode list \<Rightarrow> ub + nat option" where
  "find_in mem key data [] = Inr None"
| "find_in mem key data (n # ns) =
     bindE (if n_value n = 0 then Inr False else key_match mem key data n) (\<lambda>hit.
       if hit then Inr (Some 0)
       else bindE (find_in mem key data ns) (\<lambda>r. Inr (map_option Suc r)))"

definition incr :: "int \<Rightarrow> ub + int" where
  "incr x = (if x \<ge> 2147483647 then Inl IntOverflow else Inr (x + 1))"

text \<open>The node is given by its bucket and its place there.\<close>

definition upd_node :: "hasht \<Rightarrow> nat \<Rightarrow> nat \<Rightarrow> (hnode \<Rightarrow> hnode) \<Rightarrow> hasht" where
  "upd_node h hash i f =
     (let b = ht_bucket h ! hash; ns = b_nodes b in
      h\<lparr>ht_bucket := (ht_bucket h)[hash := b\<lparr>b_node := Some (ns[i := f (ns ! i)])\<rparr>]\<rparr>)"

definition hasht_find_node ::
  "item_mem \<Rightarrow> hasht \<Rightarrow> hashkey \<Rightarrow> intptr \<Rightarrow> ub + ((nat \<times> nat) option \<times> hasht)" where
  "hasht_find_node mem h key data =
     bindE (incr (ht_lookups h)) (\<lambda>c.
     let h = h\<lparr>ht_lookups := c\<rparr> in
     bindE (hash_index mem h key data) (\<lambda>hash.
     bindE (find_in mem key data (b_nodes (ht_bucket h ! hash))) (\<lambda>r.
     case r of
       None \<Rightarrow> Inr (None, h)
     | Some i \<Rightarrow>
         bindE (incr (n_lookups (b_nodes (ht_bucket h ! hash) ! i))) (\<lambda>nc.
         bindE (incr (ht_hits h)) (\<lambda>hc.
         Inr (Some (hash, i), (upd_node h hash i (\<lambda>n. n\<lparr>n_lookups := nc\<rparr>))\<lparr>ht_hits := hc\<rparr>))))))"

text \<open>Every operation first computes the bucket and takes its lock.\<close>

definition locked_find ::
  "item_mem \<Rightarrow> hasht \<Rightarrow> hashkey \<Rightarrow> intptr \<Rightarrow> ub + ((nat \<times> nat) option \<times> hasht)" where
  "locked_find mem h key data =
     bindE (hash_index mem h key data) (\<lambda>hash.
     if b_locked (ht_bucket h ! hash) then Inl Deadlock else hasht_find_node mem h key data)"

definition hasht_find_item :: "item_mem \<Rightarrow> hasht \<Rightarrow> hashkey \<Rightarrow> intptr \<Rightarrow> ub + (intptr \<times> hasht)" where
  "hasht_find_item mem h key data =
     bindE (locked_find mem h key data) (\<lambda>(r, h).
     case r of
       None \<Rightarrow> Inr (0, h)
     | Some (hash, i) \<Rightarrow> Inr (n_value (b_nodes (ht_bucket h ! hash) ! i), h))"

text \<open>Taking a node out: its place becomes free and both counters go down.\<close>

definition drop_node :: "hasht \<Rightarrow> nat \<Rightarrow> nat \<Rightarrow> hasht" where
  "drop_node h hash i =
     (let h = upd_node h hash i (\<lambda>n. n\<lparr>n_value := 0\<rparr>);
          b = ht_bucket h ! hash in
      h\<lparr>ht_bucket := (ht_bucket h)[hash := b\<lparr>b_nr_nodes := b_nr_nodes b - 1\<rparr>],
        ht_nr_nodes := ht_nr_nodes h - 1\<rparr>)"

text \<open>\<open>hasht_fetch_item\<close> returns the value of the node after it has been set to null.\<close>

definition hasht_fetch_item :: "item_mem \<Rightarrow> hasht \<Rightarrow> hashkey \<Rightarrow> intptr \<Rightarrow> ub + (intptr \<times> hasht)" where
  "hasht_fetch_item mem h key data =
     bindE (locked_find mem h key data) (\<lambda>(r, h).
     case r of
       None \<Rightarrow> Inr (0, h)
     | Some (hash, i) \<Rightarrow>
         let h = drop_node h hash i in Inr (n_value (b_nodes (ht_bucket h ! hash) ! i), h))"

definition hasht_delete_item :: "item_mem \<Rightarrow> hasht \<Rightarrow> hashkey \<Rightarrow> intptr \<Rightarrow> ub + (int \<times> hasht)" where
  "hasht_delete_item mem h key data =
     bindE (locked_find mem h key data) (\<lambda>(r, h).
     case r of
       None \<Rightarrow> Inr (ENOENT, h)
     | Some (hash, i) \<Rightarrow> Inr (0, drop_node h hash i))"

text \<open>\<open>modify\<close> changes the memory of the item it is given.\<close>

definition hasht_modify_item ::
  "item_mem \<Rightarrow> hasht \<Rightarrow> hashkey \<Rightarrow> intptr \<Rightarrow> (intptr \<Rightarrow> item_mem \<Rightarrow> item_mem)
     \<Rightarrow> ub + (int \<times> item_mem \<times> hasht)" where
  "hasht_modify_item mem h key data modify =
     bindE (locked_find mem h key data) (\<lambda>(r, h).
     case r of
       None \<Rightarrow> Inr (- 1, mem, h)
     | Some (hash, i) \<Rightarrow> Inr (0, modify (n_value (b_nodes (ht_bucket h ! hash) ! i)) mem, h))"

section \<open>Emptying\<close>

text \<open>\<open>free\<close> of every item of a bucket; an item that is in the table twice is freed twice.\<close>

primrec free_items :: "item_mem \<Rightarrow> hnode list \<Rightarrow> ub + (int \<times> item_mem \<times> hnode list)" where
  "free_items mem [] = Inr (0, mem, [])"
| "free_items mem (n # ns) =
     (if n_value n = 0
      then bindE (free_items mem ns) (\<lambda>(num, mem, ns). Inr (num, mem, n # ns))
      else if mem (n_value n) = None then Inl BadPointer
      else bindE (free_items (mem(n_value n := None)) ns) (\<lambda>(num, mem, ns).
             Inr (num + 1, mem, n\<lparr>n_value := 0\<rparr> # ns)))"

primrec clean_buckets :: "item_mem \<Rightarrow> int \<Rightarrow> bucket list \<Rightarrow> ub + (item_mem \<times> int \<times> bucket list)" where
  "clean_buckets mem nr [] = Inr (mem, nr, [])"
| "clean_buckets mem nr (b # bs) =
     (if b_locked b then Inl Deadlock
      else bindE (free_items mem (b_nodes b)) (\<lambda>(num, mem, ns).
           bindE (clean_buckets mem (nr - num) bs) (\<lambda>(mem, nr, bs).
           Inr (mem, nr, b\<lparr>b_node := map_option (\<lambda>_. ns) (b_node b), b_nr_nodes := 0\<rparr> # bs))))"

definition hasht_clean_table :: "item_mem \<Rightarrow> hasht \<Rightarrow> ub + (int \<times> item_mem \<times> hasht)" where
  "hasht_clean_table mem h =
     bindE (clean_buckets mem (ht_nr_nodes h) (ht_bucket h)) (\<lambda>(mem, nr, bs).
     Inr (0, mem, h\<lparr>ht_bucket := bs, ht_nr_nodes := nr\<rparr>))"

text \<open>\<open>hasht_delete\<close> frees the table and not the items.\<close>

definition hasht_delete :: "hasht \<Rightarrow> int \<times> hasht option" where
  "hasht_delete h = (0, None)"

section \<open>The table as a bag of items\<close>

definition key_of :: "item_mem \<Rightarrow> hashkey \<Rightarrow> intptr \<Rightarrow> u8 list option" where
  "key_of mem key p =
     (case rd_bytes mem p (k_offset key) (k_len key) of Inl e \<Rightarrow> None | Inr bs \<Rightarrow> Some bs)"

lemma key_of_SomeD: "key_of mem key p = Some bs \<Longrightarrow> rd_bytes mem p (k_offset key) (k_len key) = Inr bs"
  by (auto simp: key_of_def split: sum.splits)

definition live :: "hnode list \<Rightarrow> hnode list" where
  "live ns = filter (\<lambda>n. n_value n \<noteq> 0) ns"

definition vals :: "hnode list \<Rightarrow> intptr multiset" where
  "vals ns = mset (map n_value (live ns))"

definition items :: "hasht \<Rightarrow> intptr multiset" where
  "items h = sum_list (map (\<lambda>b. vals (b_nodes b)) (ht_bucket h))"

lemma size_vals: "size (vals ns) = length (live ns)"
  by (simp add: vals_def)

lemma live_simps [simp]:
  "live [] = []" "live (n # ns) = (if n_value n \<noteq> 0 then n # live ns else live ns)"
  "live (xs @ ys) = live xs @ live ys" "live (replicate k free_node) = []"
  by (simp_all add: live_def free_node_def)

text \<open>All operations use one key description, and the keys of the items in the table can be read.\<close>

definition bucket_ok :: "item_mem \<Rightarrow> hashkey \<Rightarrow> hasht \<Rightarrow> nat \<Rightarrow> bucket \<Rightarrow> bool" where
  "bucket_ok mem key h j b \<longleftrightarrow> \<not> b_locked b \<and> b_nr_nodes b = int (length (live (b_nodes b)))
     \<and> (\<forall>n\<in>set (live (b_nodes b)). n_key n = key \<and> n_lookups n \<le> ht_lookups h
          \<and> (\<exists>bs. key_of mem key (n_value n) = Some bs
                \<and> unat (ht_func h bs) mod length (ht_bucket h) = j))"

definition ht_ok :: "item_mem \<Rightarrow> hashkey \<Rightarrow> hasht \<Rightarrow> bool" where
  "ht_ok mem key h \<longleftrightarrow> ht_bucket h \<noteq> []
     \<and> (\<forall>j<length (ht_bucket h). bucket_ok mem key h j (ht_bucket h ! j))
     \<and> ht_nr_nodes h = sum_list (map b_nr_nodes (ht_bucket h)) \<and> ht_nr_nodes h \<le> ht_volume h
     \<and> 0 \<le> ht_hits h \<and> ht_hits h \<le> ht_lookups h"

lemma items_upd:
  assumes "j < length (ht_bucket h)" and "ht_bucket h' = (ht_bucket h)[j := b]"
  shows "items h' + vals (b_nodes (ht_bucket h ! j)) = items h + vals (b_nodes b)"
  using sum_list_upd [OF assms(1), of "\<lambda>b. vals (b_nodes b)" b] assms(2) by (simp add: items_def)

lemma split_at: "i < length ns \<Longrightarrow> \<exists>xs ys. ns = xs @ ns ! i # ys \<and> length xs = i"
  by (metis id_take_nth_drop length_take min.absorb2 less_imp_le)

lemma live_fill:
  assumes "i < length ns" and "n_value (ns ! i) = 0" and "n_value n \<noteq> 0"
  shows "vals (ns[i := n]) = add_mset (n_value n) (vals ns)"
    and "length (live (ns[i := n])) = Suc (length (live ns))"
    and "set (live (ns[i := n])) = insert n (set (live ns))"
proof -
  obtain xs ys where "ns = xs @ ns ! i # ys" "length xs = i" using split_at [OF assms(1)] by blast
  then have ns: "live ns = live xs @ live ys" "live (ns[i := n]) = live xs @ n # live ys"
    using assms(2,3) by (metis live_simps(2,3), metis live_simps(2,3) list_update_length)
  then show "vals (ns[i := n]) = add_mset (n_value n) (vals ns)"
    and "length (live (ns[i := n])) = Suc (length (live ns))"
    and "set (live (ns[i := n])) = insert n (set (live ns))"
    by (simp_all add: vals_def)
qed

lemma live_touch:
  assumes "i < length ns" and "n_value (ns ! i) \<noteq> 0" and "n_value n = n_value (ns ! i)"
  shows "vals (ns[i := n]) = vals ns" and "length (live (ns[i := n])) = length (live ns)"
    and "set (live (ns[i := n])) \<subseteq> insert n (set (live ns))"
proof -
  obtain xs ys where "ns = xs @ ns ! i # ys" "length xs = i" using split_at [OF assms(1)] by blast
  then have ns: "live ns = live xs @ ns ! i # live ys" "live (ns[i := n]) = live xs @ n # live ys"
    using assms(2,3) by (metis live_simps(2,3), metis live_simps(2,3) list_update_length)
  then show "vals (ns[i := n]) = vals ns" and "length (live (ns[i := n])) = length (live ns)"
    and "set (live (ns[i := n])) \<subseteq> insert n (set (live ns))"
    using assms(3) by (auto simp: vals_def)
qed

lemma live_clear:
  assumes "i < length ns" and "n_value (ns ! i) \<noteq> 0" and "n_value n = 0"
  shows "vals ns = add_mset (n_value (ns ! i)) (vals (ns[i := n]))"
    and "length (live ns) = Suc (length (live (ns[i := n])))"
    and "set (live (ns[i := n])) \<subseteq> set (live ns)"
proof -
  obtain xs ys where "ns = xs @ ns ! i # ys" "length xs = i" using split_at [OF assms(1)] by blast
  then have ns: "live ns = live xs @ ns ! i # live ys" "live (ns[i := n]) = live xs @ live ys"
    using assms(2,3) by (metis live_simps(2,3), metis live_simps(2,3) list_update_length)
  then show "vals ns = add_mset (n_value (ns ! i)) (vals (ns[i := n]))"
    and "length (live ns) = Suc (length (live (ns[i := n])))"
    and "set (live (ns[i := n])) \<subseteq> set (live ns)"
    by (auto simp: vals_def)
qed

lemma free_pos_less: "free_pos ns < length ns \<Longrightarrow> n_value (ns ! free_pos ns) = 0"
  unfolding free_pos_def using nth_length_takeWhile by blast

text \<open>A free place is found or made, and nothing else changes.\<close>

lemma get_free_pos_spec:
  assumes "mem_ok"
  obtains i b' where "bucket_get_free_pos b mem_ok = (int i, b')" "i < length (b_nodes b')"
    "n_value (b_nodes b' ! i) = 0" "live (b_nodes b') = live (b_nodes b)"
    "b_locked b' = b_locked b" "b_nr_nodes b' = b_nr_nodes b"
proof (cases "b_node b")
  case None
  with assms show ?thesis
    by (intro that [of 0 "b\<lparr>b_node := Some (replicate 1024 free_node)\<rparr>"])
       (simp_all add: bucket_get_free_pos_def bucket_new_bucket_def b_nodes_def free_node_def live_def)
next
  case (Some ns)
  show ?thesis
  proof (cases "free_pos ns < length ns")
    case True
    with Some assms free_pos_less [OF True] show ?thesis
      by (intro that [of "free_pos ns" b]) (simp_all add: bucket_get_free_pos_def b_nodes_def)
  next
    case False
    with Some assms show ?thesis
      by (intro that [of "length ns" "b\<lparr>b_node := Some (ns @ replicate (drop_bit 2 (length ns) + 1) free_node)\<rparr>"])
         (simp_all add: bucket_get_free_pos_def b_nodes_def nth_append free_node_def [symmetric],
          simp_all add: free_node_def)
  qed
qed

lemma find_in_spec:
  assumes "key_of mem key data = Some bs"
    and "\<forall>n\<in>set (live ns). n_key n = key \<and> (\<exists>bs. key_of mem key (n_value n) = Some bs)"
  shows "find_in mem key data ns
      = Inr (index_of (\<lambda>n. n_value n \<noteq> 0 \<and> key_of mem key (n_value n) = Some bs) ns)"
  using assms(2)
proof (induction ns)
  case (Cons n ns)
  show ?case
  proof (cases "n_value n = 0")
    case True
    with Cons show ?thesis by simp
  next
    case False
    with Cons.prems obtain bs' where "n_key n = key" and bs': "key_of mem key (n_value n) = Some bs'"
      by auto
    with key_of_SomeD [OF bs'] key_of_SomeD [OF assms(1)] have "key_match mem key data n = Inr (bs' = bs)"
      by (simp add: key_match_def)
    with False Cons bs' show ?thesis by simp
  qed
qed simp

section \<open>What the operations do to the bag\<close>

lemma b_nodes_simps [simp]:
  "b_nodes (b\<lparr>b_node := Some ns\<rparr>) = ns" "b_nodes (b\<lparr>b_nr_nodes := k\<rparr>) = b_nodes b"
  by (simp_all add: b_nodes_def)

lemma ht_ok_step:
  assumes "ht_ok mem key h" and "j < length (ht_bucket h)" and "ht_bucket h' = (ht_bucket h)[j := b]"
    and "ht_func h' = ht_func h" and "ht_volume h' = ht_volume h" and "ht_lookups h \<le> ht_lookups h'"
    and "0 \<le> ht_hits h'" and "ht_hits h' \<le> ht_lookups h'" and "bucket_ok mem key h' j b"
    and "ht_nr_nodes h' = ht_nr_nodes h + (b_nr_nodes b - b_nr_nodes (ht_bucket h ! j))"
    and "ht_nr_nodes h' \<le> ht_volume h"
  shows "ht_ok mem key h'"
proof -
  have "bucket_ok mem key h' i (ht_bucket h' ! i)" if i: "i < length (ht_bucket h')" for i
  proof (cases "i = j")
    case True
    with assms(2,3,9) show ?thesis by simp
  next
    case False
    have "bucket_ok mem key h i (ht_bucket h ! i)" using assms(1,3) i by (simp add: ht_ok_def)
    then show ?thesis using False assms(3,4) order_trans [OF _ assms(6)]
      by (auto simp: bucket_ok_def)
  qed
  moreover have "ht_nr_nodes h' = sum_list (map b_nr_nodes (ht_bucket h'))"
    using sum_list_upd [OF assms(2), of b_nr_nodes b] assms(1,3,10) by (simp add: ht_ok_def)
  ultimately show ?thesis using assms by (simp add: ht_ok_def)
qed

lemma sum_list_mset_iff: "(x \<in># sum_list xs) \<longleftrightarrow> (\<exists>m\<in>set xs. x \<in># m)"
  by (induction xs) auto

lemma in_items_iff:
  "p \<in># items h \<longleftrightarrow>
     (\<exists>j<length (ht_bucket h). \<exists>n\<in>set (live (b_nodes (ht_bucket h ! j))). n_value n = p)"
proof -
  have "p \<in># items h \<longleftrightarrow> (\<exists>b\<in>set (ht_bucket h). \<exists>n\<in>set (live (b_nodes b)). n_value n = p)"
    by (auto simp: items_def sum_list_mset_iff vals_def)
  then show ?thesis by (simp add: in_set_conv_nth Bex_def) blast
qed

definition has_key :: "item_mem \<Rightarrow> hashkey \<Rightarrow> u8 list \<Rightarrow> hnode \<Rightarrow> bool" where
  "has_key mem key bs n \<longleftrightarrow> n_value n \<noteq> 0 \<and> key_of mem key (n_value n) = Some bs"

text \<open>An item with the key can only be in the bucket its hash names.\<close>

lemma items_with_key:
  assumes "ht_ok mem key h" and "p \<in># items h" and "key_of mem key p = Some bs"
  shows "\<exists>n\<in>set (b_nodes (ht_bucket h ! (unat (ht_func h bs) mod length (ht_bucket h)))). has_key mem key bs n"
proof -
  from assms(2) obtain j n where j: "j < length (ht_bucket h)" "n \<in> set (live (b_nodes (ht_bucket h ! j)))"
    "n_value n = p" by (auto simp: in_items_iff)
  with assms(1) have "bucket_ok mem key h j (ht_bucket h ! j)" by (simp add: ht_ok_def)
  with j assms(3) have "unat (ht_func h bs) mod length (ht_bucket h) = j" by (auto simp: bucket_ok_def)
  with j assms(3) show ?thesis by (auto simp: has_key_def live_def)
qed

definition home :: "hasht \<Rightarrow> u8 list \<Rightarrow> nat" where
  "home h bs = unat (ht_func h bs) mod length (ht_bucket h)"

lemma home_ok:
  assumes "ht_ok mem key h"
  shows "home h bs < length (ht_bucket h)" and "bucket_ok mem key h (home h bs) (ht_bucket h ! home h bs)"
  using assms by (auto simp: home_def ht_ok_def)

lemma hash_index_home: "key_of mem key data = Some bs \<Longrightarrow> hash_index mem h key data = Inr (home h bs)"
  by (auto simp: hash_index_def home_def dest: key_of_SomeD)

text \<open>Looking up finds a node with the key or tells that there is none, and only counts.\<close>

lemma locked_find_spec:
  assumes "ht_ok mem key h" and "key_of mem key data = Some bs" and "ht_lookups h < 2147483647"
  shows "(\<exists>h'. locked_find mem h key data = Inr (None, h') \<and> ht_ok mem key h' \<and> items h' = items h
            \<and> ht_nr_nodes h' = ht_nr_nodes h \<and> (\<forall>p\<in>#items h. key_of mem key p \<noteq> Some bs))
       \<or> (\<exists>i h'. locked_find mem h key data = Inr (Some (home h' bs, i), h') \<and> ht_ok mem key h'
            \<and> items h' = items h \<and> ht_nr_nodes h' = ht_nr_nodes h
            \<and> i < length (b_nodes (ht_bucket h' ! home h' bs))
            \<and> has_key mem key bs (b_nodes (ht_bucket h' ! home h' bs) ! i))"
proof -
  let ?j = "home h bs" and ?h = "h\<lparr>ht_lookups := ht_lookups h + 1\<rparr>"
  let ?b = "ht_bucket h ! ?j"
  let ?ns = "b_nodes ?b"
  note j = home_ok [OF assms(1), of bs]
  have hash: "hash_index mem h key data = Inr ?j" "hash_index mem ?h key data = Inr ?j"
    using hash_index_home [OF assms(2)] by (simp_all add: home_def)
  have unlocked: "\<not> b_locked ?b" using j(2) by (simp add: bucket_ok_def)
  have find: "find_in mem key data ?ns = Inr (index_of (has_key mem key bs) ?ns)"
    using find_in_spec [OF assms(2), of ?ns] j(2) unfolding has_key_def by (auto simp: bucket_ok_def)
  have ok: "ht_ok mem key ?h" using assms(1) by (fastforce simp: ht_ok_def bucket_ok_def)
  show ?thesis
  proof (cases "index_of (has_key mem key bs) ?ns")
    case None
    then have "locked_find mem h key data = Inr (None, ?h)"
      using hash find unlocked assms(3)
      by (simp add: locked_find_def hasht_find_node_def incr_def Let_def)
    moreover have "\<forall>p\<in>#items h. key_of mem key p \<noteq> Some bs"
      using items_with_key [OF assms(1)] None unfolding home_def [symmetric] by (auto simp: index_of_None)
    ultimately show ?thesis using ok by (auto simp: items_def)
  next
    case (Some i)
    let ?n = "?ns ! i"
    let ?n' = "?n\<lparr>n_lookups := n_lookups ?n + 1\<rparr>"
    let ?b' = "?b\<lparr>b_node := Some (?ns[i := ?n'])\<rparr>"
    let ?h' = "h\<lparr>ht_lookups := ht_lookups h + 1, ht_bucket := (ht_bucket h)[?j := ?b'], ht_hits := ht_hits h + 1\<rparr>"
    from index_of_Some [OF Some] have i: "i < length ?ns" "has_key mem key bs ?n" by simp_all
    then have inl: "?n \<in> set (live ?ns)" by (simp add: live_def has_key_def)
    then have lk: "n_lookups ?n \<le> ht_lookups h" using j(2) by (auto simp: bucket_ok_def)
    have hits: "ht_hits h \<le> ht_lookups h" using assms(1) by (simp add: ht_ok_def)
    have run: "locked_find mem h key data = Inr (Some (?j, i), ?h')"
      using hash find unlocked assms(3) Some lk hits
      by (simp add: locked_find_def hasht_find_node_def incr_def upd_node_def Let_def)
    have v: "n_value ?n \<noteq> 0" using i(2) by (simp add: has_key_def)
    note t = live_touch [of i ?ns ?n', OF i(1) v]
    have "bucket_ok mem key ?h' ?j ?b'"
      unfolding bucket_ok_def
    proof (intro conjI ballI)
      fix n assume "n \<in> set (live (b_nodes ?b'))"
      then consider "n = ?n'" | "n \<in> set (live ?ns)" using t(3) by (auto simp: b_nodes_def)
      then have "\<exists>n0\<in>set (live ?ns). n_key n = n_key n0 \<and> n_value n = n_value n0
          \<and> n_lookups n \<le> n_lookups n0 + 1"
        by cases (use inl in \<open>force+\<close>)
      then show "n_key n = key" "n_lookups n \<le> ht_lookups ?h'"
        "\<exists>bs. key_of mem key (n_value n) = Some bs \<and> unat (ht_func ?h' bs) mod length (ht_bucket ?h') = ?j"
        using j(2) by (fastforce simp: bucket_ok_def)+
    qed (use j(2) t(2) in \<open>simp_all add: bucket_ok_def b_nodes_def\<close>)
    then have "ht_ok mem key ?h'"
      using assms(1) by (intro ht_ok_step [OF assms(1) j(1), where b = ?b']) (simp_all add: ht_ok_def)
    moreover have "items ?h' = items h"
      using items_upd [OF j(1), of ?h' ?b'] t(1) by (simp add: b_nodes_def)
    moreover have "home ?h' bs = ?j" by (simp add: home_def)
    ultimately show ?thesis using run i j(1)
      by (intro disjI2 exI [of _ i] exI [of _ ?h']) (simp add: b_nodes_def has_key_def)
  qed
qed

definition node_fits :: "item_mem \<Rightarrow> hashkey \<Rightarrow> hasht \<Rightarrow> nat \<Rightarrow> hnode \<Rightarrow> bool" where
  "node_fits mem key h j n \<longleftrightarrow> n_key n = key \<and> n_lookups n \<le> ht_lookups h
     \<and> (\<exists>bs. key_of mem key (n_value n) = Some bs \<and> unat (ht_func h bs) mod length (ht_bucket h) = j)"

text \<open>Adding.\<close>

lemma add_item_full: "ht_nr_nodes h \<ge> ht_volume h \<Longrightarrow> hasht_add_item mem h key data mem_ok = Inr (ENOMEM, h)"
  by (simp add: hasht_add_item_def)

lemma add_item_spec:
  assumes "ht_ok mem key h" and "key_of mem key data = Some bs" and "data \<noteq> 0"
    and "ht_nr_nodes h < ht_volume h"
  shows "\<exists>h'. hasht_add_item mem h key data True = Inr (0, h') \<and> ht_ok mem key h'
     \<and> items h' = add_mset data (items h) \<and> ht_lookups h' = ht_lookups h
     \<and> ht_nr_nodes h' = ht_nr_nodes h + 1"
proof -
  let ?j = "home h bs"
  let ?b = "ht_bucket h ! ?j"
  note j = home_ok [OF assms(1), of bs]
  obtain i b' where f: "bucket_get_free_pos ?b True = (int i, b')" "i < length (b_nodes b')"
    "n_value (b_nodes b' ! i) = 0" "live (b_nodes b') = live (b_nodes ?b)"
    "b_locked b' = b_locked ?b" "b_nr_nodes b' = b_nr_nodes ?b"
    by (rule get_free_pos_spec [of True ?b]) simp_all
  define new where "new = \<lparr>n_keyval = ?j, n_key = key, n_value = data, n_updates = 0, n_lookups = 0\<rparr>"
  let ?b' = "b'\<lparr>b_node := Some ((b_nodes b')[i := new]), b_nr_nodes := b_nr_nodes b' + 1\<rparr>"
  let ?h' = "h\<lparr>ht_bucket := (ht_bucket h)[?j := ?b'], ht_nr_nodes := ht_nr_nodes h + 1\<rparr>"
  have unlocked: "\<not> b_locked ?b" using j(2) by (simp add: bucket_ok_def)
  have nodes: "b_nodes ?b' = (b_nodes b')[i := new]" by (simp add: b_nodes_def)
  have "n_value new \<noteq> 0" using assms(3) by (simp add: new_def)
  note fill = live_fill [OF f(2,3) this]
  have run: "hasht_add_item mem h key data True = Inr (0, ?h')"
    using assms(4) hash_index_home [OF assms(2), of h] unlocked f(1)
    by (simp add: hasht_add_item_def new_def Let_def)
  have old: "node_fits mem key h ?j n" if "n \<in> set (live (b_nodes ?b))" for n
    using j(2) that by (simp add: bucket_ok_def node_fits_def)
  have "node_fits mem key h ?j new"
    using assms(1,2) by (simp add: node_fits_def new_def home_def ht_ok_def)
  then have "\<forall>n\<in>set (live ((b_nodes b')[i := new])). node_fits mem key h ?j n"
    using old f(4) by (simp add: fill(3))
  then have "bucket_ok mem key ?h' ?j ?b'"
    using fill(2) f(4-6) j(2) unlocked by (simp add: bucket_ok_def nodes node_fits_def)
  then have "ht_ok mem key ?h'"
    using assms(1,4) f(6) by (intro ht_ok_step [OF assms(1) j(1), where b = ?b']) (simp_all add: ht_ok_def)
  moreover have "vals (b_nodes b') = vals (b_nodes ?b)" using f(4) by (simp add: vals_def)
  then have "items ?h' = add_mset data (items h)"
    using items_upd [OF j(1), of ?h' ?b'] fill(1) by (simp add: nodes new_def)
  ultimately show ?thesis using run by (intro exI [of _ ?h']) simp
qed

text \<open>Taking a node out.\<close>

lemma drop_node_spec:
  assumes "ht_ok mem key h" and "j < length (ht_bucket h)" and "i < length (b_nodes (ht_bucket h ! j))"
    and "n_value (b_nodes (ht_bucket h ! j) ! i) \<noteq> 0"
  shows "ht_ok mem key (drop_node h j i)
     \<and> items h = add_mset (n_value (b_nodes (ht_bucket h ! j) ! i)) (items (drop_node h j i))
     \<and> ht_nr_nodes (drop_node h j i) = ht_nr_nodes h - 1
     \<and> n_value (b_nodes (ht_bucket (drop_node h j i) ! j) ! i) = 0"
proof -
  let ?b = "ht_bucket h ! j"
  let ?n = "b_nodes ?b ! i"
  let ?ns' = "(b_nodes ?b)[i := ?n\<lparr>n_value := 0\<rparr>]"
  let ?b' = "?b\<lparr>b_node := Some ?ns', b_nr_nodes := b_nr_nodes ?b - 1\<rparr>"
  have ok: "bucket_ok mem key h j ?b" using assms(1,2) by (simp add: ht_ok_def)
  have d: "drop_node h j i = h\<lparr>ht_bucket := (ht_bucket h)[j := ?b'], ht_nr_nodes := ht_nr_nodes h - 1\<rparr>"
    using assms(2) by (simp add: drop_node_def upd_node_def Let_def)
  have nodes: "b_nodes ?b' = ?ns'" by (simp add: b_nodes_def)
  have "n_value (?n\<lparr>n_value := 0\<rparr>) = 0" by simp
  note c = live_clear [OF assms(3,4) this]
  have "\<forall>n\<in>set (live (b_nodes ?b)). node_fits mem key h j n"
    using ok by (simp add: bucket_ok_def node_fits_def)
  with c(3) have "\<forall>n\<in>set (live ?ns'). node_fits mem key h j n" by blast
  then have "bucket_ok mem key (drop_node h j i) j ?b'"
    using ok c(2) by (simp add: bucket_ok_def nodes d node_fits_def)
  then have "ht_ok mem key (drop_node h j i)"
    using assms(1) by (intro ht_ok_step [OF assms(1,2), where b = ?b']) (simp_all add: ht_ok_def d)
  moreover have "items h = add_mset (n_value ?n) (items (drop_node h j i))"
    using items_upd [OF assms(2), of "drop_node h j i" ?b'] c(1) by (simp add: nodes d)
  ultimately show ?thesis using assms(2,3) by (simp add: d b_nodes_def)
qed

text \<open>
  The three ways an operation can end that looks a key up and, if it is there, takes the item out.
\<close>

definition taken :: "item_mem \<Rightarrow> hashkey \<Rightarrow> u8 list \<Rightarrow> hasht \<Rightarrow> hasht \<Rightarrow> bool" where
  "taken mem key bs h h' \<longleftrightarrow> ht_ok mem key h' \<and> ht_nr_nodes h' = ht_nr_nodes h - 1
     \<and> (\<exists>p. items h = add_mset p (items h') \<and> key_of mem key p = Some bs)"

definition missing :: "item_mem \<Rightarrow> hashkey \<Rightarrow> u8 list \<Rightarrow> hasht \<Rightarrow> hasht \<Rightarrow> bool" where
  "missing mem key bs h h' \<longleftrightarrow> ht_ok mem key h' \<and> items h' = items h \<and> ht_nr_nodes h' = ht_nr_nodes h
     \<and> (\<forall>p\<in>#items h. key_of mem key p \<noteq> Some bs)"

lemma lookup_and_drop:
  assumes "ht_ok mem key h" and "key_of mem key data = Some bs" and "ht_lookups h < 2147483647"
  shows "(\<exists>h'. locked_find mem h key data = Inr (None, h') \<and> missing mem key bs h h')
       \<or> (\<exists>j i h'. locked_find mem h key data = Inr (Some (j, i), h') \<and> taken mem key bs h (drop_node h' j i)
            \<and> ht_ok mem key h' \<and> items h' = items h \<and> n_value (b_nodes (ht_bucket h' ! j) ! i) \<in># items h
            \<and> key_of mem key (n_value (b_nodes (ht_bucket h' ! j) ! i)) = Some bs
            \<and> n_value (b_nodes (ht_bucket h' ! j) ! i) \<noteq> 0
            \<and> n_value (b_nodes (ht_bucket (drop_node h' j i) ! j) ! i) = 0)"
proof -
  consider h' where "locked_find mem h key data = Inr (None, h')" "missing mem key bs h h'"
    | i h' where "locked_find mem h key data = Inr (Some (home h' bs, i), h')" "ht_ok mem key h'"
        "items h' = items h" "ht_nr_nodes h' = ht_nr_nodes h"
        "i < length (b_nodes (ht_bucket h' ! home h' bs))"
        "has_key mem key bs (b_nodes (ht_bucket h' ! home h' bs) ! i)"
    using locked_find_spec [OF assms] by (auto simp: missing_def)
  then show ?thesis
  proof cases
    case 2
    let ?p = "n_value (b_nodes (ht_bucket h' ! home h' bs) ! i)"
    have p: "?p \<noteq> 0" "key_of mem key ?p = Some bs" using 2(6) by (simp_all add: has_key_def)
    note d = drop_node_spec [OF 2(2) home_ok(1) [OF 2(2)] 2(5) p(1)]
    then have "taken mem key bs h (drop_node h' (home h' bs) i)" "?p \<in># items h"
      using 2 p by (auto simp: taken_def)
    then show ?thesis using 2(1-3) p d by blast
  qed blast
qed

section \<open>Correctness\<close>

text \<open>
  C10.  The table is a bag of items searched by key.  As long as the counters do not overflow and memory
  can be had, adding an item that fits puts exactly it into the bag, and a full table refuses with
  \<open>ENOMEM\<close>; \<open>hasht_find_item\<close> returns an item with the key if there is one and null otherwise;
  \<open>hasht_delete_item\<close> takes out one item with the key or answers \<open>ENOENT\<close>.  None of them touches
  memory outside the items and the buckets, and the table stays well-formed.
\<close>

theorem hasht_refines_bag:
  assumes "ht_ok mem key h" and "key_of mem key data = Some bs" and "data \<noteq> 0"
    and "ht_lookups h < 2147483647"
  shows "(ht_nr_nodes h < ht_volume h \<longrightarrow> (\<exists>h'. hasht_add_item mem h key data True = Inr (0, h')
            \<and> ht_ok mem key h' \<and> items h' = add_mset data (items h)))
     \<and> (ht_nr_nodes h \<ge> ht_volume h \<longrightarrow> hasht_add_item mem h key data True = Inr (12, h))
     \<and> (\<exists>p h'. hasht_find_item mem h key data = Inr (p, h') \<and> ht_ok mem key h' \<and> items h' = items h
          \<and> (if p = 0 then \<forall>q\<in>#items h. key_of mem key q \<noteq> Some bs
             else p \<in># items h \<and> key_of mem key p = Some bs))
     \<and> (\<exists>ret h'. hasht_delete_item mem h key data = Inr (ret, h') \<and> ht_ok mem key h'
          \<and> (ret = 0 \<and> (\<exists>p. items h = add_mset p (items h') \<and> key_of mem key p = Some bs)
             \<or> ret = 2 \<and> items h' = items h \<and> (\<forall>q\<in>#items h. key_of mem key q \<noteq> Some bs)))"
proof -
  from lookup_and_drop [OF assms(1,2,4)] have
    "\<exists>p h'. hasht_find_item mem h key data = Inr (p, h') \<and> ht_ok mem key h' \<and> items h' = items h
          \<and> (if p = 0 then \<forall>q\<in>#items h. key_of mem key q \<noteq> Some bs
             else p \<in># items h \<and> key_of mem key p = Some bs)"
    by (elim disjE exE conjE) (auto simp: hasht_find_item_def missing_def)
  moreover from lookup_and_drop [OF assms(1,2,4)] have
    "\<exists>ret h'. hasht_delete_item mem h key data = Inr (ret, h') \<and> ht_ok mem key h'
          \<and> (ret = 0 \<and> (\<exists>p. items h = add_mset p (items h') \<and> key_of mem key p = Some bs)
             \<or> ret = 2 \<and> items h' = items h \<and> (\<forall>q\<in>#items h. key_of mem key q \<noteq> Some bs))"
    by (elim disjE exE conjE) (auto simp: hasht_delete_item_def missing_def taken_def)
  ultimately show ?thesis using add_item_spec [OF assms(1-3)] add_item_full by blast
qed

text \<open>A table with one bucket and items of four bytes.\<close>

definition item_sample :: item_mem where
  "item_sample = [0x10 \<mapsto> [1, 0, 0, 0], 0x20 \<mapsto> [2, 0, 0, 0]]"

definition key_sample :: hashkey where
  "key_sample = \<lparr>k_offset = 0, k_len = 4\<rparr>"

definition hasht_sample :: hasht where
  "hasht_sample = \<lparr>ht_func = default_hash_func, ht_volume = 8, ht_nr_nodes = 0,
     ht_bucket = [\<lparr>b_locked = False, b_node = None, b_nr_nodes = 0\<rparr>], ht_lookups = 0, ht_hits = 0\<rparr>"

lemma hasht_sample_new: "hasht_new None 8 True True = Some hasht_sample"
  by (simp add: hasht_new_def hasht_sample_def)

lemma hasht_sample_ok: "ht_ok item_sample key_sample hasht_sample" "items hasht_sample = {#}"
  "key_of item_sample key_sample 0x10 = Some [1, 0, 0, 0]"
  by (simp_all add: ht_ok_def hasht_sample_def bucket_ok_def b_nodes_def items_def vals_def key_of_def
      rd_bytes_def item_sample_def key_sample_def)

theorem hasht_refines_bag_witness:
  "\<exists>h'. hasht_add_item item_sample hasht_sample key_sample 0x10 True = Inr (0, h') \<and> items h' = {#0x10#}"
proof -
  have "ht_nr_nodes hasht_sample < ht_volume hasht_sample" "ht_lookups hasht_sample < 2147483647"
    by (simp_all add: hasht_sample_def)
  with hasht_refines_bag [OF hasht_sample_ok(1,3)] show ?thesis
    by (auto simp: hasht_sample_ok(2))
qed

text \<open>
  \<open>hasht_fetch_item\<close> loses the item.  It takes an item with the key out of the table but always
  returns null: the value is read after it has been overwritten.
\<close>

theorem hasht_fetch_loses:
  assumes "ht_ok mem key h" and "key_of mem key data = Some bs" and "ht_lookups h < 2147483647"
  shows "\<exists>h'. hasht_fetch_item mem h key data = Inr (0, h') \<and> ht_ok mem key h'
     \<and> ((\<exists>p\<in>#items h. key_of mem key p = Some bs) \<longrightarrow> size (items h') < size (items h))"
  using lookup_and_drop [OF assms]
  by (elim disjE exE conjE) (auto simp: hasht_fetch_item_def missing_def taken_def Let_def)

theorem hasht_fetch_loses_witness:
  "\<exists>h. hasht_fetch_item item_sample hasht_sample key_sample 0x10 = Inr (0, h) \<and> ht_ok item_sample key_sample h"
proof -
  have "ht_lookups hasht_sample < 2147483647" by (simp add: hasht_sample_def)
  from hasht_fetch_loses [OF hasht_sample_ok(1,3) this] show ?thesis by blast
qed

section \<open>The default hash function forgets the last bytes\<close>

lemma hash_blocks_take: "hash_blocks hash (take (4 * (length xs div 4)) xs) = hash_blocks hash xs"
proof (induction hash xs rule: hash_blocks.induct)
  case (1 hash a b c d rest)
  have "length (a # b # c # d # rest) = length rest + 4" by simp
  then have "4 * (length (a # b # c # d # rest) div 4) = Suc (Suc (Suc (Suc (4 * (length rest div 4)))))"
    by (simp only: div_add_self2) simp
  then have "take (4 * (length (a # b # c # d # rest) div 4)) (a # b # c # d # rest)
      = a # b # c # d # take (4 * (length rest div 4)) rest"
    by (simp only: take_Suc_Cons)
  with 1 show ?case by (simp only: hash_blocks.simps)
qed simp_all

text \<open>
  The remainder of a key whose length is no multiple of four does not matter: the bytes mixed in at
  the end are the first ones of the key again.  Two keys of the same length that differ only in
  their last \<open>len mod 4\<close> bytes always fall into the same bucket.
\<close>

theorem hash_ignores_remainder:
  assumes "length xs = length ys" and "4 \<le> length xs"
    and "take (4 * (length xs div 4)) xs = take (4 * (length xs div 4)) ys"
  shows "default_hash_func xs = default_hash_func ys"
proof -
  have blocks: "hash_blocks hash xs = hash_blocks hash ys" for hash
    using hash_blocks_take [of hash xs] hash_blocks_take [of hash ys] assms(1,3) by simp
  have "xs ! i = ys ! i" if "i < 4" for i
  proof -
    have "4 div 4 \<le> length xs div 4" using assms(2) by (rule div_le_mono)
    then have "i < 4 * (length xs div 4)" using that by simp
    then show ?thesis using assms(3) by (metis nth_take)
  qed
  then have "hash_tail xs = hash_tail ys" using assms(1) by (simp add: hash_tail_def)
  with blocks assms(1) show ?thesis by (simp add: default_hash_func_def)
qed

theorem hash_ignores_remainder_witness:
  "default_hash_func [1, 2, 3, 4, 5, 6, 7] = default_hash_func [1, 2, 3, 4, 50, 60, 70]"
  using hash_ignores_remainder [of "[1, 2, 3, 4, 5, 6, 7]" "[1, 2, 3, 4, 50, 60, 70]"] by simp

section \<open>A failed add keeps the lock\<close>

lemma get_free_pos_fails: "bucket_get_free_pos b mem_ok = (- 1, b') \<Longrightarrow> b' = b"
  by (auto simp: bucket_get_free_pos_def split: option.splits if_splits)

lemma clean_locked: "\<exists>b\<in>set bs. b_locked b \<Longrightarrow> clean_buckets mem nr bs \<noteq> Inr r"
proof (induction bs arbitrary: mem nr r)
  case (Cons b bs)
  show ?case
  proof
    assume "clean_buckets mem nr (b # bs) = Inr r"
    then obtain mem' nr' r' where "\<not> b_locked b" "clean_buckets mem' nr' bs = Inr r'"
      by (auto simp: bindE_eq_Inr_iff split: if_splits)
    with Cons show False by auto
  qed
qed simp

text \<open>
  When a bucket cannot grow, \<open>hasht_add_item\<close> answers \<open>ENOMEM\<close> but leaves the bucket locked:
  every later operation on a key of this bucket waits for ever.
\<close>

theorem hasht_add_failure_deadlocks:
  assumes "ht_ok mem key h" and "key_of mem key data = Some bs" and "ht_nr_nodes h < ht_volume h"
    and "hasht_add_item mem h key data False = Inr (ret, h')" and "ret \<noteq> 0"
  shows "ret = 12 \<and> items h' = items h \<and> hasht_add_item mem h' key data mem_ok = Inl Deadlock
     \<and> hasht_find_item mem h' key data = Inl Deadlock \<and> hasht_delete_item mem h' key data = Inl Deadlock
     \<and> hasht_clean_table mem h' \<noteq> Inr r"
proof -
  let ?j = "home h bs"
  let ?b = "ht_bucket h ! ?j"
  note j = home_ok [OF assms(1), of bs]
  have unlocked: "\<not> b_locked ?b" using j(2) by (simp add: bucket_ok_def)
  obtain pos b' where f: "bucket_get_free_pos ?b False = (pos, b')" by fastforce
  have "pos = - 1" and ret: "ret = 12" and h': "h' = h\<lparr>ht_bucket := (ht_bucket h)[?j := b'\<lparr>b_locked := True\<rparr>]\<rparr>"
    using assms(3-5) hash_index_home [OF assms(2), of h] unlocked f
    by (auto simp: hasht_add_item_def Let_def split: if_splits)
  with f have b': "b' = ?b" by (rule_tac get_free_pos_fails) simp
  have items: "items h' = items h"
    using items_upd [OF j(1), of h' "?b\<lparr>b_locked := True\<rparr>"] h' b' by (simp add: b_nodes_def)
  have home': "hash_index mem h' key data = Inr ?j" "b_locked (ht_bucket h' ! ?j)"
    using hash_index_home [OF assms(2), of h'] h' j(1) by (simp_all add: home_def)
  have "ht_nr_nodes h' < ht_volume h'" using assms(3) h' by simp
  moreover have "?b\<lparr>b_locked := True\<rparr> \<in> set (ht_bucket h')" using h' b' j(1) by (simp add: set_update_memI)
  then have "hasht_clean_table mem h' \<noteq> Inr r"
    using clean_locked [of "ht_bucket h'"] by (fastforce simp: hasht_clean_table_def bindE_eq_Inr_iff)
  ultimately show ?thesis using ret items home'
    by (simp add: hasht_add_item_def hasht_find_item_def hasht_delete_item_def locked_find_def Let_def)
qed

theorem hasht_add_failure_deadlocks_witness:
  "\<exists>h'. hasht_add_item item_sample hasht_sample key_sample 0x10 False = Inr (12, h')
     \<and> hasht_find_item item_sample h' key_sample 0x10 = Inl Deadlock"
proof -
  obtain h' where h': "hasht_add_item item_sample hasht_sample key_sample 0x10 False = Inr (12, h')"
    by (simp add: hasht_add_item_def hasht_sample_def hash_index_def rd_bytes_def item_sample_def
        key_sample_def bucket_get_free_pos_def bucket_new_bucket_def Let_def)
  have "ht_nr_nodes hasht_sample < ht_volume hasht_sample" by (simp add: hasht_sample_def)
  from hasht_add_failure_deadlocks [OF hasht_sample_ok(1,3) this h'] h' show ?thesis by simp
qed

section \<open>Emptying the table\<close>

lemma free_items_spec:
  "distinct (map n_value (live ns)) \<Longrightarrow> n_value ` set (live ns) \<subseteq> dom mem \<Longrightarrow>
   free_items mem ns = Inr (int (length (live ns)), mem |` (- (n_value ` set (live ns))),
                            map (\<lambda>n. n\<lparr>n_value := 0\<rparr>) ns)"
proof (induction ns arbitrary: mem)
  case (Cons n ns)
  show ?case
  proof (cases "n_value n = 0")
    case True
    then have "n\<lparr>n_value := 0\<rparr> = n" by simp
    with True Cons show ?thesis by simp
  next
    case False
    let ?mem = "mem(n_value n := None)"
    have notin: "n_value n \<notin> n_value ` set (live ns)" "mem (n_value n) \<noteq> None"
      using Cons.prems False by auto
    have "n_value ` set (live ns) \<subseteq> dom mem" using Cons.prems(2) False by auto
    with notin(1) have "n_value ` set (live ns) \<subseteq> dom mem - {n_value n}"
      by (simp only: subset_Diff_insert Diff_empty) simp
    then have "n_value ` set (live ns) \<subseteq> dom ?mem" by simp
    moreover have "distinct (map n_value (live ns))" using Cons.prems(1) False by simp
    ultimately have ih: "free_items ?mem ns = Inr (int (length (live ns)),
        ?mem |` (- (n_value ` set (live ns))), map (\<lambda>n. n\<lparr>n_value := 0\<rparr>) ns)"
      by (intro Cons.IH)
    have "?mem |` (- (n_value ` set (live ns))) = mem |` (- (n_value ` set (live (n # ns))))"
      using False by (simp add: restrict_map_def fun_eq_iff)
    with ih notin(2) False show ?thesis by simp
  qed
qed (simp add: restrict_map_def)

definition bucket_vals :: "bucket \<Rightarrow> intptr list" where
  "bucket_vals b = map n_value (live (b_nodes b))"

lemma clean_buckets_spec:
  "\<forall>b\<in>set bs. \<not> b_locked b \<Longrightarrow> distinct (concat (map bucket_vals bs)) \<Longrightarrow>
   set (concat (map bucket_vals bs)) \<subseteq> dom mem \<Longrightarrow>
   \<exists>bs'. clean_buckets mem nr bs
      = Inr (mem |` (- set (concat (map bucket_vals bs))), nr - int (length (concat (map bucket_vals bs))), bs')
     \<and> length bs' = length bs \<and> (\<forall>b\<in>set bs'. live (b_nodes b) = [] \<and> b_nr_nodes b = 0 \<and> \<not> b_locked b)"
proof (induction bs arbitrary: mem nr)
  case (Cons b bs)
  let ?mem = "mem |` (- set (bucket_vals b))"
  have f: "free_items mem (b_nodes b) = Inr (int (length (bucket_vals b)), ?mem, map (\<lambda>n. n\<lparr>n_value := 0\<rparr>) (b_nodes b))"
    using free_items_spec [of "b_nodes b" mem] Cons.prems by (simp add: bucket_vals_def)
  have "set (concat (map bucket_vals bs)) \<subseteq> dom ?mem" using Cons.prems by auto
  with Cons.IH [of ?mem "nr - int (length (bucket_vals b))"] Cons.prems obtain bs' where
    bs': "clean_buckets ?mem (nr - int (length (bucket_vals b))) bs
        = Inr (?mem |` (- set (concat (map bucket_vals bs))),
               nr - int (length (bucket_vals b)) - int (length (concat (map bucket_vals bs))), bs')"
      "length bs' = length bs" "\<forall>b\<in>set bs'. live (b_nodes b) = [] \<and> b_nr_nodes b = 0 \<and> \<not> b_locked b"
    by auto
  have "live (b_nodes (b\<lparr>b_node := map_option (\<lambda>_. map (\<lambda>n. n\<lparr>n_value := 0\<rparr>) (b_nodes b)) (b_node b),
      b_nr_nodes := 0\<rparr>)) = []"
    by (cases "b_node b") (auto simp: b_nodes_def live_def filter_empty_conv)
  moreover have "?mem |` (- set (concat (map bucket_vals bs))) = mem |` (- set (concat (map bucket_vals (b # bs))))"
    by (auto simp: restrict_map_def fun_eq_iff)
  ultimately show ?case using f bs' Cons.prems(1) by simp
qed (simp add: restrict_map_def)

lemma int_length_concat: "int (length (concat (map f bs))) = sum_list (map (\<lambda>b. int (length (f b))) bs)"
  by (induction bs) auto

lemma sum_list_zero: "(\<And>x. x \<in> set xs \<Longrightarrow> f x = (0 :: 'b :: comm_monoid_add)) \<Longrightarrow> sum_list (map f xs) = 0"
  by (induction xs) auto

lemma items_concat: "items h = mset (concat (map bucket_vals (ht_bucket h)))"
  by (simp add: items_def bucket_vals_def vals_def mset_concat comp_def)

text \<open>
  \<open>hasht_clean_table\<close> empties the table: when no item is in it twice and all are allocated, each
  of them is freed exactly once, nothing else is, and the well-formed table that remains is empty.
\<close>

theorem hasht_clean_table_frees:
  assumes "ht_ok mem key h" and "\<forall>p. count (items h) p \<le> 1" and "set_mset (items h) \<subseteq> dom mem"
  shows "\<exists>h'. hasht_clean_table mem h = Inr (0, mem |` (- set_mset (items h)), h')
     \<and> ht_ok mem' key h' \<and> items h' = {#} \<and> ht_nr_nodes h' = 0"
proof -
  let ?vs = "concat (map bucket_vals (ht_bucket h))"
  have ok: "bucket_ok mem key h j (ht_bucket h ! j)" if "j < length (ht_bucket h)" for j
    using assms(1) that by (simp add: ht_ok_def)
  have unlocked: "\<forall>b\<in>set (ht_bucket h). \<not> b_locked b \<and> b_nr_nodes b = int (length (bucket_vals b))"
    using ok by (auto simp: in_set_conv_nth bucket_ok_def bucket_vals_def)
  have "distinct ?vs"
    using assms(2) unfolding items_concat distinct_count_atmost_1
    by (metis count_mset_0_iff le_neq_implies_less less_one)
  then obtain bs' where c: "clean_buckets mem (ht_nr_nodes h) (ht_bucket h)
      = Inr (mem |` (- set ?vs), ht_nr_nodes h - int (length ?vs), bs')"
      "length bs' = length (ht_bucket h)" "\<forall>b\<in>set bs'. live (b_nodes b) = [] \<and> b_nr_nodes b = 0 \<and> \<not> b_locked b"
    using clean_buckets_spec [of "ht_bucket h" mem "ht_nr_nodes h"] unlocked assms(3)
    by (auto simp: items_concat)
  have eq: "map b_nr_nodes (ht_bucket h) = map (\<lambda>b. int (length (bucket_vals b))) (ht_bucket h)"
    using unlocked by (intro map_cong) auto
  have "ht_nr_nodes h = sum_list (map b_nr_nodes (ht_bucket h))" using assms(1) by (simp add: ht_ok_def)
  then have nr: "ht_nr_nodes h = int (length ?vs)" by (simp only: int_length_concat eq)
  let ?h' = "h\<lparr>ht_bucket := bs', ht_nr_nodes := ht_nr_nodes h - int (length ?vs)\<rparr>"
  have "sum_list (map b_nr_nodes bs') = 0" "sum_list (map (\<lambda>b. vals (b_nodes b)) bs') = {#}"
    using c(3) by (auto intro!: sum_list_zero simp: vals_def)
  then have "ht_ok mem' key ?h'" "items ?h' = {#}"
    using c assms(1) nr by (auto simp: ht_ok_def bucket_ok_def items_def)
  then show ?thesis using c(1) nr by (intro exI [of _ ?h']) (simp add: hasht_clean_table_def items_concat)
qed

theorem hasht_clean_table_frees_witness:
  "\<exists>h'. hasht_clean_table item_sample hasht_sample = Inr (0, item_sample, h') \<and> items h' = {#}"
proof -
  have "\<forall>p. count (items hasht_sample) p \<le> 1" "set_mset (items hasht_sample) \<subseteq> dom item_sample"
    by (simp_all add: hasht_sample_ok(2))
  from hasht_clean_table_frees [OF hasht_sample_ok(1) this, of item_sample] show ?thesis
    by (auto simp: hasht_sample_ok(2) restrict_map_def)
qed

end
