(* ===== verification/State_Dict.thy ===== *)
theory State_Dict
  imports Hasht
begin

text \<open>
  The dictionary of server states (\<open>src/src/ds_state_dict.c\<close>), a client of the hash table.  An item
  is a \<open>struct server_state_st\<close> of 176 bytes: the address (16), the name of the host (64), four times
  (64), the current state at 144, a count, the maximum at 152 and a last time.
\<close>

section \<open>State\<close>

record state_dict =
  sd_inited :: bool
  sd_ht :: "hasht option"
  sd_mem :: item_mem

definition state_dict_start :: state_dict where
  "state_dict_start = \<lparr>sd_inited = False, sd_ht = None, sd_mem = Map.empty\<rparr>"

definition server_key :: hashkey where
  "server_key = \<lparr>k_offset = 16, k_len = 64\<rparr>"

text \<open>An \<open>int\<close> in memory, the lowest byte first, and a write of some bytes at an offset.\<close>

definition int_bytes :: "int \<Rightarrow> u8 list" where
  "int_bytes n = (let w = word_of_int n :: u32 in
     [ucast w, ucast (drop_bit 8 w), ucast (drop_bit 16 w), ucast (drop_bit 24 w)])"

definition put :: "nat \<Rightarrow> u8 list \<Rightarrow> u8 list \<Rightarrow> u8 list" where
  "put off xs bs = take off bs @ xs @ drop (off + length xs) bs"

definition write_item :: "nat \<Rightarrow> u8 list \<Rightarrow> intptr \<Rightarrow> item_mem \<Rightarrow> item_mem" where
  "write_item off xs p mem = (case mem p of None \<Rightarrow> mem | Some bs \<Rightarrow> mem(p \<mapsto> put off xs bs))"

section \<open>Operations\<close>

definition server_state_modify_state :: "int \<Rightarrow> intptr \<Rightarrow> item_mem \<Rightarrow> item_mem" where
  "server_state_modify_state state = write_item 144 (int_bytes state)"

definition server_state_modify_addr :: "u8 list \<Rightarrow> intptr \<Rightarrow> item_mem \<Rightarrow> item_mem" where
  "server_state_modify_addr sa = write_item 0 sa"

definition server_state_init :: "bool \<Rightarrow> state_dict \<Rightarrow> int \<times> state_dict" where
  "server_state_init mem_ok d =
     (case hasht_new None 10000 mem_ok mem_ok of
        None \<Rightarrow> (-1, d\<lparr>sd_ht := None\<rparr>)
      | Some h \<Rightarrow> (0, d\<lparr>sd_ht := Some h, sd_inited := True\<rparr>))"

text \<open>\<open>inited\<close> stays set.\<close>

definition server_state_destroy :: "state_dict \<Rightarrow> ub + int \<times> state_dict" where
  "server_state_destroy d =
     (case sd_ht d of None \<Rightarrow> Inr (0, d)
      | Some h \<Rightarrow> bindE (hasht_clean_table (sd_mem d) h) (\<lambda>(_, mem, h).
          Inr (0, d\<lparr>sd_mem := mem, sd_ht := snd (hasht_delete h)\<rparr>)))"

text \<open>
  \<open>s\<close> are the 80 bytes of the \<open>server_info_t\<close>, \<open>item\<close> the address \<open>malloc\<close> returns; \<open>init_ok\<close> and
  \<open>node_ok\<close> tell whether the allocations of the table succeed.
\<close>

definition server_state_add_default ::
  "u8 list \<Rightarrow> int \<Rightarrow> bool \<Rightarrow> intptr option \<Rightarrow> bool \<Rightarrow> state_dict \<Rightarrow> ub + int \<times> state_dict" where
  "server_state_add_default s state init_ok item node_ok d =
     (let (ret, d) = (if sd_inited d then (0, d) else server_state_init init_ok d) in
      if ret = -1 then Inr (-1, d)
      else case item of None \<Rightarrow> Inr (-1, d)
      | Some p \<Rightarrow>
          let mem = (sd_mem d)(p \<mapsto> put 0 s (put 144 (int_bytes state) (put 152 (int_bytes 100000) (replicate 176 0)))) in
          (case sd_ht d of None \<Rightarrow> Inl NullDeref
           | Some h \<Rightarrow>
               bindE (hasht_add_item mem h server_key p node_ok) (\<lambda>(ret, h).
               if ret \<noteq> 0 then Inr (-1, d\<lparr>sd_ht := Some h, sd_mem := mem(p := None)\<rparr>)
               else Inr (0, d\<lparr>sd_ht := Some h, sd_mem := mem\<rparr>))))"

text \<open>
  The search item on the stack at \<open>sp\<close>.  Only its name is set: the name is cleared and then
  \<open>strlen(hostname)\<close> bytes are copied, however many that are.
\<close>

definition probe :: "u8 list \<Rightarrow> ub + u8 list" where
  "probe hostname =
     (if length hostname > 64 then Inl OutOfBounds
      else Inr (replicate 16 0 @ hostname @ replicate (64 - length hostname) 0 @ replicate 96 0))"

definition modify_with ::
  "(intptr \<Rightarrow> item_mem \<Rightarrow> item_mem) \<Rightarrow> u8 list \<Rightarrow> bool \<Rightarrow> intptr \<Rightarrow> state_dict \<Rightarrow> ub + int \<times> state_dict" where
  "modify_with modify hostname init_ok sp d =
     (let (ret, d) = (if sd_inited d then (0, d) else server_state_init init_ok d) in
      if ret = -1 then Inr (-1, d)
      else
        bindE (probe hostname) (\<lambda>bs.
        case sd_ht d of None \<Rightarrow> Inl NullDeref
        | Some h \<Rightarrow>
            bindE (hasht_modify_item ((sd_mem d)(sp \<mapsto> bs)) h server_key sp modify) (\<lambda>(ret, mem, h).
            let d = d\<lparr>sd_ht := Some h, sd_mem := mem(sp := None)\<rparr> in
            if ret = -1 then Inr (-1, d) else Inr (0, d))))"

definition server_state_set_state :: "u8 list \<Rightarrow> int \<Rightarrow> bool \<Rightarrow> intptr \<Rightarrow> state_dict \<Rightarrow> ub + int \<times> state_dict" where
  "server_state_set_state hostname state = modify_with (server_state_modify_state state) hostname"

definition server_state_set_addr :: "u8 list \<Rightarrow> u8 list \<Rightarrow> bool \<Rightarrow> intptr \<Rightarrow> state_dict \<Rightarrow> ub + int \<times> state_dict" where
  "server_state_set_addr hostname sa = modify_with (server_state_modify_addr sa) hostname"

definition server_state_get :: "u8 list \<Rightarrow> intptr \<Rightarrow> state_dict \<Rightarrow> ub + intptr \<times> state_dict" where
  "server_state_get hostname sp d =
     (if \<not> sd_inited d then Inr (0, d)
      else
        bindE (probe hostname) (\<lambda>bs.
        case sd_ht d of None \<Rightarrow> Inl NullDeref
        | Some h \<Rightarrow>
            bindE (hasht_find_item ((sd_mem d)(sp \<mapsto> bs)) h server_key sp) (\<lambda>(p, h).
            Inr (p, d\<lparr>sd_ht := Some h\<rparr>))))"

section \<open>The dictionary\<close>

text \<open>The name of an item, its state and its address.\<close>

definition host_at :: "item_mem \<Rightarrow> intptr \<Rightarrow> u8 list option" where
  "host_at mem p = map_option (\<lambda>bs. take 64 (drop 16 bs)) (mem p)"

definition padded :: "u8 list \<Rightarrow> u8 list" where
  "padded hostname = hostname @ replicate (64 - length hostname) 0"

definition servers :: "state_dict \<Rightarrow> intptr multiset" where
  "servers d = (case sd_ht d of None \<Rightarrow> {#} | Some h \<Rightarrow> items h)"

definition lookups :: "state_dict \<Rightarrow> int" where
  "lookups d = (case sd_ht d of None \<Rightarrow> 0 | Some h \<Rightarrow> ht_lookups h)"

definition state_dict_ok :: "state_dict \<Rightarrow> bool" where
  "state_dict_ok d \<longleftrightarrow> sd_inited d \<and>
     (case sd_ht d of None \<Rightarrow> False
      | Some h \<Rightarrow> ht_ok (sd_mem d) server_key h \<and> (\<forall>p\<in>#items h. p \<noteq> 0 \<and> map_option length (sd_mem d p) = Some 176))"

lemma key_of_server: "map_option length (mem p) = Some 176 \<Longrightarrow> key_of mem server_key p = host_at mem p"
  by (auto simp: key_of_def rd_bytes_def server_key_def host_at_def)

text \<open>The table only looks at the keys of its items.\<close>

lemma ht_ok_same_keys:
  assumes "ht_ok mem key h" and "\<And>p. p \<in># items h \<Longrightarrow> key_of mem' key p = key_of mem key p"
  shows "ht_ok mem' key h"
proof -
  have "bucket_ok mem' key h j (ht_bucket h ! j)" if "j < length (ht_bucket h)" for j
  proof -
    have "bucket_ok mem key h j (ht_bucket h ! j)" using assms(1) that by (simp add: ht_ok_def)
    moreover have "key_of mem' key (n_value n) = key_of mem key (n_value n)" if n: "n \<in> set (live (b_nodes (ht_bucket h ! j)))" for n
      using assms(2) in_items_iff [of "n_value n" h] n \<open>j < length (ht_bucket h)\<close> by blast
    ultimately show ?thesis by (auto simp: bucket_ok_def)
  qed
  with assms(1) show ?thesis by (simp add: ht_ok_def)
qed

lemma length_put: "off + length xs \<le> length bs \<Longrightarrow> length (put off xs bs) = length bs"
  by (simp add: put_def)

lemma length_int_bytes [simp]: "length (int_bytes n) = 4"
  by (simp add: int_bytes_def Let_def)

text \<open>The memory a new item has, and that both callbacks leave its name alone.\<close>

definition new_item :: "u8 list \<Rightarrow> int \<Rightarrow> u8 list" where
  "new_item s state = put 0 s (put 144 (int_bytes state) (put 152 (int_bytes 100000) (replicate 176 0)))"

lemma new_item_spec:
  assumes "length s = 80"
  shows "length (new_item s state) = 176" "take 64 (drop 16 (new_item s state)) = drop 16 s"
    "take 4 (drop 144 (new_item s state)) = int_bytes state"
  using assms by (simp_all add: new_item_def put_def drop_take)

lemma modify_same_host:
  "length sa = 16 \<Longrightarrow> host_at (server_state_modify_addr sa q mem) p = host_at mem p"
  "map_option length (mem q) = Some 176 \<Longrightarrow> host_at (server_state_modify_state state q mem) p = host_at mem p"
  "length sa = 16 \<Longrightarrow> map_option length (mem q) = Some 176 \<Longrightarrow>
     map_option length (server_state_modify_addr sa q mem p) = map_option length (mem p)"
  "map_option length (mem q) = Some 176 \<Longrightarrow>
     map_option length (server_state_modify_state state q mem p) = map_option length (mem p)"
  by (auto simp: server_state_modify_addr_def server_state_modify_state_def write_item_def host_at_def put_def
      drop_take split: option.splits)

lemma probe_spec:
  assumes "length hostname \<le> 64"
  shows "\<exists>bs. probe hostname = Inr bs \<and> length bs = 176 \<and> take 64 (drop 16 bs) = padded hostname"
  using assms by (simp add: probe_def padded_def)

text \<open>Adding, with memory for everything and room in the table.\<close>

lemma add_default_spec:
  assumes "state_dict_ok d" and "length s = 80" and "p \<noteq> 0" and "sd_mem d p = None"
    and "sd_ht d = Some h" and "ht_nr_nodes h < ht_volume h"
  shows "\<exists>d'. server_state_add_default s state init_ok (Some p) True d = Inr (0, d') \<and> state_dict_ok d'
     \<and> servers d' = add_mset p (servers d) \<and> host_at (sd_mem d') p = Some (drop 16 s)
     \<and> map_option (take 4 \<circ> drop 144) (sd_mem d' p) = Some (int_bytes state)
     \<and> (\<forall>q. q \<noteq> p \<longrightarrow> sd_mem d' q = sd_mem d q) \<and> lookups d' = lookups d"
proof -
  let ?mem = "(sd_mem d)(p \<mapsto> new_item s state)"
  have ok: "ht_ok (sd_mem d) server_key h" "\<forall>q\<in>#items h. q \<noteq> 0 \<and> map_option length (sd_mem d q) = Some 176" "sd_inited d"
    using assms(1,5) by (simp_all add: state_dict_ok_def)
  then have others: "q \<in># items h \<Longrightarrow> q \<noteq> p" for q using assms(4) by auto
  have "ht_ok ?mem server_key h"
    by (rule ht_ok_same_keys [OF ok(1)]) (use others in \<open>auto simp: key_of_def rd_bytes_def\<close>)
  moreover have key: "key_of ?mem server_key p = Some (drop 16 s)"
    by (subst key_of_server) (use new_item_spec [OF assms(2)] in \<open>simp_all add: host_at_def\<close>)
  ultimately obtain h' where h': "hasht_add_item ?mem h server_key p True = Inr (0, h')" "ht_ok ?mem server_key h'"
    "items h' = add_mset p (items h)" "ht_lookups h' = ht_lookups h" using add_item_spec [OF _ _ assms(3,6)] by blast
  let ?d = "d\<lparr>sd_ht := Some h', sd_mem := ?mem\<rparr>"
  have "server_state_add_default s state init_ok (Some p) True d = Inr (0, ?d)"
    using ok(3) assms(5) h'(1) by (simp add: server_state_add_default_def new_item_def Let_def)
  moreover have "state_dict_ok ?d"
    using ok h'(2,3) assms(3) new_item_spec(1) [OF assms(2)] others by (auto simp: state_dict_ok_def)
  ultimately show ?thesis using h'(3,4) assms(5) new_item_spec [OF assms(2)]
    by (intro exI [of _ ?d]) (simp add: servers_def host_at_def lookups_def)
qed

text \<open>Looking a host up finds an item with its name, padded with zeros, if there is one.\<close>

lemma probe_table:
  assumes "state_dict_ok d" and "sd_ht d = Some h" and "length bs = 176" and "sd_mem d sp = None"
  shows "ht_ok ((sd_mem d)(sp \<mapsto> bs)) server_key h"
    and "key_of ((sd_mem d)(sp \<mapsto> bs)) server_key sp = Some (take 64 (drop 16 bs))"
    and "\<And>q. q \<in># items h \<Longrightarrow> q \<noteq> sp \<and> key_of ((sd_mem d)(sp \<mapsto> bs)) server_key q = host_at (sd_mem d) q"
proof -
  have ok: "ht_ok (sd_mem d) server_key h" "\<forall>q\<in>#items h. q \<noteq> 0 \<and> map_option length (sd_mem d q) = Some 176"
    using assms(1,2) by (simp_all add: state_dict_ok_def)
  then have others: "q \<in># items h \<Longrightarrow> q \<noteq> sp" for q using assms(4) by auto
  show "ht_ok ((sd_mem d)(sp \<mapsto> bs)) server_key h"
    by (rule ht_ok_same_keys [OF ok(1)]) (use others in \<open>auto simp: key_of_def rd_bytes_def\<close>)
  show "key_of ((sd_mem d)(sp \<mapsto> bs)) server_key sp = Some (take 64 (drop 16 bs))"
    by (subst key_of_server) (use assms(3) in \<open>simp_all add: host_at_def\<close>)
  show "q \<noteq> sp \<and> key_of ((sd_mem d)(sp \<mapsto> bs)) server_key q = host_at (sd_mem d) q" if q: "q \<in># items h" for q
    using others [OF q] ok(2) q by (subst key_of_server) (auto simp: host_at_def)
qed

definition state_at :: "item_mem \<Rightarrow> intptr \<Rightarrow> u8 list option" where
  "state_at mem p = map_option (\<lambda>bs. take 4 (drop 144 bs)) (mem p)"

definition named :: "state_dict \<Rightarrow> u8 list \<Rightarrow> intptr \<Rightarrow> bool" where
  "named d hostname p \<longleftrightarrow> p \<in># servers d \<and> host_at (sd_mem d) p = Some (padded hostname)"

lemma state_dict_table:
  assumes "state_dict_ok d"
  obtains h where "sd_ht d = Some h" "sd_inited d" "ht_ok (sd_mem d) server_key h" "servers d = items h" "lookups d = ht_lookups h"
    "\<And>p. p \<in># items h \<Longrightarrow> p \<noteq> 0 \<and> map_option length (sd_mem d p) = Some 176"
  using assms by (cases "sd_ht d") (auto simp: state_dict_ok_def servers_def lookups_def)

text \<open>The lookup \<open>server_state_get\<close> and the setters share.\<close>

lemma lookup_server:
  assumes "state_dict_ok d" and "length hostname \<le> 64" and "sd_mem d sp = None" and "lookups d < 2147483647"
  obtains (absent) h h' bs where "sd_ht d = Some h" "sd_inited d" "probe hostname = Inr bs"
      "locked_find ((sd_mem d)(sp \<mapsto> bs)) h server_key sp = Inr (None, h')"
      "state_dict_ok (d\<lparr>sd_ht := Some h'\<rparr>)" "items h' = servers d" "\<forall>q. \<not> named d hostname q"
    | (present) h h' bs j i p where "sd_ht d = Some h" "sd_inited d" "probe hostname = Inr bs"
      "locked_find ((sd_mem d)(sp \<mapsto> bs)) h server_key sp = Inr (Some (j, i), h')"
      "state_dict_ok (d\<lparr>sd_ht := Some h'\<rparr>)" "items h' = servers d"
      "n_value (b_nodes (ht_bucket h' ! j) ! i) = p" "named d hostname p" "p \<noteq> 0" "p \<noteq> sp"
proof -
  obtain h where h: "sd_ht d = Some h" "sd_inited d" "ht_ok (sd_mem d) server_key h" "servers d = items h"
    "lookups d = ht_lookups h" "\<And>p. p \<in># items h \<Longrightarrow> p \<noteq> 0 \<and> map_option length (sd_mem d p) = Some 176"
    using state_dict_table [OF assms(1)] by blast
  obtain bs where bs: "probe hostname = Inr bs" "length bs = 176" "take 64 (drop 16 bs) = padded hostname"
    using probe_spec [OF assms(2)] by blast
  let ?mem = "(sd_mem d)(sp \<mapsto> bs)"
  note t = probe_table [OF assms(1) h(1) bs(2) assms(3)]
  have key: "key_of ?mem server_key sp = Some (padded hostname)" using t(2) bs(3) by simp
  have kept: "state_dict_ok (d\<lparr>sd_ht := Some h'\<rparr>)" if "ht_ok ?mem server_key h'" "items h' = items h" for h'
  proof -
    have "key_of (sd_mem d) server_key p = key_of ?mem server_key p" if "p \<in># items h'" for p
      using t(3) [of p] that \<open>items h' = items h\<close> by (simp add: key_of_def rd_bytes_def)
    with ht_ok_same_keys [OF that(1)] have "ht_ok (sd_mem d) server_key h'" by blast
    then show ?thesis using h(2,6) that(2) by (simp add: state_dict_ok_def)
  qed
  from lookup_and_drop [OF t(1) key] assms(4) h(5) consider
    (none) h' where "locked_find ?mem h server_key sp = Inr (None, h')" "missing ?mem server_key (padded hostname) h h'"
    | (some) j i h' where "locked_find ?mem h server_key sp = Inr (Some (j, i), h')" "ht_ok ?mem server_key h'" "items h' = items h"
        "n_value (b_nodes (ht_bucket h' ! j) ! i) \<in># items h"
        "key_of ?mem server_key (n_value (b_nodes (ht_bucket h' ! j) ! i)) = Some (padded hostname)"
    by fastforce
  then show ?thesis
  proof cases
    case none
    moreover have "\<forall>q. \<not> named d hostname q" using none(2) t(3) h(4) by (auto simp: missing_def named_def)
    ultimately show ?thesis using absent [OF h(1,2) bs(1) none(1)] kept h(4) by (simp add: missing_def)
  next
    case some
    have "named d hostname (n_value (b_nodes (ht_bucket h' ! j) ! i))"
      using some(5) t(3) [OF some(4)] h(4) some(4) by (simp add: named_def)
    then show ?thesis
      using present [OF h(1,2) bs(1) some(1) kept [OF some(2,3)]] some(3) h(4) h(6) [OF some(4)] t(3) [OF some(4)] by simp
  qed
qed

lemma get_spec:
  assumes "state_dict_ok d" and "length hostname \<le> 64" and "sd_mem d sp = None" and "lookups d < 2147483647"
  shows "\<exists>p d'. server_state_get hostname sp d = Inr (p, d') \<and> state_dict_ok d' \<and> servers d' = servers d
     \<and> sd_mem d' = sd_mem d \<and> (if p = 0 then \<forall>q. \<not> named d hostname q else named d hostname p)"
  using assms
  by (cases rule: lookup_server)
    (auto simp: server_state_get_def hasht_find_item_def servers_def [of "_\<lparr>sd_ht := _\<rparr>"])

text \<open>A change of an item that leaves the names and the lengths alone.\<close>

lemma modify_spec:
  assumes "state_dict_ok d" and "length hostname \<le> 64" and "sd_mem d sp = None" and "lookups d < 2147483647"
    and "\<And>p mem. modify p mem = (case mem p of None \<Rightarrow> mem | Some bs \<Rightarrow> mem(p \<mapsto> f bs))"
    and "\<And>bs. length bs = 176 \<Longrightarrow> length (f bs) = 176 \<and> take 64 (drop 16 (f bs)) = take 64 (drop 16 bs)"
  shows "\<exists>ret d'. modify_with modify hostname init_ok sp d = Inr (ret, d') \<and> state_dict_ok d' \<and> servers d' = servers d
     \<and> (if \<exists>p. named d hostname p
        then ret = 0 \<and> (\<exists>p bs. named d hostname p \<and> sd_mem d p = Some bs \<and> sd_mem d' = (sd_mem d)(p \<mapsto> f bs))
        else ret = -1 \<and> sd_mem d' = sd_mem d)"
proof -
  have gone: "(sd_mem d)(sp := None) = sd_mem d" using assms(3) by auto
  show ?thesis
    using assms(1-4)
  proof (cases rule: lookup_server)
    case (absent h h' bs)
    then show ?thesis using gone
      by (intro exI [of _ "-1"] exI [of _ "d\<lparr>sd_ht := Some h'\<rparr>"])
        (auto simp: modify_with_def hasht_modify_item_def servers_def [of "_\<lparr>sd_ht := _\<rparr>"])
  next
    case (present h h' bs j i p)
    have p: "p \<in># servers d" using present(8) by (simp add: named_def)
    with assms(1) obtain cs where cs: "sd_mem d p = Some cs" "length cs = 176"
      by (cases "sd_ht d") (auto simp: state_dict_ok_def servers_def)
    let ?d = "d\<lparr>sd_ht := Some h', sd_mem := (sd_mem d)(p \<mapsto> f cs)\<rparr>"
    have "((sd_mem d)(sp \<mapsto> bs, p \<mapsto> f cs))(sp := None) = (sd_mem d)(p \<mapsto> f cs)"
      using present(10) assms(3) by (auto simp: fun_eq_iff)
    then have run: "modify_with modify hostname init_ok sp d = Inr (0, ?d)"
      using present(1-4,7,10) cs(1) by (simp add: modify_with_def hasht_modify_item_def assms(5))
    have "state_dict_ok ?d"
    proof -
      have ok: "ht_ok (sd_mem d) server_key h'" "\<forall>q\<in>#items h'. q \<noteq> 0 \<and> map_option length (sd_mem d q) = Some 176"
        using present(5) by (simp_all add: state_dict_ok_def)
      have "ht_ok ((sd_mem d)(p \<mapsto> f cs)) server_key h'"
        by (rule ht_ok_same_keys [OF ok(1)])
          (use cs assms(6) [OF cs(2)] in \<open>auto simp: key_of_def rd_bytes_def server_key_def\<close>)
      then show ?thesis using ok(2) present(2) cs assms(6) [OF cs(2)] by (simp add: state_dict_ok_def)
    qed
    then show ?thesis using run present(6,8) cs(1)
      by (intro exI [of _ 0] exI [of _ ?d]) (auto simp: servers_def [of "_\<lparr>sd_ht := _, sd_mem := _\<rparr>"])
  qed
qed

text \<open>
  C39.  The dictionary finds what it holds.  With names of at most 64 characters, \<open>server_state_get\<close>
  answers a server of that name, and null exactly when there is none; \<open>server_state_set_state\<close> and
  \<open>server_state_set_addr\<close> change the state or the address of one server of that name and nothing else,
  and answer -1 when there is none.
\<close>

theorem dictionary_finds:
  assumes "state_dict_ok d" and "length hostname \<le> 64" and "sd_mem d sp = None" and "lookups d < 2147483647"
    and "length sa = 16"
  shows "(\<exists>p d'. server_state_get hostname sp d = Inr (p, d') \<and> state_dict_ok d' \<and> servers d' = servers d
        \<and> sd_mem d' = sd_mem d \<and> (if p = 0 then \<forall>q. \<not> named d hostname q else named d hostname p))
     \<and> (\<exists>ret d'. server_state_set_state hostname state init_ok sp d = Inr (ret, d') \<and> state_dict_ok d' \<and> servers d' = servers d
        \<and> (if \<exists>p. named d hostname p
           then ret = 0 \<and> (\<exists>p bs. named d hostname p \<and> sd_mem d p = Some bs \<and> sd_mem d' = (sd_mem d)(p \<mapsto> put 144 (int_bytes state) bs))
           else ret = -1 \<and> sd_mem d' = sd_mem d))
     \<and> (\<exists>ret d'. server_state_set_addr hostname sa init_ok sp d = Inr (ret, d') \<and> state_dict_ok d' \<and> servers d' = servers d
        \<and> (if \<exists>p. named d hostname p
           then ret = 0 \<and> (\<exists>p bs. named d hostname p \<and> sd_mem d p = Some bs \<and> sd_mem d' = (sd_mem d)(p \<mapsto> put 0 sa bs))
           else ret = -1 \<and> sd_mem d' = sd_mem d))"
proof (intro conjI)
  show "\<exists>ret d'. server_state_set_state hostname state init_ok sp d = Inr (ret, d') \<and> state_dict_ok d' \<and> servers d' = servers d
        \<and> (if \<exists>p. named d hostname p
           then ret = 0 \<and> (\<exists>p bs. named d hostname p \<and> sd_mem d p = Some bs \<and> sd_mem d' = (sd_mem d)(p \<mapsto> put 144 (int_bytes state) bs))
           else ret = -1 \<and> sd_mem d' = sd_mem d)"
    unfolding server_state_set_state_def
    by (rule modify_spec [OF assms(1-4)]) (simp_all add: server_state_modify_state_def write_item_def put_def drop_take)
  show "\<exists>ret d'. server_state_set_addr hostname sa init_ok sp d = Inr (ret, d') \<and> state_dict_ok d' \<and> servers d' = servers d
        \<and> (if \<exists>p. named d hostname p
           then ret = 0 \<and> (\<exists>p bs. named d hostname p \<and> sd_mem d p = Some bs \<and> sd_mem d' = (sd_mem d)(p \<mapsto> put 0 sa bs))
           else ret = -1 \<and> sd_mem d' = sd_mem d)"
    unfolding server_state_set_addr_def using assms(5)
    by (intro modify_spec [OF assms(1-4)]) (simp_all add: server_state_modify_addr_def write_item_def put_def)
qed (rule get_spec [OF assms(1-4)])

theorem dictionary_finds_witness:
  "\<exists>d d'. servers d = {#0x10#} \<and> server_state_get [119, 119, 119] 0x20 d = Inr (0x10, d')"
proof -
  let ?name = "[119, 119, 119] :: u8 list"
  let ?s = "replicate 16 0 @ padded ?name"
  let ?d = "\<lparr>sd_inited = True, sd_ht = Some hasht_sample, sd_mem = Map.empty\<rparr>"
  have "ht_ok Map.empty server_key hasht_sample"
    using hasht_sample_ok(1) by (simp add: hasht_sample_def ht_ok_def bucket_ok_def server_key_def)
  then have "state_dict_ok ?d" "servers ?d = {#}" "lookups ?d = 0" "ht_nr_nodes hasht_sample < ht_volume hasht_sample"
    by (simp_all add: state_dict_ok_def servers_def lookups_def hasht_sample_ok(2)) (simp_all add: hasht_sample_def)
  note ok = this
  from add_default_spec [OF ok(1), of ?s "0x10" hasht_sample 1 True] obtain d where
    d: "state_dict_ok d" "servers d = {#0x10#}" "host_at (sd_mem d) 0x10 = Some (padded ?name)"
      "\<forall>q. q \<noteq> 0x10 \<longrightarrow> sd_mem d q = None" "lookups d < 2147483647"
    using ok(2-4) by (auto simp: padded_def)
  have prems: "length ?name \<le> 64" "sd_mem d 0x20 = None" "length (replicate 16 0 :: u8 list) = 16" using d(4) by simp_all
  obtain p d' where
    g: "server_state_get ?name 0x20 d = Inr (p, d')" "if p = 0 then \<forall>q. \<not> named d ?name q else named d ?name p"
    using dictionary_finds [OF d(1) prems(1,2) d(5) prems(3), THEN conjunct1] by blast
  have "named d ?name 0x10" using d(2,3) by (simp add: named_def)
  with g(2) have "p = 0x10" using d(2) by (auto simp: named_def split: if_splits)
  with g(1) d(2) show ?thesis by blast
qed

text \<open>Once destroyed, the dictionary is not created again, and every other operation goes through the null table.\<close>

lemma after_destroy:
  assumes "server_state_destroy d = Inr (ret, d')" and "sd_inited d" and "length hostname \<le> 64"
  shows "server_state_get hostname sp d' = Inl NullDeref"
    and "server_state_add_default s state init_ok (Some p) node_ok d' = Inl NullDeref"
    and "modify_with modify hostname init_ok sp d' = Inl NullDeref"
proof -
  have "sd_inited d' \<and> sd_ht d' = None"
    using assms(1,2) by (auto simp: server_state_destroy_def hasht_delete_def bindE_eq_Inr_iff split: option.splits)
  then show "server_state_get hostname sp d' = Inl NullDeref"
    "server_state_add_default s state init_ok (Some p) node_ok d' = Inl NullDeref"
    "modify_with modify hostname init_ok sp d' = Inl NullDeref"
    using assms(3) by (simp_all add: server_state_get_def server_state_add_default_def modify_with_def probe_def Let_def)
qed

text \<open>A longer name is copied past the end of the local \<open>hostname\<close>.\<close>

lemma long_name:
  assumes "64 < length hostname" and "sd_inited d"
  shows "server_state_get hostname sp d = Inl OutOfBounds" and "modify_with modify hostname init_ok sp d = Inl OutOfBounds"
  using assms by (simp_all add: server_state_get_def modify_with_def probe_def)

end
