(* ===== verification/Hasht_Report.thy ===== *)
theory Hasht_Report
  imports State_Dict Cjson
begin

text \<open>
  The dump of a hash table (\<open>hasht_info_cjson\<close> in \<open>src/src/ds_hasht.c\<close>) and that of the dictionary of
  servers (\<open>state_dict_serialize\<close> in \<open>src/src/ds_state_dict.c\<close>).
\<close>

section \<open>The dump of a table\<close>

text \<open>
  \<open>content_serialize\<close> is what the caller passes, or nothing; it may return null.  \<open>rate\<close> is the number
  \<open>cJSON_CreateNumber\<close> makes of the fraction.
\<close>

type_synonym serializer = "(intptr \<Rightarrow> ub + cjson option) option"

definition node_json :: "serializer \<Rightarrow> hnode \<Rightarrow> ub + cjson" where
  "node_json content_serialize n =
     bindE (add_number cJSON_CreateObject ''UpdateCount'' (n_updates n)) (\<lambda>node.
     bindE (add_number node ''LookupCount'' (n_lookups n)) (\<lambda>node.
     case content_serialize of
       Some f \<Rightarrow> bindE (f (n_value n)) (\<lambda>c. Inr (cJSON_AddItemToObject node ''Content'' c))
     | None \<Rightarrow> bindE (cJSON_CreateString (Some ''content_serializer not defined!'')) (\<lambda>c.
               Inr (cJSON_AddItemToObject node ''Content'' (Some c)))))"

text \<open>The inner loop takes the first \<open>nr_nodes\<close> places of the array, \<open>k\<close> of them from \<open>j\<close> on.\<close>

primrec nodes_json :: "serializer \<Rightarrow> hnode list \<Rightarrow> nat \<Rightarrow> nat \<Rightarrow> cjson \<Rightarrow> ub + cjson" where
  "nodes_json content_serialize ns j 0 nodes = Inr nodes"
| "nodes_json content_serialize ns j (Suc k) nodes =
     (if j < length ns
      then bindE (node_json content_serialize (ns ! j)) (\<lambda>node.
           nodes_json content_serialize ns (Suc j) k (cJSON_AddItemToArray nodes (Some node)))
      else Inl OutOfBounds)"

definition bucket_json :: "serializer \<Rightarrow> bucket \<Rightarrow> ub + cjson" where
  "bucket_json content_serialize b =
     (let bucket = cJSON_AddItemToObject cJSON_CreateObject ''BucketSize'' (Some (cJSON_CreateNumber (int (length (b_nodes b)))));
          bucket = cJSON_AddItemToObject bucket ''NumOfNodes'' (Some (cJSON_CreateNumber (b_nr_nodes b))) in
      bindE (nodes_json content_serialize (b_nodes b) 0 (nat (b_nr_nodes b)) cJSON_CreateArray) (\<lambda>nodes.
      Inr (cJSON_AddItemToObject bucket ''Nodes'' (Some nodes))))"

primrec buckets_json :: "serializer \<Rightarrow> bucket list \<Rightarrow> cjson \<Rightarrow> ub + cjson" where
  "buckets_json content_serialize [] buckets = Inr buckets"
| "buckets_json content_serialize (b # bs) buckets =
     (if b_nr_nodes b > 0
      then bindE (bucket_json content_serialize b) (\<lambda>bucket.
           buckets_json content_serialize bs (cJSON_AddItemToArray buckets (Some bucket)))
      else buckets_json content_serialize bs buckets)"

definition hasht_info_cjson :: "cjson \<Rightarrow> hasht \<Rightarrow> serializer \<Rightarrow> ub + cjson" where
  "hasht_info_cjson rate h content_serialize =
     bindE (add_number cJSON_CreateObject ''Volume'' (ht_volume h)) (\<lambda>res.
     bindE (add_number res ''Used'' (ht_nr_nodes h)) (\<lambda>res.
     let res = cJSON_AddItemToObject res ''Rate'' (Some rate) in
     bindE (add_number res ''LookupCount'' (ht_lookups h)) (\<lambda>res.
     bindE (add_number res ''LookupHit'' (ht_hits h)) (\<lambda>res.
     bindE (buckets_json content_serialize (ht_bucket h) cJSON_CreateArray) (\<lambda>buckets.
     Inr (cJSON_AddItemToObject res ''Buckets'' (Some buckets)))))))"

section \<open>The dump of the servers\<close>

text \<open>
  \<open>inet_ntop\<close> turns four bytes into text.  The name is what comes before the first zero byte of the
  item, which need not be in the field.
\<close>

definition c_string_at :: "nat \<Rightarrow> u8 list \<Rightarrow> ub + string" where
  "c_string_at off bs =
     (let rest = drop off bs; name = takeWhile (\<lambda>b. b \<noteq> 0) rest in
      if length name < length rest then Inr (map (\<lambda>b. char_of (unat b)) name) else Inl OutOfBounds)"

definition translater :: "(u8 list \<Rightarrow> string) \<Rightarrow> item_mem \<Rightarrow> intptr \<Rightarrow> ub + cjson option" where
  "translater inet_ntop mem p =
     (if p = 0 then Inl NullDeref
      else case mem p of None \<Rightarrow> Inl BadPointer
      | Some bs \<Rightarrow>
          let ip4string = inet_ntop (take 4 (drop 4 bs)) in
          bindE (c_string_at 16 bs) (\<lambda>hostname.
          bindE (cJSON_CreateString (Some hostname)) (\<lambda>c.
          let result = cJSON_AddItemToObject cJSON_CreateObject ''Hostname'' (Some c) in
          bindE (cJSON_CreateString (Some ip4string)) (\<lambda>c.
          Inr (Some (cJSON_AddItemToObject result ''Address'' (Some c)))))))"

definition state_dict_serialize :: "(u8 list \<Rightarrow> string) \<Rightarrow> cjson \<Rightarrow> state_dict \<Rightarrow> ub + cjson" where
  "state_dict_serialize inet_ntop rate d =
     (case sd_ht d of
        Some h \<Rightarrow> hasht_info_cjson rate h (Some (translater inet_ntop (sd_mem d)))
      | None \<Rightarrow> Inr cJSON_CreateNull)"

section \<open>What a dump holds\<close>

text \<open>The values the loops come across.\<close>

definition dumped_of :: "bucket \<Rightarrow> intptr list" where
  "dumped_of b = map n_value (take (nat (b_nr_nodes b)) (b_nodes b))"

definition dumped :: "hasht \<Rightarrow> intptr list" where
  "dumped h = concat (map dumped_of (ht_bucket h))"

lemma nodes_json_Inr:
  "nodes_json (Some f) ns j k nodes = Inr c \<Longrightarrow>
     (\<forall>n\<in>set (take k (drop j ns)). \<exists>x. f (n_value n) = Inr x) \<and> length (jchild c) = length (jchild nodes) + k"
proof (induction k arbitrary: j nodes)
  case (Suc k)
  from Suc.prems have j: "j < length ns" by (auto split: if_splits)
  with Suc.prems obtain node where n: "node_json (Some f) (ns ! j) = Inr node"
    "nodes_json (Some f) ns (Suc j) k (cJSON_AddItemToArray nodes (Some node)) = Inr c"
    by (auto simp: bindE_eq_Inr_iff)
  from n(1) have "\<exists>x. f (n_value (ns ! j)) = Inr x" by (auto simp: node_json_def bindE_eq_Inr_iff)
  moreover have "take (Suc k) (drop j ns) = ns ! j # take k (drop (Suc j) ns)"
    using j by (simp add: Cons_nth_drop_Suc [symmetric])
  ultimately show ?case using Suc.IH [OF n(2)]
    by (simp add: cJSON_AddItemToArray_def with_child_def)
qed simp

lemma buckets_json_Inr:
  "buckets_json (Some f) bs buckets = Inr c \<Longrightarrow> b \<in> set bs \<Longrightarrow> p \<in> set (dumped_of b) \<Longrightarrow> \<exists>x. f p = Inr x"
proof (induction bs arbitrary: buckets)
  case (Cons b' bs)
  show ?case
  proof (cases "b_nr_nodes b' > 0")
    case True
    with Cons.prems(1) obtain bucket nodes where b': "buckets_json (Some f) bs (cJSON_AddItemToArray buckets (Some bucket)) = Inr c"
      "nodes_json (Some f) (b_nodes b') 0 (nat (b_nr_nodes b')) cJSON_CreateArray = Inr nodes"
      by (auto simp: bindE_eq_Inr_iff bucket_json_def Let_def)
    show ?thesis
    proof (cases "b = b'")
      case True
      then show ?thesis using nodes_json_Inr [OF b'(2)] Cons.prems(3) by (auto simp: dumped_of_def)
    next
      case False
      then show ?thesis using Cons.IH [OF b'(1)] Cons.prems(2,3) by simp
    qed
  next
    case False
    then show ?thesis using Cons by (auto simp: dumped_of_def)
  qed
qed simp

lemma dump_visits: "hasht_info_cjson rate h (Some f) = Inr c \<Longrightarrow> p \<in> set (dumped h) \<Longrightarrow> \<exists>x. f p = Inr x"
  by (auto simp: hasht_info_cjson_def bindE_eq_Inr_iff Let_def dumped_def dest: buckets_json_Inr)

text \<open>As long as it does not come across a free place, the loop over a bucket visits all its items.\<close>

lemma live_prefix:
  assumes "k = length (live ns)" and "0 \<notin> set (map n_value (take k ns))"
  shows "map n_value (take k ns) = map n_value (live ns)"
proof -
  have all: "live (take k ns) = take k ns" using assms(2) by (auto simp: live_def filter_id_conv)
  have le: "k \<le> length ns" using assms(1) by (simp add: live_def)
  have "live ns = live (take k ns) @ live (drop k ns)" by (simp add: live_def flip: filter_append)
  then have split: "live ns = take k ns @ live (drop k ns)" by (simp add: all)
  then have "length (live (drop k ns)) = 0" using assms(1) le by (metis add_diff_cancel_left' diff_self_eq_0 length_append length_take min.absorb2)
  then show ?thesis using split by simp
qed

lemma dumped_items:
  assumes "ht_ok mem key h" and "0 \<notin> set (dumped h)"
  shows "mset (dumped h) = items h"
proof -
  have "dumped_of b = bucket_vals b" if b: "b \<in> set (ht_bucket h)" for b
  proof -
    from b obtain j where j: "j < length (ht_bucket h)" "b = ht_bucket h ! j" by (auto simp: in_set_conv_nth)
    then have "b_nr_nodes b = int (length (live (b_nodes b)))"
      using assms(1) by (simp add: ht_ok_def bucket_ok_def)
    moreover have "0 \<notin> set (dumped_of b)" using assms(2) b by (auto simp: dumped_def)
    ultimately show ?thesis using live_prefix [of "nat (b_nr_nodes b)" "b_nodes b"] by (simp add: dumped_of_def bucket_vals_def)
  qed
  then have "map dumped_of (ht_bucket h) = map bucket_vals (ht_bucket h)" by simp
  then show ?thesis by (simp only: dumped_def items_concat)
qed

text \<open>
  A dump of the servers that succeeds lists every server once.  When a bucket has a free place among
  its first items, there is no dump: the serializer is called with null.
\<close>

theorem serialize_complete:
  assumes "state_dict_ok d"
  shows "(\<forall>c. state_dict_serialize inet_ntop rate d = Inr c \<longrightarrow> mset (dumped (the (sd_ht d))) = servers d)
     \<and> (0 \<in> set (dumped (the (sd_ht d))) \<longrightarrow> (\<forall>c. state_dict_serialize inet_ntop rate d \<noteq> Inr c))"
proof -
  obtain h where h: "sd_ht d = Some h" "ht_ok (sd_mem d) server_key h" "servers d = items h"
    using state_dict_table [OF assms] by blast
  have no_null: "0 \<notin> set (dumped h)" if "state_dict_serialize inet_ntop rate d = Inr c" for c
    using dump_visits [of rate h "translater inet_ntop (sd_mem d)" c 0] that h(1)
    by (auto simp: state_dict_serialize_def translater_def)
  then show ?thesis using dumped_items [OF h(2)] h(1,3) by auto
qed

end
