(* ===== verification/Cas_Queue.thy ===== *)
theory Cas_Queue
  imports Queue_Interface
begin

text \<open>
  \<open>src/src/ds_queue.c\<close>: the older queue, a ring buffer without a lock.  Its three indices move by
  compare-and-swap; a producer first claims a cell by moving \<open>windex\<close>, fills it, and then publishes it
  by moving \<open>max_rindex\<close>.  A call is a program counter with its local variables, and every access to
  the shared queue is one step of it, so that the calls of several threads interleave.
\<close>

section \<open>State\<close>

record 'a cas_queue =
  c_max :: u32
  c_max_rindex :: u32
  c_rindex :: u32
  c_windex :: u32
  c_bucket :: "'a list"

text \<open>
  Where a thread is: outside the queue, inside \<open>queue_enqueue_nb\<close> with its \<open>data\<close> and its local \<open>windex\<close>,
  inside \<open>queue_dequeue_nb\<close> with what it has stored through \<open>p\<close> so far and its local \<open>rindex\<close>, or back
  with the return value.
\<close>

datatype 'a cq_at =
    Outside
  | EnqBegin 'a | EnqRead 'a u32 | EnqCas 'a u32 | EnqStore 'a u32 | EnqPublish 'a u32
  | DeqBegin "'a option" | DeqRead "'a option" u32 | DeqLoad "'a option" u32 | DeqCas 'a u32
  | Returned int "'a option"

text \<open>\<open>n % q->max\<close>, and the access to a cell of the bucket.\<close>

definition wrap :: "'a cas_queue \<Rightarrow> u32 \<Rightarrow> ub + u32" where
  "wrap q n = (if c_max q = 0 then Inl DivByZero else Inr (n mod c_max q))"

definition cell :: "'a cas_queue \<Rightarrow> u32 \<Rightarrow> ub + 'a" where
  "cell q i = (if unat i < length (c_bucket q) then Inr (c_bucket q ! unat i) else Inl OutOfBounds)"

definition set_cell :: "'a cas_queue \<Rightarrow> u32 \<Rightarrow> 'a \<Rightarrow> ub + 'a cas_queue" where
  "set_cell q i d =
     (if unat i < length (c_bucket q) then Inr (q\<lparr>c_bucket := (c_bucket q)[unat i := d]\<rparr>) else Inl OutOfBounds)"

section \<open>Operations\<close>

definition cq_new :: "u32 \<Rightarrow> 'a list option \<Rightarrow> 'a cas_queue option" where
  "cq_new mx mem =
     (case mem of None \<Rightarrow> None
      | Some cells \<Rightarrow> Some \<lparr>c_max = mx, c_max_rindex = 0, c_rindex = 0, c_windex = 0, c_bucket = cells\<rparr>)"

text \<open>One step of a call: a read, a store or a compare-and-swap.\<close>

fun cq_step :: "'a cas_queue \<Rightarrow> 'a cq_at \<Rightarrow> ub + 'a cas_queue \<times> 'a cq_at" where
  "cq_step q (EnqBegin d) = Inr (q, EnqRead d (c_windex q))"
| "cq_step q (EnqRead d w) =
     bindE (wrap q (w + 1)) (\<lambda>a. bindE (wrap q (c_rindex q)) (\<lambda>b.
     Inr (q, if a = b then Returned (-1) None else EnqCas d w)))"
| "cq_step q (EnqCas d w) =
     bindE (wrap q (w + 1)) (\<lambda>a.
     Inr (if c_windex q = w then (q\<lparr>c_windex := a\<rparr>, EnqStore d w) else (q, EnqBegin d)))"
| "cq_step q (EnqStore d w) = bindE (set_cell q w d) (\<lambda>q. Inr (q, EnqPublish d w))"
| "cq_step q (EnqPublish d w) =
     bindE (wrap q (w + 1)) (\<lambda>a.
     Inr (if c_max_rindex q = w then (q\<lparr>c_max_rindex := a\<rparr>, Returned 0 None) else (q, EnqPublish d w)))"
| "cq_step q (DeqBegin out) = Inr (q, DeqRead out (c_rindex q))"
| "cq_step q (DeqRead out r) =
     bindE (wrap q r) (\<lambda>a. bindE (wrap q (c_max_rindex q)) (\<lambda>b.
     Inr (q, if a = b then Returned (-1) out else DeqLoad out r)))"
| "cq_step q (DeqLoad out r) = bindE (cell q r) (\<lambda>x. Inr (q, DeqCas x r))"
| "cq_step q (DeqCas x r) =
     bindE (wrap q (r + 1)) (\<lambda>a.
     Inr (if c_rindex q = r then (q\<lparr>c_rindex := a\<rparr>, Returned 0 (Some x)) else (q, DeqBegin (Some x))))"
| "cq_step q at = Inr (q, at)"

text \<open>
  A call that nobody interrupts.  Its compare-and-swaps of \<open>windex\<close> and \<open>rindex\<close> succeed at once, so
  five and four steps are all it has; the one of \<open>max_rindex\<close> succeeds at once or never.
\<close>

primrec cq_alone :: "nat \<Rightarrow> 'a cas_queue \<Rightarrow> 'a cq_at \<Rightarrow> ub + 'a cas_queue \<times> 'a cq_at" where
  "cq_alone 0 q at = Inr (q, at)"
| "cq_alone (Suc n) q at = bindE (cq_step q at) (\<lambda>(q, at). cq_alone n q at)"

definition cq_enqueue_nb :: "'a cas_queue \<Rightarrow> 'a \<Rightarrow> ub + int \<times> 'a cas_queue" where
  "cq_enqueue_nb q d =
     bindE (cq_alone 5 q (EnqBegin d)) (\<lambda>(q, at).
     case at of Returned ret out \<Rightarrow> Inr (ret, q) | _ \<Rightarrow> Inl Deadlock)"

definition cq_dequeue_nb :: "'a cas_queue \<Rightarrow> ub + int \<times> 'a option \<times> 'a cas_queue" where
  "cq_dequeue_nb q =
     bindE (cq_alone 4 q (DeqBegin None)) (\<lambda>(q, at).
     case at of Returned ret out \<Rightarrow> Inr (ret, out, q) | _ \<Rightarrow> Inl Deadlock)"

definition cq_size :: "'a cas_queue \<Rightarrow> u32" where
  "cq_size q =
     (if c_windex q \<ge> c_rindex q then c_windex q - c_rindex q else c_max q + c_windex q - c_rindex q)"

text \<open>\<open>queue_travel\<close>: what \<open>tf\<close> is called with.  The fuel is the number of cells; \<open>None\<close> if it does not suffice.\<close>

primrec travel_loop :: "nat \<Rightarrow> 'a cas_queue \<Rightarrow> u32 \<Rightarrow> ub + 'a list option" where
  "travel_loop 0 q idx = Inr None"
| "travel_loop (Suc n) q idx =
     (if idx = c_max_rindex q then Inr (Some [])
      else bindE (cell q idx) (\<lambda>x. bindE (wrap q (idx + 1)) (\<lambda>idx.
           bindE (travel_loop n q idx) (\<lambda>xs. Inr (map_option (\<lambda>xs. x # xs) xs)))))"

definition cq_travel :: "'a cas_queue \<Rightarrow> ub + 'a list option" where
  "cq_travel q = travel_loop (unat (c_max q)) q (c_rindex q)"

definition cq_delete :: "'a cas_queue option \<Rightarrow> int" where
  "cq_delete q = (case q of None \<Rightarrow> -1 | Some _ \<Rightarrow> 0)"

definition cq_info :: "'a cas_queue \<Rightarrow> (string \<times> u32) list" where
  "cq_info q = [(''volume'', c_max q), (''nr_data'', cq_size q)]"

section \<open>Without interference: a bounded queue\<close>

definition cq_nr :: "'a cas_queue \<Rightarrow> nat" where
  "cq_nr q = (unat (c_max_rindex q) + unat (c_max q) - unat (c_rindex q)) mod unat (c_max q)"

definition cq_contents :: "'a cas_queue \<Rightarrow> 'a list" where
  "cq_contents q = ring (c_bucket q) (unat (c_rindex q)) (cq_nr q)"

text \<open>The indices are inside the bucket; one cell always stays free.\<close>

definition cq_ok :: "'a cas_queue \<Rightarrow> bool" where
  "cq_ok q \<longleftrightarrow> length (c_bucket q) = unat (c_max q) \<and> c_rindex q < c_max q \<and> c_windex q < c_max q \<and> c_max_rindex q < c_max q"

definition cq_wf :: "'a cas_queue \<Rightarrow> bool" where
  "cq_wf q \<longleftrightarrow> cq_ok q \<and> c_windex q = c_max_rindex q"

lemma succ_wrap:
  assumes "i < c_max q"
  shows "wrap q (i + 1) = Inr ((i + 1) mod c_max q)" "wrap q i = Inr i"
    "unat ((i + 1) mod c_max q) = Suc (unat i) mod unat (c_max q)" "(i + 1) mod c_max q < c_max q"
proof -
  have nz: "c_max q \<noteq> 0" using assms by auto
  then show "wrap q (i + 1) = Inr ((i + 1) mod c_max q)" by (simp add: wrap_def)
  have "i mod c_max q = i" using assms by (simp add: word_arith_nat_mod word_less_nat_alt)
  then show "wrap q i = Inr i" using nz by (simp add: wrap_def)
  show "unat ((i + 1) mod c_max q) = Suc (unat i) mod unat (c_max q)"
    using unat_Suc_less [OF assms] by (simp add: unat_mod)
  then show "(i + 1) mod c_max q < c_max q"
    using nz by (simp add: word_less_nat_alt unat_gt_0)
qed

text \<open>The occupied cells in terms of the indices.\<close>

lemma cq_okD:
  assumes "cq_ok q"
  shows "length (c_bucket q) = unat (c_max q)" "unat (c_rindex q) < unat (c_max q)"
    "unat (c_windex q) < unat (c_max q)" "unat (c_max_rindex q) < unat (c_max q)" "0 < unat (c_max q)" "c_max q \<noteq> 0"
  using assms by (auto simp: cq_ok_def word_less_nat_alt)

lemma cq_nr_spec:
  assumes "cq_ok q"
  shows "cq_nr q < unat (c_max q)" "unat (c_max_rindex q) = (unat (c_rindex q) + cq_nr q) mod unat (c_max q)"
proof -
  note ok = cq_okD [OF assms]
  show "cq_nr q < unat (c_max q)" using ok(5) by (simp add: cq_nr_def)
  have "(unat (c_rindex q) + cq_nr q) mod unat (c_max q)
      = (unat (c_rindex q) + (unat (c_max_rindex q) + unat (c_max q) - unat (c_rindex q))) mod unat (c_max q)"
    by (simp add: cq_nr_def mod_add_right_eq)
  also have "\<dots> = unat (c_max_rindex q)" using ok by simp
  finally show "unat (c_max_rindex q) = (unat (c_rindex q) + cq_nr q) mod unat (c_max q)" by simp
qed

lemma cq_nr_eq:
  assumes "cq_ok q" and "n < unat (c_max q)" and "unat (c_max_rindex q) = (unat (c_rindex q) + n) mod unat (c_max q)"
  shows "cq_nr q = n"
  using mod_add_left_cancel_nat [of "unat (c_rindex q)" "cq_nr q" "unat (c_max q)" n] cq_nr_spec [OF assms(1)] assms(2,3)
  by simp

lemma length_cq_contents [simp]: "length (cq_contents q) = cq_nr q"
  by (simp add: cq_contents_def)

lemma cq_empty_iff:
  assumes "cq_ok q"
  shows "c_rindex q = c_max_rindex q \<longleftrightarrow> cq_contents q = []"
proof -
  have "c_rindex q = c_max_rindex q \<longleftrightarrow> unat (c_rindex q) mod unat (c_max q) = unat (c_max_rindex q)"
    using cq_okD [OF assms] by (simp add: unat_eq_nat_uint [symmetric] word_unat_eq_iff)
  also have "\<dots> \<longleftrightarrow> cq_nr q = 0"
    using mod_add_left_cancel_nat [of "unat (c_rindex q)" 0 "unat (c_max q)" "cq_nr q"] cq_nr_spec [OF assms] cq_okD(5) [OF assms]
    by auto
  finally show ?thesis by (simp flip: length_0_conv)
qed

lemma cq_full_iff:
  assumes "cq_ok q"
  shows "(c_max_rindex q + 1) mod c_max q = c_rindex q \<longleftrightarrow> Suc (length (cq_contents q)) = unat (c_max q)"
proof -
  note ok = cq_okD [OF assms] and nr = cq_nr_spec [OF assms]
  have m: "c_max_rindex q < c_max q" using assms by (simp add: cq_ok_def)
  have "(c_max_rindex q + 1) mod c_max q = c_rindex q \<longleftrightarrow> Suc (unat (c_max_rindex q)) mod unat (c_max q) = unat (c_rindex q)"
    by (simp add: word_unat_eq_iff succ_wrap(3) [OF m])
  also have "Suc (unat (c_max_rindex q)) mod unat (c_max q) = (unat (c_rindex q) + Suc (cq_nr q)) mod unat (c_max q)"
    using nr(2) by (simp add: mod_Suc_eq)
  also have "(unat (c_rindex q) + Suc (cq_nr q)) mod unat (c_max q) = unat (c_rindex q) \<longleftrightarrow> Suc (cq_nr q) = unat (c_max q)"
  proof (cases "Suc (cq_nr q) = unat (c_max q)")
    case False
    then have "Suc (cq_nr q) < unat (c_max q)" using nr(1) by simp
    then show ?thesis
      using mod_add_left_cancel_nat [of "unat (c_rindex q)" "Suc (cq_nr q)" "unat (c_max q)" 0] ok(2,5) by auto
  qed (use ok(2) in simp)
  finally show ?thesis by simp
qed

text \<open>What moving an index or filling a cell does to the contents.\<close>

lemma cq_take:
  assumes "cq_ok q" and "cq_contents q \<noteq> []"
  defines "q' \<equiv> q\<lparr>c_rindex := (c_rindex q + 1) mod c_max q\<rparr>"
  shows "cq_ok q'" "cq_contents q = c_bucket q ! unat (c_rindex q) # cq_contents q'"
proof -
  note ok = cq_okD [OF assms(1)] and nr = cq_nr_spec [OF assms(1)]
  have r: "c_rindex q < c_max q" using assms(1) by (simp add: cq_ok_def)
  obtain k where k: "cq_nr q = Suc k" using assms(2) by (cases "cq_nr q") (auto simp flip: length_0_conv)
  show ok': "cq_ok q'" using assms(1) succ_wrap(4) [OF r] by (simp add: cq_ok_def q'_def)
  have "cq_nr q' = k"
    by (rule cq_nr_eq [OF ok']) (use k nr succ_wrap(3) [OF r] in \<open>auto simp: q'_def mod_add_left_eq\<close>)
  then show "cq_contents q = c_bucket q ! unat (c_rindex q) # cq_contents q'"
    using k ok succ_wrap(3) [OF r] by (simp add: cq_contents_def ring_Cons q'_def)
qed

lemma cq_publish:
  assumes "cq_ok q" and "Suc (length (cq_contents q)) \<noteq> unat (c_max q)"
  defines "q' \<equiv> q\<lparr>c_max_rindex := (c_max_rindex q + 1) mod c_max q\<rparr>"
  shows "cq_ok q'" "cq_contents q' = cq_contents q @ [c_bucket q ! unat (c_max_rindex q)]"
proof -
  note ok = cq_okD [OF assms(1)] and nr = cq_nr_spec [OF assms(1)]
  have m: "c_max_rindex q < c_max q" using assms(1) by (simp add: cq_ok_def)
  show ok': "cq_ok q'" using assms(1) succ_wrap(4) [OF m] by (simp add: cq_ok_def q'_def)
  have "cq_nr q' = Suc (cq_nr q)"
    by (rule cq_nr_eq [OF ok']) (use assms(2) nr succ_wrap(3) [OF m] in \<open>auto simp: q'_def mod_Suc_eq\<close>)
  then show "cq_contents q' = cq_contents q @ [c_bucket q ! unat (c_max_rindex q)]"
    using nr(2) ok(1) by (simp add: cq_contents_def ring_def q'_def)
qed

lemma cq_fill:
  assumes "cq_ok q" and q'_def: "q' = q\<lparr>c_bucket := (c_bucket q)[unat (c_max_rindex q) := d]\<rparr>"
  shows "set_cell q (c_max_rindex q) d = Inr q'" "cq_ok q'" "cq_contents q' = cq_contents q"
    "c_bucket q' ! unat (c_max_rindex q) = d"
proof -
  note ok = cq_okD [OF assms(1)] and nr = cq_nr_spec [OF assms(1)]
  show "set_cell q (c_max_rindex q) d = Inr q'" "cq_ok q'" "c_bucket q' ! unat (c_max_rindex q) = d"
    using assms(1) ok by (simp_all add: set_cell_def q'_def cq_ok_def)
  have "cq_nr q < length (c_bucket q)" using nr(1) ok(1) by simp
  from ring_snoc [OF this, of "unat (c_rindex q)" d] have
    "ring (c_bucket q') (unat (c_rindex q)) (Suc (cq_nr q)) = cq_contents q @ [d]"
    using nr(2) ok(1) by (simp add: q'_def cq_contents_def)
  then have "butlast (ring (c_bucket q') (unat (c_rindex q)) (Suc (cq_nr q))) = cq_contents q" by simp
  moreover have "butlast (ring (c_bucket q') (unat (c_rindex q)) (Suc (cq_nr q))) = ring (c_bucket q') (unat (c_rindex q)) (cq_nr q)"
    by (simp add: ring_def)
  moreover have "cq_nr q' = cq_nr q" by (simp add: cq_nr_def q'_def)
  ultimately show "cq_contents q' = cq_contents q" by (simp add: cq_contents_def q'_def)
qed

lemma cq_nr_updates [simp]: "cq_nr (q\<lparr>c_windex := i\<rparr>) = cq_nr q" "cq_nr (q\<lparr>c_bucket := xs\<rparr>) = cq_nr q"
  by (simp_all add: cq_nr_def)

lemma cq_claim:
  assumes "cq_ok q" and "i < c_max q"
  shows "cq_ok (q\<lparr>c_windex := i\<rparr>)" "cq_contents (q\<lparr>c_windex := i\<rparr>) = cq_contents q"
  using assms by (simp_all add: cq_ok_def cq_contents_def cq_nr_def)

lemma cq_enqueue_spec:
  assumes "cq_wf q"
  shows "if Suc (length (cq_contents q)) = unat (c_max q) then cq_enqueue_nb q d = Inr (-1, q)
     else \<exists>q'. cq_enqueue_nb q d = Inr (0, q') \<and> cq_wf q' \<and> c_max q' = c_max q \<and> cq_contents q' = cq_contents q @ [d]"
proof -
  have ok: "cq_ok q" and w: "c_windex q = c_max_rindex q" using assms by (simp_all add: cq_wf_def)
  then have less: "c_max_rindex q < c_max q" "c_rindex q < c_max q" by (simp_all add: cq_ok_def)
  let ?a = "(c_max_rindex q + 1) mod c_max q"
  let ?q1 = "q\<lparr>c_windex := ?a\<rparr>"
  let ?q2 = "?q1\<lparr>c_bucket := (c_bucket ?q1)[unat (c_max_rindex ?q1) := d]\<rparr>"
  let ?q3 = "?q2\<lparr>c_max_rindex := (c_max_rindex ?q2 + 1) mod c_max ?q2\<rparr>"
  have wraps: "wrap p (c_max_rindex q + 1) = Inr ?a" "wrap p (c_rindex q) = Inr (c_rindex q)" if "c_max p = c_max q" for p :: "'a cas_queue"
  proof -
    have "wrap p n = wrap q n" for n :: u32 using that by (simp add: wrap_def)
    then show "wrap p (c_max_rindex q + 1) = Inr ?a" "wrap p (c_rindex q) = Inr (c_rindex q)"
      using succ_wrap(1) [OF less(1)] succ_wrap(2) [OF less(2)] by simp_all
  qed
  show ?thesis
  proof (cases "Suc (length (cq_contents q)) = unat (c_max q)")
    case True
    then have "?a = c_rindex q" using cq_full_iff [OF ok] by simp
    then show ?thesis using True w wraps by (simp add: cq_enqueue_nb_def numeral_eq_Suc)
  next
    case False
    then have room: "?a \<noteq> c_rindex q" using cq_full_iff [OF ok] by simp
    note c = cq_claim [OF ok succ_wrap(4) [OF less(1)]]
    note f = cq_fill [OF c(1) refl, of d]
    have "cq_contents ?q2 = cq_contents q" using f(3) c(2) by simp
    then have "length (cq_contents ?q2) = length (cq_contents q)" by (rule arg_cong)
    then have "Suc (length (cq_contents ?q2)) \<noteq> unat (c_max ?q2)" using False by simp
    note p = cq_publish [OF f(2) this]
    have "set_cell ?q1 (c_max_rindex q) d = Inr ?q2" using f(1) by simp
    then have "cq_enqueue_nb q d = Inr (0, ?q3)"
      using room w wraps by (simp add: cq_enqueue_nb_def numeral_eq_Suc)
    moreover have "cq_ok ?q3" "cq_contents ?q3 = cq_contents q @ [d]"
      using p f(4) \<open>cq_contents ?q2 = cq_contents q\<close> by simp_all
    ultimately show ?thesis using False by (auto simp: cq_wf_def)
  qed
qed

lemma cq_dequeue_spec:
  assumes "cq_wf q"
  shows "case cq_contents q of [] \<Rightarrow> cq_dequeue_nb q = Inr (-1, None, q)
     | x # xs \<Rightarrow> \<exists>q'. cq_dequeue_nb q = Inr (0, Some x, q') \<and> cq_wf q' \<and> c_max q' = c_max q \<and> cq_contents q' = xs"
proof -
  have ok: "cq_ok q" and w: "c_windex q = c_max_rindex q" using assms by (simp_all add: cq_wf_def)
  then have less: "c_max_rindex q < c_max q" "c_rindex q < c_max q" by (simp_all add: cq_ok_def)
  note wraps = succ_wrap(2) [OF less(1)] succ_wrap(1,2) [OF less(2)]
  show ?thesis
  proof (cases "cq_contents q")
    case Nil
    then have "c_rindex q = c_max_rindex q" using cq_empty_iff [OF ok] by simp
    then show ?thesis using Nil wraps by (simp add: cq_dequeue_nb_def numeral_eq_Suc)
  next
    case (Cons x xs)
    then have ne: "c_rindex q \<noteq> c_max_rindex q" using cq_empty_iff [OF ok] by simp
    note take = cq_take [OF ok]
    have x: "cell q (c_rindex q) = Inr x" "x = c_bucket q ! unat (c_rindex q)"
      using take(2) Cons cq_okD [OF ok] by (simp_all add: cell_def)
    then have "cq_dequeue_nb q = Inr (0, Some x, q\<lparr>c_rindex := (c_rindex q + 1) mod c_max q\<rparr>)"
      using ne wraps by (simp add: cq_dequeue_nb_def numeral_eq_Suc)
    then show ?thesis using take Cons w by (auto simp: cq_wf_def)
  qed
qed

interpretation cq: bounded_queue cq_contents cq_wf cq_dequeue_nb "\<lambda>q. unat (c_max q) - 1" cq_enqueue_nb
proof (unfold_locales, goal_cases)
  case (1 q)
  with cq_dequeue_spec [of q] show ?case by simp
next
  case (2 q x xs)
  with cq_dequeue_spec [of q] show ?case by auto
next
  case (3 q)
  then show ?case using cq_nr_spec(1) [of q] by (simp add: cq_wf_def)
next
  case (4 q x)
  then show ?case using cq_enqueue_spec [of q x] cq_okD(5) [of q] by (simp add: cq_wf_def)
next
  case (5 q x)
  then show ?case using cq_enqueue_spec [of q x] by (auto split: if_splits)
next
  case (6 q ret out q')
  with cq_dequeue_spec [of q] show ?case by (auto split: list.splits)
qed

text \<open>Its size and what \<open>queue_travel\<close> sees.\<close>

lemma cq_size_spec:
  assumes "cq_wf q"
  shows "unat (cq_size q) = length (cq_contents q)"
proof -
  have ok: "cq_ok q" and w: "c_windex q = c_max_rindex q" using assms by (simp_all add: cq_wf_def)
  note d = cq_okD [OF ok]
  show ?thesis
  proof (cases "c_rindex q \<le> c_max_rindex q")
    case True
    then have "unat (c_max_rindex q - c_rindex q) = unat (c_max_rindex q) - unat (c_rindex q)"
      by (simp add: unat_sub)
    moreover have "cq_nr q = unat (c_max_rindex q) - unat (c_rindex q)"
      by (rule cq_nr_eq [OF ok]) (use True d in \<open>auto simp: word_le_nat_alt\<close>)
    ultimately show ?thesis using True w by (simp add: cq_size_def)
  next
    case False
    then have less: "unat (c_max_rindex q) < unat (c_rindex q)" by (simp add: word_le_nat_alt)
    have "unat (c_rindex q - c_max_rindex q) = unat (c_rindex q) - unat (c_max_rindex q)"
      using False by (intro unat_sub) simp
    moreover from this have "unat (c_max q - (c_rindex q - c_max_rindex q)) = unat (c_max q) - (unat (c_rindex q) - unat (c_max_rindex q))"
      using d by (subst unat_sub) (auto simp: word_le_nat_alt)
    moreover have "cq_nr q = unat (c_max q) - (unat (c_rindex q) - unat (c_max_rindex q))"
      by (rule cq_nr_eq [OF ok]) (use less d in \<open>auto\<close>)
    ultimately show ?thesis using False w by (simp add: cq_size_def algebra_simps)
  qed
qed

lemma travel_loop_spec:
  assumes "cq_ok q"
  shows "k < unat (c_max q) \<Longrightarrow> idx < c_max q \<Longrightarrow> (unat idx + k) mod unat (c_max q) = unat (c_max_rindex q) \<Longrightarrow> k < fuel \<Longrightarrow>
     travel_loop fuel q idx = Inr (Some (ring (c_bucket q) (unat idx) k))"
proof (induction fuel arbitrary: k idx)
  case (Suc fuel)
  note d = cq_okD [OF assms] and idx = Suc.prems(2)
  then have less: "unat idx < unat (c_max q)" by (simp add: word_less_nat_alt)
  show ?case
  proof (cases k)
    case 0
    then have "idx = c_max_rindex q" using Suc.prems(3) less by (simp add: word_unat_eq_iff)
    then show ?thesis using 0 by simp
  next
    case (Suc k')
    have "idx \<noteq> c_max_rindex q"
    proof
      assume "idx = c_max_rindex q"
      then have "(unat idx + k) mod unat (c_max q) = (unat idx + 0) mod unat (c_max q)"
        using Suc.prems(3) less by simp
      from mod_add_left_cancel_nat [OF this Suc.prems(1) d(5)] Suc show False by simp
    qed
    moreover have "(unat ((idx + 1) mod c_max q) + k') mod unat (c_max q) = unat (c_max_rindex q)"
      using Suc.prems(3) Suc by (simp add: succ_wrap(3) [OF idx] mod_add_left_eq)
    ultimately show ?thesis
      using Suc Suc.prems Suc.IH [of k' "(idx + 1) mod c_max q"] succ_wrap [OF idx] less d(1)
      by (simp add: cell_def ring_Cons)
  qed
qed simp

lemma cq_travel_spec:
  assumes "cq_ok q"
  shows "cq_travel q = Inr (Some (cq_contents q))"
  using travel_loop_spec [OF assms cq_nr_spec(1) [OF assms], of "c_rindex q" "unat (c_max q)"] cq_nr_spec [OF assms] assms
  by (simp add: cq_travel_def cq_contents_def cq_ok_def)

section \<open>With interference\<close>

text \<open>
  Any number of threads around one queue.  The logs hold what was published and what was returned by
  a successful dequeue, in the order of those steps.
\<close>

record 'a cq_sys =
  cs_q :: "'a cas_queue"
  cs_at :: "nat \<Rightarrow> 'a cq_at"
  cs_enq :: "'a list"
  cs_deq :: "'a list"

datatype 'a cq_event = CallEnq nat 'a | CallDeq nat | Move nat

definition cq_sys_start :: "'a cas_queue \<Rightarrow> 'a cq_sys" where
  "cq_sys_start q = \<lparr>cs_q = q, cs_at = (\<lambda>_. Outside), cs_enq = [], cs_deq = []\<rparr>"

fun callable :: "'a cq_at \<Rightarrow> bool" where
  "callable Outside = True"
| "callable (Returned ret out) = True"
| "callable at = False"

fun published :: "'a cq_at \<Rightarrow> 'a cq_at \<Rightarrow> 'a list" where
  "published (EnqPublish d w) (Returned ret out) = [d]"
| "published at at' = []"

fun taken_by :: "'a cq_at \<Rightarrow> 'a cq_at \<Rightarrow> 'a list" where
  "taken_by (DeqCas x r) (Returned ret out) = [x]"
| "taken_by at at' = []"

fun cq_happens :: "'a cq_event \<Rightarrow> 'a cq_sys \<Rightarrow> ub + 'a cq_sys" where
  "cq_happens (CallEnq t d) s = Inr (if callable (cs_at s t) then s\<lparr>cs_at := (cs_at s)(t := EnqBegin d)\<rparr> else s)"
| "cq_happens (CallDeq t) s = Inr (if callable (cs_at s t) then s\<lparr>cs_at := (cs_at s)(t := DeqBegin None)\<rparr> else s)"
| "cq_happens (Move t) s =
     bindE (cq_step (cs_q s) (cs_at s t)) (\<lambda>(q, at).
     Inr (s\<lparr>cs_q := q, cs_at := (cs_at s)(t := at), cs_enq := cs_enq s @ published (cs_at s t) at,
            cs_deq := cs_deq s @ taken_by (cs_at s t) at\<rparr>))"

primrec cq_run :: "'a cq_event list \<Rightarrow> 'a cq_sys \<Rightarrow> ub + 'a cq_sys" where
  "cq_run [] s = Inr s"
| "cq_run (e # es) s = bindE (cq_happens e s) (cq_run es)"

text \<open>Who calls which operation.\<close>

fun allowed_event :: "nat set \<Rightarrow> nat set \<Rightarrow> 'a cq_event \<Rightarrow> bool" where
  "allowed_event P C (CallEnq t d) = (t \<in> P)"
| "allowed_event P C (CallDeq t) = (t \<in> C)"
| "allowed_event P C (Move t) = True"

subsection \<open>One producer and one consumer\<close>

fun prod_ok :: "'a cas_queue \<Rightarrow> 'a cq_at \<Rightarrow> bool" where
  "prod_ok q (EnqRead d w) = (w = c_max_rindex q \<and> c_windex q = c_max_rindex q)"
| "prod_ok q (EnqCas d w) = (w = c_max_rindex q \<and> c_windex q = c_max_rindex q \<and> Suc (length (cq_contents q)) \<noteq> unat (c_max q))"
| "prod_ok q (EnqStore d w) = (w = c_max_rindex q \<and> Suc (length (cq_contents q)) \<noteq> unat (c_max q)
     \<and> c_windex q = (w + 1) mod c_max q)"
| "prod_ok q (EnqPublish d w) = (w = c_max_rindex q \<and> Suc (length (cq_contents q)) \<noteq> unat (c_max q)
     \<and> c_windex q = (w + 1) mod c_max q \<and> c_bucket q ! unat w = d)"
| "prod_ok q Outside = (c_windex q = c_max_rindex q)"
| "prod_ok q (EnqBegin d) = (c_windex q = c_max_rindex q)"
| "prod_ok q (Returned ret out) = (c_windex q = c_max_rindex q)"
| "prod_ok q at = False"

fun cons_ok :: "'a cas_queue \<Rightarrow> 'a cq_at \<Rightarrow> bool" where
  "cons_ok q (DeqRead out r) = (r = c_rindex q)"
| "cons_ok q (DeqLoad out r) = (r = c_rindex q \<and> cq_contents q \<noteq> [])"
| "cons_ok q (DeqCas x r) = (r = c_rindex q \<and> (\<exists>xs. cq_contents q = x # xs))"
| "cons_ok q Outside = True"
| "cons_ok q (DeqBegin out) = True"
| "cons_ok q (Returned ret out) = True"
| "cons_ok q at = False"

lemma prod_step:
  assumes "cq_ok q" and "prod_ok q at"
  shows "\<exists>q' at'. cq_step q at = Inr (q', at') \<and> cq_ok q' \<and> prod_ok q' at' \<and> c_rindex q' = c_rindex q \<and> c_max q' = c_max q
     \<and> cq_contents q' = cq_contents q @ published at at' \<and> taken_by at at' = []"
proof -
  have less: "c_max_rindex q < c_max q" "c_rindex q < c_max q" using assms(1) by (simp_all add: cq_ok_def)
  note wraps = succ_wrap(1) [OF less(1)] succ_wrap(2) [OF less(2)]
  show ?thesis
  proof (cases at)
    case (EnqRead d w)
    then show ?thesis using assms cq_full_iff [OF assms(1)] wraps by simp
  next
    case (EnqCas d w)
    then show ?thesis
      using assms wraps cq_claim [OF assms(1) succ_wrap(4) [OF less(1)]] by simp
  next
    case (EnqStore d w)
    then show ?thesis using assms cq_fill [OF assms(1) refl, of d] by simp
  next
    case (EnqPublish d w)
    then show ?thesis using assms wraps cq_publish [OF assms(1)] by auto
  qed (use assms in simp_all)
qed

lemma cons_step:
  assumes "cq_ok q" and "cons_ok q at"
  shows "\<exists>q' at'. cq_step q at = Inr (q', at') \<and> cq_ok q' \<and> cons_ok q' at' \<and> c_max q' = c_max q
     \<and> c_windex q' = c_windex q \<and> c_max_rindex q' = c_max_rindex q \<and> c_bucket q' = c_bucket q
     \<and> cq_contents q = taken_by at at' @ cq_contents q' \<and> published at at' = []"
proof -
  have less: "c_max_rindex q < c_max q" "c_rindex q < c_max q" using assms(1) by (simp_all add: cq_ok_def)
  note wraps = succ_wrap(2) [OF less(1)] succ_wrap(1,2) [OF less(2)]
  show ?thesis
  proof (cases at)
    case (DeqRead out r)
    then show ?thesis using assms cq_empty_iff [OF assms(1)] wraps by simp
  next
    case (DeqLoad out r)
    then have "cell q r = Inr (c_bucket q ! unat r)" using assms cq_okD [OF assms(1)] by (simp add: cell_def)
    then show ?thesis using DeqLoad assms cq_take(2) [OF assms(1)] by auto
  next
    case (DeqCas x r)
    then show ?thesis using assms wraps cq_take [OF assms(1)] by auto
  qed (use assms in simp_all)
qed

text \<open>Each of them tolerates the steps of the other.\<close>

lemma prod_stable:
  assumes "prod_ok q at" and "cq_ok q" and "c_max q' = c_max q" "c_windex q' = c_windex q" "c_max_rindex q' = c_max_rindex q"
    "c_bucket q' = c_bucket q" "cq_contents q = xs @ cq_contents q'"
  shows "prod_ok q' at"
proof -
  have "length (cq_contents q') \<le> length (cq_contents q)" using assms(7) by simp
  moreover have "length (cq_contents q) < unat (c_max q)" using cq_nr_spec(1) [OF assms(2)] by simp
  ultimately have "Suc (length (cq_contents q)) \<noteq> unat (c_max q) \<Longrightarrow> Suc (length (cq_contents q')) \<noteq> unat (c_max q)" by linarith
  then show ?thesis using assms(1,3-6) by (cases at) simp_all
qed

lemma cons_stable:
  assumes "cons_ok q at" and "c_rindex q' = c_rindex q" and "cq_contents q' = cq_contents q @ xs"
  shows "cons_ok q' at"
  using assms by (cases at) auto

definition spsc_inv :: "nat \<Rightarrow> nat \<Rightarrow> u32 \<Rightarrow> 'a cq_sys \<Rightarrow> bool" where
  "spsc_inv p c mx s \<longleftrightarrow> cq_ok (cs_q s) \<and> c_max (cs_q s) = mx \<and> prod_ok (cs_q s) (cs_at s p) \<and> cons_ok (cs_q s) (cs_at s c)
     \<and> (\<forall>t. t \<noteq> p \<and> t \<noteq> c \<longrightarrow> cs_at s t = Outside) \<and> cs_enq s = cs_deq s @ cq_contents (cs_q s)"

lemma happens_inv:
  assumes "spsc_inv p c mx s" and "allowed_event {p} {c} e" and "p \<noteq> c"
  shows "\<exists>s'. cq_happens e s = Inr s' \<and> spsc_inv p c mx s'"
proof (cases e)
  case (CallEnq t d)
  then have [simp]: "t = p" using assms(2) by simp
  show ?thesis using CallEnq assms(1,3) by (cases "cs_at s p") (auto simp: spsc_inv_def)
next
  case (CallDeq t)
  then have [simp]: "t = c" using assms(2) by simp
  show ?thesis using CallDeq assms(1,3) by (cases "cs_at s c") (auto simp: spsc_inv_def)
next
  case (Move t)
  note inv = assms(1) [unfolded spsc_inv_def]
  consider "t = p" | "t = c" | "t \<noteq> p" "t \<noteq> c" by blast
  then show ?thesis
  proof cases
    case 1
    from prod_step [of "cs_q s" "cs_at s p"] inv obtain q' at' where
      s: "cq_step (cs_q s) (cs_at s p) = Inr (q', at')" "cq_ok q'" "prod_ok q' at'" "c_rindex q' = c_rindex (cs_q s)"
        "c_max q' = c_max (cs_q s)" "cq_contents q' = cq_contents (cs_q s) @ published (cs_at s p) at'" "taken_by (cs_at s p) at' = []"
      by blast
    then show ?thesis using Move 1 inv assms(3) cons_stable [OF _ s(4,6)] by (simp add: spsc_inv_def)
  next
    case 2
    from cons_step [of "cs_q s" "cs_at s c"] inv obtain q' at' where
      s: "cq_step (cs_q s) (cs_at s c) = Inr (q', at')" "cq_ok q'" "cons_ok q' at'" "c_max q' = c_max (cs_q s)"
        "c_windex q' = c_windex (cs_q s)" "c_max_rindex q' = c_max_rindex (cs_q s)" "c_bucket q' = c_bucket (cs_q s)"
        "cq_contents (cs_q s) = taken_by (cs_at s c) at' @ cq_contents q'" "published (cs_at s c) at' = []"
      by blast
    then show ?thesis using Move 2 inv assms(3) prod_stable [OF _ _ s(4-8)] by (simp add: spsc_inv_def)
  next
    case 3
    then show ?thesis using Move inv by (simp add: spsc_inv_def fun_upd_idem)
  qed
qed

lemma run_inv:
  "spsc_inv p c mx s \<Longrightarrow> \<forall>e\<in>set es. allowed_event {p} {c} e \<Longrightarrow> p \<noteq> c \<Longrightarrow>
     \<exists>s'. cq_run es s = Inr s' \<and> spsc_inv p c mx s'"
proof (induction es arbitrary: s)
  case (Cons e es)
  with happens_inv [of p c mx s e] obtain s1 where "cq_happens e s = Inr s1" "spsc_inv p c mx s1" by auto
  with Cons show ?case by simp
qed simp

lemma cq_new_wf:
  "cq_new mx (Some cells) = Some q \<Longrightarrow> length cells = unat mx \<Longrightarrow> 0 < mx \<Longrightarrow>
     cq_wf q \<and> cq_contents q = [] \<and> c_max q = mx"
  by (auto simp: cq_new_def cq_wf_def cq_ok_def cq_contents_def cq_nr_def)

text \<open>
  C38.  The queue between one producing and one consuming thread, however their steps interleave.  Nothing
  goes wrong; what was taken out is a prefix of what was put in, in that order, and at most one cell
  less than the capacity is pending; an enqueue is refused only at a moment when the queue is full and
  a dequeue only when it is empty; and the producer never spins.
\<close>

theorem cas_queue_spsc:
  assumes "cq_new mx (Some cells) = Some q" and "length cells = unat mx" and "0 < mx" and "p \<noteq> c"
    and "\<forall>e\<in>set es. allowed_event {p} {c} e"
  shows "\<exists>s pending. cq_run es (cq_sys_start q) = Inr s \<and> cs_enq s = cs_deq s @ pending \<and> length pending < unat mx
     \<and> (\<forall>d w q'. cs_at s p = EnqRead d w \<and> cq_step (cs_q s) (cs_at s p) = Inr (q', Returned (-1) None)
          \<longrightarrow> Suc (length pending) = unat mx)
     \<and> (\<forall>out r q'. cs_at s c = DeqRead out r \<and> cq_step (cs_q s) (cs_at s c) = Inr (q', Returned (-1) out) \<longrightarrow> pending = [])
     \<and> (\<forall>d w. cs_at s p = EnqPublish d w \<longrightarrow> (\<exists>q'. cq_step (cs_q s) (cs_at s p) = Inr (q', Returned 0 None)))"
proof -
  have "spsc_inv p c mx (cq_sys_start q)"
    using cq_new_wf [OF assms(1-3)] by (simp add: spsc_inv_def cq_sys_start_def cq_wf_def)
  from run_inv [OF this assms(5,4)] obtain s where s: "cq_run es (cq_sys_start q) = Inr s" "spsc_inv p c mx s" by blast
  note inv = s(2) [unfolded spsc_inv_def]
  have ok: "cq_ok (cs_q s)" and mx: "c_max (cs_q s) = mx" using inv by simp_all
  then have less: "c_max_rindex (cs_q s) < c_max (cs_q s)" "c_rindex (cs_q s) < c_max (cs_q s)" by (simp_all add: cq_ok_def)
  note wraps = succ_wrap(1,2) [OF less(1)] succ_wrap(2) [OF less(2)]
  have "Suc (length (cq_contents (cs_q s))) = unat mx"
    if "cs_at s p = EnqRead d w" "cq_step (cs_q s) (cs_at s p) = Inr (q', Returned (-1) None)" for d w q'
    using that inv wraps cq_full_iff [OF ok] mx by (simp split: if_splits)
  moreover have "cq_contents (cs_q s) = []"
    if "cs_at s c = DeqRead out r" "cq_step (cs_q s) (cs_at s c) = Inr (q', Returned (-1) out)" for out r q'
    using that inv wraps cq_empty_iff [OF ok] by (simp split: if_splits)
  moreover have "\<exists>q'. cq_step (cs_q s) (cs_at s p) = Inr (q', Returned 0 None)" if "cs_at s p = EnqPublish d w" for d w
    using that inv wraps by simp
  moreover have "length (cq_contents (cs_q s)) < unat mx" using cq_nr_spec(1) [OF ok] mx by simp
  ultimately show ?thesis using s(1) inv by blast
qed

theorem cas_queue_spsc_witness:
  "\<exists>s. cq_run [CallEnq 0 7, Move 0, Move 0, CallDeq 1, Move 1, Move 0, Move 0, Move 0, Move 1, Move 1, Move 1]
     (cq_sys_start \<lparr>c_max = 2, c_max_rindex = 0, c_rindex = 0, c_windex = 0, c_bucket = [0, 0 :: nat]\<rparr>) = Inr s
     \<and> cs_enq s = [7] \<and> cs_deq s = [7]"
proof -
  let ?es = "[CallEnq 0 7, Move 0, Move 0, CallDeq 1, Move 1, Move 0, Move 0, Move 0, Move 1, Move 1, Move 1] :: nat cq_event list"
  have new: "cq_new 2 (Some [0, 0 :: nat]) = Some \<lparr>c_max = 2, c_max_rindex = 0, c_rindex = 0, c_windex = 0, c_bucket = [0, 0]\<rparr>"
    by (simp add: cq_new_def)
  from cas_queue_spsc [OF new, of 0 1 ?es] show ?thesis
    by (simp add: cq_sys_start_def wrap_def cell_def set_cell_def)
qed

subsection \<open>Two consumers\<close>

text \<open>
  With a second consumer the compare-and-swap does not see that \<open>rindex\<close> went round the bucket and
  came back.  A consumer that was interrupted after it read its item returns that item again, and the
  item that is now at the front is lost: three items are published, the first is returned twice, the
  third never, and the queue is empty.
\<close>

definition aba_events :: "'a \<Rightarrow> 'a \<Rightarrow> 'a \<Rightarrow> 'a cq_event list" where
  "aba_events x y z =
     (let put = (\<lambda>d. [CallEnq 0 d, Move 0, Move 0, Move 0, Move 0, Move 0]); get = [CallDeq 1, Move 1, Move 1, Move 1, Move 1] in
      put x @ [CallDeq 2, Move 2, Move 2, Move 2] @ get @ put y @ get @ put z @ [Move 2])"

theorem cas_queue_aba:
  "\<exists>q s. cq_new 2 (Some [u, v]) = Some q \<and> (\<forall>e\<in>set (aba_events x y z). allowed_event {0} {1, 2} e)
     \<and> cq_run (aba_events x y z) (cq_sys_start q) = Inr s \<and> cs_enq s = [x, y, z] \<and> cs_deq s = [x, y, x]
     \<and> cq_wf (cs_q s) \<and> cq_contents (cs_q s) = []"
  by (simp add: aba_events_def cq_new_def cq_sys_start_def wrap_def cell_def set_cell_def Let_def
      cq_wf_def cq_ok_def cq_contents_def cq_nr_def)

end
