(* ===== verification/Log.thy ===== *)
theory Log
  imports Prelude
begin

text \<open>
  The targets of the log (\<open>src/src/util_log.c\<close>): a file, the system log, the console and standard
  error, with the two streams the module opens itself.  What is written is left out; which streams
  are written to is not.
\<close>

section \<open>State\<close>

datatype log_target = LOGTARGET_FILE | LOGTARGET_SYSLOG | LOGTARGET_CONSOLE | LOGTARGET_STDERR

text \<open>
  The static variables, and the streams that are open.  Streams are numbered in the order they are
  opened, \<open>next_fp\<close> is the next one; standard error is not among them.
\<close>

record log_state =
  flog_fp :: "nat option"
  clog_fp :: "nat option"
  log_target_set :: "log_target list"
  log_targets_count :: int
  log_base_level :: int
  open_fps :: "nat list"
  next_fp :: nat

definition log_start :: log_state where
  "log_start = \<lparr>flog_fp = None, clog_fp = None, log_target_set = [], log_targets_count = 0,
     log_base_level = 6, open_fps = [], next_fp = 0\<rparr>"

definition opened :: "log_state \<Rightarrow> log_state" where
  "opened s = s\<lparr>open_fps := next_fp s # open_fps s, next_fp := next_fp s + 1\<rparr>"

text \<open>\<open>fclose\<close> of a stream that is not open is undefined.\<close>

definition closed_fp :: "nat \<Rightarrow> log_state \<Rightarrow> ub + log_state" where
  "closed_fp fp s =
     (if fp \<in> set (open_fps s) then Inr (s\<lparr>open_fps := removeAll fp (open_fps s)\<rparr>) else Inl BadPointer)"

definition add_target :: "log_target \<Rightarrow> log_state \<Rightarrow> log_state" where
  "add_target t s = s\<lparr>log_target_set := List.insert t (log_target_set s)\<rparr>"

definition counted :: "int \<Rightarrow> log_state \<Rightarrow> int \<times> log_state" where
  "counted k s = (log_targets_count s + k, s\<lparr>log_targets_count := log_targets_count s + k\<rparr>)"

section \<open>Operations\<close>

text \<open>\<open>fopen_ok\<close>: the file or the console can be opened, if that is tried.\<close>

definition mylog_set_target :: "log_target \<Rightarrow> bool \<Rightarrow> log_state \<Rightarrow> ub + int \<times> log_state" where
  "mylog_set_target code fopen_ok s =
     (case code of
        LOGTARGET_FILE \<Rightarrow>
          if \<not> fopen_ok then Inr (-1, s)
          else
            let fp = next_fp s; s = opened s in
            (case flog_fp s of
               Some old \<Rightarrow>
                 bindE (closed_fp old s) (\<lambda>s. let s = s\<lparr>flog_fp := Some fp\<rparr> in Inr (log_targets_count s, s))
             | None \<Rightarrow> Inr (counted 1 (add_target LOGTARGET_FILE (s\<lparr>flog_fp := Some fp\<rparr>))))
      | LOGTARGET_SYSLOG \<Rightarrow> Inr (counted 1 (add_target LOGTARGET_SYSLOG s))
      | LOGTARGET_CONSOLE \<Rightarrow>
          (case clog_fp s of
             None \<Rightarrow>
               if \<not> fopen_ok then Inr (-1, s)
               else
                 let fp = next_fp s; s = opened s in
                 Inr (counted 1 (add_target LOGTARGET_CONSOLE (s\<lparr>clog_fp := Some fp\<rparr>)))
           | Some fp \<Rightarrow> Inr (log_targets_count s, s))
      | LOGTARGET_STDERR \<Rightarrow>
          if LOGTARGET_STDERR \<notin> set (log_target_set s)
          then Inr (counted 1 (add_target LOGTARGET_STDERR s)) else Inr (log_targets_count s, s))"

definition drop_target :: "log_target \<Rightarrow> log_state \<Rightarrow> log_state" where
  "drop_target t s = s\<lparr>log_target_set := removeAll t (log_target_set s)\<rparr>"

text \<open>The variables \<open>flog_fp\<close> and \<open>clog_fp\<close> keep pointing to the stream that was closed.\<close>

definition mylog_clear_target :: "log_target \<Rightarrow> log_state \<Rightarrow> ub + int \<times> log_state" where
  "mylog_clear_target code s =
     (if code \<notin> set (log_target_set s) then Inr (log_targets_count s, s)
      else
        let s = drop_target code s in
        bindE (case code of
                 LOGTARGET_FILE \<Rightarrow> (case flog_fp s of None \<Rightarrow> Inl NullDeref | Some fp \<Rightarrow> closed_fp fp s)
               | LOGTARGET_CONSOLE \<Rightarrow> (case clog_fp s of None \<Rightarrow> Inl NullDeref | Some fp \<Rightarrow> closed_fp fp s)
               | _ \<Rightarrow> Inr s) (\<lambda>s. Inr (counted (-1) s)))"

abbreviation (input) L_MINVALUE :: int where "L_MINVALUE \<equiv> 3"
abbreviation (input) L_MAXVALUE :: int where "L_MAXVALUE \<equiv> 7"

definition mylog_least_level :: "int \<Rightarrow> log_state \<Rightarrow> int \<times> log_state" where
  "mylog_least_level loglevel s =
     (if loglevel < L_MINVALUE \<or> loglevel > L_MAXVALUE then (- EINVAL, s)
      else (0, s\<lparr>log_base_level := loglevel\<rparr>))"

text \<open>\<open>do_mylog\<close>: the streams written to must be open.\<close>

definition writes_to :: "log_target \<Rightarrow> nat option \<Rightarrow> log_state \<Rightarrow> ub + unit" where
  "writes_to t fp s =
     (if t \<notin> set (log_target_set s) then Inr ()
      else case fp of None \<Rightarrow> Inl NullDeref
           | Some fp \<Rightarrow> if fp \<in> set (open_fps s) then Inr () else Inl BadPointer)"

definition do_mylog :: "int \<Rightarrow> log_state \<Rightarrow> ub + log_target list" where
  "do_mylog loglevel s =
     (if loglevel > log_base_level s then Inr []
      else bindE (writes_to LOGTARGET_FILE (flog_fp s) s) (\<lambda>_.
           bindE (writes_to LOGTARGET_CONSOLE (clog_fp s) s) (\<lambda>_. Inr (log_target_set s))))"

definition mylog_reset :: "log_state \<Rightarrow> ub + log_state" where
  "mylog_reset s =
     bindE (mylog_clear_target LOGTARGET_FILE s) (\<lambda>(_, s).
     bindE (mylog_clear_target LOGTARGET_SYSLOG s) (\<lambda>(_, s).
     bindE (mylog_clear_target LOGTARGET_CONSOLE s) (\<lambda>(_, s).
     bindE (mylog_clear_target LOGTARGET_STDERR s) (\<lambda>(_, s). Inr s))))"

section \<open>Histories\<close>

datatype log_op = SetTarget log_target bool | ClearTarget log_target | LeastLevel int | Write int | Reset

definition log_step :: "log_op \<Rightarrow> log_state \<Rightarrow> ub + log_state" where
  "log_step a s =
     (case a of
        SetTarget t ok \<Rightarrow> bindE (mylog_set_target t ok s) (\<lambda>(_, s). Inr s)
      | ClearTarget t \<Rightarrow> bindE (mylog_clear_target t s) (\<lambda>(_, s). Inr s)
      | LeastLevel l \<Rightarrow> Inr (snd (mylog_least_level l s))
      | Write l \<Rightarrow> bindE (do_mylog l s) (\<lambda>_. Inr s)
      | Reset \<Rightarrow> mylog_reset s)"

primrec log_run :: "log_op list \<Rightarrow> log_state \<Rightarrow> ub + log_state" where
  "log_run [] s = Inr s"
| "log_run (a # as) s = bindE (log_step a s) (log_run as)"

text \<open>What becomes of the log file: never opened, in use, closed, or opened once more after that.\<close>

datatype file_use = Unused | InUse | Closed | Reopened

definition file_next :: "file_use \<Rightarrow> log_op \<Rightarrow> file_use" where
  "file_next u a =
     (if a = SetTarget LOGTARGET_FILE True then (if u \<in> {Closed, Reopened} then Reopened else InUse)
      else if a \<in> {ClearTarget LOGTARGET_FILE, Reset} then (if u = InUse then Closed else u)
      else u)"

definition log_inv :: "file_use \<Rightarrow> log_state \<Rightarrow> bool" where
  "log_inv u s \<longleftrightarrow> distinct (log_target_set s) \<and> int (length (log_target_set s)) \<le> log_targets_count s \<and> (\<forall>fp\<in>set (open_fps s). fp < next_fp s)
     \<and> (\<forall>fp. flog_fp s = Some fp \<longrightarrow> fp < next_fp s \<and> clog_fp s \<noteq> Some fp)
     \<and> (\<forall>fp. clog_fp s = Some fp \<longrightarrow> fp < next_fp s)
     \<and> (LOGTARGET_FILE \<in> set (log_target_set s) \<longleftrightarrow> u = InUse) \<and> (flog_fp s = None \<longleftrightarrow> u = Unused)
     \<and> (\<forall>fp. flog_fp s = Some fp \<longrightarrow> (fp \<in> set (open_fps s) \<longleftrightarrow> u = InUse))
     \<and> (LOGTARGET_CONSOLE \<in> set (log_target_set s) \<longleftrightarrow> (\<exists>fp. clog_fp s = Some fp \<and> fp \<in> set (open_fps s)))
     \<and> u \<noteq> Reopened"

lemmas log_ops = opened_def closed_fp_def add_target_def drop_target_def counted_def log_inv_def

lemma length_removeAll: "distinct xs \<Longrightarrow> x \<in> set xs \<Longrightarrow> Suc (length (removeAll x xs)) = length xs"
  by (metis One_nat_def Suc_pred distinct_remove1_removeAll length_pos_if_in_set length_remove1)

lemma length_insert: "length (List.insert x xs) \<le> Suc (length xs)"
  by (simp add: List.insert_def)

lemma length_insert_int: "int (length xs) \<le> n \<Longrightarrow> int (length (List.insert x xs)) \<le> n + 1"
  using length_insert [of x xs] by simp

lemma set_target_inv:
  assumes "log_inv u s"
  shows "if u = Closed \<and> t = LOGTARGET_FILE \<and> ok then mylog_set_target t ok s = Inl BadPointer
    else \<exists>r s'. mylog_set_target t ok s = Inr (r, s') \<and> log_inv (file_next u (SetTarget t ok)) s'"
proof (cases t)
  case LOGTARGET_FILE
  with assms show ?thesis
    by (cases u; cases ok; cases "flog_fp s")
       (auto simp: mylog_set_target_def log_ops file_next_def length_insert_int Let_def less_Suc_eq)
next
  case LOGTARGET_SYSLOG
  with assms show ?thesis by (auto simp: mylog_set_target_def log_ops file_next_def length_insert_int)
next
  case LOGTARGET_CONSOLE
  with assms show ?thesis
    by (cases "clog_fp s") (auto simp: mylog_set_target_def log_ops file_next_def length_insert_int Let_def less_Suc_eq)
next
  case LOGTARGET_STDERR
  with assms show ?thesis by (auto simp: mylog_set_target_def log_ops file_next_def length_insert_int)
qed

lemma clear_target_inv:
  assumes "log_inv u s"
  shows "\<exists>r s'. mylog_clear_target t s = Inr (r, s') \<and> log_inv (file_next u (ClearTarget t)) s'"
proof (cases "t \<in> set (log_target_set s)")
  case False
  with assms show ?thesis by (cases t) (auto simp: mylog_clear_target_def file_next_def log_inv_def)
next
  case True
  with assms length_removeAll [of "log_target_set s" t] show ?thesis
    by (cases t; cases "flog_fp s"; cases "clog_fp s")
       (auto simp: mylog_clear_target_def log_ops file_next_def Let_def distinct_removeAll)
qed

lemma write_inv:
  assumes "log_inv u s"
  shows "\<exists>ts. do_mylog l s = Inr ts \<and> set ts \<subseteq> set (log_target_set s)"
  using assms by (auto simp: do_mylog_def writes_to_def log_inv_def split: option.splits)

lemma log_step_inv:
  assumes "log_inv u s"
  shows "if file_next u a = Reopened then log_step a s = Inl BadPointer
    else \<exists>s'. log_step a s = Inr s' \<and> log_inv (file_next u a) s'"
proof (cases a)
  case (SetTarget t ok)
  with set_target_inv [OF assms, of t ok] assms show ?thesis
    by (auto simp: log_step_def file_next_def log_inv_def split: if_splits)
next
  case (ClearTarget t)
  with clear_target_inv [OF assms, of t] assms show ?thesis
    by (auto simp: log_step_def file_next_def log_inv_def split: if_splits)
next
  case (LeastLevel l)
  with assms show ?thesis by (auto simp: log_step_def file_next_def log_inv_def mylog_least_level_def)
next
  case (Write l)
  with write_inv [OF assms, of l] assms show ?thesis by (auto simp: log_step_def file_next_def log_inv_def)
next
  case Reset
  let ?u = "file_next u Reset"
  from clear_target_inv [OF assms, of LOGTARGET_FILE] obtain r1 s1 where
    1: "mylog_clear_target LOGTARGET_FILE s = Inr (r1, s1)" "log_inv ?u s1"
    by (auto simp: file_next_def)
  from clear_target_inv [OF 1(2), of LOGTARGET_SYSLOG] obtain r2 s2 where
    2: "mylog_clear_target LOGTARGET_SYSLOG s1 = Inr (r2, s2)" "log_inv ?u s2" by (auto simp: file_next_def)
  from clear_target_inv [OF 2(2), of LOGTARGET_CONSOLE] obtain r3 s3 where
    3: "mylog_clear_target LOGTARGET_CONSOLE s2 = Inr (r3, s3)" "log_inv ?u s3" by (auto simp: file_next_def)
  from clear_target_inv [OF 3(2), of LOGTARGET_STDERR] obtain r4 s4 where
    4: "mylog_clear_target LOGTARGET_STDERR s3 = Inr (r4, s4)" "log_inv ?u s4" by (auto simp: file_next_def)
  have "?u \<noteq> Reopened" using 4(2) by (simp add: log_inv_def)
  with 1 2 3 4 Reset show ?thesis by (simp add: log_step_def mylog_reset_def)
qed

lemma reopened_stays: "foldl file_next Reopened as = Reopened"
  by (induction as) (auto simp: file_next_def)

lemma log_run_inv:
  "log_inv u s \<Longrightarrow> if foldl file_next u as = Reopened then log_run as s = Inl BadPointer
     else \<exists>s'. log_run as s = Inr s' \<and> log_inv (foldl file_next u as) s'"
proof (induction as arbitrary: u s)
  case (Cons a as)
  show ?case
  proof (cases "file_next u a = Reopened")
    case True
    with log_step_inv [OF Cons.prems, of a] reopened_stays show ?thesis by simp
  next
    case False
    with log_step_inv [OF Cons.prems, of a] obtain s' where
      "log_step a s = Inr s'" "log_inv (file_next u a) s'" by auto
    with Cons.IH [of "file_next u a" s'] show ?thesis by simp
  qed
qed (simp add: log_inv_def)

text \<open>
  C30.  Safety of the log: over any history of operations, each on one target, the module writes only
  to open streams and closes each of its streams once, unless the log file is opened again after it
  was cleared, and then it always closes the old stream a second time.  The counter never falls
  below the number of targets.
\<close>

theorem log_streams:
  "if foldl file_next Unused as = Reopened then log_run as log_start = Inl BadPointer
   else \<exists>s. log_run as log_start = Inr s \<and> int (length (log_target_set s)) \<le> log_targets_count s
     \<and> (\<forall>l. do_mylog l s = Inr (if l > log_base_level s then [] else log_target_set s))
     \<and> (LOGTARGET_FILE \<in> set (log_target_set s) \<longleftrightarrow> foldl file_next Unused as = InUse)"
proof -
  have "log_inv Unused log_start" by (simp add: log_inv_def log_start_def)
  from log_run_inv [OF this, of as] show ?thesis
  proof (cases "foldl file_next Unused as = Reopened")
    case False
    with log_run_inv [OF \<open>log_inv Unused log_start\<close>, of as] obtain s where
      s: "log_run as log_start = Inr s" "log_inv (foldl file_next Unused as) s" by auto
    have "do_mylog l s = Inr (if l > log_base_level s then [] else log_target_set s)" for l
      using s(2) by (auto simp: do_mylog_def writes_to_def log_inv_def split: option.splits)
    with s False show ?thesis by (simp add: log_inv_def)
  qed simp
qed

text \<open>The console is not a target any more once it was cleared, although setting it reports success.\<close>

lemma console_stays_cleared:
  "log_run [SetTarget LOGTARGET_CONSOLE True, ClearTarget LOGTARGET_CONSOLE, SetTarget LOGTARGET_CONSOLE True] log_start
     = Inr (log_start\<lparr>clog_fp := Some 0, next_fp := 1\<rparr>)"
  by (simp add: log_step_def mylog_set_target_def mylog_clear_target_def log_ops Let_def log_start_def)

end
