(* ===== verification/Worker_Threads.thy ===== *)
theory Worker_Threads
  imports Cjson
begin

text \<open>
  Creating, stopping and listing the worker threads (\<open>src/src/thr_worker.c\<close>): which processor each
  worker is bound to.  What \<open>pthread_create\<close> answers is an argument; what the threads do is the
  subject of the theory of the dungeon.
\<close>

section \<open>State\<close>

text \<open>A field that was never set is \<open>None\<close>.\<close>

record worker_info =
  epoll_timeout_ms :: "int option"
  loop_count :: "int option"
  cpubind :: "nat option"

text \<open>
  \<open>info_thr\<close> is the null pointer or an array; \<open>alive\<close> are the threads that run: the epoll
  thread and the first workers.
\<close>

record workers =
  info_thr :: "worker_info list option"
  num_thr :: nat
  worker_quit :: bool
  epoller_alive :: bool
  workers_alive :: nat

definition workers_start :: workers where
  "workers_start = \<lparr>info_thr = None, num_thr = 0, worker_quit = False, epoller_alive = False, workers_alive = 0\<rparr>"

abbreviation (input) CPU_SETSIZE :: nat where "CPU_SETSIZE \<equiv> 1024"

text \<open>\<open>CPU_ISSET\<close> looks at the size of the set before it looks at the set.\<close>

definition CPU_ISSET :: "nat \<Rightarrow> (nat \<Rightarrow> bool) \<Rightarrow> bool" where
  "CPU_ISSET c cpus \<longleftrightarrow> c < CPU_SETSIZE \<and> cpus c"

section \<open>Binding\<close>

text \<open>\<open>for (; c<CPU_SETSIZE && !CPU_ISSET(c, ...); ++c);\<close>\<close>

definition next_cpu :: "(nat \<Rightarrow> bool) \<Rightarrow> nat \<Rightarrow> nat" where
  "next_cpu cpus c = (case List.find cpus [c..<CPU_SETSIZE] of Some k \<Rightarrow> k | None \<Rightarrow> max c CPU_SETSIZE)"

text \<open>The first loop: the processor of each worker, missing where none is stored.\<close>

primrec bind_workers :: "nat \<Rightarrow> (nat \<Rightarrow> bool) \<Rightarrow> nat \<Rightarrow> nat option list" where
  "bind_workers 0 cpus c = []"
| "bind_workers (Suc n) cpus c =
     (let c = next_cpu cpus c; b = (if CPU_ISSET c cpus then Some c else None);
          c = c + 1; c = (if c = CPU_SETSIZE then CPU_SETSIZE - 1 else c) in
      b # bind_workers n cpus c)"

text \<open>
  The second loop, from worker \<open>i\<close> on: \<open>create i c\<close> tells whether \<open>pthread_create\<close> succeeds
  for worker \<open>i\<close> on processor \<open>c\<close>; a failure ends the loop.  The result is \<open>num_thr\<close>.
\<close>

primrec create_workers :: "(nat \<Rightarrow> nat \<Rightarrow> bool) \<Rightarrow> nat \<Rightarrow> nat option list \<Rightarrow> ub + nat" where
  "create_workers create i [] = Inr i"
| "create_workers create i (b # bs) =
     (case b of None \<Rightarrow> Inl Uninitialised
      | Some c \<Rightarrow> if create i c then create_workers create (Suc i) bs else Inr i)"

definition fresh_info :: "nat \<Rightarrow> nat \<Rightarrow> nat option \<Rightarrow> worker_info" where
  "fresh_info created i b =
     (if i \<le> created then \<lparr>epoll_timeout_ms = Some 1000, loop_count = Some 0, cpubind = b\<rparr>
      else \<lparr>epoll_timeout_ms = None, loop_count = None, cpubind = b\<rparr>)"

text \<open>When the array cannot be allocated the epoll thread keeps running.\<close>

definition thr_worker_create ::
  "int \<Rightarrow> (nat \<Rightarrow> bool) \<Rightarrow> bool \<Rightarrow> bool \<Rightarrow> (nat \<Rightarrow> nat \<Rightarrow> bool) \<Rightarrow> workers \<Rightarrow> ub + int \<times> workers" where
  "thr_worker_create num cpus epoller_ok malloc_ok create w =
     (if \<not> epoller_ok then Inr (-1, w)
      else if \<not> malloc_ok then Inr (-1, w\<lparr>epoller_alive := True, info_thr := None\<rparr>)
      else
        let binds = bind_workers (nat num) cpus 0 in
        bindE (create_workers create 0 binds) (\<lambda>created.
        Inr (int created,
             w\<lparr>epoller_alive := True, num_thr := created, workers_alive := created,
               info_thr := Some (map2 (fresh_info created) [0..<length binds] binds)\<rparr>)))"

text \<open>Joining a thread that was never created is undefined.\<close>

definition thr_worker_destroy :: "workers \<Rightarrow> ub + int \<times> workers" where
  "thr_worker_destroy w =
     (let w = w\<lparr>worker_quit := True\<rparr> in
      if \<not> epoller_alive w then Inl Uninitialised
      else Inr (0, w\<lparr>epoller_alive := False, workers_alive := 0, info_thr := None\<rparr>))"

definition worker_item :: "nat \<Rightarrow> worker_info \<Rightarrow> ub + cjson" where
  "worker_item i info =
     (case (loop_count info, epoll_timeout_ms info, cpubind info) of
        (Some l, Some t, Some c) \<Rightarrow>
          Inr (cJSON_AddItemToObject (cJSON_AddItemToObject (cJSON_AddItemToObject (cJSON_AddItemToObject
            cJSON_CreateObject ''WorkerID'' (Some (cJSON_CreateNumber (int i))))
            ''LoopCount'' (Some (cJSON_CreateNumber l)))
            ''EPOLLTimeOut_ms'' (Some (cJSON_CreateNumber t)))
            ''CPUBind'' (Some (cJSON_CreateNumber (int c))))
      | _ \<Rightarrow> Inl Uninitialised)"

text \<open>The loop of \<open>thr_worker_serialize\<close> over the workers from \<open>i\<close> on.\<close>

primrec worker_items :: "nat \<Rightarrow> worker_info list \<Rightarrow> cjson \<Rightarrow> ub + cjson" where
  "worker_items i [] result = Inr result"
| "worker_items i (info # infos) result =
     bindE (worker_item i info) (\<lambda>item. worker_items (Suc i) infos (cJSON_AddItemToArray result (Some item)))"

definition thr_worker_serialize :: "workers \<Rightarrow> ub + cjson" where
  "thr_worker_serialize w =
     (case info_thr w of
        None \<Rightarrow> if num_thr w = 0 then Inr cJSON_CreateArray else Inl BadPointer
      | Some infos \<Rightarrow>
          if num_thr w \<le> length infos then worker_items 0 (take (num_thr w) infos) cJSON_CreateArray
          else Inl OutOfBounds)"

section \<open>The processors the workers get\<close>

definition allowed :: "(nat \<Rightarrow> bool) \<Rightarrow> nat \<Rightarrow> nat list" where
  "allowed cpus c = filter cpus [c..<CPU_SETSIZE]"

lemma find_next:
  "c \<le> CPU_SETSIZE \<Longrightarrow> allowed cpus c \<noteq> [] \<Longrightarrow>
     \<exists>k. next_cpu cpus c = k \<and> c \<le> k \<and> CPU_ISSET k cpus \<and> allowed cpus c = k # allowed cpus (Suc k)"
proof (induction "CPU_SETSIZE - c" arbitrary: c)
  case 0
  then show ?case by (simp add: allowed_def)
next
  case (Suc n)
  then have c: "c < CPU_SETSIZE" by simp
  then have upt: "[c..<CPU_SETSIZE] = c # [Suc c..<CPU_SETSIZE]" by (rule upt_conv_Cons)
  show ?case
  proof (cases "cpus c")
    case True
    with c upt show ?thesis by (simp add: next_cpu_def allowed_def CPU_ISSET_def)
  next
    case False
    then have same: "allowed cpus c = allowed cpus (Suc c)" "next_cpu cpus c = next_cpu cpus (Suc c)"
      using upt c by (auto simp: allowed_def next_cpu_def split: option.splits)
    have "n = CPU_SETSIZE - Suc c" "Suc c \<le> CPU_SETSIZE" using Suc.hyps(2) c by simp_all
    with Suc.hyps(1) [of "Suc c"] Suc.prems(2) same show ?thesis by auto
  qed
qed

lemma none_next: "allowed cpus c = [] \<Longrightarrow> next_cpu cpus c = max c CPU_SETSIZE \<and> \<not> CPU_ISSET (max c CPU_SETSIZE) cpus"
proof -
  assume "allowed cpus c = []"
  then have "List.find cpus [c..<CPU_SETSIZE] = None" by (auto simp: allowed_def find_None_iff filter_empty_conv)
  then show ?thesis by (simp add: next_cpu_def CPU_ISSET_def)
qed

lemma bind_none: "CPU_SETSIZE \<le> c \<Longrightarrow> bind_workers n cpus c = replicate n None"
proof (induction n arbitrary: c)
  case (Suc n)
  then have "allowed cpus c = []" by (simp add: allowed_def)
  with none_next [OF this] Suc show ?case by (simp add: Let_def)
qed simp

lemma bind_workers_allowed:
  "c \<le> CPU_SETSIZE \<Longrightarrow> n \<le> length (allowed cpus c) \<or> \<not> cpus (CPU_SETSIZE - 1) \<Longrightarrow>
     bind_workers n cpus c = map Some (take n (allowed cpus c)) @ replicate (n - length (allowed cpus c)) None"
proof (induction n arbitrary: c)
  case (Suc n)
  show ?case
  proof (cases "allowed cpus c = []")
    case True
    with none_next [OF this] Suc.prems(1) bind_none show ?thesis by (simp add: Let_def)
  next
    case False
    with find_next Suc.prems(1) obtain k where k: "next_cpu cpus c = k" "CPU_ISSET k cpus"
      "allowed cpus c = k # allowed cpus (Suc k)" by blast
    show ?thesis
    proof (cases "Suc k = CPU_SETSIZE")
      case True
      with k(2) have "cpus (CPU_SETSIZE - 1)" by (auto simp: CPU_ISSET_def)
      moreover have "allowed cpus (Suc k) = []" using True by (simp add: allowed_def)
      ultimately have "n = 0" using Suc.prems(2) k(3) by simp
      with k show ?thesis by (simp add: Let_def)
    next
      case False
      then have "Suc k \<le> CPU_SETSIZE" using k(2) by (simp add: CPU_ISSET_def)
      with Suc.IH [of "Suc k"] Suc.prems(2) k False show ?thesis by (simp add: Let_def)
    qed
  qed
qed simp

lemma create_all: "(\<And>j c. create j c) \<Longrightarrow> create_workers create i (map Some cs) = Inr (i + length cs)"
  by (induction cs arbitrary: i) simp_all

lemma create_uninit:
  "(\<And>j c. create j c) \<Longrightarrow> 0 < m \<Longrightarrow> create_workers create i (map Some cs @ replicate m None) = Inl Uninitialised"
  by (induction cs arbitrary: i) (auto simp: gr0_conv_Suc)

text \<open>
  Bounds: as long as no more workers are asked for than there are processors the process may use,
  every worker is bound to one of its own, in increasing order; one more, unless the very last
  processor of the set is allowed, is bound to whatever the memory of the array holds.
\<close>

lemma workers_bound:
  assumes "\<forall>i c. create i c" and "0 \<le> num"
  shows "if num \<le> int (length (allowed cpus 0))
    then \<exists>w'. thr_worker_create num cpus True True create w = Inr (num, w')
        \<and> num_thr w' = nat num \<and> map cpubind (the (info_thr w')) = map Some (take (nat num) (allowed cpus 0))
    else cpus 1023 \<or> thr_worker_create num cpus True True create w = Inl Uninitialised"
proof -
  let ?al = "allowed cpus 0"
  show ?thesis
  proof (cases "num \<le> int (length ?al)")
    case True
    then have le: "nat num \<le> length ?al" by simp
    then have b: "bind_workers (nat num) cpus 0 = map Some (take (nat num) ?al)"
      using bind_workers_allowed [of 0 "nat num" cpus] by simp
    have "create_workers create 0 (map Some (take (nat num) ?al)) = Inr (nat num)"
      using create_all [of create 0 "take (nat num) ?al"] assms(1) le by simp
    moreover have "map (cpubind \<circ> (\<lambda>(i, b). fresh_info n i b)) (zip [0..<length bs] bs) = bs" for n bs
      by (rule nth_equalityI) (simp_all add: fresh_info_def)
    from this [of "nat num" "map Some (take (nat num) ?al)"]
    have "map (cpubind \<circ> (\<lambda>(i, b). fresh_info (nat num) i b)) (zip [0..<nat num] (map Some (take (nat num) ?al)))
        = map Some (take (nat num) ?al)"
      using le by simp
    ultimately show ?thesis using True b assms(2) by (simp add: thr_worker_create_def Let_def)
  next
    case False
    then have m: "0 < nat num - length ?al" by simp
    have "thr_worker_create num cpus True True create w = Inl Uninitialised" if "\<not> cpus (CPU_SETSIZE - 1)"
    proof -
      have "bind_workers (nat num) cpus 0 = map Some ?al @ replicate (nat num - length ?al) None"
        using bind_workers_allowed [of 0 "nat num" cpus] that m by simp
      then show ?thesis
        using create_uninit [of create "nat num - length ?al" 0 ?al] assms(1) m
        by (simp add: thr_worker_create_def Let_def)
    qed
    with False show ?thesis by auto
  qed
qed

end
