(* ===== verification/Cjson_Roundtrip.thy ===== *)
theory Cjson_Roundtrip
  imports Cjson_Text
begin

text \<open>
  What \<open>print_value\<close> prints, formatted or not, \<open>parse_value\<close> reads back (\<open>src/src/cJSON.c\<close>).
\<close>

section \<open>Numbers\<close>

lemma show_nat_digits: "c \<in> set (show_nat n) \<Longrightarrow> is_digit c"
proof (induction n rule: show_nat.induct)
  case (1 n)
  have digit: "is_digit (char_of (48 + m))" if "m < 10" for m :: nat
    using that by (simp add: is_digit_def code_def)
  show ?case
  proof (cases "n < 10")
    case True
    with 1(2) digit show ?thesis by (simp add: show_nat.simps)
  next
    case False
    with 1(2) have "c \<in> set (show_nat (n div 10)) \<or> c = char_of (48 + n mod 10)"
      by (subst (asm) show_nat.simps) auto
    with 1(1) False digit [of "n mod 10"] show ?thesis by auto
  qed
qed

lemma digits_value_snoc: "digits_value (ds @ [c]) = digits_value ds * 10 + (code c - 48)"
  by (simp add: digits_value_def)

lemma digits_value_show: "digits_value (show_nat n) = n"
proof (induction n rule: show_nat.induct)
  case (1 n)
  have digit: "code (char_of (48 + m)) = 48 + m" if "m < 10" for m :: nat
    using that by (simp add: code_def)
  show ?case
  proof (cases "n < 10")
    case True
    then show ?thesis by (simp add: show_nat.simps digits_value_def digit)
  next
    case False
    with 1 show ?thesis by (subst show_nat.simps) (simp add: digits_value_snoc digit)
  qed
qed

lemma show_nat_head: "at (show_nat n @ rest) = CHR ''0'' \<longleftrightarrow> n = 0"
proof (induction n arbitrary: rest rule: show_nat.induct)
  case (1 n)
  have zero: "char_of (48 + m) = CHR ''0'' \<longleftrightarrow> m = 0" if "m < 10" for m :: nat
  proof -
    have "code (char_of (48 + m)) = 48 + m" "code (CHR ''0'') = 48" using that by (simp_all add: code_def)
    then show ?thesis by (metis add.right_neutral add_left_cancel char_of_char code_def)
  qed
  show ?case
  proof (cases "n < 10")
    case True
    then show ?thesis using zero [of n] by (subst show_nat.simps) simp
  next
    case False
    with 1 [of "[char_of (48 + n mod 10)] @ rest"] show ?thesis
      by (subst show_nat.simps) (simp add: div_eq_0_iff)
  qed
qed

text \<open>What may follow a value without becoming part of it.\<close>

definition ends_value :: "string \<Rightarrow> bool" where
  "ends_value rest \<longleftrightarrow> \<not> is_digit (at rest) \<and> at rest \<noteq> CHR ''.'' \<and> at rest \<noteq> CHR ''e'' \<and> at rest \<noteq> CHR ''E''"

lemma scan_nat:
  assumes "ends_value rest"
  shows "scan_int (show_nat n @ rest) = (False, if n = 0 then [] else show_nat n, rest)"
proof -
  have d: "is_digit (at (show_nat n @ rest))"
    using show_nat_digits [of "hd (show_nat n)" n] show_nat_nonempty [of n]
    by (cases "show_nat n") auto
  then have "at (show_nat n @ rest) \<noteq> CHR ''-''" by (auto simp: is_digit_def code_def)
  moreover have "\<not> is_digit (at rest)" using assms by (simp add: ends_value_def)
  then have "takeWhile is_digit (show_nat n @ rest) = show_nat n"
    using show_nat_digits [of _ n] by (cases rest) (auto simp: takeWhile_append)
  moreover have "show_nat 0 = ''0''" by (subst show_nat.simps) code_simp
  ultimately show ?thesis using d \<open>\<not> is_digit (at rest)\<close>
    by (auto simp: scan_int_def show_nat_head Let_def)
qed

lemma scan_show_int:
  assumes "ends_value rest"
  shows "scan_int (show_int n @ rest) = (n < 0, if n = 0 then [] else show_nat (nat \<bar>n\<bar>), rest)"
proof (cases "n < 0")
  case True
  define m where "m = nat (- n)"
  have "scan_int (show_int n @ rest) = (case scan_int (show_nat m @ rest) of (neg, ds, r) \<Rightarrow> (True, ds, r))"
    using True scan_nat [OF assms, of m] show_nat_digits [of "hd (show_nat m)" m] show_nat_nonempty [of m]
    by (cases "show_nat m") (auto simp: scan_int_def Let_def show_int_def m_def [symmetric] is_digit_def code_def split: if_splits)
  with True show ?thesis by (simp add: scan_nat [OF assms] m_def)
next
  case False
  then show ?thesis by (simp add: show_int_def scan_nat [OF assms])
qed

lemma parse_show_int:
  assumes "ends_value rest" and "\<bar>n\<bar> < 2147483648"
  shows "parse_number fl (show_int n @ rest) = (Cjson cJSON_Number [] None n None, rest)"
proof -
  have "digits_value (if n = 0 then [] else show_nat (nat \<bar>n\<bar>)) = nat \<bar>n\<bar>"
    by (simp add: digits_value_show) (simp add: digits_value_def)
  moreover have "\<not> needs_float (if n = 0 then [] else show_nat (nat \<bar>n\<bar>)) rest"
    using assms calculation by (auto simp: needs_float_def ends_value_def)
  ultimately show ?thesis using scan_show_int [OF assms(1), of n] by (cases "n = 0") (auto simp: parse_number_def digits_value_show)
qed

section \<open>More fuel changes nothing\<close>

text \<open>The second outcome is the first one, or the first one lacked fuel.\<close>

definition refined_by :: "'a outcome \<Rightarrow> 'a outcome \<Rightarrow> bool" where
  "refined_by m m' \<longleftrightarrow> m = NoFuel \<or> m' = m"

lemma refined_by_refl: "refined_by m m"
  by (simp add: refined_by_def)

lemma refined_by_bindP:
  "refined_by m m' \<Longrightarrow> (\<And>x. refined_by (f x) (f' x)) \<Longrightarrow> refined_by (bindP m f) (bindP m' f')"
  by (cases m) (auto simp: refined_by_def)

lemma refined_by_if:
  "refined_by a a' \<Longrightarrow> refined_by b b' \<Longrightarrow> refined_by (if P then a else b) (if P then a' else b')"
  by simp

lemma refined_by_pair: "(\<And>a b. refined_by (f a b) (f' a b)) \<Longrightarrow> refined_by (case p of (a, b) \<Rightarrow> f a b) (case p of (a, b) \<Rightarrow> f' a b)"
  by (cases p) simp

lemmas refined_intros = refined_by_if refined_by_bindP refined_by_pair

lemma parse_fuel_step:
  assumes "\<And>v. refined_by (parse_value k fl v) (parse_value m fl v)"
    and "\<And>v. refined_by (parse_elements k fl v) (parse_elements m fl v)"
    and "\<And>v. refined_by (parse_members k fl v) (parse_members m fl v)"
  shows "refined_by (parse_value (Suc k) fl v) (parse_value (Suc m) fl v)"
    and "refined_by (parse_elements (Suc k) fl v) (parse_elements (Suc m) fl v)"
    and "refined_by (parse_members (Suc k) fl v) (parse_members (Suc m) fl v)"
  unfolding parse_value.simps(2) parse_elements.simps(2) parse_members.simps(2) Let_def
  by (intro refined_intros refined_by_refl assms)+

lemma parse_more_fuel:
  "(\<forall>v. refined_by (parse_value k fl v) (parse_value (Suc k) fl v))
   \<and> (\<forall>v. refined_by (parse_elements k fl v) (parse_elements (Suc k) fl v))
   \<and> (\<forall>v. refined_by (parse_members k fl v) (parse_members (Suc k) fl v))"
proof (induction k)
  case 0
  show ?case by (simp add: refined_by_def)
next
  case (Suc k)
  then show ?case using parse_fuel_step [of k fl "Suc k"] by blast
qed

lemma parse_value_fuel:
  assumes "parse_value k fl v \<noteq> NoFuel" and "k \<le> k'"
  shows "parse_value k' fl v = parse_value k fl v"
  using assms(2)
proof (induction k' rule: dec_induct)
  case (step n)
  moreover have "refined_by (parse_value n fl v) (parse_value (Suc n) fl v)" using parse_more_fuel by blast
  ultimately show ?case using assms(1) by (simp add: refined_by_def)
qed simp

section \<open>Values that are printed\<close>

definition nul_free :: "string \<Rightarrow> bool" where
  "nul_free s \<longleftrightarrow> (\<forall>c\<in>set s. code c \<noteq> 0)"

definition named :: "cjson \<Rightarrow> bool" where
  "named c \<longleftrightarrow> (case jstring c of None \<Rightarrow> False | Some s \<Rightarrow> nul_free s)"

text \<open>What the parser can build of nulls, booleans, integers, strings, arrays and objects.\<close>

fun wf_json :: "cjson \<Rightarrow> bool" where
  "wf_json (Cjson t cs vs n nm) \<longleftrightarrow>
     (t \<in> {cJSON_NULL, cJSON_False} \<and> cs = [] \<and> vs = None \<and> n = 0
      \<or> t = cJSON_True \<and> cs = [] \<and> vs = None \<and> n = 1
      \<or> t = cJSON_Number \<and> cs = [] \<and> vs = None \<and> \<bar>n\<bar> < 2147483648
      \<or> t = cJSON_String \<and> cs = [] \<and> vs \<noteq> None \<and> nul_free (the vs) \<and> n = 0
      \<or> t = cJSON_Array \<and> vs = None \<and> n = 0 \<and> (\<forall>c\<in>set cs. wf_json c \<and> jstring c = None)
      \<or> t = cJSON_Object \<and> vs = None \<and> n = 0 \<and> (\<forall>c\<in>set cs. wf_json c \<and> named c))"

text \<open>The text \<open>e\<close> reads as the value \<open>c\<close>, whatever follows it.\<close>

definition reads :: "(string \<Rightarrow> int \<times> string) \<Rightarrow> cjson \<Rightarrow> string \<Rightarrow> bool" where
  "reads fl c e \<longleftrightarrow> code (at e) > 32 \<and> at e \<noteq> CHR '']'' \<and>
     (\<exists>k0. \<forall>k\<ge>k0. \<forall>rest. ends_value rest \<longrightarrow> parse_value k fl (e @ rest) = Done (with_name c None, rest))"

lemma skip_at: "code (at e) > 32 \<Longrightarrow> skip (e @ s) = e @ s"
  by (cases e) (auto simp: skip_def code_def)

lemma skip_space: "\<forall>c\<in>set ws. 0 < code c \<and> code c \<le> 32 \<Longrightarrow> skip (ws @ s) = skip s"
  by (simp add: skip_def dropWhile_append3 dropWhile_append2)

lemma skip_idem [simp]: "skip (skip s) = skip s"
  by (simp add: skip_def dropWhile_idem)

lemma skip_cons: "code c > 32 \<Longrightarrow> skip (c # s) = c # s"
  by (simp add: skip_def)

lemma skip_blank: "skip (CHR '' '' # s) = skip s"
  by (simp add: skip_def code_def)

lemma those_all:
  "(\<And>c. c \<in> set cs \<Longrightarrow> \<exists>e. f c = Some e \<and> P c e) \<Longrightarrow> \<exists>es. those (map f cs) = Some es \<and> list_all2 P cs es"
proof (induction cs)
  case (Cons c cs)
  then obtain e es where "f c = Some e" "P c e" "those (map f cs) = Some es" "list_all2 P cs es"
    by (metis list.set_intros)
  then show ?case by auto
qed simp

lemma ends_value_simps [simp]: "ends_value (c # s) \<longleftrightarrow> \<not> is_digit c \<and> c \<noteq> CHR ''.'' \<and> c \<noteq> CHR ''e'' \<and> c \<noteq> CHR ''E''"
  "ends_value []"
  by (simp_all add: ends_value_def is_digit_def code_def)

lemma reads_D: "reads fl c e \<Longrightarrow> code (at e) > 32 \<and> at e \<noteq> CHR '']''"
  by (simp add: reads_def)

lemma at_append: "code (at e) > 32 \<Longrightarrow> at (e @ s) = at e"
  by (cases e) (simp_all add: code_def)

subsection \<open>The elements of an array\<close>

lemma elements_read:
  assumes "list_all2 (reads fl) cs es" and "cs \<noteq> []" and "ws = [] \<or> ws = '' ''"
  shows "\<exists>k0. \<forall>k\<ge>k0. \<forall>v rest. skip v = join (CHR '','' # ws) es @ CHR '']'' # rest \<longrightarrow>
           parse_elements k fl v = Done (map (\<lambda>c. with_name c None) cs, rest)"
  using assms(1,2)
proof (induction rule: list_all2_induct)
  case (Cons c cs e es)
  from Cons.hyps(1) obtain k1 where k1: "\<And>k rest. k1 \<le> k \<Longrightarrow> ends_value rest \<Longrightarrow>
      parse_value k fl (e @ rest) = Done (with_name c None, rest)"
    unfolding reads_def by blast
  have marks: "code (CHR '','') > 32" "code (CHR '']'') > 32" "ends_value (CHR '','' # s)"
    "ends_value (CHR '']'' # s)" for s
    by (simp_all add: code_def is_digit_def)
  show ?case
  proof (cases "es = []")
    case True
    with Cons.hyps(2) have "cs = []" by simp
    have "parse_elements k fl v = Done ([with_name c None], rest)"
      if "Suc k1 \<le> k" "skip v = e @ CHR '']'' # rest" for k v rest
    proof -
      from that(1) obtain j where "k = Suc j" "k1 \<le> j" by (cases k) auto
      with that(2) k1 marks show ?thesis by (simp add: skip_cons Let_def)
    qed
    with True \<open>cs = []\<close> show ?thesis by (intro exI [of _ "Suc k1"]) simp
  next
    case False
    with Cons.hyps(2) have "cs \<noteq> []" by auto
    with Cons.IH obtain k2 where k2: "\<And>k v rest. k2 \<le> k \<Longrightarrow> skip v = join (CHR '','' # ws) es @ CHR '']'' # rest \<Longrightarrow>
        parse_elements k fl v = Done (map (\<lambda>c. with_name c None) cs, rest)" by blast
    from False obtain e2 es2 where es: "es = e2 # es2" by (cases es) auto
    with Cons.hyps(2) have "code (at e2) > 32" by (auto simp: list_all2_Cons2 dest: reads_D)
    then have next_one: "skip (ws @ join (CHR '','' # ws) es @ s) = join (CHR '','' # ws) es @ s" for s
      using assms(3) skip_at by (cases es2) (auto simp: es skip_blank)
    have "parse_elements k fl v = Done (with_name c None # map (\<lambda>c. with_name c None) cs, rest)"
      if "Suc (max k1 k2) \<le> k" "skip v = join (CHR '','' # ws) (e # es) @ CHR '']'' # rest" for k v rest
    proof -
      from that(1) obtain j where j: "k = Suc j" "k1 \<le> j" "k2 \<le> j" by (cases k) auto
      from that(2) have "skip v = e @ CHR '','' # ws @ join (CHR '','' # ws) es @ CHR '']'' # rest"
        by (simp add: es)
      with j k1 k2 [OF j(3) next_one] marks show ?thesis by (simp add: skip_cons Let_def)
    qed
    then show ?thesis by (intro exI [of _ "Suc (max k1 k2)"]) auto
  qed
qed simp

subsection \<open>The members of an object\<close>

definition white :: "string \<Rightarrow> bool" where
  "white ws \<longleftrightarrow> (\<forall>c\<in>set ws. 0 < code c \<and> code c \<le> 32)"

lemma skip_white: "white ws \<Longrightarrow> skip (ws @ s) = skip s"
  by (simp add: white_def skip_space)

lemma white_pieces [simp]: "white []" "white (tabs n)" "white newline" "white (a @ b) \<longleftrightarrow> white a \<and> white b"
  by (auto simp: white_def tabs_def newline_def code_def)

lemma white_cases: "white ws \<Longrightarrow> ws = [] \<or> (\<exists>c s. ws = c # s \<and> code c \<le> 32)"
  by (cases ws) (auto simp: white_def)

lemma ends_white: "white ws \<Longrightarrow> ends_value s \<Longrightarrow> ends_value (ws @ s)"
  using white_cases [of ws] by (auto simp: is_digit_def code_def)

lemma name_read:
  assumes "named c" and "nm = print_text (jstring c)"
  shows "string_outcome (nm @ s) = Done (the (jstring c), s)" and "skip (nm @ s) = nm @ s"
proof -
  from assms obtain t where t: "jstring c = Some t" "nul_free t" by (auto simp: named_def split: option.splits)
  with assms(2) show "string_outcome (nm @ s) = Done (the (jstring c), s)"
    by (simp add: string_outcome_def parse_printed nul_free_def)
  from t(1) assms(2) show "skip (nm @ s) = nm @ s" by (simp add: print_text_def skip_cons code_def)
qed

definition member_reads :: "(string \<Rightarrow> int \<times> string) \<Rightarrow> cjson \<Rightarrow> string \<times> string \<Rightarrow> bool" where
  "member_reads fl c m \<longleftrightarrow> named c \<and> fst m = print_text (jstring c) \<and> reads fl c (snd m)"

text \<open>One member, up to the comma or the bracket after it.\<close>

lemma member_read:
  assumes "member_reads fl c m"
  shows "\<exists>k0. \<forall>k\<ge>k0. \<forall>v s. skip v = skip (member_text fmt d m @ s) \<and> ends_value s \<longrightarrow>
     parse_members (Suc k) fl v =
       (if at (skip s) = CHR '',''
        then bindP (parse_members k fl (tl (skip s))) (\<lambda>(cs, rest). Done (c # cs, rest))
        else if at (skip s) = CHR ''}'' then Done ([c], tl (skip s)) else Refused)"
proof -
  from assms have c: "named c" "fst m = print_text (jstring c)" by (simp_all add: member_reads_def)
  from assms obtain k1 where k1: "\<And>k rest. k1 \<le> k \<Longrightarrow> ends_value rest \<Longrightarrow>
      parse_value k fl (snd m @ rest) = Done (with_name c None, rest)" and hd: "code (at (snd m)) > 32"
    unfolding member_reads_def reads_def by blast
  have name: "with_name (with_name c None) (Some (the (jstring c))) = c"
    using c(1) by (cases c) (auto simp: with_name_def named_def split: option.splits)
  have "parse_members (Suc k) fl v =
       (if at (skip s) = CHR '',''
        then bindP (parse_members k fl (tl (skip s))) (\<lambda>(cs, rest). Done (c # cs, rest))
        else if at (skip s) = CHR ''}'' then Done ([c], tl (skip s)) else Refused)"
    if "k1 \<le> k" "skip v = skip (member_text fmt d m @ s)" "ends_value s" for k v s
  proof -
    let ?w = "if fmt then tabs 1 else []"
    have "skip v = fst m @ CHR '':'' # ?w @ snd m @ s"
      using that(2) name_read(2) [OF c] by (auto simp: member_text_def skip_white)
    moreover have "skip (?w @ snd m @ s) = snd m @ s" using skip_at [OF hd] by (simp add: skip_white)
    ultimately show ?thesis using name_read(1) [OF c] k1 [OF that(1,3)] name
      by (simp add: skip_cons code_def Let_def)
  qed
  then show ?thesis by blast
qed

lemma members_read:
  assumes "list_all2 (member_reads fl) cs ms" and "cs \<noteq> []" and "white nl" and "white cl"
  shows "\<exists>k0. \<forall>k\<ge>k0. \<forall>v rest.
     skip v = skip (join (CHR '','' # nl) (map (member_text fmt d) ms) @ cl @ CHR ''}'' # rest) \<longrightarrow>
       parse_members k fl v = Done (cs, rest)"
  using assms(1,2)
proof (induction rule: list_all2_induct)
  case (Cons c cs m ms)
  from member_read [OF Cons.hyps(1)] obtain k1 where k1: "\<And>k v s. k1 \<le> k \<Longrightarrow>
      skip v = skip (member_text fmt d m @ s) \<Longrightarrow> ends_value s \<Longrightarrow> parse_members (Suc k) fl v =
        (if at (skip s) = CHR '',''
         then bindP (parse_members k fl (tl (skip s))) (\<lambda>(cs, rest). Done (c # cs, rest))
         else if at (skip s) = CHR ''}'' then Done ([c], tl (skip s)) else Refused)"
    by blast
  have brace: "skip (cl @ CHR ''}'' # rest) = CHR ''}'' # rest" "ends_value (cl @ CHR ''}'' # rest)" for rest
    using assms(4) by (auto simp: skip_white skip_cons code_def is_digit_def intro: ends_white)
  show ?case
  proof (cases "ms = []")
    case True
    with Cons.hyps(2) have "cs = []" by simp
    have "parse_members k fl v = Done ([c], rest)"
      if "Suc k1 \<le> k" "skip v = skip (member_text fmt d m @ cl @ CHR ''}'' # rest)" for k v rest
    proof -
      from that(1) obtain j where "k = Suc j" "k1 \<le> j" by (cases k) auto
      with k1 [OF _ that(2) brace(2)] brace(1) show ?thesis by simp
    qed
    with True \<open>cs = []\<close> show ?thesis by (intro exI [of _ "Suc k1"]) simp
  next
    case False
    with Cons.hyps(2) have "cs \<noteq> []" by auto
    let ?more = "join (CHR '','' # nl) (map (member_text fmt d) ms)"
    from \<open>cs \<noteq> []\<close> Cons.IH obtain k2 where k2: "\<And>k v rest. k2 \<le> k \<Longrightarrow>
        skip v = skip (?more @ cl @ CHR ''}'' # rest) \<Longrightarrow> parse_members k fl v = Done (cs, rest)"
      by blast
    have "parse_members k fl v = Done (c # cs, rest)"
      if "Suc (max k1 k2) \<le> k"
        "skip v = skip (join (CHR '','' # nl) (map (member_text fmt d) (m # ms)) @ cl @ CHR ''}'' # rest)"
      for k v rest
    proof -
      from that(1) obtain j where j: "k = Suc j" "k1 \<le> j" "k2 \<le> j" by (cases k) auto
      let ?s = "CHR '','' # nl @ ?more @ cl @ CHR ''}'' # rest"
      have "skip v = skip (member_text fmt d m @ ?s)" using that(2) False by (cases ms) auto
      then have "parse_members (Suc j) fl v =
          bindP (parse_members j fl (nl @ ?more @ cl @ CHR ''}'' # rest)) (\<lambda>(cs, rest). Done (c # cs, rest))"
        using k1 [OF j(2), of v ?s] by (simp add: skip_cons code_def is_digit_def)
      then show ?thesis using j(1) k2 [OF j(3), of "nl @ ?more @ cl @ CHR ''}'' # rest" rest] assms(3)
        by (simp add: skip_white)
    qed
    then show ?thesis by (intro exI [of _ "Suc (max k1 k2)"]) auto
  qed
qed simp

section \<open>Whole values\<close>

lemma with_name_same: "with_name c (jstring c) = c"
  by (cases c) (simp add: with_name_def)

lemma parse_value_bracket:
  "parse_value (Suc k) fl (CHR ''['' # s) =
     (let v = skip s in
      if at v = CHR '']'' then Done (Cjson cJSON_Array [] None 0 None, tl v)
      else bindP (parse_elements k fl v) (\<lambda>(cs, rest). Done (Cjson cJSON_Array cs None 0 None, rest)))"
  "parse_value (Suc k) fl (CHR ''{'' # s) =
     (let v = skip s in
      if at v = CHR ''}'' then Done (Cjson cJSON_Object [] None 0 None, tl v)
      else bindP (parse_members k fl v) (\<lambda>(cs, rest). Done (Cjson cJSON_Object cs None 0 None, rest)))"
  by (simp_all add: is_digit_def code_def)

lemma readsI:
  assumes "code (at e) > 32" and "at e \<noteq> CHR '']''"
    and "\<And>k rest. k0 \<le> k \<Longrightarrow> ends_value rest \<Longrightarrow> parse_value (Suc k) fl (e @ rest) = Done (with_name c None, rest)"
  shows "reads fl c e"
proof -
  have "parse_value k fl (e @ rest) = Done (with_name c None, rest)" if "Suc k0 \<le> k" "ends_value rest" for k rest
    using assms(3) [of "k - 1" rest] that by (cases k) auto
  with assms(1,2) show ?thesis unfolding reads_def by blast
qed

lemma array_reads:
  assumes "list_all2 (reads fl) cs es" and "\<forall>c\<in>set cs. jstring c = None"
  shows "reads fl (Cjson cJSON_Array cs None 0 nm) (array_text fmt es)"
proof -
  let ?ws = "if fmt then '' '' else []"
  have shape: "array_text fmt es @ rest = CHR ''['' # join (CHR '','' # ?ws) es @ CHR '']'' # rest" for rest
    by (simp add: array_text_def)
  have unnamed: "map (\<lambda>c. with_name c None) cs = cs"
    using assms(2) by (metis (no_types, lifting) map_idI with_name_same)
  have name: "with_name (Cjson cJSON_Array cs None 0 nm) None = Cjson cJSON_Array cs None 0 None"
    by (simp add: with_name_def)
  have hd: "code (at (array_text fmt es)) > 32" "at (array_text fmt es) \<noteq> CHR '']''"
    by (simp_all add: array_text_def code_def)
  show ?thesis
  proof (cases "cs = []")
    case True
    with assms(1) have "es = []" by simp
    show ?thesis
      by (rule readsI [OF hd, of 0]) (simp only: shape name, simp add: parse_value_bracket True \<open>es = []\<close> skip_cons code_def del: parse_value.simps)
  next
    case False
    have "?ws = [] \<or> ?ws = '' ''" by simp
    from elements_read [OF assms(1) False this] unnamed obtain k0 where k0: "\<And>k v rest. k0 \<le> k \<Longrightarrow>
        skip v = join (CHR '','' # ?ws) es @ CHR '']'' # rest \<Longrightarrow> parse_elements k fl v = Done (cs, rest)"
      by (auto simp only:)
    from False assms(1) obtain c cs' e es' where es: "es = e # es'" "reads fl c e"
      by (cases cs; cases es) auto
    have skip: "skip (join (CHR '','' # ?ws) es @ s) = join (CHR '','' # ?ws) es @ s
        \<and> at (join (CHR '','' # ?ws) es @ s) \<noteq> CHR '']''" for s
      using reads_D [OF es(2)] skip_at [of e] at_append [of e] by (cases es') (auto simp: es(1))
    show ?thesis
    proof (rule readsI [OF hd, of k0])
      fix k :: nat and rest :: string
      assume "k0 \<le> k"
      then have "parse_elements k fl (join (CHR '','' # ?ws) es @ CHR '']'' # rest) = Done (cs, rest)"
        by (rule k0) (simp only: skip)
      then show "parse_value (Suc k) fl (array_text fmt es @ rest) =
          Done (with_name (Cjson cJSON_Array cs None 0 nm) None, rest)"
        unfolding shape parse_value_bracket Let_def name using skip [of "CHR '']'' # rest"]
        by (simp del: parse_value.simps)
    qed
  qed
qed

lemma object_reads:
  assumes "list_all2 (member_reads fl) cs ms"
  shows "reads fl (Cjson cJSON_Object cs None 0 nm) (object_text fmt d ms)"
proof -
  let ?nl = "if fmt then newline else []"
  let ?cl = "(if fmt \<and> ms \<noteq> [] then newline else []) @ (if fmt then tabs (d - 1) else [])"
  let ?body = "join (CHR '','' # ?nl) (map (member_text fmt d) ms)"
  have shape: "object_text fmt d ms @ rest = CHR ''{'' # ?nl @ ?body @ ?cl @ CHR ''}'' # rest" for rest
    by (simp add: object_text_def)
  have white: "white ?nl" "white ?cl" by simp_all
  have name: "with_name (Cjson cJSON_Object cs None 0 nm) None = Cjson cJSON_Object cs None 0 None"
    by (simp add: with_name_def)
  have hd: "code (at (object_text fmt d ms)) > 32" "at (object_text fmt d ms) \<noteq> CHR '']''"
    by (simp_all add: object_text_def code_def)
  show ?thesis
  proof (cases "cs = []")
    case True
    with assms have ms: "ms = []" by simp
    have "skip (?nl @ ?body @ ?cl @ CHR ''}'' # rest) = CHR ''}'' # rest" for rest
      using ms white by (simp only: skip_white) (simp add: skip_white skip_cons code_def)
    then show ?thesis
      by (intro readsI [OF hd, of 0]) (simp only: shape name parse_value_bracket, simp add: True)
  next
    case False
    from members_read [OF assms False white] obtain k0 where k0: "\<And>k v rest. k0 \<le> k \<Longrightarrow>
        skip v = skip (?body @ ?cl @ CHR ''}'' # rest) \<Longrightarrow> parse_members k fl v = Done (cs, rest)"
      by blast
    from False assms obtain c m ms' where ms: "ms = m # ms'" "member_reads fl c m"
      by (cases cs; cases ms) auto
    then have name_first: "at (skip (member_text fmt d m @ s)) = CHR 0x22" for s
      using name_read(2) [of c "fst m"]
      by (auto simp: member_reads_def member_text_def skip_white print_text_def named_def split: option.splits)
    have first: "at (skip (?nl @ ?body @ s)) \<noteq> CHR ''}''" for s
      using name_first by (cases ms') (simp_all add: ms(1) skip_white)
    show ?thesis
    proof (rule readsI [OF hd, of k0])
      fix k :: nat and rest :: string
      assume "k0 \<le> k"
      then have "parse_members k fl (skip (?nl @ ?body @ ?cl @ CHR ''}'' # rest)) = Done (cs, rest)"
        by (rule k0) (simp add: skip_white)
      then show "parse_value (Suc k) fl (object_text fmt d ms @ rest) =
          Done (with_name (Cjson cJSON_Object cs None 0 nm) None, rest)"
        unfolding shape parse_value_bracket Let_def name using first [of "?cl @ CHR ''}'' # rest"]
        by simp
    qed
  qed
qed

lemma parse_value_number:
  assumes "at v = CHR ''-'' \<or> is_digit (at v)"
  shows "parse_value (Suc k) fl v = Done (parse_number fl v)"
proof -
  from assms obtain x s where v: "v = x # s" by (cases v) (auto simp: is_digit_def code_def)
  have "x \<noteq> CHR ''n''" "x \<noteq> CHR ''f''" "x \<noteq> CHR ''t''" "x \<noteq> CHR 0x22"
    using assms by (auto simp: v is_digit_def code_def)
  then show ?thesis using assms by (simp add: v)
qed

lemma number_reads:
  assumes "\<bar>n\<bar> < 2147483648"
  shows "reads fl (Cjson cJSON_Number [] None n nm) (show_int n)"
proof -
  have start: "at (show_int n) = CHR ''-'' \<or> is_digit (at (show_int n))"
    using show_nat_digits [of "hd (show_nat (nat n))" "nat n"] show_nat_nonempty [of "nat n"]
    by (cases "show_nat (nat n)") (auto simp: show_int_def)
  then have "at (show_int n @ rest) = at (show_int n)" for rest
    by (cases "show_int n") (auto simp: is_digit_def code_def)
  with start have "at (show_int n @ rest) = CHR ''-'' \<or> is_digit (at (show_int n @ rest))" for rest
    by simp
  then have parse: "parse_value (Suc k) fl (show_int n @ rest) = Done (parse_number fl (show_int n @ rest))" for k rest
    by (rule parse_value_number)
  have "code (at (show_int n)) > 32" "at (show_int n) \<noteq> CHR '']''"
    using start by (auto simp: is_digit_def code_def)
  then show ?thesis
    by (rule readsI [of _ 0]) (simp add: parse parse_show_int assms with_name_def del: parse_value.simps)
qed

lemma parse_value_quote:
  "parse_value (Suc k) fl (CHR 0x22 # v)
     = bindP (string_outcome (CHR 0x22 # v)) (\<lambda>(s, rest). Done (Cjson cJSON_String [] (Some s) 0 None, rest))"
  by simp

lemma string_reads:
  assumes "nul_free s"
  shows "reads fl (Cjson cJSON_String [] (Some s) 0 nm) (print_text (Some s))"
proof -
  obtain q where q: "print_text (Some s) = CHR 0x22 # q" by (simp add: print_text_def)
  have out: "string_outcome (CHR 0x22 # q @ rest) = Done (s, rest)" for rest
    using assms parse_printed [of s rest] by (simp add: string_outcome_def nul_free_def q)
  show ?thesis
    unfolding q
    by (rule readsI [of _ 0]) (simp_all add: with_name_def code_def parse_value_quote out del: parse_value.simps)
qed

text \<open>Every well-formed value is printed, and its text reads as the value.\<close>

lemma literal_reads:
  "reads fl (Cjson cJSON_NULL [] None 0 nm) ''null''"
  "reads fl (Cjson cJSON_False [] None 0 nm) ''false''"
  "reads fl (Cjson (Suc 0) [] None 1 nm) ''true''"
  by (rule readsI [of _ 0]; simp add: with_name_def code_def)+

lemma print_reads: "wf_json c \<Longrightarrow> \<exists>e. print_value fmt d c = Some e \<and> reads fl c e"
proof (induction c arbitrary: d)
  case (Cjson t cs vs n nm)
  have children: "\<exists>es. those (map (print_value fmt (d + 1)) cs) = Some es \<and> list_all2 (reads fl) cs es"
    if "\<forall>c\<in>set cs. wf_json c"
    using those_all [of cs "print_value fmt (d + 1)" "reads fl"] Cjson.IH that by blast
  from Cjson.prems consider "t = cJSON_NULL" "cs = []" "vs = None" "n = 0"
    | "t = cJSON_False" "cs = []" "vs = None" "n = 0" | "t = cJSON_True" "cs = []" "vs = None" "n = 1"
    | "t = cJSON_Number" "cs = []" "vs = None" "\<bar>n\<bar> < 2147483648"
    | s where "t = cJSON_String" "cs = []" "vs = Some s" "nul_free s" "n = 0"
    | "t = cJSON_Array" "vs = None" "n = 0" "\<forall>c\<in>set cs. wf_json c" "\<forall>c\<in>set cs. jstring c = None"
    | "t = cJSON_Object" "vs = None" "n = 0" "\<forall>c\<in>set cs. wf_json c" "\<forall>c\<in>set cs. named c"
    by auto
  then show ?case
  proof cases
    case 1
    then show ?thesis by (simp add: literal_reads)
  next
    case 2
    then show ?thesis by (simp add: literal_reads)
  next
    case 3
    then show ?thesis by (simp add: literal_reads)
  next
    case 4
    then show ?thesis by (simp add: number_reads print_number_def)
  next
    case 5
    then show ?thesis by (simp add: string_reads)
  next
    case 6
    with children obtain es where "those (map (print_value fmt (d + 1)) cs) = Some es" "list_all2 (reads fl) cs es"
      by blast
    with 6 array_reads [OF this(2) 6(5)] show ?thesis by simp
  next
    case 7
    with children obtain es where es: "those (map (print_value fmt (d + 1)) cs) = Some es" "list_all2 (reads fl) cs es"
      by blast
    have "list_all2 (member_reads fl) cs (zip (map (\<lambda>c. print_text (jstring c)) cs) es)"
      using es(2) 7(5) by (auto simp: list_all2_conv_all_nth member_reads_def)
    with 7 es(1) object_reads show ?thesis by simp
  qed
qed

lemma print_parse:
  assumes "wf_json j" and "jstring j = None" and "fl_ok fl"
  shows "\<exists>e. print_value fmt 0 j = Some e \<and> e \<noteq> [] \<and> cJSON_Parse fl e = Done j"
proof -
  obtain e where e: "print_value fmt 0 j = Some e" "reads fl j e" using print_reads [OF assms(1)] by blast
  then obtain k0 where k0: "\<And>k. k0 \<le> k \<Longrightarrow> parse_value k fl (e @ []) = Done (with_name j None, [])"
    unfolding reads_def using ends_value_simps(2) by blast
  let ?k = "2 * length e + 2"
  have "parse_value ?k fl e \<noteq> NoFuel" using parse_fuel [OF assms(3), of ?k] by simp
  then have "parse_value ?k fl e = parse_value (max k0 ?k) fl e"
    by (metis max.cobounded2 parse_value_fuel)
  also have "\<dots> = Done (j, [])" using k0 [of "max k0 ?k"] assms(2) with_name_same [of j] by simp
  finally have "cJSON_Parse fl e = Done j"
    using skip_at [of e "[]"] reads_D [OF e(2)] by (simp add: cJSON_Parse_def)
  moreover have "e \<noteq> []" using reads_D [OF e(2)] by (auto simp: code_def)
  ultimately show ?thesis using e(1) by blast
qed

text \<open>
  C7.  Round trip: every value of nulls, booleans, integers, strings, arrays and objects is printed by
  \<open>cJSON_Print\<close> and by \<open>cJSON_PrintUnformatted\<close>, and \<open>cJSON_Parse\<close> reads either text back as the
  very same tree, names, order and nesting included, with the fuel it is given.
\<close>

theorem json_roundtrip:
  assumes "wf_json j" and "jstring j = None" and "fl_ok fl"
  shows "\<exists>pretty plain. cJSON_Print j = Some pretty \<and> cJSON_Parse fl pretty = Done j
    \<and> cJSON_PrintUnformatted j = Some plain \<and> cJSON_Parse fl plain = Done j"
  unfolding cJSON_Print_def cJSON_PrintUnformatted_def using print_parse [OF assms] by blast

theorem json_roundtrip_witness:
  "\<exists>pretty plain. cJSON_Print (Cjson cJSON_Object
       [Cjson cJSON_Array [Cjson cJSON_Number [] None (-7) None, Cjson cJSON_True [] None 1 None] None 0 (Some ''a''),
        Cjson cJSON_String [] (Some ''x'') 0 (Some ''b'')] None 0 None) = Some pretty
    \<and> cJSON_Parse (\<lambda>s. (0, tl s)) pretty = Done (Cjson cJSON_Object
       [Cjson cJSON_Array [Cjson cJSON_Number [] None (-7) None, Cjson cJSON_True [] None 1 None] None 0 (Some ''a''),
        Cjson cJSON_String [] (Some ''x'') 0 (Some ''b'')] None 0 None)
    \<and> cJSON_PrintUnformatted (Cjson cJSON_Object
       [Cjson cJSON_Array [Cjson cJSON_Number [] None (-7) None, Cjson cJSON_True [] None 1 None] None 0 (Some ''a''),
        Cjson cJSON_String [] (Some ''x'') 0 (Some ''b'')] None 0 None) = Some plain
    \<and> cJSON_Parse (\<lambda>s. (0, tl s)) plain = Done (Cjson cJSON_Object
       [Cjson cJSON_Array [Cjson cJSON_Number [] None (-7) None, Cjson cJSON_True [] None 1 None] None 0 (Some ''a''),
        Cjson cJSON_String [] (Some ''x'') 0 (Some ''b'')] None 0 None)"
  by (rule json_roundtrip) (simp_all add: named_def nul_free_def fl_ok_def code_def)

end
