(* ===== verification/Monitor.thy ===== *)
theory Monitor
  imports Dungeon_Safety Worker_Threads Cjson_Io Cjson_Roundtrip Conf
begin

text \<open>
  The report of the dungeon and the thread that sends it: \<open>dungeon_serialize\<close> (\<open>src/src/dungeon.c\<close>)
  with \<open>queue_info_json\<close> and \<open>cpuset_to_cjson\<close>, and \<open>src/src/thr_monitor.c\<close>.
\<close>

section \<open>The report\<close>

primrec add_numbers :: "cjson \<Rightarrow> (string \<times> u32) list \<Rightarrow> ub + cjson" where
  "add_numbers obj [] = Inr obj"
| "add_numbers obj (m # ms) = bindE (add_number obj (fst m) (uint (snd m))) (\<lambda>obj. add_numbers obj ms)"

definition queue_info_json :: "'a queue_st \<Rightarrow> ub + cjson" where
  "queue_info_json q = add_numbers cJSON_CreateObject (queue_info q)"

definition cpuset_to_cjson :: "(nat \<Rightarrow> bool) \<Rightarrow> nat \<Rightarrow> ub + cjson" where
  "cpuset_to_cjson cpus mx = cJSON_CreateString (Some (map (\<lambda>i. if CPU_ISSET i cpus then CHR ''O'' else CHR ''.'') [0..<mx]))"

text \<open>
  The members of \<open>dungeon_t\<close> that only the report uses: the text \<open>strftime\<close> makes of the creation
  time, its microseconds, the number of workers and the processors of the process.
\<close>

record report_env =
  re_created :: string
  re_usec :: int
  re_workers :: int
  re_cpuset :: "nat \<Rightarrow> bool"

text \<open>\<open>snprintf(secbuf, 16, ".%u", (unsigned int) usec*1000/1000000)\<close>\<close>

definition secbuf :: "int \<Rightarrow> string" where
  "secbuf usec = CHR ''.'' # show_nat (unat ((word_of_int usec :: u32) * 1000) div 1000000)"

definition dungeon_serialize :: "'m dungeon \<Rightarrow> report_env \<Rightarrow> workers \<Rightarrow> ub + cjson" where
  "dungeon_serialize d env w =
     (let timebuf = re_created env @ secbuf (re_usec env) in
      if length timebuf + 1 > 1024 then Inl OutOfBounds else
      bindE (cJSON_CreateString (Some timebuf)) (\<lambda>t.
      let result = cJSON_AddItemToObject cJSON_CreateObject ''CreateTime'' (Some t) in
      bindE (add_number result ''MaxImps'' (nr_max d)) (\<lambda>result.
      bindE (add_number result ''CurrentImps'' (nr_total d)) (\<lambda>result.
      bindE (add_number result ''SleepingImps'' (nr_waitio d)) (\<lambda>result.
      bindE (add_number result ''CurrentImpID'' (uint (next_imp_id d))) (\<lambda>result.
      bindE (add_number result ''NumWorkerThreads'' (re_workers env)) (\<lambda>result.
      bindE (cpuset_to_cjson (re_cpuset env) 24) (\<lambda>cs.
      let result = cJSON_AddItemToObject result ''CPUSET'' (Some cs) in
      bindE (thr_worker_serialize w) (\<lambda>ws.
      let result = cJSON_AddItemToObject result ''Workers'' (Some ws) in
      bindE (queue_info_json (run_queue d)) (\<lambda>rq.
      let result = cJSON_AddItemToObject result ''RunQueue'' (Some rq) in
      bindE (queue_info_json (terminated_queue d)) (\<lambda>tq.
      Inr (cJSON_AddItemToObject result ''TerminatedQueue'' (Some tq)))))))))))))"

section \<open>The monitor thread\<close>

text \<open>
  One turn of the loop of \<open>thr_monitor\<close>: what \<open>accept\<close> and the calls of \<open>write\<close> answer, and the
  report.  The result is what was sent and the descriptors closed; \<open>None\<close>: the writes do not end.
\<close>

definition thr_monitor_turn ::
  "int \<Rightarrow> ub + cjson \<Rightarrow> (int \<times> int) list \<Rightarrow> ub + (string \<times> int list) option" where
  "thr_monitor_turn newsd report ws =
     (if newsd < 0 then Inr (Some ([], []))
      else
        bindE report (\<lambda>rep.
        let status = cJSON_AddItemToObject cJSON_CreateObject ''Dungeon'' (Some rep) in
        bindE (cJSON_fdPrint (cJSON_Print status) ws) (\<lambda>r.
        Inr (case r of None \<Rightarrow> None | Some (ret, out) \<Rightarrow> Some (out, [newsd])))))"

text \<open>The variable \<open>monitor_sd\<close> with the port it is bound to, whether it is open, and the thread.\<close>

record monitor_state =
  monitor_sd :: int
  mon_open :: bool
  mon_port :: "16 word option"
  mon_alive :: bool

definition monitor_start :: monitor_state where
  "monitor_start = \<lparr>monitor_sd = 0, mon_open = False, mon_port = None, mon_alive = False\<rparr>"

text \<open>The calls: the descriptor of \<open>socket\<close>, or its errno negated, and the errno of the others.\<close>

record monitor_calls =
  mc_socket :: int
  mc_socket_errno :: int
  mc_bind_errno :: int
  mc_listen_errno :: int
  mc_create_err :: int

definition thr_monitor_init :: "conf_state \<Rightarrow> monitor_calls \<Rightarrow> monitor_state \<Rightarrow> ub + int \<times> monitor_state" where
  "thr_monitor_init cst mc m =
     (let m = m\<lparr>monitor_sd := mc_socket mc\<rparr> in
      if monitor_sd m < 0 then Inr (- mc_socket_errno mc, m)
      else
        let m = m\<lparr>mon_open := True\<rparr> in
        bindE (conf_get_monitor_port cst) (\<lambda>port.
        let port = (if port < 0 then DEFAULT_MONITOR_PORT else port) in
        if mc_bind_errno mc \<noteq> 0 then Inr (- mc_bind_errno mc, m)
        else
          let m = m\<lparr>mon_port := Some (word_of_int port)\<rparr> in
          if mc_listen_errno mc \<noteq> 0 then Inr (- mc_listen_errno mc, m)
          else if mc_create_err mc \<noteq> 0 then Inr (- mc_create_err mc, m)
          else Inr (0, m\<lparr>mon_alive := True\<rparr>)))"

text \<open>Joining a thread that was never created is undefined.\<close>

definition thr_monitor_destroy :: "monitor_state \<Rightarrow> ub + int \<times> monitor_state" where
  "thr_monitor_destroy m =
     (if \<not> mon_alive m then Inl Uninitialised else Inr (0, m\<lparr>mon_alive := False, mon_open := False\<rparr>))"

section \<open>What the report says\<close>

text \<open>Every number of the report is an \<open>int\<close> that is not negative, every field of a worker is set.\<close>

definition complete_info :: "worker_info \<Rightarrow> bool" where
  "complete_info info \<longleftrightarrow> pred_option (\<lambda>n. 0 \<le> n \<and> n < 2147483648) (loop_count info) \<and> loop_count info \<noteq> None
     \<and> pred_option (\<lambda>n. 0 \<le> n \<and> n < 2147483648) (epoll_timeout_ms info) \<and> epoll_timeout_ms info \<noteq> None
     \<and> pred_option (\<lambda>c. c < CPU_SETSIZE) (cpubind info) \<and> cpubind info \<noteq> None"

definition small :: "u32 \<Rightarrow> bool" where
  "small n \<longleftrightarrow> uint n < 2147483648"

definition small_queue :: "'a queue_st \<Rightarrow> bool" where
  "small_queue q \<longleftrightarrow> small (q_max q) \<and> small (q_nr q) \<and> small (en_count q) \<and> small (de_count q)"

definition printable :: "'m dungeon \<Rightarrow> report_env \<Rightarrow> workers \<Rightarrow> bool" where
  "printable d env w \<longleftrightarrow> num_thr w < 2147483648 \<and> nr_max d < 2147483648 \<and> small (next_imp_id d)
     \<and> 0 \<le> re_workers env \<and> re_workers env < 2147483648
     \<and> list_all (\<lambda>c. code c \<noteq> 0) (re_created env) \<and> length (re_created env) \<le> 1000
     \<and> small_queue (run_queue d) \<and> small_queue (terminated_queue d)
     \<and> (case info_thr w of None \<Rightarrow> num_thr w = 0
        | Some infos \<Rightarrow> num_thr w \<le> length infos \<and> list_all complete_info (take (num_thr w) infos))"

definition number :: "string \<Rightarrow> int \<Rightarrow> cjson" where
  "number s n = Cjson cJSON_Number [] None n (Some s)"

lemma add_number_to:
  "0 \<le> n \<Longrightarrow> n < 2147483648 \<Longrightarrow>
     add_number (Cjson cJSON_Object cs None 0 nm) s n = Inr (Cjson cJSON_Object (cs @ [number s n]) None 0 nm)"
  by (simp add: add_number_def cJSON_AddItemToObject_def cJSON_AddItemToArray_def with_child_def with_name_def
      cJSON_CreateNumber_def number_def)

lemma add_item_to:
  "cJSON_AddItemToObject (Cjson cJSON_Object cs None 0 nm) s (Some (Cjson t cs' v n nm'))
     = Cjson cJSON_Object (cs @ [Cjson t cs' v n (Some s)]) None 0 nm"
  by (simp add: cJSON_AddItemToObject_def cJSON_AddItemToArray_def with_child_def with_name_def)

lemma wf_number: "0 \<le> n \<Longrightarrow> n < 2147483648 \<Longrightarrow> wf_json (number s n)" "jstring (number s n) = Some s"
  by (simp_all add: number_def)

lemma names_nul_free:
  "list_all nul_free [''volume'', ''nr_data'', ''enqueue'', ''dequeue'', ''WorkerID'', ''LoopCount'', ''EPOLLTimeOut_ms'',
     ''CPUBind'', ''CreateTime'', ''MaxImps'', ''CurrentImps'', ''SleepingImps'', ''CurrentImpID'', ''NumWorkerThreads'',
     ''CPUSET'', ''Workers'', ''RunQueue'', ''TerminatedQueue'', ''Dungeon'']"
  by code_simp

definition queue_report :: "'a queue_st \<Rightarrow> cjson" where
  "queue_report q = Cjson cJSON_Object [number ''volume'' (uint (q_max q)), number ''nr_data'' (uint (q_nr q)),
     number ''enqueue'' (uint (en_count q)), number ''dequeue'' (uint (de_count q))] None 0 None"

lemma queue_json:
  assumes "small_queue q"
  shows "queue_info_json q = Inr (queue_report q)" and "wf_json (with_name (queue_report q) (Some s))"
  using assms names_nul_free
  by (simp_all add: queue_info_json_def queue_info_def queue_size_def cJSON_CreateObject_def add_number_to
      queue_report_def with_name_def wf_number named_def small_queue_def small_def)

lemma worker_json:
  assumes "complete_info info" and "i < 2147483648"
  shows "\<exists>j. worker_item i info = Inr j \<and> wf_json j \<and> jstring j = None"
proof -
  obtain l t c where info: "loop_count info = Some l" "epoll_timeout_ms info = Some t" "cpubind info = Some c"
    "0 \<le> l" "l < 2147483648" "0 \<le> t" "t < 2147483648" "c < CPU_SETSIZE"
    using assms(1) by (auto simp: complete_info_def)
  then have "worker_item i info = Inr (Cjson cJSON_Object [number ''WorkerID'' (int i), number ''LoopCount'' l,
      number ''EPOLLTimeOut_ms'' t, number ''CPUBind'' (int c)] None 0 None)"
    by (simp add: worker_item_def cJSON_CreateObject_def cJSON_CreateNumber_def add_item_to number_def)
  with info assms(2) names_nul_free show ?thesis by (simp add: wf_number named_def)
qed

lemma worker_items_json:
  "list_all complete_info infos \<Longrightarrow> i + length infos < 2147483648 \<Longrightarrow> \<forall>c\<in>set cs. wf_json c \<and> jstring c = None \<Longrightarrow>
     \<exists>ws. worker_items i infos (Cjson cJSON_Array cs None 0 None) = Inr (Cjson cJSON_Array ws None 0 None)
       \<and> (\<forall>c\<in>set ws. wf_json c \<and> jstring c = None) \<and> length ws = length cs + length infos"
proof (induction infos arbitrary: i cs)
  case (Cons info infos)
  then have "complete_info info" "i < 2147483648" by simp_all
  from worker_json [OF this] obtain j where j: "worker_item i info = Inr j" "wf_json j" "jstring j = None" by blast
  have "Suc i + length infos < 2147483648" "list_all complete_info infos"
    "\<forall>c\<in>set (cs @ [j]). wf_json c \<and> jstring c = None" using Cons.prems j by auto
  from Cons.IH [OF this(2,1,3)] obtain ws where
    "worker_items (Suc i) infos (Cjson cJSON_Array (cs @ [j]) None 0 None) = Inr (Cjson cJSON_Array ws None 0 None)"
    "\<forall>c\<in>set ws. wf_json c \<and> jstring c = None" "length ws = length (cs @ [j]) + length infos" by blast
  with j(1) show ?case by (intro exI [of _ ws]) (simp add: cJSON_AddItemToArray_def with_child_def)
qed simp

lemma workers_json:
  assumes "printable d env w"
  shows "\<exists>ws. thr_worker_serialize w = Inr (Cjson cJSON_Array ws None 0 None)
     \<and> (\<forall>c\<in>set ws. wf_json c \<and> jstring c = None) \<and> length ws = num_thr w"
proof (cases "info_thr w")
  case None
  with assms(1) show ?thesis by (simp add: printable_def thr_worker_serialize_def cJSON_CreateArray_def)
next
  case (Some infos)
  with assms have "num_thr w \<le> length infos" "list_all complete_info (take (num_thr w) infos)" "num_thr w < 2147483648"
    by (simp_all add: printable_def)
  with worker_items_json [of "take (num_thr w) infos" 0 "[]"] Some show ?thesis
    by (simp add: thr_worker_serialize_def cJSON_CreateArray_def min_absorb2)
qed

lemma show_nat_nul_free: "nul_free (show_nat n)"
proof -
  have "code c \<noteq> 0" if "c \<in> set (show_nat n)" for c
    using show_nat_digits [OF that] by (auto simp: is_digit_def code_def)
  then show ?thesis by (simp add: nul_free_def)
qed

text \<open>The tree the report is, and that it prints.\<close>

definition report_tree :: "'m dungeon \<Rightarrow> report_env \<Rightarrow> cjson list \<Rightarrow> cjson" where
  "report_tree d env ws = Cjson cJSON_Object
     [Cjson cJSON_String [] (Some (re_created env @ secbuf (re_usec env))) 0 (Some ''CreateTime''),
      number ''MaxImps'' (nr_max d), number ''CurrentImps'' (nr_total d), number ''SleepingImps'' (nr_waitio d),
      number ''CurrentImpID'' (uint (next_imp_id d)), number ''NumWorkerThreads'' (re_workers env),
      Cjson cJSON_String [] (Some (map (\<lambda>i. if CPU_ISSET i (re_cpuset env) then CHR ''O'' else CHR ''.'') [0..<24])) 0
        (Some ''CPUSET''),
      Cjson cJSON_Array ws None 0 (Some ''Workers''),
      with_name (queue_report (run_queue d)) (Some ''RunQueue''),
      with_name (queue_report (terminated_queue d)) (Some ''TerminatedQueue'')] None 0 None"

lemma secbuf_short: "length (secbuf usec) \<le> 5"
proof -
  have "unat ((word_of_int usec :: u32) * 1000) div 1000000 < 10 ^ 4"
    using unsigned_less [of "(word_of_int usec :: u32) * 1000", where ?'a = nat] by simp
  from length_show_nat [OF this] show ?thesis by (simp add: secbuf_def)
qed

lemma report_counts:
  assumes "dungeon_inv [] d" and "printable d env w"
  shows "0 \<le> nr_total d" "nr_total d < 2147483648" "0 \<le> nr_waitio d" "nr_waitio d < 2147483648"
    "0 \<le> nr_max d" "nr_max d < 2147483648"
proof -
  note D = dungeon_invD [OF assms(1)]
  have "sleepers d \<subseteq> dom (imps d)" by (auto simp: sleepers_def)
  then have "card (sleepers d) \<le> card (dom (imps d))" using D(4) by (simp add: card_mono)
  with D(5-7) assms(2) show "0 \<le> nr_total d" "nr_total d < 2147483648" "0 \<le> nr_waitio d" "nr_waitio d < 2147483648"
    "0 \<le> nr_max d" "nr_max d < 2147483648" by (simp_all add: printable_def)
qed

lemma serialize_tree:
  assumes "dungeon_inv [] d" and "printable d env w"
  shows "\<exists>ws. dungeon_serialize d env w = Inr (report_tree d env ws) \<and> wf_json (with_name (report_tree d env ws) (Some ''Dungeon''))
     \<and> length ws = num_thr w"
proof -
  from workers_json [OF assms(2)] obtain ws where
    ws: "thr_worker_serialize w = Inr (Cjson cJSON_Array ws None 0 None)" "\<forall>c\<in>set ws. wf_json c \<and> jstring c = None"
      "length ws = num_thr w" by blast
  have queues: "small_queue (run_queue d)" "small_queue (terminated_queue d)" "small (next_imp_id d)"
    "0 \<le> re_workers env" "re_workers env < 2147483648" "nul_free (re_created env)" "length (re_created env) \<le> 1000"
    using assms(2) by (simp_all add: printable_def nul_free_def list_all_iff)
  have q: "with_name (queue_report q) s = Cjson cJSON_Object (jchild (queue_report q)) None 0 s"
    "queue_report q = Cjson cJSON_Object (jchild (queue_report q)) None 0 None" for q :: "'b queue_st" and s
    by (simp_all add: queue_report_def with_name_def)
  have add_q: "cJSON_AddItemToObject (Cjson cJSON_Object cs None 0 None) s (Some (queue_report q))
      = Cjson cJSON_Object (cs @ [with_name (queue_report q) (Some s)]) None 0 None" for q :: "'b queue_st" and cs s
    by (simp add: queue_report_def with_name_def add_item_to)
  have "dungeon_serialize d env w = Inr (report_tree d env ws)"
    using report_counts [OF assms] queues secbuf_short [of "re_usec env"] ws(1)
    by (simp add: dungeon_serialize_def cJSON_CreateString_def cpuset_to_cjson_def cJSON_CreateObject_def
        add_item_to add_number_to queue_json add_q report_tree_def small_def)
  moreover have "nul_free (secbuf u)" for u
    using show_nat_nul_free by (auto simp: secbuf_def nul_free_def code_def)
  then have "nul_free (re_created env @ secbuf (re_usec env))" using queues(6) by (auto simp: nul_free_def)
  moreover have "nul_free (map (\<lambda>i. if P i then CHR ''O'' else CHR ''.'') xs)" for P and xs :: "nat list"
    by (auto simp: nul_free_def code_def)
  ultimately have "wf_json (with_name (report_tree d env ws) (Some ''Dungeon''))"
    using report_counts [OF assms] queues ws(2) names_nul_free
    by (simp add: report_tree_def with_name_def [of "Cjson _ _ _ _ _"] wf_number queue_json(2) named_def small_def)
  with \<open>dungeon_serialize d env w = Inr (report_tree d env ws)\<close> ws(3) show ?thesis by blast
qed

lemma report_members:
  "map_option jvalueint (first_member (report_tree d env ws) ''CurrentImps'') = Some (nr_total d)"
  "map_option jvalueint (first_member (report_tree d env ws) ''SleepingImps'') = Some (nr_waitio d)"
  "map_option (length \<circ> jchild) (first_member (report_tree d env ws) ''Workers'') = Some (length ws)"
  "first_member (report_tree d env ws) ''RunQueue'' = Some (with_name (queue_report (run_queue d)) (Some ''RunQueue''))"
  "map_option jvalueint (first_member (with_name (queue_report q) s) ''nr_data'') = Some (uint (q_nr q))"
  by (simp_all add: report_tree_def first_member_def number_def queue_report_def cJSON_strcasecmp_def tolower_def)

lemma report_sent:
  assumes "str \<noteq> []" and "0 \<le> newsd"
    and "cJSON_Print (cJSON_AddItemToObject cJSON_CreateObject ''Dungeon'' (Some rep)) = Some str"
  shows "thr_monitor_turn newsd (Inr rep) [(int (length str), 0)] = Inr (Some (str, [newsd]))"
  using assms by (cases str) (simp_all add: thr_monitor_turn_def cJSON_fdPrint_def)

text \<open>
  C28.  What the monitor tells.  In every reachable state whose numbers fit an \<open>int\<close>, a connection gets
  a text that \<open>cJSON_Parse\<close> reads back as the report, and the report counts the imps that exist,
  those that sleep, those in the run queue, and the workers.
\<close>

theorem monitor_report:
  assumes "dungeon_reachable d" and "printable d env w" and "fl_ok fl" and "0 \<le> newsd"
  shows "\<exists>rep pretty. dungeon_serialize d env w = Inr rep
     \<and> thr_monitor_turn newsd (dungeon_serialize d env w) [(int (length pretty), 0)] = Inr (Some (pretty, [newsd]))
     \<and> cJSON_Parse fl pretty = Done (cJSON_AddItemToObject cJSON_CreateObject ''Dungeon'' (Some rep))
     \<and> map_option jvalueint (first_member rep ''CurrentImps'') = Some (int (card (dom (imps d))))
     \<and> map_option jvalueint (first_member rep ''SleepingImps'') = Some (int (card (sleepers d)))
     \<and> map_option (length \<circ> jchild) (first_member rep ''Workers'') = Some (num_thr w)
     \<and> Option.bind (first_member rep ''RunQueue'') (\<lambda>q. map_option jvalueint (first_member q ''nr_data''))
         = Some (int (length (runq d)))"
proof -
  note inv = dungeon_reachable_inv [OF assms(1)]
  from serialize_tree [OF inv assms(2)] obtain ws where
    ws: "dungeon_serialize d env w = Inr (report_tree d env ws)"
      "wf_json (with_name (report_tree d env ws) (Some ''Dungeon''))" "length ws = num_thr w" by blast
  let ?rep = "report_tree d env ws" and ?status = "Cjson cJSON_Object [with_name (report_tree d env ws) (Some ''Dungeon'')] None 0 None"
  have status: "cJSON_AddItemToObject cJSON_CreateObject ''Dungeon'' (Some ?rep) = ?status"
    by (simp add: cJSON_AddItemToObject_def cJSON_AddItemToArray_def with_child_def cJSON_CreateObject_def)
  have "wf_json ?status" using ws(2) names_nul_free by (simp add: named_def)
  from print_parse [OF this _ assms(3), of True] obtain e where
    e: "cJSON_Print ?status = Some e" "e \<noteq> []" "cJSON_Parse fl e = Done ?status" by (auto simp: cJSON_Print_def)
  have "thr_monitor_turn newsd (Inr ?rep) [(int (length e), 0)] = Inr (Some (e, [newsd]))"
    by (rule report_sent) (use e(1,2) assms(4) status in simp_all)
  moreover have "uint (q_nr (run_queue d)) = int (length (runq d))" by simp
  moreover note dungeon_invD(5,7) [OF inv] report_members(1-4) [of d env ws] ws(1,3) e(3) status
  ultimately show ?thesis using report_members(5) [of "run_queue d" "Some ''RunQueue''"]
    by (intro exI [of _ ?rep] exI [of _ e]) simp
qed

definition env_sample :: report_env where
  "env_sample = \<lparr>re_created = ''2014-05-01 10:00:00'', re_usec = 5000, re_workers = 1, re_cpuset = (\<lambda>c. c = 0)\<rparr>"

definition workers_sample :: workers where
  "workers_sample = \<lparr>info_thr = Some [\<lparr>epoll_timeout_ms = Some 1000, loop_count = Some 0, cpubind = Some 0\<rparr>],
     num_thr = 1, worker_quit = False, epoller_alive = True, workers_alive = 1\<rparr>"

theorem monitor_report_witness:
  "\<exists>rep pretty. dungeon_serialize dungeon_queued env_sample workers_sample = Inr rep
     \<and> thr_monitor_turn 9 (Inr rep) [(int (length pretty), 0)] = Inr (Some (pretty, [9]))
     \<and> map_option jvalueint (first_member rep ''CurrentImps'') = Some 1"
proof -
  have "list_all (\<lambda>c. code c \<noteq> 0) (re_created env_sample)" "length (re_created env_sample) \<le> 1000" by code_simp+
  then have "printable dungeon_queued env_sample workers_sample"
    by (simp add: printable_def small_queue_def small_def dungeon_queued_def dungeon_empty_def sample_queue_def
        workers_sample_def env_sample_def complete_info_def)
  moreover have "fl_ok (\<lambda>s. (0, tl s))" by (simp add: fl_ok_def)
  ultimately obtain rep pretty where
    "dungeon_serialize dungeon_queued env_sample workers_sample = Inr rep"
    "thr_monitor_turn 9 (Inr rep) [(int (length pretty), 0)] = Inr (Some (pretty, [9]))"
    "map_option jvalueint (first_member rep ''CurrentImps'') = Some (int (card (dom (imps dungeon_queued))))"
    using monitor_report [OF dungeon_queued_reachable, of env_sample workers_sample "\<lambda>s. (0, tl s)" 9] by auto
  moreover have "card (dom (imps dungeon_queued)) = 1" by (simp add: dungeon_queued_def)
  ultimately show ?thesis by auto
qed

text \<open>
  Five milliseconds after the full second the report says \<open>.5\<close>: the fraction is not padded.
\<close>

lemma fraction_not_padded: "secbuf 5000 = ''.5''" "secbuf 500000 = ''.500''"
  by (simp_all add: secbuf_def show_nat.simps char_of_def bit_0)

section \<open>Starting the monitor\<close>

text \<open>
  \<open>thr_monitor_init\<close> answers 0 exactly when every call succeeds, and then it listens on the
  configured port modulo 65536.  When a call after \<open>socket\<close> fails the descriptor stays open, with no
  thread that \<open>thr_monitor_destroy\<close> could join.
\<close>

theorem monitor_init_outcomes:
  assumes "conf_get_monitor_port cst = Inr port" and "mc_bind_errno mc \<ge> 0 \<and> mc_listen_errno mc \<ge> 0 \<and> mc_create_err mc \<ge> 0"
    and "mc_socket mc < 0 \<longrightarrow> mc_socket_errno mc > 0" and "\<not> mon_open m \<and> \<not> mon_alive m"
  shows "\<exists>ret m'. thr_monitor_init cst mc m = Inr (ret, m') \<and> ret \<le> 0
     \<and> (ret = 0 \<longleftrightarrow> mon_alive m') \<and> (mon_open m' \<longleftrightarrow> 0 \<le> mc_socket mc)
     \<and> (ret = 0 \<longleftrightarrow> 0 \<le> mc_socket mc \<and> mc_bind_errno mc = 0 \<and> mc_listen_errno mc = 0 \<and> mc_create_err mc = 0)
     \<and> (ret = 0 \<longrightarrow> map_option uint (mon_port m') = Some ((if port < 0 then 19990 else port) mod 65536)
          \<and> (\<exists>m''. thr_monitor_destroy m' = Inr (0, m'') \<and> \<not> mon_open m''))
     \<and> (ret \<noteq> 0 \<longrightarrow> thr_monitor_destroy m' = Inl Uninitialised)"
proof -
  let ?port = "if port < 0 then 19990 else port"
  have p: "uint (word_of_int ?port :: 16 word) = ?port mod 65536" by (simp add: uint_word_of_int)
  show ?thesis
    using assms p by (cases "mc_socket mc < 0"; cases "mc_bind_errno mc = 0"; cases "mc_listen_errno mc = 0"; cases "mc_create_err mc = 0")
      (simp_all add: thr_monitor_init_def thr_monitor_destroy_def Let_def)
qed

theorem monitor_init_outcomes_witness:
  "\<exists>ret m'. thr_monitor_init \<lparr>global_conf = Some sample_conf, conf_live = 1\<rparr>
       \<lparr>mc_socket = 4, mc_socket_errno = 0, mc_bind_errno = 98, mc_listen_errno = 0, mc_create_err = 0\<rparr> monitor_start = Inr (ret, m')
     \<and> ret \<noteq> 0 \<and> mon_open m' \<and> thr_monitor_destroy m' = Inl Uninitialised"
proof -
  have "conf_get_monitor_port \<lparr>global_conf = Some sample_conf, conf_live = 1\<rparr> = Inr 19990" by code_simp
  from monitor_init_outcomes [OF this, of "\<lparr>mc_socket = 4, mc_socket_errno = 0, mc_bind_errno = 98, mc_listen_errno = 0, mc_create_err = 0\<rparr>" monitor_start]
  show ?thesis by (auto simp: monitor_start_def)
qed

end
