(* ===== verification/Startup.thy ===== *)
theory Startup
  imports Conf Dungeon
begin

text \<open>
  The start of the server (\<open>src/src/main.c\<close>): the options, the configuration, the limit of open
  files and the first call of \<open>dungeon_init\<close>.  Logging, signals, \<open>chdir\<close> and the forking
  parent of the daemon are left out.
\<close>

section \<open>Options and processors\<close>

text \<open>The answers of \<open>getopt\<close>.\<close>

datatype getopt = Opt_c string | Opt_v | Opt_h | Opt_bad

text \<open>Refused, left by \<open>exit\<close>, or the path of the configuration file, if any.\<close>

datatype options = BadOptions | ExitSuccess | Options "string option"

fun dungeon_get_options :: "getopt list \<Rightarrow> string option \<Rightarrow> options" where
  "dungeon_get_options [] conf_path = Options conf_path"
| "dungeon_get_options (Opt_c path # opts) conf_path = dungeon_get_options opts (Some path)"
| "dungeon_get_options (Opt_v # opts) conf_path = dungeon_get_options opts conf_path"
| "dungeon_get_options (Opt_h # opts) conf_path = ExitSuccess"
| "dungeon_get_options (Opt_bad # opts) conf_path = BadOptions"

text \<open>\<open>None\<close>: \<open>sched_getaffinity\<close> failed.  A \<open>cpu_set_t\<close> has 128 bytes.\<close>

definition get_nrcpu :: "(nat \<Rightarrow> bool) option \<Rightarrow> int" where
  "get_nrcpu affinity =
     (case affinity of None \<Rightarrow> 1 | Some cpus \<Rightarrow> int (length (filter cpus [0..<128 * 8])))"

section \<open>The limit of open files\<close>

text \<open>
  \<open>rlimit_try\<close> over a state of the kernel: \<open>setrlimit k n\<close> is the answer and the new state when
  both limits are set to \<open>n\<close>.
\<close>

lemma unat_middle:
  fixes l r :: u64
  assumes "l \<le> r"
  shows "unat ((r - l) div 2 + l) = (unat r - unat l) div 2 + unat l"
proof -
  have "unat (r - l) = unat r - unat l" using assms by (rule unat_sub)
  then have "unat ((r - l) div 2) = (unat r - unat l) div 2" by (simp add: unat_div)
  moreover have "(unat r - unat l) div 2 + unat l \<le> unat r"
    using assms by (simp add: word_le_nat_alt)
  moreover have "unat r < 2 ^ 64" using unsigned_less [of r] by simp
  ultimately show ?thesis by (simp add: unat_word_ariths)
qed

lemma not_adjacent:
  fixes l r :: u64
  assumes "l \<le> r" and "\<not> (l = r \<or> l = r - 1)"
  shows "unat l + 2 \<le> unat r"
proof -
  have lr: "unat l < unat r" using assms by (simp add: word_le_nat_alt word_unat_eq_iff le_less)
  then have "unat (r - 1) = unat r - 1" by (subst unat_minus_one) auto
  with assms lr show ?thesis by (auto simp: word_unat_eq_iff)
qed

function rlimit_try :: "('k \<Rightarrow> u64 \<Rightarrow> bool \<times> 'k) \<Rightarrow> 'k \<Rightarrow> u64 \<Rightarrow> u64 \<Rightarrow> u64 \<times> 'k" where
  "rlimit_try setrlimit k left right =
     (if left > right then rlimit_try setrlimit k right left
      else if left = right \<or> left = right - 1 then (left, k)
      else
        let (ok, k) = setrlimit k right in
        if ok then (right, k)
        else
          let middle = (right - left) div 2 + left; (ok, k) = setrlimit k middle in
          if ok then rlimit_try setrlimit k middle right
          else rlimit_try setrlimit k left middle)"
  by pat_completeness auto
termination
proof (relation "measure (\<lambda>(setrlimit, k, left, right). if left > right then unat left - unat right + 1 else unat right - unat left)",
    goal_cases)
  case (2 s k l r)
  then show ?case by (auto simp: word_le_nat_alt word_less_nat_alt)
next
  case (3 s k l r)
  then have "l \<le> r" "unat l + 2 \<le> unat r" using not_adjacent [of l r] by auto
  with 3 unat_middle [of l r] show ?case by (auto simp: word_less_nat_alt)
next
  case (4 s k l r)
  then have "l \<le> r" "unat l + 2 \<le> unat r" using not_adjacent [of l r] by auto
  with 4 unat_middle [of l r] show ?case by (auto simp: word_less_nat_alt)
qed simp

declare rlimit_try.simps [simp del]

text \<open>
  \<open>conf_get_concurrent_max() * 5 + 1024\<close> is computed as an \<open>int\<close> and passed as an \<open>rlim_t\<close>.
\<close>

definition rlimit_init :: "('k \<Rightarrow> u64 \<Rightarrow> bool \<times> 'k) \<Rightarrow> 'k \<Rightarrow> conf_state \<Rightarrow> ub + u64 \<times> 'k" where
  "rlimit_init setrlimit k st =
     bindE (conf_get_concurrent_max st) (\<lambda>n.
       if n * 5 + 1024 > 2147483647 \<or> n * 5 < - 2147483648 then Inl IntOverflow
       else Inr (rlimit_try setrlimit k 1024 (word_of_int (n * 5 + 1024))))"

text \<open>An unprivileged process may lower its hard limit and never raise it again.\<close>

definition lower_only :: "u64 \<Rightarrow> u64 \<Rightarrow> bool \<times> u64" where
  "lower_only hard n = (if n \<le> hard then (True, n) else (False, hard))"

lemma rlimit_refused:
  assumes "hard \<le> left" and "left \<le> right"
  shows "rlimit_try lower_only hard left right = (left, hard)"
  using assms
proof (induction "unat right - unat left" arbitrary: right rule: less_induct)
  case less
  show ?case
  proof (cases "left = right \<or> left = right - 1")
    case True
    with less.prems show ?thesis by (subst rlimit_try.simps) (auto simp: not_less)
  next
    case False
    let ?m = "(right - left) div 2 + left"
    have gap: "unat left + 2 \<le> unat right" using not_adjacent less.prems(2) False by blast
    have m: "unat ?m = (unat right - unat left) div 2 + unat left" using unat_middle less.prems(2) by blast
    with gap have lt: "left < ?m" "left < right" "unat ?m < unat right" by (auto simp: word_less_nat_alt)
    then have refused: "lower_only hard right = (False, hard)" "lower_only hard ?m = (False, hard)"
      using less.prems(1) by (auto simp: lower_only_def word_le_nat_alt word_less_nat_alt)
    have "rlimit_try lower_only hard left ?m = (left, hard)"
      using less.hyps [of ?m] lt less.prems(1) m by auto
    with False less.prems lt refused show ?thesis by (subst rlimit_try.simps) (auto simp: Let_def)
  qed
qed

text \<open>
  Bounds: with an unprivileged kernel whose hard limit is \<open>hard\<close> the search ends and never yields
  more than \<open>hard\<close>.  It yields \<open>right\<close> when that is allowed; else at least half of what lies
  between \<open>left\<close> and \<open>hard\<close>, and not more in general, because the first middle that is accepted
  becomes the new hard limit and the search above it must fail.
\<close>

theorem rlimit_bounds:
  assumes "left \<le> hard" and "left \<le> right"
  shows "\<exists>r hard'. rlimit_try lower_only hard left right = (r, hard') \<and> left \<le> r \<and> r \<le> hard
    \<and> (right \<le> hard \<longrightarrow> r = right \<or> unat right = unat left + 1)
    \<and> (hard < right \<longrightarrow> unat hard - unat left \<le> 2 * (unat r - unat left))
    \<and> (r = hard' \<or> r = left)"
  using assms
proof (induction "unat right - unat left" arbitrary: right rule: less_induct)
  case less
  show ?case
  proof (cases "left = right \<or> left = right - 1")
    case True
    have "rlimit_try lower_only hard left right = (left, hard)"
      using True less.prems by (subst rlimit_try.simps) (auto simp: not_less)
    moreover have right: "unat right = unat left \<or> unat right = unat left + 1"
      using True less.prems(2) by (cases "right = 0") (auto simp: unat_minus_one word_le_nat_alt unat_gt_0)
    moreover from right have "hard < right \<longrightarrow> unat hard - unat left \<le> 2 * (unat left - unat left)"
      "right \<le> hard \<longrightarrow> left = right \<or> unat right = unat left + 1"
      by (auto simp: word_less_nat_alt word_unat_eq_iff)
    ultimately show ?thesis using less.prems(1) by auto
  next
    case False
    let ?m = "(right - left) div 2 + left"
    have gap: "unat left + 2 \<le> unat right" using not_adjacent less.prems(2) False by blast
    have m: "unat ?m = (unat right - unat left) div 2 + unat left" using unat_middle less.prems(2) by blast
    with gap have lt: "left < ?m" "left \<le> ?m" "?m \<le> right" "left < right" "unat ?m < unat right"
      by (auto simp: word_less_nat_alt word_le_nat_alt)
    note unfolded = rlimit_try.simps [of lower_only hard left right]
    consider "right \<le> hard" | "hard < right" "?m \<le> hard" | "hard < ?m" using lt by force
    then show ?thesis
    proof cases
      case 1
      then have "rlimit_try lower_only hard left right = (right, right)"
        unfolding unfolded using False less.prems(2) by (auto simp: lower_only_def not_less)
      with 1 less.prems(2) show ?thesis by simp
    next
      case 2
      have "rlimit_try lower_only ?m ?m right = (?m, ?m)" using rlimit_refused lt(3) by blast
      with 2 have run: "rlimit_try lower_only hard left right = (?m, ?m)"
        unfolding unfolded using False less.prems(2) by (auto simp: lower_only_def not_less Let_def)
      have "unat hard - unat left \<le> 2 * (unat ?m - unat left)"
        using 2(1) gap m by (simp add: word_less_nat_alt)
      with run 2 lt(2) show ?thesis by (auto simp: not_le)
    next
      case 3
      then have "hard < right" using lt(3) by simp
      with 3 have run: "rlimit_try lower_only hard left right = rlimit_try lower_only hard left ?m"
        unfolding unfolded using False less.prems(2) by (auto simp: lower_only_def not_less Let_def)
      have "unat ?m - unat left < unat right - unat left" using lt(5) gap by linarith
      from less.hyps [OF this less.prems(1) lt(2)] 3 \<open>hard < right\<close> show ?thesis
        unfolding run by (auto simp: not_le)
    qed
  qed
qed

theorem rlimit_bounds_witness:
  "\<exists>r hard'. rlimit_try lower_only 4096 1024 101024 = (r, hard') \<and> 1024 \<le> r \<and> r \<le> 4096
    \<and> (101024 \<le> (4096 :: u64) \<longrightarrow> r = 101024 \<or> unat (101024 :: u64) = unat (1024 :: u64) + 1)
    \<and> ((4096 :: u64) < 101024 \<longrightarrow> unat (4096 :: u64) - unat (1024 :: u64) \<le> 2 * (unat r - unat (1024 :: u64)))
    \<and> (r = hard' \<or> r = 1024)"
  by (rule rlimit_bounds) (simp_all add: word_le_nat_alt)

text \<open>A limit of 4096 and the default configuration: 1510 descriptors are given away.\<close>

lemma rlimit_example: "rlimit_try lower_only 4096 1024 (word_of_int (20000 * 5 + 1024)) = (2586, 2586)"
  by code_simp

section \<open>main\<close>

text \<open>How \<open>main\<close> ends: it returns, calls \<open>exit(0)\<close> or \<open>abort\<close>, or goes on with a dungeon.\<close>

datatype 'm main_end = Returns int | Exits | Aborts | Serves conf_state "'m dungeon"

text \<open>What the process gets from the system besides the files.\<close>

record 'k system =
  affinity :: "(nat \<Rightarrow> bool) option"
  sys_setrlimit :: "'k \<Rightarrow> u64 \<Rightarrow> bool \<times> 'k"
  sys_kernel :: 'k

text \<open>From \<open>server_start\<close> on, in the child if the configuration asks for a daemon.\<close>

definition server_start :: "'k system \<Rightarrow> init_env \<Rightarrow> string \<Rightarrow> conf_state \<Rightarrow> ub + 'm main_end" where
  "server_start sys env install_prefix st =
     bindE (conf_get_working_dir install_prefix st) (\<lambda>dir.
     bindE (rlimit_init (sys_setrlimit sys) (sys_kernel sys) st) (\<lambda>limit.
     let nr_cpus = get_nrcpu (affinity sys); nr_cpus = (if nr_cpus \<le> 0 then 1 else nr_cpus) in
     bindE (conf_get_workers st nr_cpus) (\<lambda>workers.
     bindE (conf_get_concurrent_max st) (\<lambda>nr_imp_max.
     bindE (dungeon_init workers nr_imp_max env) (\<lambda>(err, heart).
     Inr (if err \<noteq> 0 then Aborts else case heart of Heart d \<Rightarrow> Serves st d | _ \<Rightarrow> Aborts))))))"

definition main ::
  "'k system \<Rightarrow> init_env \<Rightarrow> string \<Rightarrow> string \<Rightarrow> string \<Rightarrow> files \<Rightarrow> getopt list \<Rightarrow> 'm main_end outcome" where
  "main sys env install_prefix moddir default_confpath fopen opts =
     (case dungeon_get_options opts None of
        BadOptions \<Rightarrow> Done (Returns (-1))
      | ExitSuccess \<Rightarrow> Done Exits
      | Options conf_path \<Rightarrow>
          let conf_path = (case conf_path of None \<Rightarrow> default_confpath | Some path \<Rightarrow> path) in
          bindP (conf_new install_prefix moddir fopen (Some conf_path) conf_start) (\<lambda>(ret, st).
            if ret = -1 then Done (Returns (-1))
            else
              bindP (ub_outcome (conf_get_log_level st)) (\<lambda>level.
              bindP (ub_outcome (conf_get_daemon st)) (\<lambda>daemon.
              ub_outcome (server_start sys env install_prefix st)))))"

text \<open>The number of workers and of imps a configuration asks for.\<close>

definition wants :: "cjson \<Rightarrow> int \<Rightarrow> int \<times> int" where
  "wants c nr_cpus =
     (case first_member c ''Workers'' of
        Some m \<Rightarrow> if jtype m = cJSON_Number \<and> jvalueint m \<noteq> 0 then jvalueint m else nr_cpus
      | None \<Rightarrow> nr_cpus,
      case first_member c ''ConcurrentMax'' of Some m \<Rightarrow> jvalueint m | None \<Rightarrow> 20000)"

definition cpus_of :: "'k system \<Rightarrow> int" where
  "cpus_of sys = (if get_nrcpu (affinity sys) \<le> 0 then 1 else get_nrcpu (affinity sys))"

lemma server_start_typed:
  assumes "conf_typed c" and "snd (wants c n) \<le> 429496524"
  shows "server_start sys env ip \<lparr>global_conf = Some c, conf_live = live\<rparr> =
     bindE (dungeon_init (fst (wants c (cpus_of sys))) (snd (wants c n)) env) (\<lambda>(err, heart).
       Inr (if err \<noteq> 0 then Aborts else case heart of Heart d \<Rightarrow> Serves \<lparr>global_conf = Some c, conf_live = live\<rparr> d | _ \<Rightarrow> Aborts))"
proof -
  let ?st = "\<lparr>global_conf = Some c, conf_live = live\<rparr>"
  have max: "conf_get_concurrent_max ?st = Inr (snd (wants c n))" "0 \<le> snd (wants c n)"
    using assms(1)
    by (auto simp: conf_get_concurrent_max_def conf_get_concurrent_max_internal_def GetObjectItem_first number_or_def
        wants_def conf_typed_def natural_member_def split: option.splits)
  have workers: "conf_get_workers ?st k = Inr (fst (wants c k))" for k
    by (auto simp: conf_get_workers_def conf_get_workers_internal_def GetObjectItem_first wants_def split: option.splits)
  have dir: "\<exists>dir. conf_get_working_dir ip ?st = Inr dir"
    by (simp add: conf_get_working_dir_def conf_get_working_dir_internal_def GetObjectItem_first)
  have "\<exists>l. rlimit_init (sys_setrlimit sys) (sys_kernel sys) ?st = Inr l"
    using max assms(2) by (simp add: rlimit_init_def)
  with dir max(1) workers show ?thesis by (auto simp: server_start_def cpus_of_def Let_def)
qed

text \<open>
  C25.  The whole start, from a legal configuration file to the dungeon: the server serves, with a
  dungeon of the configured size, exactly when \<open>dungeon_init\<close> succeeds for the configured numbers;
  and it aborts on every legal configuration that asks for no connection or for a negative number
  of workers, which \<open>conf_check_legal\<close> lets pass.
\<close>

theorem main_starts:
  assumes "dungeon_get_options opts None = Options path"
    and "fopen (case path of None \<Rightarrow> default_confpath | Some p \<Rightarrow> p) = Some (Done c)" and "conf_typed c"
    and "wants c (cpus_of sys) = (workers, nr_imp_max)" and "nr_imp_max \<le> 429496524"
  shows "main sys env install_prefix moddir default_confpath fopen opts =
     (if workers < 1 \<or> nr_imp_max < 1 then Done Aborts
      else case dungeon_init workers nr_imp_max env of
        Inl e \<Rightarrow> Fault e
      | Inr (err, heart) \<Rightarrow>
          if err \<noteq> 0 then Done Aborts
          else case heart of Heart d \<Rightarrow> Done (Serves \<lparr>global_conf = Some c, conf_live = 1\<rparr> d)
                            | _ \<Rightarrow> Done (Aborts :: 'm main_end))"
proof -
  let ?st = "\<lparr>global_conf = Some c, conf_live = 1\<rparr>"
  let ?path = "case path of None \<Rightarrow> default_confpath | Some p \<Rightarrow> p"
  have new: "conf_new install_prefix moddir fopen (Some ?path) conf_start = Done (0, ?st)"
    using assms(2,3)
    by (simp add: conf_new_def conf_read_def load_json_typed ub_outcome_def conf_start_def conf_freed_def)
  have getters: "\<exists>l. conf_get_log_level ?st = Inr l" "\<exists>d. conf_get_daemon ?st = Inr d"
    by (simp_all add: conf_get_log_level_def conf_get_log_level_internal_def conf_get_daemon_def
        conf_get_daemon_internal_def GetObjectItem_first)
  have max: "snd (wants c (cpus_of sys)) \<le> 429496524" using assms(4,5) by simp
  have "main sys env install_prefix moddir default_confpath fopen opts
      = (ub_outcome (server_start sys env install_prefix ?st) :: 'm main_end outcome)"
    using new getters by (auto simp: main_def assms(1) Let_def ub_outcome_def)
  also have "\<dots> = ub_outcome (bindE (dungeon_init workers nr_imp_max env) (\<lambda>(err, heart).
      Inr (if err \<noteq> 0 then Aborts else case heart of Heart d \<Rightarrow> Serves ?st d | _ \<Rightarrow> Aborts)))"
    by (simp only: server_start_typed [OF assms(3) max] assms(4) fst_conv snd_conv)
  finally show ?thesis
    by (auto simp: dungeon_init_def [of workers nr_imp_max] ub_outcome_def
        split: sum.splits prod.splits heart.splits)
qed

theorem main_starts_witness:
  "main \<lparr>affinity = None, sys_setrlimit = lower_only, sys_kernel = 4096\<rparr>
     \<lparr>calloc_ok = True, pipe_errno = 0, run_mem = None, term_mem = None, nr_workers = 1,
      maintainer_err = 0, monitor_err = 0, nr_rooms = 1\<rparr>
     ''/'' ''/'' ''d'' (\<lambda>n. Some (Done (Cjson cJSON_Object [Cjson cJSON_Array [] None 0 (Some ''Modules''),
        Cjson cJSON_Number [] None 0 (Some ''ConcurrentMax'')] None 0 None))) [Opt_c ''f'']
   = Done (Aborts :: nat main_end)"
proof -
  let ?c = "Cjson cJSON_Object [Cjson cJSON_Array [] None 0 (Some ''Modules''),
        Cjson cJSON_Number [] None 0 (Some ''ConcurrentMax'')] None 0 None"
  let ?sys = "\<lparr>affinity = None, sys_setrlimit = lower_only, sys_kernel = 4096\<rparr>"
  have members: "first_member ?c ''LogLevel'' = None"
    "first_member ?c ''ConcurrentMax'' = Some (Cjson cJSON_Number [] None 0 (Some ''ConcurrentMax''))"
    "first_member ?c ''ModuleDir'' = None" "first_member ?c ''Modules'' = Some (Cjson cJSON_Array [] None 0 (Some ''Modules''))"
    "first_member ?c ''Workers'' = None"
    by code_simp+
  then have "conf_typed ?c" by (simp add: conf_typed_def natural_member_def)
  moreover have "wants ?c (cpus_of ?sys) = (1, 0)"
    using members by (simp add: wants_def cpus_of_def get_nrcpu_def)
  ultimately show ?thesis
    by (subst main_starts [where c = ?c and path = "Some ''f''" and workers = 1 and nr_imp_max = 0]) simp_all
qed

end
