(* ===== verification/Keeper.thy ===== *)
theory Keeper
  imports Startup Monitor Log
begin

text \<open>
  The rest of \<open>src/src/main.c\<close>: the parent of the daemon, which creates a new dungeon whenever one
  breaks, the signals, the exit and the initial targets of the log.
\<close>

section \<open>The parent\<close>

text \<open>
  The endless loop of the parent: about to fork, or in \<open>waitpid\<close> with what \<open>fork\<close> returned.  The
  kernel keeps the children that run and those that ended but were not waited for.  \<open>kp_hearts\<close>
  counts the children that reached \<open>server_start\<close>.
\<close>

datatype keeper_at = Forking | Waiting int

record keeper =
  kp_at :: keeper_at
  kp_running :: "int set"
  kp_ended :: "int set"
  kp_hearts :: nat

definition keeper_start :: keeper where
  "keeper_start = \<lparr>kp_at = Forking, kp_running = {}, kp_ended = {}, kp_hearts = 0\<rparr>"

definition children :: "keeper \<Rightarrow> int set" where
  "children k = kp_running k \<union> kp_ended k"

text \<open>
  \<open>fork\<close> answers the new process or -1, and \<open>pid!=0\<close> sends the parent on in both cases.  Waiting
  for -1 is waiting for any child.  A failing \<open>waitpid\<close>, interrupted or without such a child, is
  tried again.
\<close>

inductive keeper_step :: "keeper \<Rightarrow> keeper \<Rightarrow> bool" where
  forked: "kp_at k = Forking \<Longrightarrow> 0 < p \<Longrightarrow> p \<notin> children k \<Longrightarrow>
     keeper_step k (k\<lparr>kp_at := Waiting p, kp_running := insert p (kp_running k), kp_hearts := Suc (kp_hearts k)\<rparr>)"
| fork_failed: "kp_at k = Forking \<Longrightarrow> keeper_step k (k\<lparr>kp_at := Waiting (-1)\<rparr>)"
| waited: "kp_at k = Waiting p \<Longrightarrow> c \<in> kp_ended k \<Longrightarrow> p = c \<or> p = -1 \<Longrightarrow>
     keeper_step k (k\<lparr>kp_at := Forking, kp_ended := kp_ended k - {c}\<rparr>)"
| interrupted: "kp_at k = Waiting p \<Longrightarrow> keeper_step k k"
| no_child: "kp_at k = Waiting p \<Longrightarrow> p \<notin> children k \<Longrightarrow> p = -1 \<longrightarrow> children k = {} \<Longrightarrow> keeper_step k k"
| heart_broken: "c \<in> kp_running k \<Longrightarrow>
     keeper_step k (k\<lparr>kp_running := kp_running k - {c}, kp_ended := insert c (kp_ended k)\<rparr>)"

abbreviation keeper_reaches :: "keeper \<Rightarrow> keeper \<Rightarrow> bool" where
  "keeper_reaches \<equiv> keeper_step\<^sup>*\<^sup>*"

definition keeper_inv :: "keeper \<Rightarrow> bool" where
  "keeper_inv k \<longleftrightarrow> kp_running k \<inter> kp_ended k = {} \<and> (case kp_at k of Forking \<Rightarrow> children k = {}
     | Waiting p \<Rightarrow> (if p = -1 then children k = {} else 0 < p \<and> children k = {p}))"

lemma keeper_step_inv:
  assumes "keeper_step k k'" and "keeper_inv k"
  shows "keeper_inv k'"
  using assms(1)
proof (cases rule: keeper_step.cases)
  case (forked p)
  with assms(2) show ?thesis by (simp add: keeper_inv_def children_def)
next
  case fork_failed
  with assms(2) show ?thesis by (simp add: keeper_inv_def children_def)
next
  case (waited p c)
  then have "c \<in> children k" by (simp add: children_def)
  with waited assms(2) have all: "kp_running k \<union> kp_ended k = {c}" "kp_running k \<inter> kp_ended k = {}"
    by (auto simp: keeper_inv_def children_def split: if_splits)
  then have "kp_running k = {}" "kp_ended k - {c} = {}" using waited(3) by auto
  then show ?thesis using waited(1) by (simp add: keeper_inv_def children_def)
next
  case (heart_broken c)
  then have "children k' = children k" by (auto simp: children_def)
  moreover have "kp_running k' \<inter> kp_ended k' = {}" using heart_broken assms(2) by (auto simp: keeper_inv_def)
  moreover have "kp_at k' = kp_at k" using heart_broken(1) by simp
  ultimately show ?thesis using assms(2) unfolding keeper_inv_def by (cases "kp_at k") simp_all
qed (use assms(2) in simp_all)

lemma keeper_reaches_inv: "keeper_reaches k k' \<Longrightarrow> keeper_inv k \<Longrightarrow> keeper_inv k'"
  by (induction rule: rtranclp_induct) (auto intro: keeper_step_inv)

lemma keeper_stuck: "keeper_reaches k k' \<Longrightarrow> kp_at k = Waiting (-1) \<Longrightarrow> children k = {} \<Longrightarrow> k' = k"
proof (induction rule: rtranclp_induct)
  case (step k1 k2)
  from step.hyps(2) step.IH [OF step.prems] step.prems show ?case
    by (cases rule: keeper_step.cases) (auto simp: children_def)
qed simp

text \<open>
  C40.  The parent keeps at most one dungeon alive, and can always replace one that breaks; but when
  \<open>fork\<close> fails once it waits for ever for a child it does not have, and no dungeon is ever created again.
\<close>

theorem keeper_replaces:
  assumes "keeper_reaches keeper_start k"
  shows "(\<exists>p. children k \<subseteq> {p}) \<and> (kp_at k = Forking \<longrightarrow> children k = {})
     \<and> (\<forall>c\<in>kp_running k. \<exists>k'. keeper_reaches k k' \<and> kp_hearts k' = Suc (kp_hearts k) \<and> kp_running k' \<noteq> {} \<and> c \<notin> kp_running k')
     \<and> (kp_at k = Waiting (-1) \<longrightarrow> (\<forall>k'. keeper_reaches k k' \<longrightarrow> k' = k \<and> children k' = {}))"
proof -
  have inv: "keeper_inv k" by (rule keeper_reaches_inv [OF assms]) (simp add: keeper_inv_def keeper_start_def children_def)
  have replace: "\<exists>k'. keeper_reaches k k' \<and> kp_hearts k' = Suc (kp_hearts k) \<and> kp_running k' \<noteq> {} \<and> c \<notin> kp_running k'"
    if c: "c \<in> kp_running k" for c
  proof -
    have c': "c \<in> children k" using c by (simp add: children_def)
    have at: "kp_at k = Waiting c" "children k = {c}" "0 < c"
      using inv c' by (auto simp: keeper_inv_def split: keeper_at.splits if_splits)
    have fresh: "c + 1 \<notin> children k" using at(2) by simp
    let ?k1 = "k\<lparr>kp_running := kp_running k - {c}, kp_ended := insert c (kp_ended k)\<rparr>"
    let ?k2 = "?k1\<lparr>kp_at := Forking, kp_ended := kp_ended ?k1 - {c}\<rparr>"
    let ?k3 = "?k2\<lparr>kp_at := Waiting (c + 1), kp_running := insert (c + 1) (kp_running ?k2), kp_hearts := Suc (kp_hearts ?k2)\<rparr>"
    have "keeper_step k ?k1" by (rule keeper_step.heart_broken [OF c])
    moreover have "keeper_step ?k1 ?k2" by (rule keeper_step.waited [of _ c]) (use at in simp_all)
    moreover have "keeper_step ?k2 ?k3" by (rule keeper_step.forked) (use at(3) fresh in \<open>auto simp: children_def\<close>)
    ultimately have "keeper_reaches k ?k3" by (meson converse_rtranclp_into_rtranclp rtranclp.rtrancl_refl)
    moreover have "c \<notin> kp_running ?k3" by simp
    ultimately show ?thesis by (intro exI [of _ ?k3]) simp
  qed
  have stuck: "k' = k \<and> children k' = {}" if "kp_at k = Waiting (-1)" "keeper_reaches k k'" for k'
  proof -
    have "children k = {}" using inv that(1) by (simp add: keeper_inv_def)
    with keeper_stuck [OF that(2,1)] show ?thesis by simp
  qed
  have "\<exists>p. children k \<subseteq> {p}" using inv by (auto simp: keeper_inv_def split: keeper_at.splits if_splits)
  moreover have "kp_at k = Forking \<longrightarrow> children k = {}" using inv by (auto simp: keeper_inv_def)
  ultimately show ?thesis using replace stuck by blast
qed

theorem keeper_replaces_witness:
  "\<exists>k. keeper_reaches keeper_start k \<and> (\<forall>k'. keeper_reaches k k' \<longrightarrow> children k' = {})"
proof -
  let ?k = "keeper_start\<lparr>kp_at := Waiting (-1)\<rparr>"
  have "keeper_reaches keeper_start ?k"
    by (rule r_into_rtranclp, rule keeper_step.fork_failed) (simp add: keeper_start_def)
  moreover from keeper_replaces [OF this] have "\<forall>k'. keeper_reaches ?k k' \<longrightarrow> children k' = {}"
    by (simp add: keeper_start_def)
  ultimately show ?thesis by blast
qed

section \<open>Signals and the exit\<close>

datatype sig_action = SigDefault | SigExits | SigIgnored

abbreviation (input) SIGINT :: int where "SIGINT \<equiv> 2"
abbreviation (input) SIGQUIT :: int where "SIGQUIT \<equiv> 3"
abbreviation (input) SIGPIPE :: int where "SIGPIPE \<equiv> 13"
abbreviation (input) SIGTERM :: int where "SIGTERM \<equiv> 15"

text \<open>The argument of \<open>signal_init\<close> is not used: the handler is always \<open>daemon_exit\<close>.\<close>

definition signal_init :: "(int \<Rightarrow> sig_action) \<Rightarrow> int \<Rightarrow> sig_action" where
  "signal_init acts = acts(SIGTERM := SigExits, SIGQUIT := SigExits, SIGINT := SigExits, SIGPIPE := SigIgnored)"

text \<open>The first part of \<open>dungeon_delete\<close>: the monitor and the workers are stopped.\<close>

definition stop_threads :: "monitor_state \<Rightarrow> workers \<Rightarrow> ub + monitor_state \<times> workers" where
  "stop_threads m w =
     bindE (thr_monitor_destroy m) (\<lambda>(_, m). bindE (thr_worker_destroy w) (\<lambda>(_, w). Inr (m, w)))"

text \<open>\<open>daemon_exit\<close>, up to its \<open>exit(0)\<close>; \<open>None\<close> is the null \<open>dungeon_heart\<close>.\<close>

definition daemon_exit ::
  "monitor_state \<Rightarrow> workers \<Rightarrow> 'm dungeon option \<Rightarrow> (intptr \<Rightarrow> int list) \<Rightarrow> conf_state
     \<Rightarrow> ub + 'm dungeon option \<times> monitor_state \<times> workers \<times> conf_state" where
  "daemon_exit m w heart closed cst =
     bindE (stop_threads m w) (\<lambda>(m, w).
     case heart of None \<Rightarrow> Inl NullDeref
     | Some d \<Rightarrow> bindE (dungeon_delete d closed) (\<lambda>d. Inr (d, m, w, snd (conf_delete cst))))"

text \<open>
  A signal that reaches the parent of the daemon ends in the threads of a dungeon it never had; in
  the child everything is stopped and every queued imp dismissed.
\<close>

lemma parent_exit: "daemon_exit monitor_start workers_start None closed cst = Inl Uninitialised"
  by (simp add: daemon_exit_def stop_threads_def thr_monitor_destroy_def monitor_start_def)

lemma child_exit:
  assumes "dungeon_reachable d" and "all_close d closed" and "mon_alive m" and "epoller_alive w"
  shows "\<exists>d' m' w' cst'. daemon_exit m w (Some d) closed cst = Inr (Some d', m', w', cst')
     \<and> dom (imps d') = sleepers d \<and> \<not> mon_alive m' \<and> \<not> mon_open m' \<and> workers_alive w' = 0 \<and> \<not> epoller_alive w'"
  using dungeon_delete_drains [OF assms(1,2)] assms(3,4)
  by (auto simp: daemon_exit_def stop_threads_def thr_monitor_destroy_def thr_worker_destroy_def Let_def)

section \<open>The log\<close>

abbreviation (input) L_DEBUG :: int where "L_DEBUG \<equiv> 7"

definition log_init :: "conf_state \<Rightarrow> log_state \<Rightarrow> ub + log_state" where
  "log_init cst s =
     bindE (mylog_reset s) (\<lambda>s.
     bindE (mylog_set_target LOGTARGET_STDERR True s) (\<lambda>(_, s).
     bindE (mylog_set_target LOGTARGET_SYSLOG True s) (\<lambda>(_, s).
     bindE (conf_get_log_level cst) (\<lambda>level.
     if level = L_DEBUG then bindE (mylog_set_target LOGTARGET_STDERR True s) (\<lambda>(_, s). Inr s) else Inr s))))"

text \<open>From the start on the log goes to standard error and to the system log, whatever the level.\<close>

lemma log_init_targets:
  assumes "conf_get_log_level cst = Inr level"
  shows "log_init cst log_start = Inr (log_start\<lparr>log_target_set := [LOGTARGET_SYSLOG, LOGTARGET_STDERR], log_targets_count := 2\<rparr>)"
  using assms
  by (simp add: log_init_def mylog_reset_def mylog_clear_target_def mylog_set_target_def log_start_def counted_def
      add_target_def List.insert_def)

end
