(* ===== verification/Timespec.thy ===== *)
theory Timespec
  imports Prelude "HOL-Library.Signed_Division"
begin

text \<open>
  Times of seconds and nanoseconds (\<open>src/src/util_misc.c\<close>).  \<open>time_t\<close> and \<open>long\<close> have 64 bits,
  \<open>int\<close> has 32; division rounds towards zero.
\<close>

record timespec =
  tv_sec :: int
  tv_nsec :: int

definition fits :: "nat \<Rightarrow> int \<Rightarrow> ub + int" where
  "fits w n = (if - (2 ^ (w - 1)) \<le> n \<and> n < 2 ^ (w - 1) then Inr n else Inl IntOverflow)"

abbreviation (input) CONST_NANOSEC_1sec :: int where "CONST_NANOSEC_1sec \<equiv> 1000000000"

definition timespec_normalize :: "timespec \<Rightarrow> ub + timespec" where
  "timespec_normalize ts =
     (if tv_nsec ts > CONST_NANOSEC_1sec then
        bindE (fits 64 (tv_sec ts + tv_nsec ts sdiv CONST_NANOSEC_1sec)) (\<lambda>s.
        Inr \<lparr>tv_sec = s, tv_nsec = tv_nsec ts smod CONST_NANOSEC_1sec\<rparr>)
      else if tv_nsec ts < 0 then
        bindE (fits 64 (tv_sec ts - tv_nsec ts sdiv CONST_NANOSEC_1sec)) (\<lambda>s.
        Inr \<lparr>tv_sec = s, tv_nsec = tv_nsec ts smod CONST_NANOSEC_1sec + CONST_NANOSEC_1sec\<rparr>)
      else Inr ts)"

text \<open>
  \<open>clock\<close> is the time of the clock.  With a non-null argument it is the old value there that is
  returned, and the time is lost: the copy goes the wrong way.
\<close>

definition timespec_now :: "timespec \<Rightarrow> timespec option \<Rightarrow> timespec \<times> timespec option" where
  "timespec_now clock p = (case p of None \<Rightarrow> (clock, None) | Some t \<Rightarrow> (t, Some t))"

definition timespec_sub :: "timespec \<Rightarrow> timespec \<Rightarrow> ub + timespec" where
  "timespec_sub ts1 ts2 =
     bindE (fits 64 (tv_sec ts1 - tv_sec ts2)) (\<lambda>s.
     bindE (fits 64 (tv_nsec ts1 - tv_nsec ts2)) (\<lambda>n.
     timespec_normalize \<lparr>tv_sec = s, tv_nsec = n\<rparr>))"

definition timespec_add :: "timespec \<Rightarrow> timespec \<Rightarrow> ub + timespec" where
  "timespec_add ts1 ts2 =
     bindE (fits 64 (tv_sec ts1 + tv_sec ts2)) (\<lambda>s.
     bindE (fits 64 (tv_nsec ts1 + tv_nsec ts2)) (\<lambda>n.
     timespec_normalize \<lparr>tv_sec = s, tv_nsec = n\<rparr>))"

text \<open>\<open>ms*1000*1000\<close> is computed in \<open>int\<close>.\<close>

definition timespec_add_ms :: "timespec \<Rightarrow> int \<Rightarrow> ub + timespec" where
  "timespec_add_ms ts1 ms =
     bindE (fits 32 (ms * 1000)) (\<lambda>us. bindE (fits 32 (us * 1000)) (\<lambda>ns.
     bindE (fits 64 (tv_nsec ts1 + ns)) (\<lambda>n. timespec_normalize \<lparr>tv_sec = tv_sec ts1, tv_nsec = n\<rparr>)))"

definition timespec_by_ms :: "int \<Rightarrow> timespec" where
  "timespec_by_ms ms = \<lparr>tv_sec = ms sdiv 1000, tv_nsec = ms smod 1000 * 1000 * 1000\<rparr>"

section \<open>What they compute\<close>

definition nanoseconds :: "timespec \<Rightarrow> int" where
  "nanoseconds ts = tv_sec ts * 1000000000 + tv_nsec ts"

definition proper :: "timespec \<Rightarrow> bool" where
  "proper ts \<longleftrightarrow> 0 \<le> tv_nsec ts \<and> tv_nsec ts < 1000000000"

text \<open>Seconds below \<open>2^61\<close>, which leave room for a carry.\<close>

definition moderate :: "timespec \<Rightarrow> bool" where
  "moderate ts \<longleftrightarrow> \<bar>tv_sec ts\<bar> < 2305843009213693952"

lemma trunc_nat: "0 \<le> (n :: int) \<Longrightarrow> n sdiv 1000000000 = n div 1000000000 \<and> n smod 1000000000 = n mod 1000000000"
  by (auto simp: signed_divide_int_def signed_modulo_int_def sgn_if)

lemma trunc_small_neg: "- 1000000000 < (n :: int) \<Longrightarrow> n < 0 \<Longrightarrow> n sdiv 1000000000 = 0 \<and> n smod 1000000000 = n"
  by (auto simp: signed_divide_int_def signed_modulo_int_def sgn_if)

lemma fits_64: "\<bar>n\<bar> < 9223372036854775808 \<Longrightarrow> fits 64 n = Inr n"
  by (simp add: fits_def abs_less_iff)

lemma normalize_up:
  assumes "0 \<le> tv_nsec ts" and "tv_nsec ts < 2000000000" and "\<bar>tv_sec ts\<bar> < 4611686018427387904"
  shows "\<exists>r. timespec_normalize ts = Inr r \<and> nanoseconds r = nanoseconds ts \<and> (proper r \<longleftrightarrow> tv_nsec ts \<noteq> 1000000000)"
proof (cases "tv_nsec ts > 1000000000")
  case True
  have one: "tv_nsec ts div 1000000000 = 1" using True assms(2) by (intro int_div_pos_eq [of _ _ _ "tv_nsec ts - 1000000000"]) simp_all
  then have rest: "tv_nsec ts mod 1000000000 = tv_nsec ts - 1000000000" by (simp add: minus_div_mult_eq_mod [symmetric])
  have "fits 64 (tv_sec ts + 1) = Inr (tv_sec ts + 1)" by (rule fits_64) (use assms(3) in linarith)
  with True trunc_nat [OF assms(1)] one rest assms(2) show ?thesis
    by (simp add: timespec_normalize_def nanoseconds_def proper_def)
qed (use assms in \<open>auto simp: timespec_normalize_def proper_def\<close>)

lemma normalize_down:
  assumes "- 1000000000 < tv_nsec ts" and "tv_nsec ts < 0" and "\<bar>tv_sec ts\<bar> < 4611686018427387904"
  shows "\<exists>r. timespec_normalize ts = Inr r \<and> nanoseconds r = nanoseconds ts + 1000000000 \<and> proper r"
proof -
  have "fits 64 (tv_sec ts) = Inr (tv_sec ts)" by (rule fits_64) (use assms(3) in linarith)
  with assms(1,2) trunc_small_neg [OF assms(1,2)] show ?thesis
    by (simp add: timespec_normalize_def nanoseconds_def proper_def)
qed

lemma add_moderate: "moderate a \<Longrightarrow> moderate b \<Longrightarrow> \<bar>tv_sec a + tv_sec b\<bar> < 4611686018427387904 \<and> \<bar>tv_sec a - tv_sec b\<bar> < 4611686018427387904"
  unfolding moderate_def by (simp add: abs_less_iff)

lemma add_proper: "proper a \<Longrightarrow> proper b \<Longrightarrow> \<bar>tv_nsec a + tv_nsec b\<bar> < 9223372036854775808 \<and> \<bar>tv_nsec a - tv_nsec b\<bar> < 9223372036854775808"
  unfolding proper_def by (simp add: abs_less_iff)

text \<open>
  The difference of two proper times is proper, and too large by exactly one second whenever a
  second has to be borrowed.
\<close>

lemma timespec_sub_borrow:
  assumes "proper a" and "proper b" and "moderate a" and "moderate b"
  shows "\<exists>r. timespec_sub a b = Inr r \<and> proper r
     \<and> nanoseconds r = nanoseconds a - nanoseconds b + (if tv_nsec a < tv_nsec b then 1000000000 else 0)"
proof -
  let ?d = "\<lparr>tv_sec = tv_sec a - tv_sec b, tv_nsec = tv_nsec a - tv_nsec b\<rparr>"
  note m = add_moderate [OF assms(3,4)] and n = add_proper [OF assms(1,2)]
  have "fits 64 (tv_sec a - tv_sec b) = Inr (tv_sec ?d)" using fits_64 m by simp
  moreover have "fits 64 (tv_nsec a - tv_nsec b) = Inr (tv_nsec ?d)" using fits_64 n by simp
  ultimately have d: "timespec_sub a b = timespec_normalize ?d" by (simp add: timespec_sub_def)
  have ns: "nanoseconds ?d = nanoseconds a - nanoseconds b" by (simp add: nanoseconds_def)
  show ?thesis
  proof (cases "tv_nsec a < tv_nsec b")
    case True
    have "\<exists>r. timespec_normalize ?d = Inr r \<and> nanoseconds r = nanoseconds ?d + 1000000000 \<and> proper r"
      by (rule normalize_down) (use True assms(1,2) m in \<open>simp_all add: proper_def\<close>)
    with True show ?thesis unfolding d ns by auto
  next
    case False
    have "\<exists>r. timespec_normalize ?d = Inr r \<and> nanoseconds r = nanoseconds ?d \<and> (proper r \<longleftrightarrow> tv_nsec ?d \<noteq> 1000000000)"
      by (rule normalize_up) (use False assms(1,2) m in \<open>simp_all add: proper_def\<close>)
    moreover have "tv_nsec ?d \<noteq> 1000000000" using assms(1,2) by (simp add: proper_def)
    ultimately show ?thesis using False unfolding d ns by auto
  qed
qed

text \<open>The sum is exact, but a full second of nanoseconds stays one.\<close>

lemma timespec_add_exact:
  assumes "proper a" and "proper b" and "moderate a" and "moderate b"
  shows "\<exists>r. timespec_add a b = Inr r \<and> nanoseconds r = nanoseconds a + nanoseconds b
     \<and> (proper r \<longleftrightarrow> tv_nsec a + tv_nsec b \<noteq> 1000000000)"
proof -
  let ?d = "\<lparr>tv_sec = tv_sec a + tv_sec b, tv_nsec = tv_nsec a + tv_nsec b\<rparr>"
  note m = add_moderate [OF assms(3,4)] and n = add_proper [OF assms(1,2)]
  have "fits 64 (tv_sec a + tv_sec b) = Inr (tv_sec ?d)" using fits_64 m by simp
  moreover have "fits 64 (tv_nsec a + tv_nsec b) = Inr (tv_nsec ?d)" using fits_64 n by simp
  ultimately have d: "timespec_add a b = timespec_normalize ?d" by (simp add: timespec_add_def)
  have ns: "nanoseconds ?d = nanoseconds a + nanoseconds b" by (simp add: nanoseconds_def)
  have "\<exists>r. timespec_normalize ?d = Inr r \<and> nanoseconds r = nanoseconds ?d \<and> (proper r \<longleftrightarrow> tv_nsec ?d \<noteq> 1000000000)"
    by (rule normalize_up) (use assms(1,2) m in \<open>simp_all add: proper_def\<close>)
  then show ?thesis unfolding d ns by simp
qed

text \<open>Adding more than 2147 milliseconds overflows an \<open>int\<close>.\<close>

lemma timespec_add_ms_range:
  assumes "- 2147483648 \<le> ms" and "ms < 2147483648" and "proper a"
  shows "timespec_add_ms a ms = Inl IntOverflow \<or> \<bar>ms\<bar> \<le> 2147"
  using assms by (auto simp: timespec_add_ms_def fits_def abs_if)

lemma timespec_add_ms_exact:
  assumes "proper a" and "moderate a" and "0 \<le> ms" and "ms \<le> 999"
  shows "\<exists>r. timespec_add_ms a ms = Inr r \<and> nanoseconds r = nanoseconds a + ms * 1000000"
proof -
  let ?d = "\<lparr>tv_sec = tv_sec a, tv_nsec = tv_nsec a + ms * 1000000\<rparr>"
  have "fits 64 (tv_nsec a + ms * 1000000) = Inr (tv_nsec ?d)"
    by (subst fits_64) (use assms in \<open>simp_all add: proper_def\<close>)
  moreover have "ms * 1000 * 1000 = ms * 1000000" by simp
  ultimately have d: "timespec_add_ms a ms = timespec_normalize ?d"
    using assms(3,4) by (simp add: timespec_add_ms_def fits_def [of 32] algebra_simps)
  have "\<exists>r. timespec_normalize ?d = Inr r \<and> nanoseconds r = nanoseconds ?d \<and> (proper r \<longleftrightarrow> tv_nsec ?d \<noteq> 1000000000)"
    by (rule normalize_up) (use assms in \<open>simp_all add: proper_def moderate_def\<close>)
  then show ?thesis unfolding d by (auto simp: nanoseconds_def)
qed

lemma timespec_by_ms_exact:
  "nanoseconds (timespec_by_ms ms) = ms * 1000000" "0 \<le> ms \<Longrightarrow> proper (timespec_by_ms ms)"
proof -
  have "ms sdiv 1000 * 1000 + ms smod 1000 = ms" by (rule sdiv_mult_smod_eq)
  then have "(ms sdiv 1000 * 1000 + ms smod 1000) * 1000000 = ms * 1000000" by simp
  then show "nanoseconds (timespec_by_ms ms) = ms * 1000000"
    by (simp add: nanoseconds_def timespec_by_ms_def algebra_simps)
  show "proper (timespec_by_ms ms)" if "0 \<le> ms"
  proof -
    have "0 \<le> ms mod 1000" "ms mod 1000 < 1000" by simp_all
    with that show ?thesis by (simp add: proper_def timespec_by_ms_def signed_modulo_int_def sgn_if)
  qed
qed

end
