(* ===== verification/Memvec.thy ===== *)
theory Memvec
  imports Cjson
begin

text \<open>
  Memory vectors and the strings made of them (\<open>src/src/ds_memvec.c\<close>, \<open>src/src/ds_string.c\<close>).  The
  heap maps the start of every allocation to its bytes; what \<open>malloc\<close> answers is an argument.
\<close>

section \<open>Memory\<close>

type_synonym heap = "intptr \<rightharpoonup> u8 list"

record memvec =
  mv_ptr :: intptr
  mv_size :: nat

definition bytes_at :: "heap \<Rightarrow> intptr \<Rightarrow> ub + u8 list" where
  "bytes_at h p = (case h p of Some bs \<Rightarrow> Inr bs | None \<Rightarrow> Inl (if p = 0 then NullDeref else BadPointer))"

definition rd :: "heap \<Rightarrow> intptr \<Rightarrow> nat \<Rightarrow> ub + u8 list" where
  "rd h p n = bindE (bytes_at h p) (\<lambda>bs. if n \<le> length bs then Inr (take n bs) else Inl OutOfBounds)"

text \<open>What \<open>strlen\<close> and \<open>strdup\<close> see: the bytes before the first zero, which must be in the allocation.\<close>

definition c_string :: "heap \<Rightarrow> intptr \<Rightarrow> ub + u8 list" where
  "c_string h p = bindE (bytes_at h p) (\<lambda>bs. if 0 \<in> set bs then Inr (takeWhile (\<lambda>b. b \<noteq> 0) bs) else Inl OutOfBounds)"

definition free_at :: "heap \<Rightarrow> intptr \<Rightarrow> ub + heap" where
  "free_at h p = (if h p = None then Inl BadPointer else Inr (h(p := None)))"

text \<open>\<open>memcmp\<close>; of its result only the sign is fixed.\<close>

fun memcmp :: "u8 list \<Rightarrow> u8 list \<Rightarrow> int" where
  "memcmp (a # as) (b # bs) = (if a = b then memcmp as bs else if a < b then -1 else 1)"
| "memcmp _ _ = 0"

section \<open>Memory vectors\<close>

text \<open>The bytes are not copied: the vector takes the pointer over.\<close>

definition memvec_new :: "intptr \<Rightarrow> nat \<Rightarrow> bool \<Rightarrow> memvec option" where
  "memvec_new src sz malloc_ok =
     (if sz \<le> 0 then None else if \<not> malloc_ok then None else Some \<lparr>mv_ptr = src, mv_size = sz\<rparr>)"

definition memvec_delete :: "heap \<Rightarrow> memvec option \<Rightarrow> ub + int \<times> heap" where
  "memvec_delete h mv =
     (case mv of None \<Rightarrow> Inr (-1, h)
      | Some v \<Rightarrow> if mv_ptr v \<noteq> 0 then bindE (free_at h (mv_ptr v)) (\<lambda>h. Inr (0, h)) else Inr (0, h))"

definition memvec_cmp :: "memvec \<Rightarrow> memvec \<Rightarrow> int" where
  "memvec_cmp mv1 mv2 = (if mv_size mv1 = mv_size mv2 \<and> mv_ptr mv1 = mv_ptr mv2 then 0 else -1)"

definition memvec_cmp_content :: "heap \<Rightarrow> memvec \<Rightarrow> memvec \<Rightarrow> ub + int" where
  "memvec_cmp_content h mv1 mv2 =
     (if mv_size mv1 = mv_size mv2 then
        bindE (rd h (mv_ptr mv1) (mv_size mv1)) (\<lambda>p1.
        bindE (rd h (mv_ptr mv2) (mv_size mv1)) (\<lambda>p2. Inr (memcmp p1 p2)))
      else Inr (if mv_size mv1 > mv_size mv2 then 1 else -1))"

text \<open>\<open>buf\<close> is the address the second \<open>malloc\<close> returns.\<close>

definition memvec_dup :: "heap \<Rightarrow> memvec \<Rightarrow> bool \<Rightarrow> intptr option \<Rightarrow> ub + memvec option \<times> heap" where
  "memvec_dup h src malloc_ok buf =
     (if \<not> malloc_ok then Inr (None, h)
      else case buf of None \<Rightarrow> Inr (None, h)
      | Some p \<Rightarrow>
          bindE (rd h (mv_ptr src) (mv_size src)) (\<lambda>bs.
          Inr (Some \<lparr>mv_ptr = p, mv_size = mv_size src\<rparr>, h(p \<mapsto> bs))))"

definition memvec_serialize :: "heap \<Rightarrow> memvec \<Rightarrow> intptr option \<Rightarrow> ub + intptr option \<times> heap" where
  "memvec_serialize h mv buf =
     (case buf of None \<Rightarrow> Inr (None, h)
      | Some p \<Rightarrow> bindE (rd h (mv_ptr mv) (mv_size mv)) (\<lambda>bs. Inr (Some p, h(p \<mapsto> bs @ [0]))))"

section \<open>Strings\<close>

definition string_fromc :: "heap \<Rightarrow> intptr \<Rightarrow> bool \<Rightarrow> ub + memvec option" where
  "string_fromc h str malloc_ok = bindE (c_string h str) (\<lambda>bs. Inr (memvec_new str (length bs) malloc_ok))"

definition string_toc :: "heap \<Rightarrow> memvec \<Rightarrow> intptr option \<Rightarrow> ub + intptr option \<times> heap" where
  "string_toc h s tmp =
     (case tmp of None \<Rightarrow> Inr (None, h)
      | Some p \<Rightarrow> bindE (rd h (mv_ptr s) (mv_size s)) (\<lambda>bs. Inr (Some p, h(p \<mapsto> bs @ [0]))))"

definition string_cmp :: "heap \<Rightarrow> memvec \<Rightarrow> memvec \<Rightarrow> ub + int" where
  "string_cmp = memvec_cmp_content"

text \<open>
  \<open>strdup\<close> copies up to the first zero byte, whatever the size of the source, and its failure is not
  noticed.
\<close>

definition string_cpy :: "heap \<Rightarrow> memvec \<Rightarrow> memvec \<Rightarrow> intptr option \<Rightarrow> ub + int \<times> memvec \<times> heap" where
  "string_cpy h dest src buf =
     bindE (if mv_ptr dest \<noteq> 0 then free_at h (mv_ptr dest) else Inr h) (\<lambda>h.
     bindE (c_string h (mv_ptr src)) (\<lambda>bs.
     case buf of None \<Rightarrow> Inr (0, \<lparr>mv_ptr = 0, mv_size = mv_size src\<rparr>, h)
     | Some p \<Rightarrow> Inr (0, \<lparr>mv_ptr = p, mv_size = mv_size src\<rparr>, h(p \<mapsto> bs @ [0]))))"

definition string_delete :: "heap \<Rightarrow> memvec option \<Rightarrow> ub + int \<times> heap" where
  "string_delete = memvec_delete"

text \<open>A long string is shown by its first and its last 30 bytes.\<close>

definition string_serialize :: "heap \<Rightarrow> memvec \<Rightarrow> ub + cjson" where
  "string_serialize h s =
     (let ret = cJSON_AddItemToObject cJSON_CreateObject ''Size'' (Some (cJSON_CreateNumber (int (mv_size s)))) in
      bindE (if mv_size s \<le> 64 then c_string h (mv_ptr s)
             else bindE (rd h (mv_ptr s) (mv_size s)) (\<lambda>bs.
               Inr (takeWhile (\<lambda>b. b \<noteq> 0) (take 30 bs @ ascii ''....'' @ drop (mv_size s - 30) bs)))) (\<lambda>content.
      bindE (cJSON_CreateString (Some (map (\<lambda>b. char_of (unat b)) content))) (\<lambda>c.
      Inr (cJSON_AddItemToObject ret ''Content'' (Some c)))))"

section \<open>Copies\<close>

lemma memcmp_eq: "length xs = length ys \<Longrightarrow> memcmp xs ys = 0 \<longleftrightarrow> xs = ys"
  by (induction xs ys rule: memcmp.induct) auto

lemma memcmp_sym: "length xs = length ys \<Longrightarrow> memcmp ys xs = - memcmp xs ys"
  by (induction xs ys rule: memcmp.induct) (auto simp: not_less_iff_gr_or_eq)

definition memvec_wf :: "heap \<Rightarrow> memvec \<Rightarrow> bool" where
  "memvec_wf h mv \<longleftrightarrow> mv_ptr mv \<noteq> 0 \<and> (case h (mv_ptr mv) of None \<Rightarrow> False | Some bs \<Rightarrow> mv_size mv \<le> length bs)"

definition content :: "heap \<Rightarrow> memvec \<Rightarrow> u8 list" where
  "content h mv = take (mv_size mv) (the (h (mv_ptr mv)))"

lemma rd_wf: "memvec_wf h mv \<Longrightarrow> rd h (mv_ptr mv) (mv_size mv) = Inr (content h mv)"
  by (auto simp: memvec_wf_def rd_def bytes_at_def content_def split: option.splits)

lemma length_content: "memvec_wf h mv \<Longrightarrow> length (content h mv) = mv_size mv"
  by (auto simp: memvec_wf_def content_def split: option.splits)

text \<open>Comparing is comparing the contents, sizes first.\<close>

lemma memvec_cmp_content_spec:
  assumes "memvec_wf h a" and "memvec_wf h b"
  shows "\<exists>r. memvec_cmp_content h a b = Inr r \<and> (r = 0 \<longleftrightarrow> content h a = content h b)
     \<and> memvec_cmp_content h b a = Inr (- r)"
proof (cases "mv_size a = mv_size b")
  case True
  then have len: "length (content h a) = length (content h b)" using assms by (simp add: length_content)
  show ?thesis
    using rd_wf [OF assms(1)] rd_wf [OF assms(2)] True memcmp_eq [OF len] memcmp_sym [OF len]
    by (simp add: memvec_cmp_content_def)
next
  case False
  then have "content h a \<noteq> content h b" using assms length_content by metis
  with False show ?thesis by (auto simp: memvec_cmp_content_def)
qed

text \<open>A duplicate has memory of its own with the same content, and deleting it leaves all as it was.\<close>

lemma memvec_dup_spec:
  assumes "memvec_wf h mv" and "p \<noteq> 0" and "h p = None"
  shows "\<exists>d h'. memvec_dup h mv True (Some p) = Inr (Some d, h') \<and> memvec_wf h' d \<and> memvec_wf h' mv
     \<and> content h' d = content h mv \<and> content h' mv = content h mv \<and> memvec_cmp mv d = -1
     \<and> memvec_delete h' (Some d) = Inr (0, h)"
proof -
  have ptr: "mv_ptr mv \<noteq> p" using assms(1,3) by (auto simp: memvec_wf_def)
  let ?d = "\<lparr>mv_ptr = p, mv_size = mv_size mv\<rparr>" and ?h = "h(p \<mapsto> content h mv)"
  have "memvec_dup h mv True (Some p) = Inr (Some ?d, ?h)" using rd_wf [OF assms(1)] by (simp add: memvec_dup_def)
  moreover have "memvec_wf ?h ?d" using assms(2) length_content [OF assms(1)] by (simp add: memvec_wf_def)
  moreover have "memvec_wf ?h mv" using assms(1) ptr by (simp add: memvec_wf_def)
  moreover have "content ?h ?d = content h mv" using length_content [OF assms(1)] by (simp add: content_def)
  moreover have "content ?h mv = content h mv" using ptr by (simp add: content_def)
  moreover have "memvec_cmp mv ?d = -1" using ptr by (simp add: memvec_cmp_def)
  moreover have "memvec_delete ?h (Some ?d) = Inr (0, h)"
    using assms(2,3) by (auto simp: memvec_delete_def free_at_def)
  ultimately show ?thesis by blast
qed

lemma takeWhile_zero: "0 \<notin> set bs \<Longrightarrow> takeWhile (\<lambda>b. b \<noteq> (0 :: u8)) (bs @ 0 # rest) = bs"
  by (induction bs) auto

text \<open>From a C string to a string and back; the empty string has none.\<close>

lemma string_round_trip:
  assumes "h str = Some (bs @ 0 # rest)" and "0 \<notin> set bs" and "str \<noteq> 0" and "tmp \<noteq> 0" and "h tmp = None"
  shows "if bs = [] then string_fromc h str True = Inr None
     else \<exists>s h'. string_fromc h str True = Inr (Some s) \<and> string_toc h s (Some tmp) = Inr (Some tmp, h')
       \<and> c_string h' tmp = Inr bs"
proof -
  have c: "c_string h str = Inr bs" using assms(1) takeWhile_zero [OF assms(2)] by (simp add: c_string_def bytes_at_def)
  with assms(1) takeWhile_zero [OF assms(2), of "[]"] show ?thesis
    by (auto simp: string_fromc_def memvec_new_def string_toc_def rd_def bytes_at_def c_string_def)
qed

text \<open>
  Copying a string: right when a zero byte follows exactly its content, and a read past the
  allocation when there is none, as in every vector that \<open>memvec_dup\<close> makes of bytes without zeros.
\<close>

lemma string_cpy_spec:
  assumes "memvec_wf h src" and "h (mv_ptr dest) \<noteq> None" and "mv_ptr dest \<noteq> 0" and "mv_ptr dest \<noteq> mv_ptr src"
    and "h p = None" and "p \<noteq> 0"
  shows "if 0 \<notin> set (the (h (mv_ptr src))) then string_cpy h dest src (Some p) = Inl OutOfBounds
    else \<exists>d h'. string_cpy h dest src (Some p) = Inr (0, d, h') \<and> mv_size d = mv_size src
      \<and> (memvec_wf h' d \<and> content h' d = content h src \<longleftrightarrow>
          (0 \<notin> set (content h src)) \<or> mv_size src = Suc (length (takeWhile (\<lambda>b. b \<noteq> 0) (the (h (mv_ptr src))))))"
proof -
  obtain bs where bs: "h (mv_ptr src) = Some bs" "mv_size src \<le> length bs" "mv_ptr src \<noteq> 0"
    using assms(1) by (auto simp: memvec_wf_def split: option.splits)
  let ?h = "h(mv_ptr dest := None)" and ?w = "takeWhile (\<lambda>b. b \<noteq> 0) bs"
  have fr: "free_at h (mv_ptr dest) = Inr ?h" using assms(2) by (simp add: free_at_def)
  have at: "bytes_at ?h (mv_ptr src) = Inr bs" using bs(1) assms(4) by (simp add: bytes_at_def)
  show ?thesis
  proof (cases "0 \<in> set bs")
    case False
    with fr at assms(3) bs(1) show ?thesis by (simp add: string_cpy_def c_string_def)
  next
    case True
    let ?d = "\<lparr>mv_ptr = p, mv_size = mv_size src\<rparr>" and ?h' = "?h(p \<mapsto> ?w @ [0])"
    have run: "string_cpy h dest src (Some p) = Inr (0, ?d, ?h')"
      using fr at assms(3) True by (simp add: string_cpy_def c_string_def)
    from True obtain k where k: "length ?w < length bs" "bs ! length ?w = 0"
      using takeWhile_eq_all_conv nth_length_takeWhile
      by (metis (mono_tags, lifting) le_neq_implies_less length_takeWhile_le takeWhile_eq_take take_all_iff)
    have pre: "take (Suc (length ?w)) bs = ?w @ [0]"
      using k by (simp add: take_Suc_conv_app_nth takeWhile_eq_take [symmetric])
    have nz: "0 \<notin> set ?w" using set_takeWhileD [of 0 "\<lambda>b. b \<noteq> 0" bs] by blast
    have iff: "(0 \<notin> set (take n bs)) \<longleftrightarrow> n \<le> length ?w" if "n \<le> length bs" for n
    proof
      assume "0 \<notin> set (take n bs)"
      show "n \<le> length ?w"
      proof (rule ccontr)
        assume "\<not> n \<le> length ?w"
        then have "0 \<in> set (take n bs)" using k by (auto simp: in_set_conv_nth intro!: exI [of _ "length ?w"])
        with \<open>0 \<notin> set (take n bs)\<close> show False by blast
      qed
    next
      assume "n \<le> length ?w"
      then have "take n bs = take n (take (Suc (length ?w)) bs)" by (simp add: min_absorb1)
      also have "\<dots> = take n ?w" unfolding pre using \<open>n \<le> length ?w\<close> by simp
      finally show "0 \<notin> set (take n bs)" using nz in_set_takeD [of 0 n ?w] by auto
    qed
    have ok: "memvec_wf ?h' ?d \<longleftrightarrow> mv_size src \<le> Suc (length ?w)" using assms(6) by (simp add: memvec_wf_def)
    have same: "content ?h' ?d = content h src" if "mv_size src \<le> Suc (length ?w)"
    proof -
      have "take (mv_size src) bs = take (mv_size src) (take (Suc (length ?w)) bs)" using that by (simp add: min_absorb1)
      then show ?thesis using bs(1) pre by (simp add: content_def)
    qed
    have "memvec_wf ?h' ?d \<and> content ?h' ?d = content h src \<longleftrightarrow>
        0 \<notin> set (content h src) \<or> mv_size src = Suc (length ?w)"
      using ok same iff [OF bs(2)] bs(1) by (auto simp: content_def)
    with run True bs(1) show ?thesis by auto
  qed
qed

end
