(* ===== verification/Bitmap.thy ===== *)
theory Bitmap
  imports Prelude
begin

text \<open>
  Bit maps (\<open>src/src/ds_bmap.c\<close>, \<open>ds_bmap.h\<close>).  The macros shift the \<open>int\<close> 1, which has 32 bits,
  although the words of the map have 64.
\<close>

unbundle bit_operations_syntax

record bitmap =
  bm_size :: nat
  bm_bitsize :: nat
  bm_data :: "u64 list"

abbreviation (input) BMAP_MAXBITS :: nat where "BMAP_MAXBITS \<equiv> 1024 * 1024 * 1024"

definition bitmap_new :: "nat \<Rightarrow> bool \<Rightarrow> bitmap option" where
  "bitmap_new bitsize malloc_ok =
     (if bitsize > BMAP_MAXBITS then None
      else
        let bitsize = (if bitsize mod 64 \<noteq> 0 then bitsize div 64 + 1 else bitsize div 64) * 64 in
        if \<not> malloc_ok then None
        else Some \<lparr>bm_size = bitsize div 8, bm_bitsize = bitsize, bm_data = replicate (bitsize div 64) 0\<rparr>)"

text \<open>
  \<open>1<<(n%64)\<close>: undefined when the result does not fit an \<open>int\<close>; otherwise it is converted to 64
  bits.
\<close>

definition bit_of :: "nat \<Rightarrow> ub + u64" where
  "bit_of n = (let k = n mod 64 in
     if k \<ge> 32 then Inl BadShift else if k = 31 then Inl IntOverflow else Inr (push_bit k 1))"

definition word_at :: "bitmap \<Rightarrow> nat \<Rightarrow> ub + u64" where
  "word_at b n = (if n div 64 < length (bm_data b) then Inr (bm_data b ! (n div 64)) else Inl OutOfBounds)"

definition bitmap_set :: "bitmap \<Rightarrow> nat \<Rightarrow> ub + bitmap" where
  "bitmap_set b n = bindE (bit_of n) (\<lambda>m. bindE (word_at b n) (\<lambda>w.
     Inr (b\<lparr>bm_data := (bm_data b)[n div 64 := w OR m]\<rparr>)))"

definition bitmap_unset :: "bitmap \<Rightarrow> nat \<Rightarrow> ub + bitmap" where
  "bitmap_unset b n = bindE (bit_of n) (\<lambda>m. bindE (word_at b n) (\<lambda>w.
     Inr (b\<lparr>bm_data := (bm_data b)[n div 64 := w AND NOT m]\<rparr>)))"

definition bitmap_isset :: "bitmap \<Rightarrow> nat \<Rightarrow> ub + u64" where
  "bitmap_isset b n = bindE (bit_of n) (\<lambda>m. bindE (word_at b n) (\<lambda>w. Inr (w AND m)))"

definition bitmap_delete :: "bitmap option \<Rightarrow> int" where
  "bitmap_delete p = 0"

section \<open>A bit map is a set of numbers\<close>

definition bitmap_wf :: "bitmap \<Rightarrow> bool" where
  "bitmap_wf b \<longleftrightarrow> bm_bitsize b = 64 * length (bm_data b) \<and> bm_size b = 8 * length (bm_data b)"

definition members :: "bitmap \<Rightarrow> nat set" where
  "members b = {n. n < bm_bitsize b \<and> bit (bm_data b ! (n div 64)) (n mod 64)}"

text \<open>The numbers whose bits the macros can address.\<close>

definition usable_bit :: "bitmap \<Rightarrow> nat \<Rightarrow> bool" where
  "usable_bit b n \<longleftrightarrow> n < bm_bitsize b \<and> n mod 64 < 31"

lemma bitmap_new_spec:
  assumes "n \<le> BMAP_MAXBITS"
  shows "\<exists>b. bitmap_new n True = Some b \<and> bitmap_wf b \<and> n \<le> bm_bitsize b \<and> bm_bitsize b < n + 64 \<and> members b = {}"
proof -
  let ?k = "if n mod 64 \<noteq> 0 then n div 64 + 1 else n div 64"
  have "n \<le> ?k * 64 \<and> ?k * 64 < n + 64"
  proof (cases "n mod 64 = 0")
    case True
    then have "n div 64 * 64 = n" by (metis add.right_neutral div_mult_mod_eq)
    with True show ?thesis by simp
  next
    case False
    have "n = n div 64 * 64 + n mod 64" "n mod 64 < 64" by simp_all
    with False show ?thesis unfolding if_P [OF False] distrib_right by linarith
  qed
  then have "n \<le> ?k * 64" "?k * 64 < n + 64" by blast+
  moreover have "bitmap_new n True = Some \<lparr>bm_size = ?k * 64 div 8, bm_bitsize = ?k * 64, bm_data = replicate (?k * 64 div 64) 0\<rparr>"
    using assms by (simp only: bitmap_new_def Let_def if_False not_le [symmetric]) simp
  moreover have "?k * 64 div 8 = 8 * ?k" "?k * 64 div 64 = ?k" by simp_all
  ultimately show ?thesis
    by (auto simp: bitmap_wf_def members_def less_mult_imp_div_less simp del: mult_div_mod_eq)
qed

lemma bit_mask: "k < 64 \<Longrightarrow> bit (push_bit k 1 :: u64) j \<longleftrightarrow> j = k"
  by (auto simp: bit_simps)

lemma same_bit: "n div 64 = m div 64 \<Longrightarrow> n mod 64 = m mod (64 :: nat) \<longleftrightarrow> n = m"
  by (metis div_mult_mod_eq)

lemma word_at_wf: "bitmap_wf b \<Longrightarrow> n < bm_bitsize b \<Longrightarrow> n div 64 < length (bm_data b)"
  by (simp add: bitmap_wf_def less_mult_imp_div_less)

text \<open>On the bits they can address the macros set, reset and test.\<close>

lemma bitmap_set_spec:
  assumes "bitmap_wf b" and "usable_bit b n"
  shows "\<exists>b'. bitmap_set b n = Inr b' \<and> bitmap_wf b' \<and> members b' = insert n (members b)"
proof -
  have n: "n < bm_bitsize b" "n mod 64 < 31" using assms(2) by (simp_all add: usable_bit_def)
  note len = word_at_wf [OF assms(1) n(1)]
  let ?b' = "b\<lparr>bm_data := (bm_data b)[n div 64 := (bm_data b ! (n div 64)) OR push_bit (n mod 64) 1]\<rparr>"
  have m: "bit (push_bit (n mod 64) 1 :: u64) j \<longleftrightarrow> j = n mod 64" for j by (rule bit_mask) simp
  have "bit (bm_data ?b' ! (k div 64)) (k mod 64) \<longleftrightarrow> bit (bm_data b ! (k div 64)) (k mod 64) \<or> k = n"
    if "k < bm_bitsize b" for k
    using len same_bit [of k n] word_at_wf [OF assms(1) that]
    by (cases "k div 64 = n div 64") (auto simp: bit_or_iff m simp del: push_bit_of_1)
  then have "members ?b' = insert n (members b)" using n(1) by (auto simp: members_def)
  moreover have "bitmap_set b n = Inr ?b'"
    using n(2) len by (simp add: bitmap_set_def bit_of_def word_at_def Let_def)
  ultimately show ?thesis using assms(1) by (simp add: bitmap_wf_def)
qed

lemma bitmap_unset_spec:
  assumes "bitmap_wf b" and "usable_bit b n"
  shows "\<exists>b'. bitmap_unset b n = Inr b' \<and> bitmap_wf b' \<and> members b' = members b - {n}"
proof -
  have n: "n < bm_bitsize b" "n mod 64 < 31" using assms(2) by (simp_all add: usable_bit_def)
  note len = word_at_wf [OF assms(1) n(1)]
  let ?b' = "b\<lparr>bm_data := (bm_data b)[n div 64 := (bm_data b ! (n div 64)) AND NOT (push_bit (n mod 64) 1)]\<rparr>"
  have m: "bit (push_bit (n mod 64) 1 :: u64) j \<longleftrightarrow> j = n mod 64" for j by (rule bit_mask) simp
  have "bit (bm_data ?b' ! (k div 64)) (k mod 64) \<longleftrightarrow> bit (bm_data b ! (k div 64)) (k mod 64) \<and> k \<noteq> n"
    if "k < bm_bitsize b" for k
    using len same_bit [of k n] word_at_wf [OF assms(1) that]
    by (cases "k div 64 = n div 64") (auto simp: bit_and_iff bit_not_iff m simp del: push_bit_of_1)
  then have "members ?b' = members b - {n}" by (auto simp: members_def)
  moreover have "bitmap_unset b n = Inr ?b'"
    using n(2) len by (simp add: bitmap_unset_def bit_of_def word_at_def Let_def)
  ultimately show ?thesis using assms(1) by (simp add: bitmap_wf_def)
qed

lemma bitmap_isset_spec:
  assumes "bitmap_wf b" and "usable_bit b n"
  shows "\<exists>w. bitmap_isset b n = Inr w \<and> (w \<noteq> 0 \<longleftrightarrow> n \<in> members b)"
proof -
  have n: "n < bm_bitsize b" "n mod 64 < 31" using assms(2) by (simp_all add: usable_bit_def)
  let ?w = "bm_data b ! (n div 64) AND push_bit (n mod 64) 1"
  have m: "bit (push_bit (n mod 64) 1 :: u64) j \<longleftrightarrow> j = n mod 64" for j by (rule bit_mask) simp
  have "?w \<noteq> 0 \<longleftrightarrow> bit (bm_data b ! (n div 64)) (n mod 64)"
    unfolding bit_eq_iff [of ?w] bit_and_iff m by (auto simp: bit_0_eq possible_bit_def)
  moreover have "bitmap_isset b n = Inr ?w"
    using n word_at_wf [OF assms(1) n(1)] by (simp add: bitmap_isset_def bit_of_def word_at_def Let_def)
  ultimately show ?thesis using n(1) by (simp add: members_def)
qed

text \<open>More than half of the bits cannot be addressed without undefined behaviour.\<close>

lemma bitmap_unusable:
  assumes "31 \<le> n mod 64"
  shows "bitmap_set b n \<in> {Inl BadShift, Inl IntOverflow}" "bitmap_isset b n \<in> {Inl BadShift, Inl IntOverflow}"
  using assms by (auto simp: bitmap_set_def bitmap_isset_def bit_of_def Let_def)

end
