(* ===== verification/Rbtree.thy ===== *)
theory Rbtree
  imports Prelude
begin

text \<open>
  \<open>src/src/ds_rbtree.c\<close> and \<open>ds_rbtree.h\<close>: a red-black tree of nodes with parent pointers.  The tree
  does not allocate: the caller owns the nodes and a sentinel that stands for every missing child.  The
  model works on the memory of the nodes.  The branches of the source that differ only by exchanging
  left and right are one definition over the side.
\<close>

section \<open>Nodes and memory\<close>

text \<open>\<open>color\<close> is only ever set to 0 (black) and 1 (red); \<open>data\<close> is never touched.\<close>

record rb_node =
  rb_key :: u64
  rb_left :: intptr
  rb_right :: intptr
  rb_parent :: intptr
  rb_red :: bool

record rbtree =
  rb_mem :: "intptr \<rightharpoonup> rb_node"
  rb_root :: intptr
  rb_sentinel :: intptr

datatype side = ToLeft | ToRight

fun opp :: "side \<Rightarrow> side" where
  "opp ToLeft = ToRight"
| "opp ToRight = ToLeft"

fun child :: "side \<Rightarrow> rb_node \<Rightarrow> intptr" where
  "child ToLeft n = rb_left n"
| "child ToRight n = rb_right n"

fun set_child :: "side \<Rightarrow> intptr \<Rightarrow> rb_node \<Rightarrow> rb_node" where
  "set_child ToLeft p n = n\<lparr>rb_left := p\<rparr>"
| "set_child ToRight p n = n\<lparr>rb_right := p\<rparr>"

definition rb_load :: "rbtree \<Rightarrow> intptr \<Rightarrow> ub + rb_node" where
  "rb_load t p = (case rb_mem t p of Some n \<Rightarrow> Inr n | None \<Rightarrow> Inl (if p = 0 then NullDeref else BadPointer))"

definition rb_store :: "rbtree \<Rightarrow> intptr \<Rightarrow> (rb_node \<Rightarrow> rb_node) \<Rightarrow> ub + rbtree" where
  "rb_store t p f = bindE (rb_load t p) (\<lambda>n. Inr (t\<lparr>rb_mem := (rb_mem t)(p \<mapsto> f n)\<rparr>))"

definition paint :: "rbtree \<Rightarrow> intptr \<Rightarrow> bool \<Rightarrow> ub + rbtree" where
  "paint t p c = rb_store t p (\<lambda>n. n\<lparr>rb_red := c\<rparr>)"

definition is_red :: "rbtree \<Rightarrow> intptr \<Rightarrow> ub + bool" where
  "is_red t p = bindE (rb_load t p) (\<lambda>n. Inr (rb_red n))"

definition parent :: "rbtree \<Rightarrow> intptr \<Rightarrow> ub + intptr" where
  "parent t p = bindE (rb_load t p) (\<lambda>n. Inr (rb_parent n))"

definition set_parent :: "rbtree \<Rightarrow> intptr \<Rightarrow> intptr \<Rightarrow> ub + rbtree" where
  "set_parent t p q = rb_store t p (\<lambda>n. n\<lparr>rb_parent := q\<rparr>)"

section \<open>Rotations\<close>

text \<open>\<open>if (node == node->parent->d) node->parent->d = temp; else\<close> the other child is \<open>temp\<close>.\<close>

definition relink :: "side \<Rightarrow> rbtree \<Rightarrow> intptr \<Rightarrow> intptr \<Rightarrow> ub + rbtree" where
  "relink d t node temp =
     bindE (parent t node) (\<lambda>p. bindE (rb_load t p) (\<lambda>pn.
     rb_store t p (set_child (if node = child d pn then d else opp d) temp)))"

text \<open>The same for a node that may be the root.\<close>

definition replace_child :: "side \<Rightarrow> rbtree \<Rightarrow> intptr \<Rightarrow> intptr \<Rightarrow> ub + rbtree" where
  "replace_child d t node temp = (if node = rb_root t then Inr (t\<lparr>rb_root := temp\<rparr>) else relink d t node temp)"

definition rotate :: "side \<Rightarrow> rbtree \<Rightarrow> intptr \<Rightarrow> ub + rbtree" where
  "rotate d t node =
     bindE (rb_load t node) (\<lambda>n.
     let temp = child (opp d) n in
     bindE (rb_load t temp) (\<lambda>m.
     bindE (rb_store t node (set_child (opp d) (child d m))) (\<lambda>t.
     bindE (rb_load t temp) (\<lambda>m.
     bindE (if child d m \<noteq> rb_sentinel t then set_parent t (child d m) node else Inr t) (\<lambda>t.
     bindE (parent t node) (\<lambda>p.
     bindE (set_parent t temp p) (\<lambda>t.
     bindE (replace_child d t node temp) (\<lambda>t.
     bindE (rb_store t temp (set_child d node)) (\<lambda>t.
     set_parent t node temp)))))))))"

definition rbtree_left_rotate :: "rbtree \<Rightarrow> intptr \<Rightarrow> ub + rbtree" where
  "rbtree_left_rotate = rotate ToLeft"

definition rbtree_right_rotate :: "rbtree \<Rightarrow> intptr \<Rightarrow> ub + rbtree" where
  "rbtree_right_rotate = rotate ToRight"

section \<open>Insertion\<close>

text \<open>
  \<open>rbtree_insert_value\<close> and \<open>rbtree_insert_timer_value\<close> differ in the comparison.  The descent has
  no other bound than the tree, hence the fuel.
\<close>

primrec insert_below :: "(u64 \<Rightarrow> u64 \<Rightarrow> bool) \<Rightarrow> nat \<Rightarrow> rbtree \<Rightarrow> intptr \<Rightarrow> intptr \<Rightarrow> ub + rbtree" where
  "insert_below lt 0 t temp node = Inl OutOfFuel"
| "insert_below lt (Suc fuel) t temp node =
     bindE (rb_load t node) (\<lambda>n. bindE (rb_load t temp) (\<lambda>m.
     let d = (if lt (rb_key n) (rb_key m) then ToLeft else ToRight) in
     if child d m = rb_sentinel t
     then bindE (rb_store t temp (set_child d node)) (\<lambda>t.
          bindE (set_parent t node temp) (\<lambda>t.
          bindE (rb_store t node (set_child ToLeft (rb_sentinel t))) (\<lambda>t.
          bindE (rb_store t node (set_child ToRight (rb_sentinel t))) (\<lambda>t.
          paint t node True))))
     else insert_below lt fuel t (child d m) node))"

definition key_less :: "u64 \<Rightarrow> u64 \<Rightarrow> bool" where
  "key_less a b \<longleftrightarrow> a < b"

definition timer_less :: "u64 \<Rightarrow> u64 \<Rightarrow> bool" where
  "timer_less a b \<longleftrightarrow> sint (a - b) < 0"

definition rbtree_insert_value :: "nat \<Rightarrow> rbtree \<Rightarrow> intptr \<Rightarrow> intptr \<Rightarrow> ub + rbtree" where
  "rbtree_insert_value = insert_below key_less"

definition rbtree_insert_timer_value :: "nat \<Rightarrow> rbtree \<Rightarrow> intptr \<Rightarrow> intptr \<Rightarrow> ub + rbtree" where
  "rbtree_insert_timer_value = insert_below timer_less"

text \<open>One turn of the loop that re-balances; \<open>d\<close> is the side of the parent below the grandparent.\<close>

definition insert_step :: "side \<Rightarrow> rbtree \<Rightarrow> intptr \<Rightarrow> ub + rbtree \<times> intptr" where
  "insert_step d t node =
     bindE (parent t node) (\<lambda>p. bindE (parent t p) (\<lambda>g. bindE (rb_load t g) (\<lambda>gn.
     let temp = child (opp d) gn in
     bindE (is_red t temp) (\<lambda>red.
     if red
     then bindE (paint t p False) (\<lambda>t. bindE (paint t temp False) (\<lambda>t.
          bindE (paint t g True) (\<lambda>t. Inr (t, g))))
     else
       bindE (rb_load t p) (\<lambda>pn.
       bindE (if node = child (opp d) pn then bindE (rotate d t p) (\<lambda>t. Inr (t, p)) else Inr (t, node)) (\<lambda>(t, node).
       bindE (parent t node) (\<lambda>p. bindE (paint t p False) (\<lambda>t.
       bindE (parent t p) (\<lambda>g. bindE (paint t g True) (\<lambda>t.
       bindE (rotate (opp d) t g) (\<lambda>t. Inr (t, node))))))))))))"

primrec insert_fix :: "nat \<Rightarrow> rbtree \<Rightarrow> intptr \<Rightarrow> ub + rbtree" where
  "insert_fix 0 t node = Inl OutOfFuel"
| "insert_fix (Suc fuel) t node =
     (if node = rb_root t then paint t (rb_root t) False
      else bindE (parent t node) (\<lambda>p. bindE (is_red t p) (\<lambda>red.
        if \<not> red then paint t (rb_root t) False
        else bindE (parent t p) (\<lambda>g. bindE (rb_load t g) (\<lambda>gn.
          bindE (insert_step (if p = rb_left gn then ToLeft else ToRight) t node) (\<lambda>(t, node).
          insert_fix fuel t node))))))"

text \<open>\<open>ins\<close> is \<open>tree->insert\<close>.\<close>

definition rbtree_insert :: "(nat \<Rightarrow> rbtree \<Rightarrow> intptr \<Rightarrow> intptr \<Rightarrow> ub + rbtree) \<Rightarrow> nat \<Rightarrow> rbtree \<Rightarrow> intptr \<Rightarrow> ub + rbtree" where
  "rbtree_insert ins fuel t node =
     (if rb_root t = rb_sentinel t
      then bindE (set_parent t node 0) (\<lambda>t.
           bindE (rb_store t node (set_child ToLeft (rb_sentinel t))) (\<lambda>t.
           bindE (rb_store t node (set_child ToRight (rb_sentinel t))) (\<lambda>t.
           bindE (paint t node False) (\<lambda>t. Inr (t\<lparr>rb_root := node\<rparr>)))))
      else bindE (ins fuel t (rb_root t) node) (\<lambda>t. insert_fix fuel t node))"

text \<open>The macro \<open>rbtree_init\<close>; the function pointer is \<open>ins\<close>.\<close>

definition rbtree_init :: "rbtree \<Rightarrow> intptr \<Rightarrow> ub + rbtree" where
  "rbtree_init t s = bindE (paint t s False) (\<lambda>t. Inr (t\<lparr>rb_root := s, rb_sentinel := s\<rparr>))"

section \<open>Deletion\<close>

primrec rbtree_min :: "nat \<Rightarrow> rbtree \<Rightarrow> intptr \<Rightarrow> ub + intptr" where
  "rbtree_min 0 t node = Inl OutOfFuel"
| "rbtree_min (Suc fuel) t node =
     bindE (rb_load t node) (\<lambda>n. if rb_left n \<noteq> rb_sentinel t then rbtree_min fuel t (rb_left n) else Inr node)"

text \<open>The node that is taken out of the chain of pointers, \<open>subst\<close>, and its only child, \<open>temp\<close>.\<close>

definition delete_pick :: "nat \<Rightarrow> rbtree \<Rightarrow> intptr \<Rightarrow> ub + intptr \<times> intptr" where
  "delete_pick fuel t node =
     bindE (rb_load t node) (\<lambda>n.
     if rb_left n = rb_sentinel t then Inr (node, rb_right n)
     else if rb_right n = rb_sentinel t then Inr (node, rb_left n)
     else bindE (rbtree_min fuel t (rb_right n)) (\<lambda>subst. bindE (rb_load t subst) (\<lambda>m.
       Inr (subst, if rb_left m \<noteq> rb_sentinel t then rb_left m else rb_right m))))"

text \<open>\<open>subst\<close> takes the place of \<open>node\<close>.\<close>

definition take_place :: "rbtree \<Rightarrow> intptr \<Rightarrow> intptr \<Rightarrow> ub + rbtree" where
  "take_place t node subst =
     bindE (rb_load t node) (\<lambda>n.
     bindE (rb_store t subst (\<lambda>m. m\<lparr>rb_left := rb_left n, rb_right := rb_right n, rb_parent := rb_parent n, rb_red := rb_red n\<rparr>)) (\<lambda>t.
     bindE (replace_child ToLeft t node subst) (\<lambda>t.
     bindE (rb_load t subst) (\<lambda>m.
     bindE (if rb_left m \<noteq> rb_sentinel t then set_parent t (rb_left m) subst else Inr t) (\<lambda>t.
     bindE (rb_load t subst) (\<lambda>m.
     if rb_right m \<noteq> rb_sentinel t then set_parent t (rb_right m) subst else Inr t))))))"

text \<open>The stores marked \<open>DEBUG stuff\<close>.\<close>

definition wipe :: "rbtree \<Rightarrow> intptr \<Rightarrow> ub + rbtree" where
  "wipe t node = rb_store t node (\<lambda>n. n\<lparr>rb_left := 0, rb_right := 0, rb_parent := 0, rb_key := 0\<rparr>)"

text \<open>One turn of the loop that re-balances, \<open>delete_step\<close>; \<open>d\<close> is the side of \<open>temp\<close> below its parent.\<close>

definition sibling :: "side \<Rightarrow> rbtree \<Rightarrow> intptr \<Rightarrow> ub + intptr" where
  "sibling d t temp = bindE (parent t temp) (\<lambda>p. bindE (rb_load t p) (\<lambda>pn. Inr (child (opp d) pn)))"

text \<open>The last case: the sibling takes the place of the parent, and the loop ends at the root.\<close>

definition delete_turn :: "side \<Rightarrow> rbtree \<Rightarrow> intptr \<Rightarrow> intptr \<Rightarrow> ub + rbtree \<times> intptr" where
  "delete_turn d t temp w =
     bindE (parent t temp) (\<lambda>p. bindE (is_red t p) (\<lambda>c.
     bindE (paint t w c) (\<lambda>t.
     bindE (paint t p False) (\<lambda>t.
     bindE (rb_load t w) (\<lambda>wn.
     bindE (paint t (child (opp d) wn) False) (\<lambda>t.
     bindE (rotate d t p) (\<lambda>t. Inr (t, rb_root t))))))))"

text \<open>A black sibling \<open>w\<close>.\<close>

definition delete_black :: "side \<Rightarrow> rbtree \<Rightarrow> intptr \<Rightarrow> intptr \<Rightarrow> ub + rbtree \<times> intptr" where
  "delete_black d t temp w =
     bindE (rb_load t w) (\<lambda>wn.
     bindE (is_red t (rb_left wn)) (\<lambda>l.
     bindE (if l then Inr True else is_red t (rb_right wn)) (\<lambda>any.
     if \<not> any
     then bindE (paint t w True) (\<lambda>t. bindE (parent t temp) (\<lambda>p. Inr (t, p)))
     else
       bindE (is_red t (child (opp d) wn)) (\<lambda>far.
       bindE (if \<not> far
              then bindE (paint t (child d wn) False) (\<lambda>t. bindE (paint t w True) (\<lambda>t.
                   bindE (rotate (opp d) t w) (\<lambda>t. bindE (sibling d t temp) (\<lambda>w. Inr (t, w)))))
              else Inr (t, w)) (\<lambda>(t, w). delete_turn d t temp w)))))"

definition delete_step :: "side \<Rightarrow> rbtree \<Rightarrow> intptr \<Rightarrow> ub + rbtree \<times> intptr" where
  "delete_step d t temp =
     bindE (sibling d t temp) (\<lambda>w.
     bindE (is_red t w) (\<lambda>red.
     bindE (if red
            then bindE (paint t w False) (\<lambda>t. bindE (parent t temp) (\<lambda>p. bindE (paint t p True) (\<lambda>t.
                 bindE (rotate d t p) (\<lambda>t. bindE (sibling d t temp) (\<lambda>w. Inr (t, w))))))
            else Inr (t, w)) (\<lambda>(t, w). delete_black d t temp w)))"

primrec delete_fix :: "nat \<Rightarrow> rbtree \<Rightarrow> intptr \<Rightarrow> ub + rbtree" where
  "delete_fix 0 t temp = Inl OutOfFuel"
| "delete_fix (Suc fuel) t temp =
     (if temp = rb_root t then paint t temp False
      else bindE (is_red t temp) (\<lambda>red.
        if red then paint t temp False
        else bindE (parent t temp) (\<lambda>p. bindE (rb_load t p) (\<lambda>pn.
          bindE (delete_step (if temp = rb_left pn then ToLeft else ToRight) t temp) (\<lambda>(t, temp).
          delete_fix fuel t temp)))))"

definition rbtree_delete :: "nat \<Rightarrow> rbtree \<Rightarrow> intptr \<Rightarrow> ub + rbtree" where
  "rbtree_delete fuel t node =
     bindE (delete_pick fuel t node) (\<lambda>(subst, temp).
     if subst = rb_root t
     then bindE (paint (t\<lparr>rb_root := temp\<rparr>) temp False) (\<lambda>t. wipe t node)
     else
       bindE (is_red t subst) (\<lambda>red.
       bindE (relink ToLeft t subst temp) (\<lambda>t.
       bindE (parent t subst) (\<lambda>p.
       bindE (if subst = node then set_parent t temp p
              else bindE (set_parent t temp (if p = node then subst else p)) (\<lambda>t. take_place t node subst)) (\<lambda>t.
       bindE (wipe t node) (\<lambda>t.
       if red then Inr t else delete_fix fuel t temp))))))"

end
