(* ===== verification/Rbtree_Memory.thy ===== *)
theory Rbtree_Memory
  imports Rbtree
begin

text \<open>
  Which trees the nodes in memory form: a tree with addresses (\<open>ptree\<close>) and a path up to the root
  (\<open>frame list\<close>), so that a subtree deep in the tree and its surroundings are described separately.
  Painting and rotating are shown to change the tree in memory the way they should, and nothing else.
\<close>

text \<open>On allocated nodes all of these go through.\<close>

lemma rb_load_Some [simp]: "rb_mem t p = Some n \<Longrightarrow> rb_load t p = Inr n"
  by (simp add: rb_load_def)

lemma rb_store_Some [simp]: "rb_mem t p = Some n \<Longrightarrow> rb_store t p f = Inr (t\<lparr>rb_mem := (rb_mem t)(p \<mapsto> f n)\<rparr>)"
  by (simp add: rb_store_def)

lemma paint_Some [simp]: "rb_mem t p = Some n \<Longrightarrow> paint t p c = Inr (t\<lparr>rb_mem := (rb_mem t)(p \<mapsto> n\<lparr>rb_red := c\<rparr>)\<rparr>)"
  by (simp add: paint_def)

lemma is_red_Some [simp]: "rb_mem t p = Some n \<Longrightarrow> is_red t p = Inr (rb_red n)"
  by (simp add: is_red_def)

lemma parent_Some [simp]: "rb_mem t p = Some n \<Longrightarrow> parent t p = Inr (rb_parent n)"
  by (simp add: parent_def)

lemma set_parent_Some [simp]:
  "rb_mem t p = Some n \<Longrightarrow> set_parent t p q = Inr (t\<lparr>rb_mem := (rb_mem t)(p \<mapsto> n\<lparr>rb_parent := q\<rparr>)\<rparr>)"
  by (simp add: set_parent_def)

section \<open>The tree in memory\<close>

text \<open>A tree of nodes, each with its address, key and colour, and the path from a subtree up to the root.\<close>

datatype ptree = Tip | Bin ptree intptr u64 bool ptree

datatype frame = Frame side intptr u64 bool ptree

fun bin :: "side \<Rightarrow> ptree \<Rightarrow> intptr \<Rightarrow> u64 \<Rightarrow> bool \<Rightarrow> ptree \<Rightarrow> ptree" where
  "bin ToLeft x a k c y = Bin x a k c y"
| "bin ToRight x a k c y = Bin y a k c x"

fun plug :: "frame list \<Rightarrow> ptree \<Rightarrow> ptree" where
  "plug [] t = t"
| "plug (Frame d a k c u # p) t = plug p (bin d t a k c u)"

fun nodes :: "ptree \<Rightarrow> (intptr \<times> u64) list" where
  "nodes Tip = []"
| "nodes (Bin l a k c r) = nodes l @ (a, k) # nodes r"

abbreviation addrs :: "ptree \<Rightarrow> intptr list" where
  "addrs t \<equiv> map fst (nodes t)"

fun side_nodes :: "side \<Rightarrow> frame list \<Rightarrow> (intptr \<times> u64) list" where
  "side_nodes d [] = []"
| "side_nodes ToLeft (Frame ToLeft a k c u # p) = side_nodes ToLeft p"
| "side_nodes ToLeft (Frame ToRight a k c u # p) = side_nodes ToLeft p @ nodes u @ [(a, k)]"
| "side_nodes ToRight (Frame ToLeft a k c u # p) = (a, k) # nodes u @ side_nodes ToRight p"
| "side_nodes ToRight (Frame ToRight a k c u # p) = side_nodes ToRight p"

lemma nodes_plug: "nodes (plug p t) = side_nodes ToLeft p @ nodes t @ side_nodes ToRight p"
proof (induction p arbitrary: t)
  case (Cons f p)
  then show ?case by (cases f; cases "case f of Frame d _ _ _ _ \<Rightarrow> d") auto
qed simp

definition frame_addrs :: "frame list \<Rightarrow> intptr set" where
  "frame_addrs p = fst ` set (side_nodes ToLeft p) \<union> fst ` set (side_nodes ToRight p)"

lemma frame_addrs_simps [simp]: "frame_addrs [] = {}"
  "frame_addrs (Frame d a k c u # p) = insert a (set (addrs u) \<union> frame_addrs p)"
  by (cases d; auto simp: frame_addrs_def)+

lemma set_addrs_plug: "set (addrs (plug p t)) = set (addrs t) \<union> frame_addrs p"
  by (auto simp: nodes_plug frame_addrs_def)

lemma plug_append: "plug (p @ q) t = plug q (plug p t)"
proof (induction p arbitrary: t)
  case (Cons f p)
  then show ?case by (cases f) auto
qed simp

text \<open>\<open>s\<close> is the sentinel.\<close>

fun addr :: "intptr \<Rightarrow> ptree \<Rightarrow> intptr" where
  "addr s Tip = s"
| "addr s (Bin l a k c r) = a"

fun up :: "intptr \<Rightarrow> frame list \<Rightarrow> intptr" where
  "up par [] = par"
| "up par (Frame d a k c u # p) = a"

fun holds :: "(intptr \<rightharpoonup> rb_node) \<Rightarrow> intptr \<Rightarrow> intptr \<Rightarrow> ptree \<Rightarrow> bool" where
  "holds m s par Tip = True"
| "holds m s par (Bin l a k c r) =
     (m a = Some \<lparr>rb_key = k, rb_left = addr s l, rb_right = addr s r, rb_parent = par, rb_red = c\<rparr>
      \<and> holds m s a l \<and> holds m s a r)"

text \<open>A node with a child on side \<open>d\<close> and one on the other side.\<close>

fun node_at :: "side \<Rightarrow> u64 \<Rightarrow> intptr \<Rightarrow> intptr \<Rightarrow> intptr \<Rightarrow> bool \<Rightarrow> rb_node" where
  "node_at ToLeft k x y par c = \<lparr>rb_key = k, rb_left = x, rb_right = y, rb_parent = par, rb_red = c\<rparr>"
| "node_at ToRight k x y par c = \<lparr>rb_key = k, rb_left = y, rb_right = x, rb_parent = par, rb_red = c\<rparr>"

lemma node_at_simps [simp]:
  "child d (node_at d k x y par c) = x" "child (opp d) (node_at d k x y par c) = y"
  "child d (node_at (opp d) k x y par c) = y"
  "set_child d z (node_at d k x y par c) = node_at d k z y par c"
  "set_child (opp d) z (node_at d k x y par c) = node_at d k x z par c"
  "set_child d z (node_at (opp d) k x y par c) = node_at (opp d) k x z par c"
  "rb_parent (node_at d k x y par c) = par" "rb_red (node_at d k x y par c) = c" "rb_key (node_at d k x y par c) = k"
  "(node_at d k x y par c)\<lparr>rb_parent := q\<rparr> = node_at d k x y q c"
  "(node_at d k x y par c)\<lparr>rb_red := c'\<rparr> = node_at d k x y par c'"
  by (cases d; simp)+

lemma opp_simps [simp]: "opp (opp d) = d" "opp d \<noteq> d" "d \<noteq> opp d"
  by (cases d; simp)+

lemma holds_bin [simp]:
  "holds m s par (bin d x a k c y) \<longleftrightarrow> m a = Some (node_at d k (addr s x) (addr s y) par c) \<and> holds m s a x \<and> holds m s a y"
  by (cases d) auto

lemma addr_bin [simp]: "addr s (bin d x a k c y) = a"
  by (cases d) auto

lemma set_nodes_bin [simp]: "set (nodes (bin d x a k c y)) = insert (a, k) (set (nodes x) \<union> set (nodes y))"
  by (cases d) auto

fun holds_path :: "(intptr \<rightharpoonup> rb_node) \<Rightarrow> intptr \<Rightarrow> intptr \<Rightarrow> frame list \<Rightarrow> intptr \<Rightarrow> bool" where
  "holds_path m s par [] x = True"
| "holds_path m s par (Frame d a k c u # p) x =
     (m a = Some (node_at d k x (addr s u) (up par p) c) \<and> holds m s a u \<and> holds_path m s par p a)"

lemma holds_plug: "holds m s par (plug p t) \<longleftrightarrow> holds m s (up par p) t \<and> holds_path m s par p (addr s t)"
proof (induction p arbitrary: t)
  case (Cons f p)
  obtain d a k c u where "f = Frame d a k c u" by (cases f)
  with Cons show ?case by (cases d) auto
qed simp

lemma holds_cong: "(\<And>x. x \<in> set (addrs t) \<Longrightarrow> m' x = m x) \<Longrightarrow> holds m' s par t = holds m s par t"
  by (induction t arbitrary: par) auto

lemma holds_path_cong: "(\<And>y. y \<in> frame_addrs p \<Longrightarrow> m' y = m y) \<Longrightarrow> holds_path m' s par p x = holds_path m s par p x"
proof (induction p arbitrary: x)
  case (Cons f p)
  obtain d b k c u where f: "f = Frame d b k c u" by (cases f)
  have "holds m' s b u = holds m s b u" by (rule holds_cong) (use Cons.prems f in auto)
  moreover have "holds_path m' s par p b = holds_path m s par p b" using Cons f by simp
  ultimately show ?case using Cons.prems f by simp
qed simp

lemma holds_upd [simp]: "a \<notin> fst ` set (nodes t) \<Longrightarrow> holds (m(a := n)) s par t = holds m s par t"
  by (rule holds_cong) auto

lemma holds_path_upd [simp]: "a \<notin> frame_addrs p \<Longrightarrow> holds_path (m(a := n)) s par p x = holds_path m s par p x"
  by (rule holds_path_cong) auto

text \<open>
  The tree \<open>tr\<close> is in memory: its nodes are distinct and none is the sentinel, which is black.  The
  parent of the root, \<open>par\<close>, is arbitrary.  \<open>sn\<close> is the sentinel's node, \<open>out\<close> the rest of the memory.
\<close>

definition rep :: "intptr \<Rightarrow> rb_node \<Rightarrow> intptr \<Rightarrow> (intptr \<rightharpoonup> rb_node) \<Rightarrow> rbtree \<Rightarrow> ptree \<Rightarrow> bool" where
  "rep s sn par out t tr \<longleftrightarrow>
     rb_sentinel t = s \<and> rb_mem t s = Some sn \<and> \<not> rb_red sn \<and> rb_root t = addr s tr \<and> holds (rb_mem t) s par tr
     \<and> distinct (addrs tr) \<and> s \<notin> set (addrs tr) \<and> rb_mem t |` (- insert s (set (addrs tr))) = out"

lemma addr_plug: "addr s x = addr s y \<or> p \<noteq> [] \<Longrightarrow> addr s (plug p x) = addr s (plug p y)"
proof (induction p arbitrary: x y)
  case (Cons f p)
  obtain d a k c u where "f = Frame d a k c u" by (cases f)
  then show ?case using Cons.IH by (cases d) simp_all
qed simp

lemma restrict_upd_out [simp]: "a \<notin> D \<Longrightarrow> m(a := v) |` D = m |` D"
  by (auto simp: restrict_map_def)

lemma root_plug: "addr s (plug p t) = (if p = [] then addr s t else addr s (plug p t))
   \<and> (p \<noteq> [] \<longrightarrow> addr s (plug p t) \<in> frame_addrs p)"
proof (induction p arbitrary: t)
  case (Cons f p)
  obtain d a k c u where f: "f = Frame d a k c u" by (cases f)
  show ?case
  proof (cases "p = []")
    case True
    with f show ?thesis by (cases d) auto
  next
    case False
    then show ?thesis using Cons.IH [of "bin d t a k c u"] f by auto
  qed
qed simp

text \<open>Reading and painting the node in focus.\<close>

lemma distinct_plug:
  "distinct (addrs (plug p t)) \<Longrightarrow> distinct (addrs t) \<and> set (addrs t) \<inter> frame_addrs p = {}"
  by (auto simp: nodes_plug frame_addrs_def)

lemma rep_focus:
  assumes "rep s sn par out t (plug p (Bin l a k c r))"
  shows "rb_mem t a = Some \<lparr>rb_key = k, rb_left = addr s l, rb_right = addr s r, rb_parent = up par p, rb_red = c\<rparr>"
    "rb_load t a = Inr \<lparr>rb_key = k, rb_left = addr s l, rb_right = addr s r, rb_parent = up par p, rb_red = c\<rparr>"
    "parent t a = Inr (up par p)" "is_red t a = Inr c" "a \<noteq> s"
    "rb_root t = a \<longleftrightarrow> p = []" "rb_sentinel t = s"
proof -
  show mem: "rb_mem t a = Some \<lparr>rb_key = k, rb_left = addr s l, rb_right = addr s r, rb_parent = up par p, rb_red = c\<rparr>"
    using assms by (simp add: rep_def holds_plug)
  then show rb_load: "rb_load t a = Inr \<lparr>rb_key = k, rb_left = addr s l, rb_right = addr s r, rb_parent = up par p, rb_red = c\<rparr>"
    by (simp add: rb_load_def)
  then show "parent t a = Inr (up par p)" "is_red t a = Inr c" by (simp_all add: parent_def is_red_def)
  show "a \<noteq> s"
  proof
    assume "a = s"
    with assms have "s \<in> set (addrs (plug p (Bin l a k c r)))" unfolding set_addrs_plug by simp
    with assms show False unfolding rep_def by blast
  qed
  show "rb_root t = a \<longleftrightarrow> p = []"
  proof (cases "p = []")
    case False
    then have "addr s (plug p (Bin l a k c r)) \<in> frame_addrs p" using root_plug by blast
    moreover have "a \<notin> frame_addrs p" using assms distinct_plug [of p "Bin l a k c r"] by (auto simp: rep_def)
    ultimately show ?thesis using assms False by (auto simp: rep_def)
  qed (use assms in \<open>simp add: rep_def\<close>)
  show "rb_sentinel t = s" using assms by (simp add: rep_def)
qed

lemma rep_paint:
  assumes "rep s sn par out t (plug p (Bin l a k c r))"
  shows "\<exists>t'. paint t a c' = Inr t' \<and> rep s sn par out t' (plug p (Bin l a k c' r))"
proof -
  let ?t = "t\<lparr>rb_mem := (rb_mem t)(a \<mapsto> \<lparr>rb_key = k, rb_left = addr s l, rb_right = addr s r, rb_parent = up par p, rb_red = c'\<rparr>)\<rparr>"
  note f = rep_focus [OF assms]
  have "paint t a c' = Inr ?t" using f(2) by (simp add: paint_def rb_store_def)
  moreover have "nodes (plug p (Bin l a k c' r)) = nodes (plug p (Bin l a k c r))" by (simp add: nodes_plug)
  moreover have "addr s (plug p (Bin l a k c' r)) = addr s (plug p (Bin l a k c r))"
    by (rule addr_plug) simp
  moreover have "a \<in> set (addrs (plug p (Bin l a k c r)))" unfolding set_addrs_plug by simp
  moreover have "a \<notin> fst ` set (nodes l)" "a \<notin> fst ` set (nodes r)" "a \<notin> frame_addrs p"
    using assms distinct_plug [of p "Bin l a k c r"] by (auto simp: rep_def)
  ultimately show ?thesis
    using assms f(5) by (intro exI [of _ ?t]) (simp add: rep_def holds_plug)
qed

text \<open>A rotation of the subtree in focus.\<close>

lemma distinct_bin:
  "distinct (addrs (bin d x a k c y)) \<longleftrightarrow> distinct (addrs x) \<and> distinct (addrs y) \<and> a \<notin> fst ` set (nodes x) \<and> a \<notin> fst ` set (nodes y)
     \<and> fst ` set (nodes x) \<inter> fst ` set (nodes y) = {}"
  by (cases d) auto

text \<open>Putting another node in the place of the one at the end of a path.\<close>

lemma relink_path:
  assumes "holds_path (rb_mem t) s par p a" and "rb_mem t a = Some n" and "rb_parent n = up par p" and "p \<noteq> []"
    and "distinct (addrs (plug p tr))" and "a \<notin> frame_addrs p" and "a \<noteq> s"
  shows "\<exists>m. relink d t a b = Inr (t\<lparr>rb_mem := m\<rparr>) \<and> holds_path m s par p b \<and> (\<forall>q. q \<notin> frame_addrs p \<longrightarrow> m q = rb_mem t q)"
proof -
  obtain e g k c u p' where p: "p = Frame e g k c u # p'" using assms(4) by (cases p; cases "hd p") auto
  have g: "rb_mem t g = Some (node_at e k a (addr s u) (up par p') c)" "holds (rb_mem t) s g u" "holds_path (rb_mem t) s par p' g"
    using assms(1) p by simp_all
  have "g \<notin> fst ` set (nodes u)" "g \<notin> frame_addrs p'"
    using distinct_plug [of p' "bin e tr g k c u"] assms(5) p by (auto simp: distinct_bin)
  moreover have "addr s u \<noteq> a" using assms(6,7) p by (cases u) auto
  moreover have "d = e \<or> d = opp e" by (cases d; cases e) auto
  ultimately show ?thesis
    using g assms(2,3) p by (intro exI [of _ "(rb_mem t)(g \<mapsto> node_at e k b (addr s u) (up par p') c)"])
      (elim disjE, simp_all add: relink_def)
qed

lemma replace_child_path:
  assumes "holds_path (rb_mem t) s par p a" and "rb_mem t a = Some n" and "rb_parent n = up par p"
    and "distinct (addrs (plug p tr))" and "a \<notin> frame_addrs p" and "a \<noteq> s"
    and "rb_root t = addr s (plug p tr)" and "addr s tr = a" and "addr s new = b"
  shows "\<exists>m. replace_child d t a b = Inr (t\<lparr>rb_root := addr s (plug p new), rb_mem := m\<rparr>) \<and> holds_path m s par p b
     \<and> (\<forall>q. q \<notin> frame_addrs p \<longrightarrow> m q = rb_mem t q)"
proof (cases "p = []")
  case True
  then show ?thesis using assms(7-9) by (intro exI [of _ "rb_mem t"]) (simp add: replace_child_def)
next
  case False
  then have "rb_root t \<noteq> a" using root_plug [of s p tr] assms(5,7) by auto
  moreover have "addr s (plug p new) = rb_root t" using addr_plug [of s new tr p] False assms(7) by simp
  ultimately show ?thesis using relink_path [OF assms(1-3) False assms(4-6), of d b] by (auto simp: replace_child_def)
qed

text \<open>Giving a subtree another parent; a missing one stays untouched.\<close>

lemma adopt:
  assumes "holds (rb_mem t) s q y" and "s \<notin> fst ` set (nodes y)" and "distinct (addrs y)"
  shows "\<exists>m. (if addr s y \<noteq> s then set_parent t (addr s y) a else Inr t) = Inr (t\<lparr>rb_mem := m\<rparr>) \<and> holds m s a y
     \<and> (\<forall>r. r \<notin> fst ` set (nodes y) \<longrightarrow> m r = rb_mem t r)"
proof (cases y)
  case Tip
  then show ?thesis by (intro exI [of _ "rb_mem t"]) simp
next
  case (Bin l b k c r)
  then show ?thesis using assms
    by (intro exI [of _ "(rb_mem t)(b \<mapsto> \<lparr>rb_key = k, rb_left = addr s l, rb_right = addr s r, rb_parent = a, rb_red = c\<rparr>)"]) auto
qed

lemma rotation_apart:
  assumes "distinct (addrs (plug p (bin d x a ka ca (bin d y b kb cb z))))" and "s \<notin> set (addrs (plug p (bin d x a ka ca (bin d y b kb cb z))))"
  shows "a \<noteq> b" "b \<noteq> a" "a \<noteq> s" "b \<noteq> s" "s \<notin> fst ` set (nodes y)" "distinct (addrs y)" "s \<notin> frame_addrs p"
    "a \<notin> fst ` set (nodes y)" "b \<notin> fst ` set (nodes y)" "a \<notin> frame_addrs p" "b \<notin> frame_addrs p" "fst ` set (nodes y) \<inter> frame_addrs p = {}"
    "\<And>q. q \<in> set (addrs x) \<or> q \<in> set (addrs z) \<Longrightarrow> q \<noteq> a \<and> q \<noteq> b \<and> q \<notin> set (addrs y) \<and> q \<notin> frame_addrs p"
proof -
  have d: "distinct (addrs (bin d x a ka ca (bin d y b kb cb z)))" "set (addrs (bin d x a ka ca (bin d y b kb cb z))) \<inter> frame_addrs p = {}"
    "s \<notin> set (addrs (bin d x a ka ca (bin d y b kb cb z)))" "s \<notin> frame_addrs p"
    using assms distinct_plug [of p "bin d x a ka ca (bin d y b kb cb z)"] unfolding set_addrs_plug by simp_all
  then show "s \<notin> frame_addrs p" by simp
  show "a \<noteq> b" "b \<noteq> a" "a \<noteq> s" "b \<noteq> s" "s \<notin> fst ` set (nodes y)" "distinct (addrs y)"
    "a \<notin> fst ` set (nodes y)" "b \<notin> fst ` set (nodes y)" using d(1,3) by (auto simp: distinct_bin)
  show "a \<notin> frame_addrs p" "b \<notin> frame_addrs p" "fst ` set (nodes y) \<inter> frame_addrs p = {}" using d(2) by auto
  have "fst ` set (nodes x) \<inter> fst ` set (nodes y) = {}" "fst ` set (nodes y) \<inter> fst ` set (nodes z) = {}"
    "a \<notin> set (addrs x)" "a \<notin> set (addrs z)" "b \<notin> set (addrs x)" "b \<notin> set (addrs z)"
    using d(1) by (auto simp: distinct_bin)
  moreover have "fst ` set (nodes x) \<inter> frame_addrs p = {}" "fst ` set (nodes z) \<inter> frame_addrs p = {}" using d(2) by auto
  ultimately show "q \<in> set (addrs x) \<or> q \<in> set (addrs z) \<Longrightarrow> q \<noteq> a \<and> q \<noteq> b \<and> q \<notin> set (addrs y) \<and> q \<notin> frame_addrs p" for q
    unfolding set_map disjoint_iff by metis
qed

text \<open>The run of \<open>rotate\<close>: which cells it writes and what they hold then.\<close>

lemma rotate_run:
  assumes dist: "distinct (addrs (plug p (bin d x a ka ca (bin d y b kb cb z))))" "s \<notin> set (addrs (plug p (bin d x a ka ca (bin d y b kb cb z))))"
    and t: "rb_root t = addr s (plug p (bin d x a ka ca (bin d y b kb cb z)))" "rb_sentinel t = s"
    and ma: "rb_mem t a = Some (node_at d ka (addr s x) b (up par p) ca)" and mb: "rb_mem t b = Some (node_at d kb (addr s y) (addr s z) a cb)"
    and sub: "holds (rb_mem t) s b y" "holds_path (rb_mem t) s par p a" and new: "addr s new = b"
  shows "\<exists>m. rotate d t a = Inr (t\<lparr>rb_root := addr s (plug p new), rb_mem := m\<rparr>)
    \<and> m a = Some (node_at d ka (addr s x) (addr s y) b ca) \<and> m b = Some (node_at d kb a (addr s z) (up par p) cb)
    \<and> holds m s a y \<and> holds_path m s par p b
    \<and> (\<forall>q. q \<noteq> a \<longrightarrow> q \<noteq> b \<longrightarrow> q \<notin> set (addrs y) \<longrightarrow> q \<notin> frame_addrs p \<longrightarrow> m q = rb_mem t q)"
proof -
  note ap = rotation_apart [OF dist]
  define t1 where "t1 = t\<lparr>rb_mem := (rb_mem t)(a \<mapsto> node_at d ka (addr s x) (addr s y) (up par p) ca)\<rparr>"
  have "holds (rb_mem t1) s b y" using sub(1) ap(8) by (simp add: t1_def)
  from adopt [OF this ap(5,6), of a] obtain m2 where m2: "(if addr s y \<noteq> s then set_parent t1 (addr s y) a else Inr t1) = Inr (t1\<lparr>rb_mem := m2\<rparr>)"
    "holds m2 s a y" "\<And>r. r \<notin> fst ` set (nodes y) \<Longrightarrow> m2 r = rb_mem t1 r" by blast
  define t2 where "t2 = t1\<lparr>rb_mem := m2\<rparr>"
  define t3 where "t3 = t2\<lparr>rb_mem := m2(b \<mapsto> node_at d kb (addr s y) (addr s z) (up par p) cb)\<rparr>"
  have m2ab: "m2 a = Some (node_at d ka (addr s x) (addr s y) (up par p) ca)" "m2 b = Some (node_at d kb (addr s y) (addr s z) a cb)"
    using m2(3) ap(1,2,8,9) mb by (simp_all add: t1_def)
  have t3a: "rb_mem t3 a = Some (node_at d ka (addr s x) (addr s y) (up par p) ca)" using m2ab(1) ap(1) by (simp add: t3_def)
  have off3: "rb_mem t3 q = rb_mem t q" if "q \<noteq> a" "q \<noteq> b" "q \<notin> set (addrs y)" for q
    using that m2(3) by (simp add: t3_def t2_def t1_def)
  have "rb_mem t3 q = rb_mem t q" if "q \<in> frame_addrs p" for q
    by (rule off3) (use that ap(10-12) in auto)
  then have "holds_path (rb_mem t3) s par p a" using sub(2) holds_path_cong [of p "rb_mem t3" "rb_mem t"] by simp
  moreover have "rb_root t3 = addr s (plug p (bin d x a ka ca (bin d y b kb cb z)))" using t(1) by (simp add: t3_def t2_def t1_def)
  ultimately obtain m4 where m4: "replace_child d t3 a b = Inr (t3\<lparr>rb_root := addr s (plug p new), rb_mem := m4\<rparr>)"
    "holds_path m4 s par p b" "\<And>q. q \<notin> frame_addrs p \<Longrightarrow> m4 q = rb_mem t3 q"
    using replace_child_path [OF _ t3a _ dist(1) ap(10,3), where par = par and d = d and new = new and b = b] new by auto
  define t4 where "t4 = t3\<lparr>rb_root := addr s (plug p new), rb_mem := m4\<rparr>"
  have m4a: "m4 a = Some (node_at d ka (addr s x) (addr s y) (up par p) ca)" "m4 b = Some (node_at d kb (addr s y) (addr s z) (up par p) cb)"
    using m4(3) ap(10,11) t3a by (simp_all add: t3_def)
  define t5 where "t5 = t4\<lparr>rb_mem := m4(b \<mapsto> node_at d kb a (addr s z) (up par p) cb)\<rparr>"
  define m6 where "m6 = m4(b \<mapsto> node_at d kb a (addr s z) (up par p) cb, a \<mapsto> node_at d ka (addr s x) (addr s y) b ca)"
  have "rotate d t a = Inr (t\<lparr>rb_root := addr s (plug p new), rb_mem := m6\<rparr>)"
  proof -
    have "rb_load t a = Inr (node_at d ka (addr s x) b (up par p) ca)" "rb_load t b = Inr (node_at d kb (addr s y) (addr s z) a cb)"
      using ma mb by simp_all
    moreover have "rb_store t a (set_child (opp d) (addr s y)) = Inr t1" using ma by (simp add: t1_def)
    moreover have "rb_load t1 b = Inr (node_at d kb (addr s y) (addr s z) a cb)" "rb_sentinel t1 = s"
      using mb ap(2) t(2) by (simp_all add: t1_def)
    moreover note m2(1) [folded t2_def]
    moreover have "parent t2 a = Inr (up par p)" using m2ab(1) by (simp add: t2_def)
    moreover have "set_parent t2 b (up par p) = Inr t3" using m2ab(2) by (simp add: t2_def t3_def)
    moreover note m4(1) [folded t4_def]
    moreover have "rb_store t4 b (set_child d a) = Inr t5" using m4a(2) by (simp add: t4_def t5_def)
    moreover have "set_parent t5 a b = Inr (t\<lparr>rb_root := addr s (plug p new), rb_mem := m6\<rparr>)"
      using m4a(1) ap(1) by (simp add: t5_def t4_def t3_def t2_def t1_def m6_def)
    ultimately show ?thesis by (simp only: rotate_def bindE_Inr Let_def node_at_simps)
  qed
  moreover have "holds m6 s a y"
  proof -
    have "m6 q = m2 q" if "q \<in> set (addrs y)" for q
    proof -
      have "q \<notin> frame_addrs p" "q \<noteq> a" "q \<noteq> b" using that ap(8,9,12) by auto
      then show ?thesis using m4(3) [of q] by (simp add: m6_def t3_def)
    qed
    then show ?thesis using m2(2) by (subst holds_cong [of _ m6 m2]) simp_all
  qed
  moreover have "holds_path m6 s par p b" using m4(2) ap(10,11) by (simp add: m6_def)
  moreover have "m6 q = rb_mem t q" if "q \<noteq> a" "q \<noteq> b" "q \<notin> set (addrs y)" "q \<notin> frame_addrs p" for q
    using that m4(3) off3 by (simp add: m6_def)
  ultimately show ?thesis using ap(1,2) by (intro exI [of _ m6]) (simp add: m6_def)
qed

lemma rep_rotate:
  assumes "rep s sn par out t (plug p (bin d x a ka ca (bin d y b kb cb z)))"
  shows "\<exists>t'. rotate d t a = Inr t' \<and> rep s sn par out t' (plug p (bin d (bin d x a ka ca y) b kb cb z))"
proof -
  let ?old = "bin d x a ka ca (bin d y b kb cb z)" and ?new = "bin d (bin d x a ka ca y) b kb cb z"
  have same: "nodes (plug p ?new) = nodes (plug p ?old)" by (cases d) (simp_all add: nodes_plug)
  have t: "distinct (addrs (plug p ?old))" "s \<notin> set (addrs (plug p ?old))" "rb_root t = addr s (plug p ?old)" "rb_sentinel t = s"
      "rb_mem t a = Some (node_at d ka (addr s x) b (up par p) ca)" "rb_mem t b = Some (node_at d kb (addr s y) (addr s z) a cb)"
      "holds (rb_mem t) s b y" "holds_path (rb_mem t) s par p a"
    and sub: "holds (rb_mem t) s a x" "holds (rb_mem t) s b z"
    and out: "rb_mem t |` (- insert s (set (addrs (plug p ?old)))) = out" and sn: "rb_mem t s = Some sn" "\<not> rb_red sn"
    using assms by (simp_all add: rep_def holds_plug)
  note ap = rotation_apart [OF t(1,2)]
  have "addr s ?new = b" by simp
  from rotate_run [OF t this] obtain m where m: "rotate d t a = Inr (t\<lparr>rb_root := addr s (plug p ?new), rb_mem := m\<rparr>)"
    "m a = Some (node_at d ka (addr s x) (addr s y) b ca)" "m b = Some (node_at d kb a (addr s z) (up par p) cb)"
    "holds m s a y" "holds_path m s par p b"
    and off: "\<And>q. q \<noteq> a \<Longrightarrow> q \<noteq> b \<Longrightarrow> q \<notin> set (addrs y) \<Longrightarrow> q \<notin> frame_addrs p \<Longrightarrow> m q = rb_mem t q" by blast
  have "m q = rb_mem t q" if "q \<in> set (addrs x) \<or> q \<in> set (addrs z)" for q using ap(13) [OF that] off by blast
  then have "holds m s a x" "holds m s b z" using sub holds_cong [of x m "rb_mem t"] holds_cong [of z m "rb_mem t"] by simp_all
  then have "holds m s par (plug p ?new)" using m(2-5) by (simp add: holds_plug)
  moreover have "m s = Some sn" using off [of s] ap(3-7) sn(1) by simp
  moreover have "m |` (- insert s (set (addrs (plug p ?old)))) = out"
  proof -
    have "m q = rb_mem t q" if "q \<notin> set (addrs (plug p ?old))" for q
      using that off unfolding set_addrs_plug by (simp add: image_Un)
    then show ?thesis unfolding out [symmetric] by (intro ext) (simp add: restrict_map_def)
  qed
  ultimately show ?thesis using t(1,2,4) sn(2) m(1) same by (simp add: rep_def)
qed

section \<open>The red-black property\<close>

fun redp :: "ptree \<Rightarrow> bool" where
  "redp Tip = False"
| "redp (Bin l a k c r) = c"

fun repaint :: "bool \<Rightarrow> ptree \<Rightarrow> ptree" where
  "repaint c Tip = Tip"
| "repaint c (Bin l a k c' r) = Bin l a k c r"

text \<open>No red node has a red child; every path down has as many black nodes, \<open>bh\<close>.\<close>

fun invc :: "ptree \<Rightarrow> bool" where
  "invc Tip = True"
| "invc (Bin l a k c r) = (invc l \<and> invc r \<and> (c \<longrightarrow> \<not> redp l \<and> \<not> redp r))"

fun bh :: "ptree \<Rightarrow> nat" where
  "bh Tip = 0"
| "bh (Bin l a k c r) = bh l + (if c then 0 else 1)"

fun invh :: "ptree \<Rightarrow> bool" where
  "invh Tip = True"
| "invh (Bin l a k c r) = (invh l \<and> invh r \<and> bh l = bh r)"

text \<open>What a path asks of the subtree at its end: its colour and its black height.\<close>

fun pathc :: "frame list \<Rightarrow> bool \<Rightarrow> bool" where
  "pathc [] c0 = True"
| "pathc (Frame d a k c u # p) c0 = (invc u \<and> (c \<longrightarrow> \<not> c0 \<and> \<not> redp u) \<and> pathc p c)"

fun pathh :: "frame list \<Rightarrow> nat \<Rightarrow> bool" where
  "pathh [] n = True"
| "pathh (Frame d a k c u # p) n = (invh u \<and> bh u = n \<and> pathh p (n + (if c then 0 else 1)))"

lemma bin_simps [simp]: "redp (bin d x a k c y) = c" "invc (bin d x a k c y) = (invc x \<and> invc y \<and> (c \<longrightarrow> \<not> redp x \<and> \<not> redp y))"
  "invh (bin d x a k c y) = (invh x \<and> invh y \<and> bh x = bh y)" "repaint c' (bin d x a k c y) = bin d x a k c' y"
  "bin d x a k c y \<noteq> Tip"
  by (cases d; auto)+

lemma bh_bin: "bh x = bh y \<Longrightarrow> bh (bin d x a k c y) = bh x + (if c then 0 else 1)"
  by (cases d) auto

lemma invc_plug: "invc (plug p t) \<longleftrightarrow> invc t \<and> pathc p (redp t)"
proof (induction p arbitrary: t)
  case (Cons f p)
  then show ?case by (cases f) auto
qed simp

lemma invh_plug: "invh (plug p t) \<longleftrightarrow> invh t \<and> pathh p (bh t)"
proof (induction p arbitrary: t)
  case (Cons f p)
  obtain d a k c u where f: "f = Frame d a k c u" by (cases f)
  show ?case
  proof (cases "bh t = bh u")
    case True
    then show ?thesis using Cons.IH [of "bin d t a k c u"] f by (simp add: bh_bin)
  next
    case False
    then show ?thesis using Cons.IH [of "bin d t a k c u"] f by auto
  qed
qed simp

lemma pathc_black: "pathc p c \<Longrightarrow> pathc p False"
proof (induction p arbitrary: c)
  case (Cons f p)
  then show ?case by (cases f) auto
qed simp

lemma redp_plug: "redp (plug p x) = redp (plug p y) \<or> p = []"
proof (induction p arbitrary: x y)
  case (Cons f p)
  obtain d a k c u where f: "f = Frame d a k c u" by (cases f)
  show ?case using Cons.IH [of "bin d x a k c u" "bin d y a k c u"] f by auto
qed simp

definition rb_ok :: "ptree \<Rightarrow> bool" where
  "rb_ok t \<longleftrightarrow> invc t \<and> invh t \<and> \<not> redp t"

lemma invc_repaint: "invc t \<Longrightarrow> invc (repaint False t)"
  by (cases t) auto

lemma invh_repaint: "invh t \<Longrightarrow> invh (repaint c t)"
  by (cases t) auto

lemma nodes_repaint [simp]: "nodes (repaint c t) = nodes t"
  by (cases t) auto

lemma redp_repaint [simp]: "\<not> redp (repaint False t)"
  by (cases t) auto

lemma addr_repaint [simp]: "addr s (repaint c t) = addr s t"
  by (cases t) auto

text \<open>The last step of both repairs: the root is painted black.\<close>

lemma rep_paint_root:
  assumes "rep s sn par out t tr" and "tr \<noteq> Tip"
  shows "\<exists>t'. paint t (rb_root t) False = Inr t' \<and> rep s sn par out t' (repaint False tr)"
proof -
  obtain l a k c r where tr: "tr = Bin l a k c r" using assms(2) by (cases tr) auto
  then have "rb_root t = a" using assms(1) by (simp add: rep_def)
  with rep_paint [of s sn par out t "[]" l a k c r False] assms(1) tr show ?thesis by simp
qed

section \<open>Reading and changing the subtree in focus\<close>

lemma opp_opp [simp]: "opp (opp d) = d" "opp d \<noteq> d" "d \<noteq> opp d"
  by (cases d; simp)+

lemma not_side: "e \<noteq> d \<Longrightarrow> e = opp d"
  by (cases d; cases e) auto

lemma bin_opp [simp]: "bin (opp d) x a k c y = bin d y a k c x"
  by (cases d) auto

lemma node_at_opp [simp]: "node_at (opp d) k x y par c = node_at d k y x par c"
  by (cases d) auto

lemma not_Tip:
  assumes "t \<noteq> Tip"
  obtains x a k c y where "t = bin d x a k c y"
proof -
  obtain l a k c r where "t = Bin l a k c r" using assms by (cases t) auto
  then have "t = bin d (if d = ToLeft then l else r) a k c (if d = ToLeft then r else l)" by (cases d) simp_all
  then show thesis by (rule that)
qed

lemma rep_bin:
  assumes "rep s sn par out t (plug p (bin d x a k c y))"
  shows "rb_load t a = Inr (node_at d k (addr s x) (addr s y) (up par p) c)" "parent t a = Inr (up par p)" "is_red t a = Inr c"
    "rb_root t = a \<longleftrightarrow> p = []" "a \<noteq> s"
proof -
  show "rb_load t a = Inr (node_at d k (addr s x) (addr s y) (up par p) c)"
    using rep_focus(2) [of s sn par out t p _ a k c] assms by (cases d) auto
  show "parent t a = Inr (up par p)" using rep_focus(3) [of s sn par out t p _ a k c] assms by (cases d) auto
  show "is_red t a = Inr c" using rep_focus(4) [of s sn par out t p _ a k c] assms by (cases d) auto
  show "rb_root t = a \<longleftrightarrow> p = []" using rep_focus(6) [of s sn par out t p _ a k c] assms by (cases d) auto
  show "a \<noteq> s" using rep_focus(5) [of s sn par out t p _ a k c] assms by (cases d) auto
qed

lemma rep_redp: "rep s sn par out t (plug p x) \<Longrightarrow> is_red t (addr s x) = Inr (redp x)"
proof (cases x)
  case Tip
  assume "rep s sn par out t (plug p x)"
  then show ?thesis using Tip by (simp add: rep_def)
next
  case (Bin l a k c r)
  assume "rep s sn par out t (plug p x)"
  then show ?thesis using rep_focus(4) Bin by fastforce
qed

lemma rep_sides:
  assumes "rep s sn par out t (plug p (bin d x a k c y))" and "x \<noteq> Tip"
  shows "addr s x \<noteq> addr s y" "addr s y \<noteq> addr s x"
proof -
  have "distinct (addrs (bin d x a k c y))" "s \<notin> set (addrs (bin d x a k c y))"
    using assms(1) distinct_plug [of p "bin d x a k c y"] unfolding rep_def set_addrs_plug by auto
  then show "addr s x \<noteq> addr s y" using assms(2) by (cases x; cases y) (auto simp: distinct_bin)
  then show "addr s y \<noteq> addr s x" by simp
qed

lemma rep_paint_bin:
  assumes "rep s sn par out t (plug p (bin d x a k c y))"
  obtains t' where "paint t a c' = Inr t'" "rep s sn par out t' (plug p (bin d x a k c' y))"
  using rep_paint [of s sn par out t p _ a k c _ c'] assms by (cases d) auto

lemma rep_rotate_bin:
  assumes "rep s sn par out t (plug p (bin d x a ka ca (bin d y b kb cb z)))"
  obtains t' where "rotate d t a = Inr t'" "rep s sn par out t' (plug p (bin d (bin d x a ka ca y) b kb cb z))"
  using rep_rotate [OF assms] by blast

lemma nodes_plug_cong: "nodes x = nodes y \<Longrightarrow> nodes (plug p x) = nodes (plug p y)"
  by (simp add: nodes_plug)

lemma nodes_bin_cong: "nodes x = nodes x' \<Longrightarrow> nodes y = nodes y' \<Longrightarrow> nodes (bin d x a k c y) = nodes (bin d x' a k c' y')"
  by (cases d) auto

lemma nodes_turn: "nodes (bin d x a k c (bin d y b l e z)) = nodes (bin d (bin d x a k c' y) b l e' z)"
  by (cases d) auto

lemma plug_not_Tip: "x \<noteq> Tip \<Longrightarrow> plug p x \<noteq> Tip"
proof (induction p arbitrary: x)
  case (Cons f p)
  then show ?case by (cases f) simp
qed simp

lemma bh_repaint: "redp t \<Longrightarrow> bh (repaint False t) = Suc (bh t)"
  by (cases t) auto

lemma rb_ok_repaint: "invc t \<Longrightarrow> invh t \<Longrightarrow> rb_ok (repaint False t)"
  by (simp add: rb_ok_def invc_repaint invh_repaint)

lemma rep_free:
  assumes "rep s sn par out t tr" and "out b = Some n"
  shows "rb_mem t b = Some n" "b \<noteq> s" "b \<notin> set (addrs tr)"
proof -
  have "(rb_mem t |` (- insert s (set (addrs tr)))) b = Some n" using assms by (simp add: rep_def)
  then show "rb_mem t b = Some n" "b \<noteq> s" "b \<notin> set (addrs tr)" by (simp_all add: restrict_map_def split: if_splits)
qed

lemma side_nodes_append [simp]:
  "side_nodes ToLeft (p @ q) = side_nodes ToLeft q @ side_nodes ToLeft p"
  "side_nodes ToRight (p @ q) = side_nodes ToRight p @ side_nodes ToRight q"
proof (induction p)
  case (Cons f p)
  { case 1 with Cons show ?case by (cases f; cases "case f of Frame d _ _ _ _ \<Rightarrow> d") auto }
  { case 2 with Cons show ?case by (cases f; cases "case f of Frame d _ _ _ _ \<Rightarrow> d") auto }
qed simp_all

lemma rep_child:
  assumes "rep s sn par out t (plug p (bin d x a k c y))"
  shows "addr s x = s \<longleftrightarrow> x = Tip" "rb_sentinel t = s"
proof -
  have "s \<notin> set (addrs (bin d x a k c y))" using assms unfolding rep_def set_addrs_plug by auto
  then show "addr s x = s \<longleftrightarrow> x = Tip" by (cases x) auto
  show "rb_sentinel t = s" using assms by (simp add: rep_def)
qed

lemma side_of_child:
  assumes "rep s sn par out t (plug p (bin d x a k c y))" and "x \<noteq> Tip"
  shows "\<exists>n. rb_load t a = Inr n \<and> (if addr s x = rb_left n then ToLeft else ToRight) = d"
  using rep_bin(1) [OF assms(1)] rep_sides [OF assms] by (cases d) simp_all

text \<open>
  The contract: a red-black tree in memory whose nodes, in order, are \<open>xs\<close>, with the keys in the order
  \<open>rank\<close>; \<open>out\<close> is the memory of all nodes that are neither in the tree nor the sentinel.
\<close>

definition rb_tree :: "(u64 \<Rightarrow> nat) \<Rightarrow> intptr \<Rightarrow> (intptr \<rightharpoonup> rb_node) \<Rightarrow> rbtree \<Rightarrow> (intptr \<times> u64) list \<Rightarrow> bool" where
  "rb_tree rank s out t xs \<longleftrightarrow>
     sorted (map (rank \<circ> snd) xs) \<and> (\<exists>sn par tr. rep s sn par out t tr \<and> rb_ok tr \<and> nodes tr = xs)"

text \<open>A red-black tree is shallow, which bounds the turns of every loop.\<close>

fun height :: "ptree \<Rightarrow> nat" where
  "height Tip = 0"
| "height (Bin l a k c r) = Suc (max (height l) (height r))"

lemma height_bin [simp]: "height (bin d x a k c y) = Suc (max (height x) (height y))"
  by (cases d) (auto simp: max.commute)

lemma length_path: "length q + height x \<le> height (plug q x)"
proof (induction q arbitrary: x)
  case (Cons f q)
  obtain d a k c u where f: "f = Frame d a k c u" by (cases f)
  show ?case using Cons.IH [of "bin d x a k c u"] f by simp
qed simp

lemma height_bh: "invc t \<Longrightarrow> invh t \<Longrightarrow> height t \<le> 2 * bh t + (if redp t then 1 else 0)"
  by (induction t) (auto split: if_splits)

lemma bh_size: "invh t \<Longrightarrow> 2 ^ bh t \<le> Suc (length (nodes t))"
  by (induction t) auto

lemma rb_ok_height:
  assumes "rb_ok t" and "Suc (length (nodes t)) < 2 ^ m"
  shows "height t < 2 * m"
proof -
  have "(2 :: nat) ^ bh t < 2 ^ m" using bh_size [of t] assms unfolding rb_ok_def by linarith
  then have "bh t < m" by (rule power_less_imp_less_exp [rotated]) simp
  then show ?thesis using height_bh [of t] assms(1) by (simp add: rb_ok_def)
qed

end
