(* ===== verification/Rbtree_Insert.thy ===== *)
theory Rbtree_Insert
  imports Rbtree_Memory
begin

text \<open>
  Inserting a node: the descent finds the place of the key in the in-order list, the repair restores
  the red-black property, and no other node of the memory is touched.
\<close>

section \<open>The repair after an insertion\<close>

text \<open>Before each turn: the only violation is between the red node \<open>x\<close> and its parent.\<close>

definition insert_inv :: "frame list \<Rightarrow> ptree \<Rightarrow> bool" where
  "insert_inv p x \<longleftrightarrow> redp x \<and> invc x \<and> invh (plug p x) \<and> pathc p False \<and> (p \<noteq> [] \<longrightarrow> \<not> redp (plug p x))"

lemma insert_fix_root:
  assumes "rep s sn par out t x" and "insert_inv [] x"
  shows "\<exists>t' tr. insert_fix (Suc fuel) t (addr s x) = Inr t' \<and> rep s sn par out t' tr \<and> rb_ok tr \<and> nodes tr = nodes x"
proof -
  have "addr s x = rb_root t" using assms(1) by (simp add: rep_def)
  moreover have "x \<noteq> Tip" using assms(2) by (auto simp: insert_inv_def)
  moreover obtain t' where "paint t (rb_root t) False = Inr t'" "rep s sn par out t' (repaint False x)"
    using rep_paint_root [OF assms(1)] calculation by blast
  ultimately show ?thesis using assms(2) rb_ok_repaint [of x]
    by (intro exI [of _ t'] exI [of _ "repaint False x"]) (simp add: insert_inv_def)
qed

lemma insert_fix_black_parent:
  assumes "rep s sn par out t (plug p (bin e x pa pk False w))" and "x \<noteq> Tip"
    and ok: "invc (plug p (bin e x pa pk False w))" "invh (plug p (bin e x pa pk False w))"
  shows "\<exists>t' tr. insert_fix (Suc fuel) t (addr s x) = Inr t' \<and> rep s sn par out t' tr \<and> rb_ok tr
     \<and> nodes tr = nodes (plug p (bin e x pa pk False w))"
proof -
  obtain d y a k c z where x: "x = bin d y a k c z" by (rule not_Tip [OF assms(2)])
  have "rep s sn par out t (plug (Frame e pa pk False w # p) (bin d y a k c z))" using assms(1) x by simp
  from rep_bin [OF this] have "rb_root t \<noteq> a" "parent t a = Inr pa" by simp_all
  moreover have "is_red t pa = Inr False" using rep_bin [OF assms(1)] by simp
  moreover obtain t' where "paint t (rb_root t) False = Inr t'" "rep s sn par out t' (repaint False (plug p (bin e x pa pk False w)))"
    using rep_paint_root [OF assms(1) plug_not_Tip] by auto
  ultimately show ?thesis using rb_ok_repaint [OF ok] x
    by (intro exI [of _ t'] exI [of _ "repaint False (plug p (bin e x pa pk False w))"]) simp
qed

text \<open>The parent is red, so there is a black grandparent.\<close>

lemma insert_inv_red_parent:
  assumes "insert_inv (Frame e pa pk True w # p) x"
  obtains d g gk u p' where "p = Frame d g gk False u # p'"
    "\<not> redp w" "invc w" "invc u" "pathc p' False" "invh x" "invh w" "invh u" "bh x = bh w" "bh u = bh w" "pathh p' (Suc (bh w))"
proof -
  note i = assms [unfolded insert_inv_def]
  then obtain d g gk gc u p' where p: "p = Frame d g gk gc u # p'" by (cases p; cases "hd p") auto
  have *: "pathh p (bh (bin e x pa pk True w))" "invh x" "invh w" "bh x = bh w" using i by (simp_all add: invh_plug)
  then have "bh (bin e x pa pk True w) = bh w" by (simp add: bh_bin)
  with * i p show thesis by (intro that [of d g gk u p']) (auto simp: pathc_black)
qed

text \<open>A red uncle: the colours move up.\<close>

lemma insert_step_recolour:
  assumes "rep s sn par out t (plug p (bin d (bin e x pa pk True w) g gk False u))" and "x \<noteq> Tip" and "redp u"
  shows "\<exists>t'. insert_step d t (addr s x) = Inr (t', g)
     \<and> rep s sn par out t' (plug p (bin d (bin e x pa pk False w) g gk True (repaint False u)))"
proof -
  obtain x1 a k c x2 where x: "x = bin d x1 a k c x2" by (rule not_Tip [OF assms(2)])
  obtain u1 ua uk uc u2 where u: "u = bin d u1 ua uk uc u2" by (rule not_Tip [of u]) (use assms(3) in auto)
  have uc: "uc" using assms(3) u by simp
  have "rep s sn par out t (plug (Frame e pa pk True w # Frame d g gk False u # p) (bin d x1 a k c x2))" using assms(1) x by simp
  note a = rep_bin [OF this]
  have r1: "rep s sn par out t (plug (Frame d g gk False u # p) (bin e x pa pk True w))" using assms(1) by simp
  note pa = rep_bin [OF this]
  note g = rep_bin [OF assms(1)]
  have "rep s sn par out t (plug (Frame (opp d) g gk False (bin e x pa pk True w) # p) (bin d u1 ua uk uc u2))" using assms(1) u by simp
  note ua = rep_bin [OF this]
  obtain t1 where t1: "paint t pa False = Inr t1" "rep s sn par out t1 (plug (Frame d g gk False u # p) (bin e x pa pk False w))"
    by (rule rep_paint_bin [OF r1])
  then have "rep s sn par out t1 (plug (Frame (opp d) g gk False (bin e x pa pk False w) # p) (bin d u1 ua uk uc u2))" using u by simp
  then obtain t2 where t2: "paint t1 ua False = Inr t2"
    "rep s sn par out t2 (plug (Frame (opp d) g gk False (bin e x pa pk False w) # p) (bin d u1 ua uk False u2))"
    by (rule rep_paint_bin)
  then have "rep s sn par out t2 (plug p (bin d (bin e x pa pk False w) g gk False (repaint False u)))" using u by simp
  then obtain t3 where t3: "paint t2 g True = Inr t3" "rep s sn par out t3 (plug p (bin d (bin e x pa pk False w) g gk True (repaint False u)))"
    by (rule rep_paint_bin)
  have "insert_step d t (addr s x) = Inr (t3, g)"
    using a(2) pa(2) g(1) ua(3) uc t1(1) t2(1) t3(1) x u by (simp add: insert_step_def)
  then show ?thesis using t3(2) by blast
qed

text \<open>A black uncle: one or two rotations.\<close>

lemma insert_outer:
  assumes "rep s sn par out t (plug p (bin d (bin d x q qk True z) g gk False u))" and "x \<noteq> Tip"
  shows "\<exists>t'. bindE (parent t (addr s x)) (\<lambda>p. bindE (paint t p False) (\<lambda>t. bindE (parent t p) (\<lambda>g. bindE (paint t g True) (\<lambda>t.
       bindE (rotate (opp d) t g) (\<lambda>t. Inr (t, addr s x)))))) = Inr (t', addr s x)
     \<and> rep s sn par out t' (plug p (bin d x q qk False (bin d z g gk True u)))"
proof -
  obtain x1 a k c x2 where x: "x = bin d x1 a k c x2" by (rule not_Tip [OF assms(2)])
  have "rep s sn par out t (plug (Frame d q qk True z # Frame d g gk False u # p) (bin d x1 a k c x2))" using assms(1) x by simp
  note a = rep_bin [OF this]
  have "rep s sn par out t (plug (Frame d g gk False u # p) (bin d x q qk True z))" using assms(1) by simp
  then obtain t1 where t1: "paint t q False = Inr t1" "rep s sn par out t1 (plug (Frame d g gk False u # p) (bin d x q qk False z))"
    by (rule rep_paint_bin)
  note q = rep_bin [OF t1(2)]
  have "rep s sn par out t1 (plug p (bin d (bin d x q qk False z) g gk False u))" using t1(2) by simp
  then obtain t2 where t2: "paint t1 g True = Inr t2" "rep s sn par out t2 (plug p (bin d (bin d x q qk False z) g gk True u))"
    by (rule rep_paint_bin)
  then have "rep s sn par out t2 (plug p (bin (opp d) u g gk True (bin (opp d) z q qk False x)))" by simp
  then obtain t3 where "rotate (opp d) t2 g = Inr t3" "rep s sn par out t3 (plug p (bin (opp d) (bin (opp d) u g gk True z) q qk False x))"
    by (rule rep_rotate_bin)
  then show ?thesis using a(2) q(2) t1(1) t2(1) x by simp
qed

lemma insert_step_turn:
  assumes r: "rep s sn par out t (plug p (bin d (bin e x pa pk True w) g gk False u))" and x: "x \<noteq> Tip" "redp x" and u: "\<not> redp u"
    and c: "invc x" "invc w" "\<not> redp w" "invc u" and h: "invh x" "invh w" "invh u" "bh x = bh w" "bh u = bh w"
  shows "\<exists>t' y b l z. insert_step d t (addr s x) = Inr (t', addr s y) \<and> y \<noteq> Tip
     \<and> rep s sn par out t' (plug p (bin d y b l False z))
     \<and> nodes (bin d y b l False z) = nodes (bin d (bin e x pa pk True w) g gk False u)
     \<and> invc (bin d y b l False z) \<and> invh (bin d y b l False z) \<and> bh (bin d y b l False z) = Suc (bh w)"
proof -
  obtain x1 a k ac x2 where xb: "x = bin d x1 a k ac x2" by (rule not_Tip [OF x(1)])
  have ac: "ac" using x(2) xb by simp
  have xi: "invc x1" "invc x2" "\<not> redp x1" "\<not> redp x2" "invh x1" "invh x2" "bh x1 = bh w" "bh x2 = bh w"
    using c(1) h(1,4) xb ac by (simp_all add: bh_bin)
  have r1: "rep s sn par out t (plug (Frame d g gk False u # p) (bin e x pa pk True w))" using r by simp
  note pa = rep_bin [OF this]
  have "rep s sn par out t (plug (Frame e pa pk True w # Frame d g gk False u # p) (bin d x1 a k ac x2))" using r xb by simp
  note a = rep_bin [OF this]
  note g = rep_bin [OF r]
  have "rep s sn par out t (plug (Frame (opp d) g gk False (bin e x pa pk True w) # p) u)" using r by simp
  note u' = rep_redp [OF this]
  have ne: "addr s x \<noteq> addr s w" using rep_sides [OF r1 x(1)] by simp
  show ?thesis
  proof (cases "e = d")
    case True
    obtain t' where "bindE (parent t (addr s x)) (\<lambda>p. bindE (paint t p False) (\<lambda>t. bindE (parent t p) (\<lambda>g. bindE (paint t g True) (\<lambda>t.
       bindE (rotate (opp d) t g) (\<lambda>t. Inr (t, addr s x)))))) = Inr (t', addr s x)"
      and t': "rep s sn par out t' (plug p (bin d x pa pk False (bin d w g gk True u)))"
      using insert_outer [of s sn par out t p d x pa pk w g gk u] r True x(1) by blast
    then have "insert_step d t (addr s x) = Inr (t', addr s x)"
      using a(2) pa(1,2) g(1) u' u ne True xb by (simp add: insert_step_def)
    with t' show ?thesis using x(1) c h u xb ac True
      by (intro exI [of _ t'] exI [of _ x] exI [of _ pa] exI [of _ pk] exI [of _ "bin d w g gk True u"])
        (cases d; simp add: bh_bin)
  next
    case False
    then have e: "e = opp d" by (rule not_side)
    have "rep s sn par out t (plug (Frame d g gk False u # p) (bin d w pa pk True (bin d x1 a k ac x2)))" using r xb e by simp
    then obtain t1 where t1: "rotate d t pa = Inr t1" "rep s sn par out t1 (plug (Frame d g gk False u # p) (bin d (bin d w pa pk True x1) a k ac x2))"
      by (rule rep_rotate_bin)
    then have "rep s sn par out t1 (plug p (bin d (bin d (bin d w pa pk True x1) a k True x2) g gk False u))" using ac by simp
    from insert_outer [OF this] obtain t' where "bindE (parent t1 pa) (\<lambda>p. bindE (paint t1 p False) (\<lambda>t. bindE (parent t p) (\<lambda>g. bindE (paint t g True) (\<lambda>t.
       bindE (rotate (opp d) t g) (\<lambda>t. Inr (t, pa)))))) = Inr (t', pa)"
      and t': "rep s sn par out t' (plug p (bin d (bin d w pa pk True x1) a k False (bin d x2 g gk True u)))" by auto
    then have "insert_step d t (addr s x) = Inr (t', pa)"
      using a(2) pa(1,2) g(1) u' u e xb t1(1) by (simp add: insert_step_def)
    with t' show ?thesis using c h u xb ac e xi
      by (intro exI [of _ t'] exI [of _ "bin d w pa pk True x1"] exI [of _ a] exI [of _ k] exI [of _ "bin d x2 g gk True u"])
        (cases d; simp add: bh_bin)
  qed
qed

lemma insert_fix_red_parent:
  assumes r: "rep s sn par out t (plug p (bin d (bin e x pa pk True w) g gk False u))" and x: "x \<noteq> Tip"
    and s: "insert_step d t (addr s x) = Inr (t', node)"
  shows "insert_fix (Suc fuel) t (addr s x) = insert_fix fuel t' node"
proof -
  obtain x1 a k c x2 where xb: "x = bin d x1 a k c x2" by (rule not_Tip [OF x])
  have r1: "rep s sn par out t (plug (Frame d g gk False u # p) (bin e x pa pk True w))" using r by simp
  note pa = rep_bin [OF this]
  have "rep s sn par out t (plug (Frame e pa pk True w # Frame d g gk False u # p) (bin d x1 a k c x2))" using r xb by simp
  note a = rep_bin [OF this]
  obtain n where n: "rb_load t g = Inr n" "(if pa = rb_left n then ToLeft else ToRight) = d"
    using side_of_child [OF r] by auto
  have "insert_step (if pa = rb_left n then ToLeft else ToRight) t (addr s x) = Inr (t', node)" unfolding n(2) by (rule s)
  then show ?thesis using a(2,4) pa(2,3) n(1) xb by simp
qed

lemma insert_fix_ok:
  "rep s sn par out t (plug p x) \<Longrightarrow> insert_inv p x \<Longrightarrow> length p < fuel
     \<Longrightarrow> \<exists>t' tr. insert_fix fuel t (addr s x) = Inr t' \<and> rep s sn par out t' tr \<and> rb_ok tr \<and> nodes tr = nodes (plug p x)"
proof (induction fuel arbitrary: t p x)
  case (Suc fuel)
  have x: "x \<noteq> Tip" "redp x" using Suc.prems(2) by (auto simp: insert_inv_def)
  show ?case
  proof (cases p)
    case Nil
    then show ?thesis using insert_fix_root [of s sn par out t x fuel] Suc.prems(1,2) by simp
  next
    case (Cons f p1)
    then obtain e pa pk pc w where p: "p = Frame e pa pk pc w # p1" by (cases f) auto
    show ?thesis
    proof (cases pc)
      case False
      have i: "insert_inv p x" by (rule Suc.prems(2))
      have ok: "invc (plug p1 (bin e x pa pk False w))" "invh (plug p1 (bin e x pa pk False w))"
        using i p False by (auto simp: insert_inv_def invc_plug)
      show ?thesis using insert_fix_black_parent [OF _ x(1) ok, of s sn par out t fuel] Suc.prems(1) p False by simp
    next
      case True
      then have "insert_inv (Frame e pa pk True w # p1) x" using Suc.prems(2) p by simp
      then obtain d g gk u p2 where p1: "p1 = Frame d g gk False u # p2"
        and i: "\<not> redp w" "invc w" "invc u" "pathc p2 False" "invh x" "invh w" "invh u" "bh x = bh w" "bh u = bh w" "pathh p2 (Suc (bh w))"
        by (rule insert_inv_red_parent)
      have r: "rep s sn par out t (plug p2 (bin d (bin e x pa pk True w) g gk False u))" using Suc.prems(1) p p1 True by simp
      have ix: "invc x" using Suc.prems(2) by (simp add: insert_inv_def)
      show ?thesis
      proof (cases "redp u")
        case True
        let ?T = "bin d (bin e x pa pk False w) g gk True (repaint False u)"
        obtain t' where s: "insert_step d t (addr s x) = Inr (t', g)" "rep s sn par out t' (plug p2 ?T)"
          using insert_step_recolour [OF r x(1) True] by blast
        have "redp (plug p2 ?T) = redp (plug p x) \<or> p2 = []"
          using redp_plug [of p2 ?T "bin d (bin e x pa pk True w) g gk False u"] p p1 \<open>pc\<close> by simp
        then have "insert_inv p2 ?T" using i ix True Suc.prems(2) p
          by (auto simp: insert_inv_def invh_plug bh_bin bh_repaint invc_repaint invh_repaint)
        from Suc.IH [OF s(2) this] obtain t'' tr where f: "insert_fix fuel t' g = Inr t''" "rep s sn par out t'' tr" "rb_ok tr"
          "nodes tr = nodes (plug p2 ?T)" using Suc.prems(3) p p1 by auto
        moreover have "nodes (plug p2 ?T) = nodes (plug p x)"
          using p p1 \<open>pc\<close> by (cases d; cases e) (simp_all add: nodes_plug)
        moreover have "insert_fix (Suc fuel) t (addr s x) = insert_fix fuel t' g"
          by (rule insert_fix_red_parent [OF r x(1) s(1)])
        ultimately show ?thesis by (metis (no_types))
      next
        case False
        obtain t' y b l z where s: "insert_step d t (addr s x) = Inr (t', addr s y)" "y \<noteq> Tip"
          "rep s sn par out t' (plug p2 (bin d y b l False z))"
          "nodes (bin d y b l False z) = nodes (bin d (bin e x pa pk True w) g gk False u)"
          "invc (bin d y b l False z)" "invh (bin d y b l False z)" "bh (bin d y b l False z) = Suc (bh w)"
          using insert_step_turn [OF r x False ix i(2,1,3,5-9)] by blast
        have ok: "invc (plug p2 (bin d y b l False z))" "invh (plug p2 (bin d y b l False z))"
          using s(5-7) i(4,10) by (simp_all add: invc_plug invh_plug)
        obtain f where f: "fuel = Suc f" using Suc.prems(3) p by (cases fuel) auto
        obtain t'' tr where "insert_fix fuel t' (addr s y) = Inr t''" "rep s sn par out t'' tr" "rb_ok tr"
          "nodes tr = nodes (plug p2 (bin d y b l False z))"
          using insert_fix_black_parent [OF s(3,2) ok, of f] unfolding f by blast
        moreover have "nodes (plug p2 (bin d y b l False z)) = nodes (plug p x)"
          using nodes_plug_cong [OF s(4), of p2] p p1 \<open>pc\<close> by simp
        moreover have "insert_fix (Suc fuel) t (addr s x) = insert_fix fuel t' (addr s y)"
          by (rule insert_fix_red_parent [OF r x(1) s(1)])
        ultimately show ?thesis by (metis (no_types))
      qed
    qed
  qed
qed simp

section \<open>The descent\<close>

lemma restrict_taken: "a \<in> D \<Longrightarrow> m(a := v, b := w) |` (- insert s (insert b D)) = (m |` (- insert s D))(b := None)"
  by (auto simp: restrict_map_def fun_eq_iff)

lemma attach:
  assumes r: "rep s sn par out t (plug p (bin d Tip a k c u))" and n: "out b = Some n"
  shows "\<exists>t'. bindE (rb_store t a (set_child d b)) (\<lambda>t. bindE (set_parent t b a) (\<lambda>t.
       bindE (rb_store t b (set_child ToLeft (rb_sentinel t))) (\<lambda>t. bindE (rb_store t b (set_child ToRight (rb_sentinel t))) (\<lambda>t.
       paint t b True)))) = Inr t'
     \<and> rep s sn par (out(b := None)) t' (plug p (bin d (Bin Tip b (rb_key n) True Tip) a k c u))"
proof -
  let ?old = "bin d Tip a k c u" and ?new = "bin d (Bin Tip b (rb_key n) True Tip) a k c u"
  let ?m = "(rb_mem t)(a \<mapsto> node_at d k b (addr s u) (up par p) c,
    b \<mapsto> \<lparr>rb_key = rb_key n, rb_left = s, rb_right = s, rb_parent = a, rb_red = True\<rparr>)"
  let ?t = "t\<lparr>rb_mem := ?m\<rparr>"
  note f = rep_free [OF r n]
  have nb: "b \<noteq> a" "b \<notin> fst ` set (nodes u)" "b \<notin> frame_addrs p" using f(3) unfolding set_addrs_plug by auto
  have na: "a \<notin> fst ` set (nodes u)" "a \<notin> frame_addrs p"
    using r distinct_plug [of p ?old] by (auto simp: rep_def distinct_bin)
  have old: "rb_load t a = Inr (node_at d k s (addr s u) (up par p) c)" "a \<noteq> s" "rb_sentinel t = s"
    using rep_bin [OF r] r by (simp_all add: rep_def)
  have ma: "rb_mem t a = Some (node_at d k s (addr s u) (up par p) c)"
    using old(1) by (simp add: rb_load_def split: option.splits)
  obtain ky l rr pp cc where nn: "n = \<lparr>rb_key = ky, rb_left = l, rb_right = rr, rb_parent = pp, rb_red = cc\<rparr>" by (cases n)
  have "bindE (rb_store t a (set_child d b)) (\<lambda>t. bindE (set_parent t b a) (\<lambda>t.
       bindE (rb_store t b (set_child ToLeft (rb_sentinel t))) (\<lambda>t. bindE (rb_store t b (set_child ToRight (rb_sentinel t))) (\<lambda>t.
       paint t b True)))) = Inr ?t"
    using ma f(1) nb(1) old(3) by (simp add: nn)
  moreover have "rep s sn par (out(b := None)) ?t (plug p ?new)"
  proof -
    have "rb_root t = addr s (plug p ?new)" using r addr_plug [of s ?new ?old p] by (simp add: rep_def)
    moreover have "holds ?m s par (plug p ?new)"
      using r na nb by (simp add: rep_def holds_plug)
    moreover have "distinct (addrs (plug p ?new)) \<and> s \<notin> set (addrs (plug p ?new))"
      using r f nb by (cases d) (auto simp: rep_def nodes_plug frame_addrs_def)
    moreover have "?m |` (- insert s (set (addrs (plug p ?new)))) = out(b := None)"
    proof -
      have "set (addrs (plug p ?new)) = insert b (set (addrs (plug p ?old)))" "a \<in> set (addrs (plug p ?old))"
        unfolding set_addrs_plug by auto
      moreover have "rb_mem t |` (- insert s (set (addrs (plug p ?old)))) = out" using r by (simp add: rep_def)
      ultimately show ?thesis by (metis restrict_taken)
    qed
    ultimately show ?thesis using r old(2) f(2) by (simp add: rep_def)
  qed
  ultimately show ?thesis by blast
qed

text \<open>What a search tree keeps on the two sides of a key; \<open>rank\<close> is the order of the keys.\<close>

definition at_most :: "(u64 \<Rightarrow> nat) \<Rightarrow> u64 \<Rightarrow> (intptr \<times> u64) list \<Rightarrow> bool" where
  "at_most rank k xs \<longleftrightarrow> (\<forall>x\<in>set xs. rank (snd x) \<le> rank k)"

definition above :: "(u64 \<Rightarrow> nat) \<Rightarrow> u64 \<Rightarrow> (intptr \<times> u64) list \<Rightarrow> bool" where
  "above rank k xs \<longleftrightarrow> (\<forall>x\<in>set xs. rank k < rank (snd x))"

lemma at_most_append [simp]: "at_most rank k (xs @ ys) \<longleftrightarrow> at_most rank k xs \<and> at_most rank k ys" "at_most rank k []"
  by (auto simp: at_most_def)

lemma above_append [simp]: "above rank k (xs @ ys) \<longleftrightarrow> above rank k xs \<and> above rank k ys" "above rank k []"
  by (auto simp: above_def)

text \<open>
  \<open>tree->insert\<close> is a function of the caller: what the tree needs of it is that its comparison is that
  of a rank, on the keys in use.
\<close>

locale rb_order =
  fixes lt :: "u64 \<Rightarrow> u64 \<Rightarrow> bool" and rank :: "u64 \<Rightarrow> nat" and keys :: "u64 set"
  assumes lt_rank: "a \<in> keys \<Longrightarrow> b \<in> keys \<Longrightarrow> lt a b \<longleftrightarrow> rank a < rank b"
begin

lemma side_chosen:
  assumes "sorted (map (rank \<circ> snd) (nodes (bin d y a k c z)))" and "key \<in> keys" "k \<in> keys"
    and "d = (if lt key k then ToLeft else ToRight)"
  shows "at_most rank key (side_nodes ToLeft [Frame d a k c z])" "above rank key (side_nodes ToRight [Frame d a k c z])"
  using assms lt_rank [of key k] by (auto simp: at_most_def above_def sorted_append split: if_splits)

lemma descend:
  "rep s sn par out t (plug p x) \<Longrightarrow> x \<noteq> Tip \<Longrightarrow> out b = Some n \<Longrightarrow> height x \<le> fuel
   \<Longrightarrow> rb_key n \<in> keys \<Longrightarrow> snd ` set (nodes x) \<subseteq> keys \<Longrightarrow> sorted (map (rank \<circ> snd) (nodes x))
   \<Longrightarrow> \<exists>t' q. insert_below lt fuel t (addr s x) b = Inr t' \<and> q \<noteq> [] \<and> x = plug q Tip
       \<and> rep s sn par (out(b := None)) t' (plug (q @ p) (Bin Tip b (rb_key n) True Tip))
       \<and> at_most rank (rb_key n) (side_nodes ToLeft q) \<and> above rank (rb_key n) (side_nodes ToRight q)"
proof (induction fuel arbitrary: p x)
  case 0
  then show ?case by (cases x) auto
next
  case (Suc fuel)
  obtain l a k c r where "x = Bin l a k c r" using Suc.prems(2) by (cases x) auto
  then obtain d y z where x: "x = bin d y a k c z" and d: "d = (if lt (rb_key n) k then ToLeft else ToRight)"
    by (cases "lt (rb_key n) k") (metis bin.simps)+
  have r: "rep s sn par out t (plug p (bin d y a k c z))" using Suc.prems(1) x by simp
  have k: "k \<in> keys" using Suc.prems(6) x by auto
  note f = side_chosen [OF Suc.prems(7) [unfolded x] Suc.prems(5) k d]
  have b: "rb_load t b = Inr n" using rep_free(1) [OF r Suc.prems(3)] by simp
  show ?case
  proof (cases "y = Tip")
    case True
    then obtain t' where "bindE (rb_store t a (set_child d b)) (\<lambda>t. bindE (set_parent t b a) (\<lambda>t.
       bindE (rb_store t b (set_child ToLeft (rb_sentinel t))) (\<lambda>t. bindE (rb_store t b (set_child ToRight (rb_sentinel t))) (\<lambda>t.
       paint t b True)))) = Inr t'" and t': "rep s sn par (out(b := None)) t' (plug p (bin d (Bin Tip b (rb_key n) True Tip) a k c z))"
      using attach [of s sn par out t p d a k c z b n] r True Suc.prems(3) by blast
    then have "insert_below lt (Suc fuel) t (addr s x) b = Inr t'"
      using b rep_bin(1) [OF r] rep_child [OF r] True x d by (simp add: Let_def)
    moreover have "rep s sn par (out(b := None)) t' (plug ([Frame d a k c z] @ p) (Bin Tip b (rb_key n) True Tip))"
      unfolding append.simps plug.simps by (rule t')
    moreover have "x = plug [Frame d a k c z] Tip" using x True by simp
    ultimately show ?thesis using f by blast
  next
    case False
    have r2: "rep s sn par out t (plug (Frame d a k c z # p) y)" using r by simp
    have sub: "height y \<le> fuel" "snd ` set (nodes y) \<subseteq> keys" "sorted (map (rank \<circ> snd) (nodes y))"
    proof -
      show "height y \<le> fuel" using Suc.prems(4) x by simp
      show "snd ` set (nodes y) \<subseteq> keys" using Suc.prems(6) x by (cases d) (simp_all add: image_Un)
      show "sorted (map (rank \<circ> snd) (nodes y))" using Suc.prems(7) x by (cases d) (simp_all add: sorted_append comp_def)
    qed
    from Suc.IH [OF r2 False Suc.prems(3) sub(1) Suc.prems(5) sub(2,3)]
    obtain t' q where q: "insert_below lt fuel t (addr s y) b = Inr t'" "q \<noteq> []" "y = plug q Tip"
      "rep s sn par (out(b := None)) t' (plug (q @ Frame d a k c z # p) (Bin Tip b (rb_key n) True Tip))"
      "at_most rank (rb_key n) (side_nodes ToLeft q)" "above rank (rb_key n) (side_nodes ToRight q)" by blast
    have "insert_below lt (Suc fuel) t (addr s x) b = Inr t'"
      using b rep_bin(1) [OF r] rep_child [OF r] False x d q(1) by (simp add: Let_def)
    moreover have "rep s sn par (out(b := None)) t' (plug ((q @ [Frame d a k c z]) @ p) (Bin Tip b (rb_key n) True Tip))"
      unfolding append_assoc append.simps by (rule q(4))
    moreover have "x = plug (q @ [Frame d a k c z]) Tip" using x q(3) by (simp add: plug_append)
    moreover have "at_most rank (rb_key n) (side_nodes ToLeft (q @ [Frame d a k c z]))"
      "above rank (rb_key n) (side_nodes ToRight (q @ [Frame d a k c z]))" using f q(5,6) by simp_all
    ultimately show ?thesis by blast
  qed
qed

end

section \<open>Insertion\<close>

lemma insert_empty:
  assumes r: "rep s sn par out t Tip" and n: "out b = Some n"
  shows "\<exists>t'. rbtree_insert ins fuel t b = Inr t' \<and> rep s sn 0 (out(b := None)) t' (Bin Tip b (rb_key n) False Tip)"
proof -
  obtain ky l rr pp cc where nn: "n = \<lparr>rb_key = ky, rb_left = l, rb_right = rr, rb_parent = pp, rb_red = cc\<rparr>" by (cases n)
  let ?t = "t\<lparr>rb_root := b, rb_mem := (rb_mem t)(b \<mapsto> \<lparr>rb_key = ky, rb_left = s, rb_right = s, rb_parent = 0, rb_red = False\<rparr>)\<rparr>"
  note f = rep_free [OF r n]
  have "rbtree_insert ins fuel t b = Inr ?t" using r f(1) nn by (simp add: rbtree_insert_def rep_def)
  moreover have "rep s sn 0 (out(b := None)) ?t (Bin Tip b (rb_key n) False Tip)"
  proof -
    have o: "rb_mem t |` (- {s}) = out" using r by (simp add: rep_def)
    have "rb_mem ?t |` (- {s, b}) = out(b := None)" unfolding o [symmetric] by (auto simp: restrict_map_def fun_eq_iff)
    then show ?thesis using r f(2) nn by (simp add: rep_def)
  qed
  ultimately show ?thesis by blast
qed

context rb_order
begin

lemma insert_nonempty:
  assumes r: "rep s sn par out t tr" and ok: "rb_ok tr" and ne: "tr \<noteq> Tip" and n: "out b = Some n" and f: "height tr < fuel"
    and k: "rb_key n \<in> keys" "snd ` set (nodes tr) \<subseteq> keys" "sorted (map (rank \<circ> snd) (nodes tr))"
  shows "\<exists>t' tr' xs ys. rbtree_insert (insert_below lt) fuel t b = Inr t' \<and> rep s sn par (out(b := None)) t' tr' \<and> rb_ok tr'
     \<and> nodes tr = xs @ ys \<and> nodes tr' = xs @ (b, rb_key n) # ys \<and> at_most rank (rb_key n) xs \<and> above rank (rb_key n) ys"
proof -
  let ?leaf = "Bin Tip b (rb_key n) True Tip"
  have "rep s sn par out t (plug [] tr)" "height tr \<le> fuel" using r f by simp_all
  from descend [OF this(1) ne n this(2) k] obtain t1 q where q: "insert_below lt fuel t (addr s tr) b = Inr t1" "q \<noteq> []" "tr = plug q Tip"
    "rep s sn par (out(b := None)) t1 (plug q ?leaf)" "at_most rank (rb_key n) (side_nodes ToLeft q)" "above rank (rb_key n) (side_nodes ToRight q)"
    unfolding append_Nil2 by blast
  have i: "insert_inv q ?leaf" using ok q(2,3) redp_plug [of q ?leaf Tip]
    by (auto simp: insert_inv_def rb_ok_def invc_plug invh_plug)
  have "length q < fuel" using f q(3) length_path [of q Tip] by simp
  from insert_fix_ok [OF q(4) i this] obtain t' tr' where "insert_fix fuel t1 b = Inr t'" "rep s sn par (out(b := None)) t' tr'" "rb_ok tr'"
    "nodes tr' = nodes (plug q ?leaf)" by auto
  moreover have "rb_root t \<noteq> rb_sentinel t" using r ne by (cases tr) (auto simp: rep_def)
  moreover have "rb_root t = addr s tr" using r by (simp add: rep_def)
  ultimately show ?thesis using q
    by (intro exI [of _ t'] exI [of _ tr'] exI [of _ "side_nodes ToLeft q"] exI [of _ "side_nodes ToRight q"])
      (simp add: rbtree_insert_def nodes_plug)
qed

lemma insert_tree:
  assumes t: "rb_tree rank s out t zs" and n: "out b = Some n" and f: "Suc (length zs) < 2 ^ m" and k: "rb_key n \<in> keys" "snd ` set zs \<subseteq> keys"
  shows "\<exists>t' xs ys. rbtree_insert (insert_below lt) (2 * m) t b = Inr t' \<and> zs = xs @ ys \<and> at_most rank (rb_key n) xs \<and> above rank (rb_key n) ys
     \<and> rb_tree rank s (out(b := None)) t' (xs @ (b, rb_key n) # ys)"
proof -
  obtain sn par tr where r: "rep s sn par out t tr" "rb_ok tr" "nodes tr = zs" and so: "sorted (map (rank \<circ> snd) zs)"
    using t by (auto simp: rb_tree_def)
  have "\<exists>t' par' tr' xs ys. rbtree_insert (insert_below lt) (2 * m) t b = Inr t' \<and> rep s sn par' (out(b := None)) t' tr' \<and> rb_ok tr'
     \<and> nodes tr = xs @ ys \<and> nodes tr' = xs @ (b, rb_key n) # ys \<and> at_most rank (rb_key n) xs \<and> above rank (rb_key n) ys"
  proof (cases "tr = Tip")
    case True
    have "rb_ok (Bin Tip b (rb_key n) False Tip)" by (simp add: rb_ok_def)
    with insert_empty [OF r(1) [unfolded True] n, of "insert_below lt" "2 * m"] True show ?thesis by fastforce
  next
    case False
    have "height tr < 2 * m" using rb_ok_height [OF r(2)] f r(3) by simp
    from insert_nonempty [OF r(1,2) False n this k(1)] r(3) k(2) so show ?thesis by blast
  qed
  then obtain t' par' tr' xs ys where "rbtree_insert (insert_below lt) (2 * m) t b = Inr t'" "rep s sn par' (out(b := None)) t' tr'" "rb_ok tr'"
    "zs = xs @ ys" "nodes tr' = xs @ (b, rb_key n) # ys" "at_most rank (rb_key n) xs" "above rank (rb_key n) ys" using r(3) by blast
  moreover from this so have "sorted (map (rank \<circ> snd) (xs @ (b, rb_key n) # ys))"
    by (auto simp: sorted_append at_most_def above_def less_imp_le)
  ultimately show ?thesis unfolding rb_tree_def by blast
qed

end

text \<open>
  The two comparisons of the source.  Timers are compared by the sign of the difference: that is an order
  as long as all keys lie within half of the range after some \<open>base\<close>, wherever the counter wraps.
\<close>

interpretation key_order: rb_order key_less unat UNIV
  by unfold_locales (simp add: key_less_def word_less_nat_alt)

lemma sint_neg: "sint (w :: u64) < 0 \<longleftrightarrow> 2 ^ 63 \<le> uint w"
proof -
  have s: "sint w = (uint w + 2 ^ 63) mod 2 ^ 64 - 2 ^ 63"
    by (simp add: sint_uint signed_take_bit_eq_take_bit_shift take_bit_eq_mod)
  have b: "0 \<le> uint w" "uint w < 2 ^ 64" using uint_lt2p [of w] by simp_all
  show ?thesis
  proof (cases "uint w < 2 ^ 63")
    case True
    then have "(uint w + 2 ^ 63) mod 2 ^ 64 = uint w + 2 ^ 63" using b by (intro mod_pos_pos_trivial) simp_all
    then show ?thesis using True b s by simp
  next
    case False
    have "(uint w + 2 ^ 63) mod 2 ^ 64 = ((uint w - 2 ^ 63) + 2 ^ 64) mod 2 ^ 64"
      by (rule arg_cong [of _ _ "\<lambda>z. z mod 2 ^ 64"]) simp
    also have "\<dots> = (uint w - 2 ^ 63) mod 2 ^ 64" by (rule mod_add_self2)
    also have "\<dots> = uint w - 2 ^ 63" using False b by (intro mod_pos_pos_trivial) simp_all
    finally show ?thesis using False b s by simp
  qed
qed

lemma sint_diff_neg:
  fixes x y :: u64
  assumes "uint x < 2 ^ 63" "uint y < 2 ^ 63"
  shows "sint (x - y) < 0 \<longleftrightarrow> uint x < uint y"
proof -
  have m: "uint (x - y) = (uint x - uint y) mod 2 ^ 64" by (simp add: uint_word_ariths)
  have b: "0 \<le> uint x" "0 \<le> uint y" by simp_all
  have n: "uint x < 9223372036854775808" "uint y < 9223372036854775808" using assms by simp_all
  have p: "(2 :: int) ^ 64 = 18446744073709551616" by simp
  show ?thesis
  proof (cases "uint x < uint y")
    case True
    have "(uint x - uint y) mod 2 ^ 64 = (uint x - uint y + 2 ^ 64) mod 2 ^ 64" by (rule mod_add_self2 [symmetric])
    also have "\<dots> = uint x - uint y + 2 ^ 64" using True n b by (intro mod_pos_pos_trivial) (unfold p, linarith+)
    finally have "uint (x - y) = uint x - uint y + 18446744073709551616" unfolding m by simp
    moreover have "9223372036854775808 \<le> uint x - uint y + 18446744073709551616" using n b by linarith
    ultimately show ?thesis using True unfolding sint_neg by simp
  next
    case False
    then have "(uint x - uint y) mod 2 ^ 64 = uint x - uint y" using n b by (intro mod_pos_pos_trivial) (unfold p, linarith+)
    then have "uint (x - y) = uint x - uint y" unfolding m .
    moreover have "uint x - uint y < 9223372036854775808" using n b by linarith
    ultimately show ?thesis using False unfolding sint_neg by simp
  qed
qed

lemma unat_less_power_uint: "unat (w :: u64) < 2 ^ 63 \<longleftrightarrow> uint w < 2 ^ 63"
  by transfer (simp add: nat_less_iff)

interpretation timer_order: rb_order timer_less "\<lambda>k. unat (k - base)" "{k. unat (k - base) < 2 ^ 63}" for base
proof unfold_locales
  fix a b :: u64
  assume "a \<in> {k. unat (k - base) < 2 ^ 63}" "b \<in> {k. unat (k - base) < 2 ^ 63}"
  then have "uint (a - base) < 2 ^ 63" "uint (b - base) < 2 ^ 63" 
    using unat_less_power_uint [of "a - base"] unat_less_power_uint [of "b - base"] by blast+
  from sint_diff_neg [OF this] show "timer_less a b \<longleftrightarrow> unat (a - base) < unat (b - base)"
    by (simp add: timer_less_def word_less_nat_alt [symmetric] word_less_def)
qed

text \<open>
  The comment in the source speaks of a counter of milliseconds in 32 bits that overflows each 49 days.
  A key has the width of a pointer: a timer of 32 bits that is due after the overflow is put before one
  that is due before it.
\<close>

lemma timer_32_bits: "timer_less 3 (2 ^ 32 - 5)"
  by (simp add: timer_less_def sint_neg uint_word_ariths)

lemma init_tree:
  assumes "rb_mem t s = Some n"
  shows "\<exists>t'. rbtree_init t s = Inr t' \<and> rb_tree rank s (rb_mem t |` (- {s})) t' []"
proof -
  let ?t = "t\<lparr>rb_mem := (rb_mem t)(s \<mapsto> n\<lparr>rb_red := False\<rparr>), rb_root := s, rb_sentinel := s\<rparr>"
  have "rep s (n\<lparr>rb_red := False\<rparr>) 0 (rb_mem t |` (- {s})) ?t Tip" by (simp add: rep_def)
  then have "rb_tree rank s (rb_mem t |` (- {s})) ?t []"
    unfolding rb_tree_def by (intro conjI exI [of _ "n\<lparr>rb_red := False\<rparr>"] exI [of _ 0] exI [of _ Tip]) (simp_all add: rb_ok_def)
  then show ?thesis using assms by (simp add: rbtree_init_def)
qed

definition ordered_by :: "(nat \<Rightarrow> rbtree \<Rightarrow> intptr \<Rightarrow> intptr \<Rightarrow> ub + rbtree) \<Rightarrow> (u64 \<Rightarrow> nat) \<Rightarrow> u64 set \<Rightarrow> bool" where
  "ordered_by ins rank keys \<longleftrightarrow> (ins = rbtree_insert_value \<and> rank = unat)
     \<or> (\<exists>base. ins = rbtree_insert_timer_value \<and> rank = (\<lambda>k. unat (k - base)) \<and> (\<forall>k\<in>keys. unat (k - base) < 2 ^ 63))"

text \<open>
  C17.  Inserting a free node, by value or by timer value, puts it behind the nodes whose keys are not
  greater and before those whose keys are, restores the red-black property, and changes no node outside
  the tree.  With fewer than \<open>2 ^ m\<close> nodes and the sentinel no loop takes more than \<open>2 * m\<close> turns.
\<close>

theorem rbtree_insert_places:
  assumes "rb_tree rank s out t zs" and "out b = Some n" and "Suc (length zs) < 2 ^ m"
    and "ordered_by ins rank (insert (rb_key n) (snd ` set zs))"
  shows "\<exists>t' xs ys. rbtree_insert ins (2 * m) t b = Inr t' \<and> zs = xs @ ys \<and> at_most rank (rb_key n) xs \<and> above rank (rb_key n) ys
     \<and> rb_tree rank s (out(b := None)) t' (xs @ (b, rb_key n) # ys)"
proof (cases "ins = rbtree_insert_value \<and> rank = unat")
  case True
  then show ?thesis using key_order.insert_tree [of s out t zs b n m] assms(1-3) by (auto simp: rbtree_insert_value_def)
next
  case False
  then obtain base where "ins = rbtree_insert_timer_value" "rank = (\<lambda>k. unat (k - base))"
    "\<forall>k\<in>insert (rb_key n) (snd ` set zs). unat (k - base) < 2 ^ 63" using assms(4) by (auto simp: ordered_by_def)
  moreover from this have "rb_key n \<in> {k. unat (k - base) < 2 ^ 63}" "snd ` set zs \<subseteq> {k. unat (k - base) < 2 ^ 63}" by auto
  ultimately show ?thesis using timer_order.insert_tree [of base s out t zs b n m] assms(1-3)
    by (simp add: rbtree_insert_timer_value_def)
qed

text \<open>A timer that is due after the counter has wrapped goes behind one that is due before.\<close>

definition sample_node :: "u64 \<Rightarrow> rb_node" where
  "sample_node k = \<lparr>rb_key = k, rb_left = 8, rb_right = 8, rb_parent = 0, rb_red = False\<rparr>"

definition sample_rbtree :: "u64 \<Rightarrow> u64 \<Rightarrow> rbtree" where
  "sample_rbtree k k' = \<lparr>rb_mem = [8 \<mapsto> sample_node 0, 16 \<mapsto> sample_node k, 24 \<mapsto> sample_node k'], rb_root = 16, rb_sentinel = 8\<rparr>"

lemma sample_rb_tree: "rb_tree rank 8 [24 \<mapsto> sample_node k'] (sample_rbtree k k') [(16, k)]"
proof -
  have "rep 8 (sample_node 0) 0 [24 \<mapsto> sample_node k'] (sample_rbtree k k') (Bin Tip 16 k False Tip)"
    by (auto simp: rep_def sample_rbtree_def sample_node_def restrict_map_def fun_eq_iff)
  then show ?thesis unfolding rb_tree_def
    by (intro conjI exI [of _ "sample_node 0"] exI [of _ 0] exI [of _ "Bin Tip 16 k False Tip"]) (simp_all add: rb_ok_def)
qed

theorem rbtree_insert_places_witness:
  "\<exists>t' xs ys. rbtree_insert rbtree_insert_timer_value 4 (sample_rbtree (- 5) 3) 24 = Inr t' \<and> [(16, - 5)] = xs @ ys
     \<and> at_most (\<lambda>k. unat (k + 10)) 3 xs \<and> above (\<lambda>k. unat (k + 10)) 3 ys
     \<and> rb_tree (\<lambda>k. unat (k + 10)) 8 Map.empty t' (xs @ (24, 3) # ys)"
proof -
  have "ordered_by rbtree_insert_timer_value (\<lambda>k. unat (k + 10)) {3, - 5}"
    unfolding ordered_by_def by (intro disjI2 exI [of _ "- 10"]) simp
  then show ?thesis
    using rbtree_insert_places [OF sample_rb_tree [of "\<lambda>k. unat (k + 10)" 3 "- 5"], of 24 "sample_node 3" 2 rbtree_insert_timer_value]
    by (simp add: sample_node_def)
qed

end
