(* ===== verification/Rbtree_Delete.thy ===== *)
theory Rbtree_Delete
  imports Rbtree_Insert
begin

text \<open>
  Taking a node out: its neighbour in the order takes its place where it has two children, the repair
  restores the red-black property, and no other node of the memory is touched.
\<close>

section \<open>The repair after a deletion\<close>

text \<open>
  The subtree \<open>x\<close> at the end of the path \<open>q\<close> is one black node short.  Where it is missing, the
  parent of the sentinel leads back to the path.
\<close>

definition leads_back :: "rb_node \<Rightarrow> intptr \<Rightarrow> ptree \<Rightarrow> bool" where
  "leads_back sn pa x \<longleftrightarrow> (x = Tip \<longrightarrow> rb_parent sn = pa)"

definition short :: "frame list \<Rightarrow> ptree \<Rightarrow> bool" where
  "short q x \<longleftrightarrow> invc (repaint False x) \<and> invh x \<and> pathc q False \<and> pathh q (Suc (bh x)) \<and> (q \<noteq> [] \<longrightarrow> \<not> redp (plug q x))"

lemma rep_parent:
  assumes "rep s sn par out t (plug q (bin d x pa pk c w))" and "leads_back sn pa x"
  shows "parent t (addr s x) = Inr pa"
proof (cases x)
  case Tip
  then show ?thesis using assms by (simp add: rep_def leads_back_def)
next
  case (Bin l a k cc r)
  have "rep s sn par out t (plug (Frame d pa pk c w # q) (Bin l a k cc r))" using assms(1) Bin by simp
  then show ?thesis using rep_focus(3) Bin by fastforce
qed

lemma rep_sibling:
  assumes "rep s sn par out t (plug q (bin d x pa pk c w))" and "leads_back sn pa x"
  shows "sibling d t (addr s x) = Inr (addr s w)"
  using rep_parent [OF assms] rep_bin(1) [OF assms(1)] by (simp add: sibling_def)

lemma rep_sibling_red:
  assumes "rep s sn par out t (plug q (bin d x pa pk c w))"
  shows "is_red t (addr s w) = Inr (redp w)" "is_red t (addr s x) = Inr (redp x)"
  using rep_redp [of s sn par out t "Frame (opp d) pa pk c x # q" w] rep_redp [of s sn par out t "Frame d pa pk c w # q" x] assms
  by simp_all

lemma rep_repaint_far:
  assumes "rep s sn par out t (plug q (bin d x a k c y))" and "y \<noteq> Tip"
  obtains t' where "paint t (addr s y) b = Inr t'" "rep s sn par out t' (plug q (bin d x a k c (repaint b y)))"
proof -
  obtain y1 e ek ec y2 where y: "y = bin d y1 e ek ec y2" by (rule not_Tip [OF assms(2)])
  have "rep s sn par out t (plug (Frame (opp d) a k c x # q) (bin d y1 e ek ec y2))" using assms(1) y by simp
  then obtain t' where "paint t e b = Inr t'" "rep s sn par out t' (plug (Frame (opp d) a k c x # q) (bin d y1 e ek b y2))"
    by (rule rep_paint_bin)
  then show thesis using y by (intro that [of t']) simp_all
qed

lemma delete_turn_ok:
  assumes r: "rep s sn par out t (plug q (bin d x pa pk c (bin d wl wa wk wc wr)))" and b: "leads_back sn pa x" and wr: "wr \<noteq> Tip"
  shows "\<exists>t'. delete_turn d t (addr s x) wa = Inr (t', rb_root t')
    \<and> rep s sn par out t' (plug q (bin d (bin d x pa pk False wl) wa wk c (repaint False wr)))"
proof -
  note p = rep_parent [OF r b] rep_bin [OF r]
  obtain t1 where t1: "paint t wa c = Inr t1" "rep s sn par out t1 (plug q (bin d x pa pk c (bin d wl wa wk c wr)))"
    by (rule rep_repaint_far [OF r, of c]) simp_all
  obtain t2 where t2: "paint t1 pa False = Inr t2" "rep s sn par out t2 (plug q (bin d x pa pk False (bin d wl wa wk c wr)))"
    by (rule rep_paint_bin [OF t1(2)])
  have r2: "rep s sn par out t2 (plug (Frame (opp d) pa pk False x # q) (bin d wl wa wk c wr))" using t2(2) by simp
  note w = rep_bin [OF r2]
  obtain t3 where t3: "paint t2 (addr s wr) False = Inr t3"
    "rep s sn par out t3 (plug (Frame (opp d) pa pk False x # q) (bin d wl wa wk c (repaint False wr)))"
    by (rule rep_repaint_far [OF r2 wr])
  then have "rep s sn par out t3 (plug q (bin d x pa pk False (bin d wl wa wk c (repaint False wr))))" by simp
  then obtain t4 where "rotate d t3 pa = Inr t4" "rep s sn par out t4 (plug q (bin d (bin d x pa pk False wl) wa wk c (repaint False wr)))"
    by (rule rep_rotate_bin)
  then show ?thesis using p t1(1) t2(1) w(1) t3(1) by (simp add: delete_turn_def)
qed

lemma rep_nephews:
  assumes r: "rep s sn par out t (plug q (bin d x pa pk c (bin d wl wa wk wc wr)))"
  shows "rb_load t wa = Inr (node_at d wk (addr s wl) (addr s wr) pa wc)"
    "is_red t (addr s wl) = Inr (redp wl)" "is_red t (addr s wr) = Inr (redp wr)"
proof -
  have r1: "rep s sn par out t (plug (Frame (opp d) pa pk c x # q) (bin d wl wa wk wc wr))" using r by simp
  show "rb_load t wa = Inr (node_at d wk (addr s wl) (addr s wr) pa wc)" using rep_bin(1) [OF r1] by simp
  show "is_red t (addr s wl) = Inr (redp wl)" "is_red t (addr s wr) = Inr (redp wr)" using rep_sibling_red [OF r1] by simp_all
qed

lemma delete_black_recolour:
  assumes r: "rep s sn par out t (plug q (bin d x pa pk c (bin d wl wa wk False wr)))" and b: "leads_back sn pa x"
    and bl: "\<not> redp wl" "\<not> redp wr"
  shows "\<exists>t'. delete_black d t (addr s x) wa = Inr (t', pa) \<and> rep s sn par out t' (plug q (bin d x pa pk c (bin d wl wa wk True wr)))"
proof -
  obtain t1 where t1: "paint t wa True = Inr t1" "rep s sn par out t1 (plug q (bin d x pa pk c (bin d wl wa wk True wr)))"
    by (rule rep_repaint_far [OF r, of True]) simp_all
  then have "delete_black d t (addr s x) wa = Inr (t1, pa)"
    using rep_nephews [OF r] bl rep_parent [OF t1(2) b] by (cases d) (simp_all add: delete_black_def)
  with t1(2) show ?thesis by blast
qed

lemma delete_black_far:
  assumes r: "rep s sn par out t (plug q (bin d x pa pk c (bin d wl wa wk False wr)))" and "redp wr"
  shows "delete_black d t (addr s x) wa = delete_turn d t (addr s x) wa"
  using rep_nephews [OF r] assms(2) by (cases d; cases "redp wl") (simp_all add: delete_black_def)

lemma delete_black_near:
  assumes r: "rep s sn par out t (plug q (bin d x pa pk c (bin d (bin d y la lk True z) wa wk False wr)))" and b: "leads_back sn pa x"
    and bl: "\<not> redp wr"
  shows "\<exists>t'. delete_black d t (addr s x) wa = delete_turn d t' (addr s x) la
    \<and> rep s sn par out t' (plug q (bin d x pa pk c (bin d y la lk False (bin d z wa wk True wr))))"
proof -
  let ?l = "bin d y la lk True z"
  have r0: "rep s sn par out t (plug (Frame (opp d) pa pk c x # q) (bin (opp d) wr wa wk False ?l))" using r by simp
  have "?l \<noteq> Tip" by simp
  then obtain t1 where "paint t (addr s ?l) False = Inr t1"
    "rep s sn par out t1 (plug (Frame (opp d) pa pk c x # q) (bin (opp d) wr wa wk False (repaint False ?l)))"
    by (rule rep_repaint_far [OF r0])
  then have t1: "paint t la False = Inr t1"
    "rep s sn par out t1 (plug (Frame (opp d) pa pk c x # q) (bin (opp d) wr wa wk False (bin d y la lk False z)))" by simp_all
  obtain t2 where t2: "paint t1 wa True = Inr t2"
    "rep s sn par out t2 (plug (Frame (opp d) pa pk c x # q) (bin (opp d) wr wa wk True (bin d y la lk False z)))"
    by (rule rep_paint_bin [OF t1(2)])
  then have "rep s sn par out t2 (plug (Frame (opp d) pa pk c x # q) (bin (opp d) wr wa wk True (bin (opp d) z la lk False y)))" by simp
  then obtain t3 where t3: "rotate (opp d) t2 wa = Inr t3"
    "rep s sn par out t3 (plug (Frame (opp d) pa pk c x # q) (bin (opp d) (bin (opp d) wr wa wk True z) la lk False y))"
    by (rule rep_rotate_bin)
  then have r3: "rep s sn par out t3 (plug q (bin d x pa pk c (bin d y la lk False (bin d z wa wk True wr))))" by simp
  have "delete_black d t (addr s x) wa = delete_turn d t3 (addr s x) la"
    using rep_nephews [OF r] bl t1(1) t2(1) t3(1) rep_sibling [OF r3 b] by (cases d) (simp_all add: delete_black_def)
  with r3 show ?thesis by blast
qed

text \<open>
  After a turn with a black sibling, either the parent is one black node short, or the subtree is whole
  again and the loop goes to the root.
\<close>

lemma delete_black_ok:
  assumes r: "rep s sn par out t (plug q (bin d x pa pk c w))" and b: "leads_back sn pa x" and w: "\<not> redp w" "invc w" "invh w" "bh w = Suc (bh x)"
    and x: "invc x" "invh x" "\<not> redp x"
  shows "\<exists>t' y. rep s sn par out t' (plug q y) \<and> nodes y = nodes (bin d x pa pk c w) \<and> y \<noteq> Tip \<and> invh y \<and> redp y = c
    \<and> (delete_black d t (addr s x) (addr s w) = Inr (t', addr s y) \<and> invc (repaint False y) \<and> bh y = bh x + (if c then 0 else 1)
     \<or> delete_black d t (addr s x) (addr s w) = Inr (t', rb_root t') \<and> invc y \<and> bh y = Suc (bh x + (if c then 0 else 1)))"
proof -
  have "w \<noteq> Tip" using w(4) by auto
  then obtain wl wa wk wr where wb: "w = bin d wl wa wk False wr" using not_Tip [of w d] w(1) by (metis bin_simps(1))
  have rw: "rep s sn par out t (plug q (bin d x pa pk c (bin d wl wa wk False wr)))" using r wb by simp
  have h: "invh wl" "invh wr" "bh wl = bh x" "bh wr = bh x" "invc wl" "invc wr" using w(2-4) wb by (simp_all add: bh_bin)
  consider "\<not> redp wl \<and> \<not> redp wr" | "redp wr" | "redp wl" "\<not> redp wr" by blast
  then show ?thesis
  proof cases
    case 1
    let ?y = "bin d x pa pk c (bin d wl wa wk True wr)"
    obtain t' where "delete_black d t (addr s x) wa = Inr (t', pa)" "rep s sn par out t' (plug q ?y)"
      using delete_black_recolour [OF rw b] 1 by blast
    then show ?thesis using 1 h x wb
      by (intro exI [of _ t'] exI [of _ ?y]) (cases d; simp add: bh_bin)
  next
    case 2
    then have "wr \<noteq> Tip" by auto
    let ?y = "bin d (bin d x pa pk False wl) wa wk c (repaint False wr)"
    obtain t' where "delete_black d t (addr s x) wa = Inr (t', rb_root t')" "rep s sn par out t' (plug q ?y)"
      using delete_turn_ok [OF rw b \<open>wr \<noteq> Tip\<close>] delete_black_far [OF rw 2] by auto
    moreover have "nodes ?y = nodes (bin d x pa pk c w)" using wb by (cases d) simp_all
    moreover have "bh (repaint False wr) = Suc (bh x)" using 2 h by (simp add: bh_repaint)
    ultimately show ?thesis using 2 h x wb
      by (intro exI [of _ t'] exI [of _ ?y]) (simp add: bh_bin invc_repaint invh_repaint)
  next
    case 3
    then have "wl \<noteq> Tip" by auto
    then obtain y la lk z where wl: "wl = bin d y la lk True z" using not_Tip [of wl d] 3(1) by (metis bin_simps(1))
    have i: "invc y" "invc z" "\<not> redp y" "\<not> redp z" "invh y" "invh z" "bh y = bh x" "bh z = bh x" using h wl by (simp_all add: bh_bin)
    let ?y = "bin d (bin d x pa pk False y) la lk c (bin d z wa wk False wr)"
    have "rep s sn par out t (plug q (bin d x pa pk c (bin d (bin d y la lk True z) wa wk False wr)))" using rw wl by simp
    from delete_black_near [OF this b 3(2)] obtain t1 where t1: "delete_black d t (addr s x) wa = delete_turn d t1 (addr s x) la"
      "rep s sn par out t1 (plug q (bin d x pa pk c (bin d y la lk False (bin d z wa wk True wr))))" by blast
    obtain t' where "delete_turn d t1 (addr s x) la = Inr (t', rb_root t')" "rep s sn par out t' (plug q ?y)"
      using delete_turn_ok [OF t1(2) b] by auto
    moreover have "nodes ?y = nodes (bin d x pa pk c w)" using wb wl by (cases d) simp_all
    ultimately show ?thesis using 3 h x wb i t1(1)
      by (intro exI [of _ t'] exI [of _ ?y]) (simp add: bh_bin)
  qed
qed

lemma repaint_black: "\<not> redp x \<Longrightarrow> repaint False x = x"
  by (cases x) auto

lemma delete_black_short:
  assumes r: "rep s sn par out t (plug q (bin d x pa pk c w))" and b: "leads_back sn pa x" and w: "\<not> redp w" "invc w" "invh w" "bh w = Suc (bh x)"
    and x: "invc x" "invh x" "\<not> redp x"
    and q: "pathc q c" "pathh q (Suc (bh x + (if c then 0 else 1)))" "q \<noteq> [] \<longrightarrow> \<not> redp (plug q (bin d x pa pk c w))"
  shows "\<exists>t' q' y. delete_black d t (addr s x) (addr s w) = Inr (t', addr s y) \<and> rep s sn par out t' (plug q' y) \<and> short q' y
    \<and> nodes (plug q' y) = nodes (plug q (bin d x pa pk c w)) \<and> y \<noteq> Tip \<and> (q' = q \<and> redp y = c \<or> q' = [])"
proof -
  obtain t' y where y: "rep s sn par out t' (plug q y)" "nodes y = nodes (bin d x pa pk c w)" "y \<noteq> Tip" "invh y" "redp y = c"
    and o: "delete_black d t (addr s x) (addr s w) = Inr (t', addr s y) \<and> invc (repaint False y) \<and> bh y = bh x + (if c then 0 else 1)
     \<or> delete_black d t (addr s x) (addr s w) = Inr (t', rb_root t') \<and> invc y \<and> bh y = Suc (bh x + (if c then 0 else 1))"
    using delete_black_ok [OF r b w x] by blast
  have n: "nodes (plug q y) = nodes (plug q (bin d x pa pk c w))" by (rule nodes_plug_cong [OF y(2)])
  from o show ?thesis
  proof (elim disjE conjE)
    assume a: "delete_black d t (addr s x) (addr s w) = Inr (t', addr s y)" "invc (repaint False y)" "bh y = bh x + (if c then 0 else 1)"
    have "short q y" using a(2,3) y(4) q redp_plug [of q y "bin d x pa pk c w"] by (auto simp: short_def pathc_black)
    with a(1) y n show ?thesis by blast
  next
    assume a: "delete_black d t (addr s x) (addr s w) = Inr (t', rb_root t')" "invc y" "bh y = Suc (bh x + (if c then 0 else 1))"
    have "rb_root t' = addr s (plug q y)" using y(1) by (simp add: rep_def)
    moreover have "short [] (plug q y)" using a(2,3) y(4,5) q by (simp add: short_def invc_repaint invc_plug invh_plug)
    ultimately show ?thesis using a(1) y(1) n plug_not_Tip [OF y(3), of q]
      by (intro exI [of _ t'] exI [of _ "[]"] exI [of _ "plug q y"]) simp
  qed
qed

lemma delete_step_black:
  assumes r: "rep s sn par out t (plug q (bin d x pa pk c w))" and b: "leads_back sn pa x" and w: "\<not> redp w"
  shows "delete_step d t (addr s x) = delete_black d t (addr s x) (addr s w)"
  using rep_sibling [OF r b] rep_sibling_red [OF r] w by (simp add: delete_step_def)

lemma delete_step_red:
  assumes r: "rep s sn par out t (plug q (bin d x pa pk False (bin d wl wa wk True wr)))" and b: "leads_back sn pa x"
  shows "\<exists>t'. delete_step d t (addr s x) = delete_black d t' (addr s x) (addr s wl)
    \<and> rep s sn par out t' (plug (Frame d wa wk False wr # q) (bin d x pa pk True wl))"
proof -
  obtain t1 where t1: "paint t wa False = Inr t1" "rep s sn par out t1 (plug q (bin d x pa pk False (bin d wl wa wk False wr)))"
    by (rule rep_repaint_far [OF r, of False]) simp_all
  obtain t2 where t2: "paint t1 pa True = Inr t2" "rep s sn par out t2 (plug q (bin d x pa pk True (bin d wl wa wk False wr)))"
    by (rule rep_paint_bin [OF t1(2)])
  obtain t3 where t3: "rotate d t2 pa = Inr t3" "rep s sn par out t3 (plug q (bin d (bin d x pa pk True wl) wa wk False wr))"
    by (rule rep_rotate_bin [OF t2(2)])
  then have r3: "rep s sn par out t3 (plug (Frame d wa wk False wr # q) (bin d x pa pk True wl))" by simp
  have "delete_step d t (addr s x) = delete_black d t3 (addr s x) (addr s wl)"
    using rep_sibling [OF r b] rep_sibling_red [OF r] t1(1) rep_parent [OF t1(2) b] t2(1) t3(1) rep_sibling [OF r3 b]
    by (simp add: delete_step_def)
  with r3 show ?thesis by blast
qed

lemma delete_step_ok:
  assumes r: "rep s sn par out t (plug (Frame d pa pk c w # q) x)" and sh: "short (Frame d pa pk c w # q) x"
    and b: "leads_back sn pa x" and bl: "\<not> redp x"
  shows "\<exists>t' q' y. delete_step d t (addr s x) = Inr (t', addr s y) \<and> rep s sn par out t' (plug q' y) \<and> short q' y
    \<and> nodes (plug q' y) = nodes (plug (Frame d pa pk c w # q) x) \<and> y \<noteq> Tip \<and> (length q' \<le> length q \<or> redp y)"
proof -
  have rt: "rep s sn par out t (plug q (bin d x pa pk c w))" using r by simp
  have x: "invc x" "invh x" "\<not> redp x" using sh bl by (simp_all add: short_def repaint_black)
  have w: "invc w" "invh w" "bh w = Suc (bh x)" "c \<longrightarrow> \<not> redp w" "pathc q c" "pathh q (Suc (bh x + (if c then 0 else 1)))"
    "\<not> redp (plug q (bin d x pa pk c w))"
    using sh by (auto simp: short_def)
  show ?thesis
  proof (cases "redp w")
    case False
    then show ?thesis using delete_black_short [OF rt b False w(1-3) x w(5,6)] w(7) delete_step_black [OF rt b False] by fastforce
  next
    case True
    then have "w \<noteq> Tip" "\<not> c" using w(4) by auto
    then obtain wl wa wk wr where wb: "w = bin d wl wa wk True wr" using not_Tip [of w d] True by (metis bin_simps(1))
    let ?q = "Frame d wa wk False wr # q"
    have h: "\<not> redp wl" "invc wl" "invh wl" "bh wl = Suc (bh x)" "invc wr" "invh wr" "bh wr = Suc (bh x)"
      using w(1-3) wb by (simp_all add: bh_bin)
    have "rep s sn par out t (plug q (bin d x pa pk False (bin d wl wa wk True wr)))" using rt wb \<open>\<not> c\<close> by simp
    then obtain t1 where t1: "delete_step d t (addr s x) = delete_black d t1 (addr s x) (addr s wl)"
      "rep s sn par out t1 (plug ?q (bin d x pa pk True wl))" using delete_step_red b by blast
    have "pathc ?q True" "pathh ?q (Suc (bh x + (if True then 0 else 1)))" using h w(5,6) \<open>\<not> c\<close> by simp_all
    moreover have "\<not> redp (plug ?q (bin d x pa pk True wl))"
      using w(7) redp_plug [of q "bin d x pa pk c w" "bin d (bin d x pa pk True wl) wa wk False wr"] by (cases q) auto
    ultimately obtain t' q' y where y: "delete_black d t1 (addr s x) (addr s wl) = Inr (t', addr s y)" "rep s sn par out t' (plug q' y)" "short q' y"
      "nodes (plug q' y) = nodes (plug ?q (bin d x pa pk True wl))" "y \<noteq> Tip" "q' = ?q \<and> redp y = True \<or> q' = []"
      using delete_black_short [OF t1(2) b h(1-4) x] by blast
    have "nodes (plug ?q (bin d x pa pk True wl)) = nodes (plug (Frame d pa pk c w # q) x)"
      using wb by (cases d) (simp_all add: nodes_plug)
    with y t1(1) show ?thesis by (intro exI [of _ t'] exI [of _ q'] exI [of _ y]) auto
  qed
qed

lemma rep_blacken:
  assumes r: "rep s sn par out t (plug q x)"
  shows "\<exists>t'. paint t (addr s x) False = Inr t' \<and> rep s sn par out t' (plug q (repaint False x))"
proof (cases x)
  case Tip
  moreover have "sn\<lparr>rb_red := False\<rparr> = sn" "rb_mem t s = Some sn" using r by (auto simp: rep_def)
  moreover from this have "(rb_mem t)(s \<mapsto> sn) = rb_mem t" by auto
  ultimately show ?thesis using r by (intro exI [of _ t]) simp
next
  case (Bin l a k c y)
  then show ?thesis using rep_paint [of s sn par out t q l a k c y False] r by simp
qed

lemma delete_fix_exit:
  assumes r: "rep s sn par out t (plug q x)" and sh: "short q x" and e: "q = [] \<or> redp x"
  shows "\<exists>t' tr. delete_fix (Suc fuel) t (addr s x) = Inr t' \<and> rep s sn par out t' tr \<and> rb_ok tr \<and> nodes tr = nodes (plug q x)"
proof -
  have ok: "rb_ok (plug q (repaint False x))" "nodes (plug q (repaint False x)) = nodes (plug q x)"
    using sh e redp_plug [of q x "repaint False x"]
    by (auto simp: short_def rb_ok_def invc_plug invh_plug bh_repaint invh_repaint nodes_plug)
  have "delete_fix (Suc fuel) t (addr s x) = paint t (addr s x) False"
    using r e rep_redp [OF r] by (auto simp: rep_def)
  moreover note rep_blacken [OF r]
  ultimately show ?thesis using ok by metis
qed

lemma delete_fix_turn:
  assumes r: "rep s sn par out t (plug (Frame d pa pk c w # q) x)" and b: "leads_back sn pa x" and bl: "\<not> redp x" and w: "w \<noteq> Tip"
    and st: "delete_step d t (addr s x) = Inr (t', temp)"
  shows "delete_fix (Suc fuel) t (addr s x) = delete_fix fuel t' temp"
proof -
  have rt: "rep s sn par out t (plug q (bin d x pa pk c w))" "rep s sn par out t (plug q (bin (opp d) w pa pk c x))" using r by simp_all
  have "addr s x \<noteq> rb_root t"
  proof (cases x)
    case Tip
    have "plug q (bin d x pa pk c w) \<noteq> Tip" by (rule plug_not_Tip) simp
    then have "addr s (plug q (bin d x pa pk c w)) \<in> set (addrs (plug q (bin d x pa pk c w)))"
      by (cases "plug q (bin d x pa pk c w)") auto
    moreover have "rb_root t = addr s (plug q (bin d x pa pk c w))" "s \<notin> set (addrs (plug q (bin d x pa pk c w)))"
      using rt(1) unfolding rep_def by blast+
    ultimately show ?thesis using Tip by (metis addr.simps(1))
  next
    case (Bin l a k cc y)
    then show ?thesis using rep_focus(6) [of s sn par out t "Frame d pa pk c w # q" l a k cc y] r by simp
  qed
  moreover have "\<exists>n. rb_load t pa = Inr n \<and> (if addr s x = rb_left n then ToLeft else ToRight) = d"
    using rep_bin(1) [OF rt(1)] rep_sides [OF rt(2) w] by (cases d) simp_all
  ultimately show ?thesis using rep_redp [OF r] rep_parent [OF rt(1) b] bl st by auto
qed

lemma delete_fix_ok:
  "rep s sn par out t (plug q x) \<Longrightarrow> short q x \<Longrightarrow> leads_back sn (up par q) x \<Longrightarrow> length q < fuel
     \<Longrightarrow> \<exists>t' tr. delete_fix fuel t (addr s x) = Inr t' \<and> rep s sn par out t' tr \<and> rb_ok tr \<and> nodes tr = nodes (plug q x)"
proof (induction fuel arbitrary: t q x)
  case (Suc fuel)
  show ?case
  proof (cases "q = [] \<or> redp x")
    case True
    then show ?thesis by (rule delete_fix_exit [OF Suc.prems(1,2)])
  next
    case False
    then obtain d pa pk c w p where q: "q = Frame d pa pk c w # p" by (cases q; cases "hd q") auto
    have r: "rep s sn par out t (plug (Frame d pa pk c w # p) x)" "short (Frame d pa pk c w # p) x" "leads_back sn pa x" "\<not> redp x"
      using Suc.prems False q by auto
    from delete_step_ok [OF r] obtain t1 p1 y where s: "delete_step d t (addr s x) = Inr (t1, addr s y)" "rep s sn par out t1 (plug p1 y)"
      "short p1 y" "nodes (plug p1 y) = nodes (plug (Frame d pa pk c w # p) x)" "y \<noteq> Tip" "length p1 \<le> length p \<or> redp y" by blast
    have "w \<noteq> Tip" using r(2) by (auto simp: short_def)
    from delete_fix_turn [OF r(1,3,4) this s(1)] have f: "delete_fix (Suc fuel) t (addr s x) = delete_fix fuel t1 (addr s y)" .
    have "\<exists>t' tr. delete_fix fuel t1 (addr s y) = Inr t' \<and> rep s sn par out t' tr \<and> rb_ok tr \<and> nodes tr = nodes (plug p1 y)"
    proof (cases "redp y")
      case True
      obtain f where "fuel = Suc f" using Suc.prems(4) q by (cases fuel) auto
      then show ?thesis using delete_fix_exit [OF s(2,3), of f] True by blast
    next
      case False
      then have "length p1 < fuel" using s(6) Suc.prems(4) q by simp
      then show ?thesis using Suc.IH [OF s(2,3)] s(5) by (simp add: leads_back_def)
    qed
    then show ?thesis using f s(4) q by simp
  qed
qed simp

section \<open>Taking the node out\<close>

text \<open>The child of the node that is taken out gets a new parent; the sentinel does, too, where there is no child.\<close>

lemma set_parent_any:
  assumes "holds (rb_mem t) s q x" and "rb_mem t s = Some sn" and "s \<notin> fst ` set (nodes x)" and "distinct (addrs x)"
  shows "\<exists>m sn'. set_parent t (addr s x) b = Inr (t\<lparr>rb_mem := m\<rparr>) \<and> holds m s b x \<and> m s = Some sn' \<and> rb_red sn' = rb_red sn
     \<and> leads_back sn' b x \<and> (\<forall>r. r \<notin> fst ` set (nodes x) \<longrightarrow> r \<noteq> s \<longrightarrow> m r = rb_mem t r)"
proof (cases x)
  case Tip
  then show ?thesis using assms
    by (intro exI [of _ "(rb_mem t)(s \<mapsto> sn\<lparr>rb_parent := b\<rparr>)"] exI [of _ "sn\<lparr>rb_parent := b\<rparr>"]) (simp add: leads_back_def)
next
  case (Bin l a k c r)
  let ?m = "(rb_mem t)(a \<mapsto> \<lparr>rb_key = k, rb_left = addr s l, rb_right = addr s r, rb_parent = b, rb_red = c\<rparr>)"
  show ?thesis using assms Bin by (intro exI [of _ ?m] exI [of _ sn]) (auto simp: leads_back_def)
qed

lemma splice:
  assumes r: "rep s sn par out t (plug p (bin d x a k c Tip))" and p: "p \<noteq> []"
  shows "\<exists>t1 m sn'. relink ToLeft t a (addr s x) = Inr t1 \<and> parent t1 a = Inr (up par p)
     \<and> set_parent t1 (addr s x) b = Inr (t\<lparr>rb_mem := m\<rparr>) \<and> holds_path m s par p (addr s x) \<and> holds m s b x
     \<and> m s = Some sn' \<and> \<not> rb_red sn' \<and> leads_back sn' b x
     \<and> (\<forall>r. r \<notin> frame_addrs p \<longrightarrow> r \<notin> fst ` set (nodes x) \<longrightarrow> r \<noteq> s \<longrightarrow> m r = rb_mem t r)"
proof -
  let ?tr = "bin d x a k c Tip"
  have d: "distinct (addrs (plug p ?tr))" "s \<notin> set (addrs (plug p ?tr))" and sn: "rb_mem t s = Some sn" "\<not> rb_red sn"
    and h: "holds_path (rb_mem t) s par p a" "holds (rb_mem t) s a x"
    "rb_mem t a = Some (node_at d k (addr s x) s (up par p) c)"
    using r by (simp_all add: rep_def holds_plug)
  have d1: "distinct (addrs ?tr)" "set (addrs ?tr) \<inter> frame_addrs p = {}" "s \<notin> frame_addrs p" "s \<notin> set (addrs ?tr)"
    using distinct_plug [OF d(1)] d(2) unfolding set_addrs_plug by simp_all
  then have n: "a \<notin> frame_addrs p" "a \<noteq> s" "s \<notin> fst ` set (nodes x)" "distinct (addrs x)" "a \<notin> fst ` set (nodes x)"
    "fst ` set (nodes x) \<inter> frame_addrs p = {}"
    by (auto simp: distinct_bin)
  from relink_path [OF h(1,3) _ p d(1) n(1,2), of ToLeft "addr s x"]
  obtain m1 where m1: "relink ToLeft t a (addr s x) = Inr (t\<lparr>rb_mem := m1\<rparr>)" "holds_path m1 s par p (addr s x)"
    "\<forall>q. q \<notin> frame_addrs p \<longrightarrow> m1 q = rb_mem t q" by auto
  have off: "m1 q = rb_mem t q" if "q \<in> set (addrs x)" for q using m1(3) that n(6) by auto
  have "holds m1 s a x" using h(2) holds_cong [of x m1 "rb_mem t", OF off] by simp
  then obtain m sn' where m: "set_parent (t\<lparr>rb_mem := m1\<rparr>) (addr s x) b = Inr (t\<lparr>rb_mem := m1\<rparr>\<lparr>rb_mem := m\<rparr>)" "holds m s b x" "m s = Some sn'"
    "rb_red sn' = rb_red sn" "leads_back sn' b x" "\<forall>r. r \<notin> fst ` set (nodes x) \<longrightarrow> r \<noteq> s \<longrightarrow> m r = m1 r"
    using set_parent_any [of "t\<lparr>rb_mem := m1\<rparr>" s a x sn b] m1(3) d1(3) sn(1) n(3,4) by auto
  have off2: "m q = m1 q" if "q \<in> frame_addrs p" for q using m(6) that n(6) d1(3) by auto
  have "holds_path m s par p (addr s x)" using m1(2) holds_path_cong [of p m m1, OF off2] by simp
  moreover have "parent (t\<lparr>rb_mem := m1\<rparr>) a = Inr (up par p)" using m1(3) n(1) h(3) by simp
  ultimately show ?thesis using m1 m sn(2)
    by (intro exI [of _ "t\<lparr>rb_mem := m1\<rparr>"] exI [of _ m] exI [of _ sn']) simp
qed

lemma restrict_freed:
  assumes "a \<notin> D" "a \<noteq> s" "\<And>q. q \<notin> D \<Longrightarrow> q \<noteq> s \<Longrightarrow> m' q = m q"
  shows "m' |` (- insert s D) = (m |` (- insert s (insert a D)))(a := m a)"
  using assms by (auto simp: restrict_map_def fun_eq_iff)

lemma addrs_without:
  assumes "rep s sn par out t (plug p (bin d x a k c Tip))"
  shows "set (addrs (plug p (bin d x a k c Tip))) = insert a (set (addrs (plug p x)))" "a \<notin> set (addrs (plug p x))" "a \<noteq> s"
    "distinct (addrs (plug p x))" "s \<notin> set (addrs (plug p x))" "rb_mem t |` (- insert s (insert a (set (addrs (plug p x))))) = out"
proof -
  let ?tr = "bin d x a k c Tip"
  have d: "distinct (addrs (plug p ?tr))" "s \<notin> set (addrs (plug p ?tr))" and o: "rb_mem t |` (- insert s (set (addrs (plug p ?tr)))) = out"
    using assms by (simp_all add: rep_def)
  show e: "set (addrs (plug p ?tr)) = insert a (set (addrs (plug p x)))" unfolding set_addrs_plug by auto
  then show "rb_mem t |` (- insert s (insert a (set (addrs (plug p x))))) = out" using o by simp
  show "a \<noteq> s" "s \<notin> set (addrs (plug p x))" using e d(2) by auto
  have "a \<notin> set (addrs (plug p x)) \<and> distinct (addrs (plug p x))"
    using d(1) by (cases d) (auto simp: nodes_plug)
  then show "a \<notin> set (addrs (plug p x))" "distinct (addrs (plug p x))" by simp_all
qed

lemma unlink_rep:
  assumes r: "rep s sn par out t (plug p (bin d x a k c Tip))" and p: "p \<noteq> []"
    and m: "holds_path m s par p (addr s x)" "holds m s (up par p) x" "m s = Some sn'" "\<not> rb_red sn'"
      "\<And>q. q \<notin> set (addrs (plug p x)) \<Longrightarrow> q \<noteq> s \<Longrightarrow> m q = rb_mem t q"
  shows "rep s sn' par (out(a := rb_mem t a)) (t\<lparr>rb_mem := m\<rparr>) (plug p x)"
proof -
  note w = addrs_without [OF r]
  have "rb_root t = addr s (plug p x)" using r p addr_plug [of s x "bin d x a k c Tip" p] by (simp add: rep_def)
  moreover have "m |` (- insert s (set (addrs (plug p x)))) = out(a := rb_mem t a)"
    unfolding w(6) [symmetric] by (rule restrict_freed [OF w(2,3) m(5)])
  ultimately show ?thesis using r w(4,5) m(1-4) by (simp add: rep_def holds_plug)
qed

lemma rep_wipe:
  assumes "rep s sn par out t tr" and "out a = Some n"
  shows "\<exists>t'. wipe t a = Inr t' \<and> rep s sn par (out(a \<mapsto> n\<lparr>rb_left := 0, rb_right := 0, rb_parent := 0, rb_key := 0\<rparr>)) t' tr"
proof -
  let ?n = "n\<lparr>rb_left := 0, rb_right := 0, rb_parent := 0, rb_key := 0\<rparr>"
  note f = rep_free [OF assms]
  have "wipe t a = Inr (t\<lparr>rb_mem := (rb_mem t)(a \<mapsto> ?n)\<rparr>)" using f(1) by (simp add: wipe_def)
  moreover have "rep s sn par (out(a \<mapsto> ?n)) (t\<lparr>rb_mem := (rb_mem t)(a \<mapsto> ?n)\<rparr>) tr"
  proof -
    have o: "rb_mem t |` (- insert s (set (addrs tr))) = out" using assms(1) by (simp add: rep_def)
    have "(rb_mem t)(a \<mapsto> ?n) |` (- insert s (set (addrs tr))) = out(a \<mapsto> ?n)"
      unfolding o [symmetric] using f(2,3) by (auto simp: restrict_map_def fun_eq_iff)
    then show ?thesis using assms(1) f(2,3) by (simp add: rep_def)
  qed
  ultimately show ?thesis by blast
qed

lemma take_place_rep:
  fixes t
  defines "m \<equiv> rb_mem t"
  assumes rt: "rb_sentinel t = s" "rb_root t = addr s (plug p (Bin l a k c r))"
    and ma: "m a = Some \<lparr>rb_key = k, rb_left = addr s l, rb_right = addr s r, rb_parent = up par p, rb_red = c\<rparr>"
    and sub: "holds m s a l" "holds m s q0 r" "holds_path m s par p a"
    and s: "m s = Some sn" "\<not> rb_red sn"
    and d: "distinct (addrs (plug p (Bin l a k c r)))" "s \<notin> set (addrs (plug p (Bin l a k c r)))"
    and b: "m b = Some nb" "rb_key nb = kb" "b \<notin> set (addrs (plug p (Bin l a k c r)))" "b \<noteq> s"
  shows "\<exists>t'. take_place t a b = Inr t'
    \<and> rep s sn par (m |` (- insert s (set (addrs (plug p (Bin l b kb c r)))))) t' (plug p (Bin l b kb c r))"
proof -
  let ?old = "Bin l a k c r" and ?new = "Bin l b kb c r"
  let ?nb = "\<lparr>rb_key = kb, rb_left = addr s l, rb_right = addr s r, rb_parent = up par p, rb_red = c\<rparr>"
  have d1: "distinct (addrs l)" "distinct (addrs r)" "a \<notin> frame_addrs p" "a \<noteq> s" "s \<notin> fst ` set (nodes l)" "s \<notin> fst ` set (nodes r)"
      "s \<notin> frame_addrs p" "b \<noteq> a" "b \<notin> frame_addrs p" "b \<notin> fst ` set (nodes l)" "b \<notin> fst ` set (nodes r)"
    and d2: "fst ` set (nodes l) \<inter> fst ` set (nodes r) = {}" "fst ` set (nodes l) \<inter> frame_addrs p = {}"
      "fst ` set (nodes r) \<inter> frame_addrs p = {}"
    using distinct_plug [OF d(1)] d(2) b(3) unfolding set_addrs_plug by (auto simp: image_Un)
  define t1 where "t1 = t\<lparr>rb_mem := m(b \<mapsto> ?nb)\<rparr>"
  have st1: "rb_store t b (\<lambda>m. m\<lparr>rb_left := addr s l, rb_right := addr s r, rb_parent := up par p, rb_red := c\<rparr>) = Inr t1"
    using b(1,2) by (cases nb) (simp add: t1_def m_def)
  have "holds_path (rb_mem t1) s par p a" "rb_mem t1 a = Some \<lparr>rb_key = k, rb_left = addr s l, rb_right = addr s r, rb_parent = up par p, rb_red = c\<rparr>"
    "rb_root t1 = addr s (plug p ?old)" using sub(3) ma rt(2) d1(8,9) by (simp_all add: t1_def)
  from replace_child_path [OF this(1,2) _ d(1) d1(3,4) this(3), of ?new b ToLeft]
  obtain m2 where m2: "replace_child ToLeft t1 a b = Inr (t1\<lparr>rb_root := addr s (plug p ?new), rb_mem := m2\<rparr>)"
    "holds_path m2 s par p b" "\<forall>q. q \<notin> frame_addrs p \<longrightarrow> m2 q = rb_mem t1 q" by auto
  define t2 where "t2 = t1\<lparr>rb_root := addr s (plug p ?new), rb_mem := m2\<rparr>"
  have off_p: "q \<notin> frame_addrs p" "q \<noteq> b" if "q \<in> set (addrs l) \<or> q \<in> set (addrs r)" for q
    using that d1(10,11) d2(2,3) by auto
  have m2_l: "m2 q = m q" if "q \<in> set (addrs l)" for q using m2(3) off_p [of q] that by (simp add: t1_def)
  have m2_r: "m2 q = m q" if "q \<in> set (addrs r)" for q using m2(3) off_p [of q] that by (simp add: t1_def)
  have "holds (rb_mem t2) s a l" using sub(1) holds_cong [of l m2 m, OF m2_l] by (simp add: t2_def)
  from adopt [OF this d1(5,1), of b] obtain m3 where m3: "(if addr s l \<noteq> s then set_parent t2 (addr s l) b else Inr t2) = Inr (t2\<lparr>rb_mem := m3\<rparr>)"
    "holds m3 s b l" "\<forall>q. q \<notin> fst ` set (nodes l) \<longrightarrow> m3 q = m2 q" by (auto simp: t2_def)
  define t3 where "t3 = t2\<lparr>rb_mem := m3\<rparr>"
  have m3_r: "m3 q = m q" if "q \<in> set (addrs r)" for q
  proof -
    have "q \<notin> fst ` set (nodes l)" using that d2(1) by auto
    then show ?thesis using m3(3) m2_r [OF that] by simp
  qed
  have "holds (rb_mem t3) s q0 r" using sub(2) holds_cong [of r m3 m, OF m3_r] by (simp add: t3_def)
  from adopt [OF this d1(6,2), of b] obtain m4 where m4: "(if addr s r \<noteq> s then set_parent t3 (addr s r) b else Inr t3) = Inr (t3\<lparr>rb_mem := m4\<rparr>)"
    "holds m4 s b r" "\<forall>q. q \<notin> fst ` set (nodes r) \<longrightarrow> m4 q = m3 q" by (auto simp: t3_def)
  define t4 where "t4 = t3\<lparr>rb_mem := m4\<rparr>"
  have bs: "m2 b = Some ?nb" "m3 b = Some ?nb" "m4 b = Some ?nb" using m2(3) m3(3) m4(3) d1(9-11) by (simp_all add: t1_def)
  have "rb_load t a = Inr \<lparr>rb_key = k, rb_left = addr s l, rb_right = addr s r, rb_parent = up par p, rb_red = c\<rparr>"
    using ma by (simp add: m_def)
  moreover have "rb_load t2 b = Inr ?nb" "rb_load t3 b = Inr ?nb" "rb_sentinel t2 = s" "rb_sentinel t3 = s"
    using bs rt(1) by (simp_all add: t1_def t2_def t3_def)
  moreover note st1 m2(1) [folded t2_def] m3(1) [folded t3_def] m4(1) [folded t4_def]
  ultimately have "take_place t a b = Inr t4"
    by (simp only: take_place_def bindE_Inr rb_node.simps)
  moreover have "rep s sn par (m |` (- insert s (set (addrs (plug p ?new))))) t4 (plug p ?new)"
  proof -
    have m4_l: "m4 q = m3 q" if "q \<in> set (addrs l)" for q
    proof -
      have "q \<notin> fst ` set (nodes r)" using that d2(1) by auto
      then show ?thesis using m4(3) by simp
    qed
    have m4_p: "m4 q = m2 q" if "q \<in> frame_addrs p" for q
    proof -
      have "q \<notin> fst ` set (nodes l)" "q \<notin> fst ` set (nodes r)" using that d2(2,3) by auto
      then show ?thesis using m4(3) m3(3) by simp
    qed
    have "holds m4 s par (plug p ?new)"
      using m4(2) bs(3) holds_cong [of l m4 m3, OF m4_l] m3(2) holds_path_cong [of p m4 m2, OF m4_p] m2(2) by (simp add: holds_plug)
    moreover have "m4 s = Some sn" using m4(3) m3(3) m2(3) d1(5-7) b(4) s(1) by (simp add: t1_def)
    moreover have "distinct (addrs (plug p ?new))" "s \<notin> set (addrs (plug p ?new))"
      using d b(3,4) by (auto simp: nodes_plug)
    moreover have "m4 |` (- insert s (set (addrs (plug p ?new)))) = m |` (- insert s (set (addrs (plug p ?new))))"
    proof -
      have "m4 q = m q" if "q \<notin> set (addrs (plug p ?new))" for q
        using that m4(3) m3(3) m2(3) unfolding set_addrs_plug by (simp add: t1_def image_Un)
      then show ?thesis by (auto simp: restrict_map_def fun_eq_iff)
    qed
    ultimately show ?thesis using rt(1) s(2) unfolding rep_def by (simp add: t1_def t2_def t3_def t4_def)
  qed
  ultimately show ?thesis by blast
qed

section \<open>Deletion\<close>

abbreviation wiped :: "rb_node \<Rightarrow> rb_node" where
  "wiped n \<equiv> n\<lparr>rb_left := 0, rb_right := 0, rb_parent := 0, rb_key := 0\<rparr>"

lemma unlinked:
  assumes "rb_ok (plug p (bin d x a k c Tip))" and "p \<noteq> []"
  shows "if c then rb_ok (plug p x) else short p x"
proof -
  have i: "invc x" "invh x" "bh x = 0" "c \<longrightarrow> \<not> redp x" "pathc p c" "pathh p (if c then 0 else 1)"
    using assms(1) by (auto simp: rb_ok_def invc_plug invh_plug bh_bin)
  have rd: "\<not> redp (plug p x)" using assms redp_plug [of p x "bin d x a k c Tip"] by (auto simp: rb_ok_def)
  then show ?thesis using i by (auto simp: rb_ok_def short_def invc_plug invh_plug pathc_black invc_repaint)
qed

text \<open>The end of the function: the fields of the node are cleared and, if a black node is gone, the tree is repaired.\<close>

lemma delete_finish:
  assumes r: "rep s sn par out t (plug p x)" and n: "out a = Some n" and b: "leads_back sn (up par p) x"
    and c: "if c then rb_ok (plug p x) else short p x" and f: "length p < fuel"
  shows "\<exists>t' tr. bindE (wipe t a) (\<lambda>t. if c then Inr t else delete_fix fuel t (addr s x)) = Inr t'
    \<and> rep s sn par (out(a \<mapsto> wiped n)) t' tr \<and> rb_ok tr \<and> nodes tr = nodes (plug p x)"
proof -
  obtain t1 where t1: "wipe t a = Inr t1" "rep s sn par (out(a \<mapsto> wiped n)) t1 (plug p x)"
    using rep_wipe [OF r n] by blast
  show ?thesis
  proof (cases c)
    case True
    then show ?thesis using t1 c by auto
  next
    case False
    then show ?thesis using delete_fix_ok [OF t1(2) _ b f] c t1(1) by simp
  qed
qed

lemma delete_single_root:
  assumes r: "rep s sn par out t (bin d x a k c Tip)" and ok: "rb_ok (bin d x a k c Tip)" and pick: "delete_pick fuel t a = Inr (a, addr s x)"
  shows "\<exists>t' n. rbtree_delete fuel t a = Inr t' \<and> rep s sn a (out(a \<mapsto> wiped n)) t' (repaint False x) \<and> rb_ok (repaint False x)"
proof -
  have r0: "rep s sn par out t (plug [] (bin d x a k c Tip))" using r by simp
  note w = addrs_without [OF r0, unfolded plug.simps]
  obtain n where n: "rb_mem t a = Some n" using r by (simp add: rep_def)
  have "rep s sn a (out(a \<mapsto> n)) (t\<lparr>rb_root := addr s x\<rparr>) x"
  proof -
    have "rb_mem t |` (- insert s (set (addrs x))) = (rb_mem t |` (- insert s (insert a (set (addrs x)))))(a := rb_mem t a)"
      by (rule restrict_freed [OF w(2,3) refl])
    then show ?thesis using r w(4,5) unfolding w(6) n by (simp add: rep_def)
  qed
  then have "rep s sn a (out(a \<mapsto> n)) (t\<lparr>rb_root := addr s x\<rparr>) (plug [] x)" by simp
  from rep_blacken [OF this] obtain t1 where
    t1: "paint (t\<lparr>rb_root := addr s x\<rparr>) (addr s x) False = Inr t1" "rep s sn a (out(a \<mapsto> n)) t1 (repaint False x)" by auto
  from rep_wipe [OF this(2), of a n] obtain t2 where t2: "wipe t1 a = Inr t2" "rep s sn a (out(a \<mapsto> wiped n)) t2 (repaint False x)" by auto
  have "rb_root t = a" using r by (simp add: rep_def)
  then have "rbtree_delete fuel t a = Inr t2" using pick t1(1) t2(1) by (simp add: rbtree_delete_def)
  moreover have "rb_ok (repaint False x)" using ok by (intro rb_ok_repaint) (simp_all add: rb_ok_def)
  ultimately show ?thesis using t2(2) by blast
qed

lemma delete_single:
  assumes r: "rep s sn par out t (plug p (bin d x a k c Tip))" and ok: "rb_ok (plug p (bin d x a k c Tip))" and p: "p \<noteq> []"
    and pick: "delete_pick fuel t a = Inr (a, addr s x)" and f: "length p < fuel"
  shows "\<exists>t' sn' tr n. rbtree_delete fuel t a = Inr t' \<and> rep s sn' par (out(a \<mapsto> wiped n)) t' tr \<and> rb_ok tr
    \<and> nodes tr = nodes (plug p x)"
proof -
  obtain n where n: "rb_mem t a = Some n" using r by (simp add: rep_def holds_plug)
  obtain t1 m sn' where m: "relink ToLeft t a (addr s x) = Inr t1" "parent t1 a = Inr (up par p)"
    "set_parent t1 (addr s x) (up par p) = Inr (t\<lparr>rb_mem := m\<rparr>)" "holds_path m s par p (addr s x)" "holds m s (up par p) x"
    "m s = Some sn'" "\<not> rb_red sn'" "leads_back sn' (up par p) x"
    "\<forall>q. q \<notin> frame_addrs p \<longrightarrow> q \<notin> fst ` set (nodes x) \<longrightarrow> q \<noteq> s \<longrightarrow> m q = rb_mem t q"
    using splice [OF r p, of "up par p"] by blast
  have "m q = rb_mem t q" if "q \<notin> set (addrs (plug p x))" "q \<noteq> s" for q
    using that m(9) unfolding set_addrs_plug by simp
  from unlink_rep [OF r p m(4-7) this] n have "rep s sn' par (out(a \<mapsto> n)) (t\<lparr>rb_mem := m\<rparr>) (plug p x)" by simp
  from delete_finish [OF this _ m(8) unlinked [OF ok p] f, of a n]
  obtain t' tr where "bindE (wipe (t\<lparr>rb_mem := m\<rparr>) a) (\<lambda>t. if c then Inr t else delete_fix fuel t (addr s x)) = Inr t'"
    "rep s sn' par (out(a \<mapsto> wiped n)) t' tr" "rb_ok tr" "nodes tr = nodes (plug p x)" by auto
  moreover have "rb_root t \<noteq> a" "is_red t a = Inr c" using rep_bin [OF r] p by simp_all
  ultimately have "rbtree_delete fuel t a = Inr t'" using pick m(1-3) by (simp add: rbtree_delete_def)
  then show ?thesis using \<open>rep s sn' par (out(a \<mapsto> wiped n)) t' tr\<close> \<open>rb_ok tr\<close> \<open>nodes tr = nodes (plug p x)\<close> by blast
qed

lemma restrict_changed:
  assumes "a \<notin> D" "a \<noteq> s" "\<And>q. q \<notin> D \<Longrightarrow> q \<noteq> s \<Longrightarrow> q \<noteq> a \<Longrightarrow> m' q = m q"
  shows "m' |` (- insert s D) = (m |` (- insert s (insert a D)))(a := m' a)"
  using assms by (auto simp: restrict_map_def fun_eq_iff)

lemma holds_path_append:
  "holds_path m s par (q @ p) (addr s x) \<longleftrightarrow> holds_path m s (up par p) q (addr s x) \<and> holds_path m s par p (addr s (plug q x))"
proof (induction q arbitrary: x)
  case (Cons f q)
  obtain d a k c u where f: "f = Frame d a k c u" by (cases f)
  have "up par (q @ p) = up (up par p) q" by (cases q; cases "hd q") auto
  then show ?case using Cons.IH [of "bin d x a k c u"] f by auto
qed simp

lemma up_append: "up par (q @ p) = up (up par p) q"
  by (cases q; cases "hd q") auto

text \<open>The colours of a path do not depend on its addresses and keys.\<close>

lemma path_renamed:
  "pathc (q @ Frame d a k c u # p) c0 = pathc (q @ Frame d b l c u # p) c0"
  "pathh (q @ Frame d a k c u # p) n = pathh (q @ Frame d b l c u # p) n"
proof (induction q arbitrary: c0 n)
  case (Cons f q)
  { case 1 with Cons(1) show ?case by (cases f) simp }
  { case 2 with Cons(2) show ?case by (cases f) simp }
qed simp_all

lemma redp_renamed: "redp (plug (q @ Frame d a k c u # p) x) = redp (plug (q @ Frame d b l c u # p) x)"
  using redp_plug [of p "bin d (plug q x) a k c u" "bin d (plug q x) b l c u"] by (auto simp: plug_append)

lemma unlinked_renamed:
  "(if e then rb_ok (plug (q @ Frame d a k c u # p) x) else short (q @ Frame d a k c u # p) x)
   = (if e then rb_ok (plug (q @ Frame d b l c u # p) x) else short (q @ Frame d b l c u # p) x)"
  using path_renamed [of q d a k c u p _ b l] redp_renamed [of q d a k c u p x b l]
  by (simp add: rb_ok_def short_def invc_plug invh_plug)

lemma rbtree_min_ok:
  "rep s sn par out t (plug p x) \<Longrightarrow> x \<noteq> Tip \<Longrightarrow> height x \<le> fuel
    \<Longrightarrow> \<exists>q b k c r. rbtree_min fuel t (addr s x) = Inr b \<and> x = plug q (Bin Tip b k c r) \<and> side_nodes ToLeft q = []"
proof (induction fuel arbitrary: p x)
  case 0
  then show ?case by (cases x) auto
next
  case (Suc fuel)
  obtain l a k c r where x: "x = Bin l a k c r" using Suc.prems(2) by (cases x) auto
  have rx: "rep s sn par out t (plug p (bin ToLeft l a k c r))" using Suc.prems(1) x by simp
  show ?case
  proof (cases "l = Tip")
    case True
    then show ?thesis using rep_bin(1) [OF rx] rep_child [OF rx] x
      by (intro exI [of _ "[]"] exI [of _ a] exI [of _ k] exI [of _ c] exI [of _ r]) simp
  next
    case False
    have "rep s sn par out t (plug (Frame ToLeft a k c r # p) l)" using rx by simp
    from Suc.IH [OF this False] Suc.prems(3) x obtain q b k' c' r' where
      "rbtree_min fuel t (addr s l) = Inr b" "l = plug q (Bin Tip b k' c' r')" "side_nodes ToLeft q = []" by auto
    then show ?thesis using rep_bin(1) [OF rx] rep_child [OF rx] x False
      by (intro exI [of _ "q @ [Frame ToLeft a k c r]"] exI [of _ b] exI [of _ k'] exI [of _ c'] exI [of _ r'])
        (simp add: plug_append)
  qed
qed

lemma delete_pick_single:
  assumes "rep s sn par out t (plug p (bin d x a k c Tip))" and "d = ToLeft \<Longrightarrow> x \<noteq> Tip"
  shows "delete_pick fuel t a = Inr (a, addr s x)"
  using rep_bin(1) [OF assms(1)] rep_child [OF assms(1)] assms(2) by (cases d) (simp_all add: delete_pick_def)

lemma delete_pick_inner:
  assumes r: "rep s sn par out t (plug p (Bin l a k c x))" and ne: "l \<noteq> Tip" "x \<noteq> Tip" and f: "height x \<le> fuel"
  shows "\<exists>q b kb cb r. delete_pick fuel t a = Inr (b, addr s r) \<and> x = plug q (Bin Tip b kb cb r) \<and> side_nodes ToLeft q = []"
proof -
  have rl: "rep s sn par out t (plug p (bin ToLeft l a k c x))" and rr: "rep s sn par out t (plug p (bin ToRight x a k c l))"
    and rx: "rep s sn par out t (plug (Frame ToRight a k c l # p) x)" using r by simp_all
  obtain q b kb cb y where q: "rbtree_min fuel t (addr s x) = Inr b" "x = plug q (Bin Tip b kb cb y)" "side_nodes ToLeft q = []"
    using rbtree_min_ok [OF rx ne(2) f] by blast
  have rb: "rep s sn par out t (plug (q @ Frame ToRight a k c l # p) (bin ToLeft Tip b kb cb y))" using rx q(2) by (simp add: plug_append)
  have "delete_pick fuel t a = Inr (b, addr s y)"
    using rep_bin(1) [OF rl] rep_child [OF rl] rep_child [OF rr] ne q(1) rep_bin(1) [OF rb] by (simp add: delete_pick_def)
  with q show ?thesis by blast
qed

text \<open>A node with two children: \<open>b\<close>, the next in the order, is taken out and put in its place.\<close>

lemma swap_in:
  assumes r: "rep s sn par out t (plug (q @ Frame ToRight a k c l # p) (Bin Tip b kb cb y))"
  shows "\<exists>t1 t2 t3 sn' n. relink ToLeft t b (addr s y) = Inr t1 \<and> parent t1 b = Inr (up a q)
    \<and> set_parent t1 (addr s y) (if up a q = a then b else up a q) = Inr t2 \<and> take_place t2 a b = Inr t3
    \<and> rep s sn' par (out(a \<mapsto> n)) t3 (plug (q @ Frame ToRight b kb c l # p) y)
    \<and> leads_back sn' (up b q) y \<and> a \<noteq> b"
proof -
  let ?P = "q @ Frame ToRight a k c l # p" and ?x = "plug q y"
  let ?B = "if up a q = a then b else up a q"
  have rb: "rep s sn par out t (plug ?P (bin ToRight y b kb cb Tip))" using r by simp
  note w = addrs_without [OF rb]
  have tr: "plug ?P y = plug p (Bin l a k c ?x)" by (simp add: plug_append)
  have da: "distinct (addrs (Bin l a k c ?x))" "b \<notin> set (addrs (Bin l a k c ?x))" "set (addrs (Bin l a k c ?x)) \<inter> frame_addrs p = {}"
    using w(2,4) distinct_plug [of p "Bin l a k c ?x"] unfolding tr set_addrs_plug by auto
  have up: "up a q = a \<longleftrightarrow> q = []"
  proof (cases q)
    case (Cons f q')
    then have "up a q \<in> set (addrs ?x)" unfolding set_addrs_plug by (cases f) auto
    moreover have "a \<notin> set (addrs ?x)" using da(1) by simp
    ultimately have "up a q \<noteq> a" by metis
    then show ?thesis using Cons by simp
  qed simp
  obtain nb where nb: "rb_mem t b = Some nb" "rb_key nb = kb" using r by (simp add: rep_def holds_plug)
  obtain t1 m sn' where m: "relink ToLeft t b (addr s y) = Inr t1" "parent t1 b = Inr (up par ?P)"
    "set_parent t1 (addr s y) ?B = Inr (t\<lparr>rb_mem := m\<rparr>)" "holds_path m s par ?P (addr s y)" "holds m s ?B y"
    "m s = Some sn'" "\<not> rb_red sn'" "leads_back sn' ?B y"
    "\<forall>r. r \<notin> frame_addrs ?P \<longrightarrow> r \<notin> fst ` set (nodes y) \<longrightarrow> r \<noteq> s \<longrightarrow> m r = rb_mem t r"
    using splice [OF rb, of ?B] by blast
  have off: "m v = rb_mem t v" if "v \<notin> set (addrs (plug ?P y))" "v \<noteq> s" for v
    using that m(9) unfolding set_addrs_plug by simp
  let ?t2 = "t\<lparr>rb_mem := m\<rparr>"
  have ma: "m a = Some \<lparr>rb_key = k, rb_left = addr s l, rb_right = addr s ?x, rb_parent = up par p, rb_red = c\<rparr>"
    "holds m s a l" "holds_path m s par p a" "holds_path m s a q (addr s y)"
    using m(4) unfolding holds_path_append by simp_all
  have hx: "\<exists>q0. holds m s q0 ?x"
  proof (cases "q = []")
    case False
    then have "holds m s a ?x" using m(5) ma(4) up by (simp add: holds_plug)
    then show ?thesis ..
  qed (use m(5) in auto)
  then obtain q0 where hx: "holds m s q0 ?x" ..
  have rt: "rb_sentinel t = s" "rb_root t = addr s (plug p (Bin l a k c ?x))"
    using rb addr_plug [of s y "bin ToRight y b kb cb Tip" ?P] unfolding tr [symmetric] by (simp_all add: rep_def)
  have mb: "m b = Some nb" using off [OF w(2,3)] nb(1) by simp
  have "\<exists>t'. take_place ?t2 a b = Inr t'
    \<and> rep s sn' par (m |` (- insert s (set (addrs (plug p (Bin l b kb c ?x)))))) t' (plug p (Bin l b kb c ?x))"
    using take_place_rep [where t = ?t2 and s = s and a = a and b = b and l = l and r = ?x and p = p and k = k and c = c and par = par
      and kb = kb and nb = nb and ?q0.0 = q0 and sn = sn'] rt ma(1-3) hx m(6,7) w(2-5) mb nb(2) unfolding tr by simp
  then obtain t3 where t3: "take_place ?t2 a b = Inr t3"
    "rep s sn' par (m |` (- insert s (set (addrs (plug p (Bin l b kb c ?x)))))) t3 (plug p (Bin l b kb c ?x))" by blast
  let ?N = "set (addrs (plug p (Bin l b kb c ?x)))" and ?D = "set (addrs (plug p (Bin l a k c ?x)))"
  have ND: "insert b ?D = insert a ?N" "a \<notin> ?N" "a \<noteq> s" "a \<noteq> b" "?D \<subseteq> insert a ?N"
    using da w(5) unfolding tr set_addrs_plug by (auto simp: image_Un)
  have offN: "m v = rb_mem t v" if "v \<notin> ?N" "v \<noteq> s" "v \<noteq> a" for v
    using off [of v] that ND(5) unfolding tr by blast
  have "m |` (- insert s ?N) = (rb_mem t |` (- insert s (insert a ?N)))(a := m a)"
    by (rule restrict_changed [OF ND(2,3) offN])
  also have "rb_mem t |` (- insert s (insert a ?N)) = out" using w(6) unfolding tr ND(1) .
  finally have o: "m |` (- insert s ?N) = out(a := m a)" .
  have "plug (q @ Frame ToRight b kb c l # p) y = plug p (Bin l b kb c ?x)" by (simp add: plug_append)
  then have "rep s sn' par (out(a := m a)) t3 (plug (q @ Frame ToRight b kb c l # p) y)"
    using t3(2) unfolding o by (rule ssubst)
  moreover have "up par ?P = up a q" by (simp add: up_append)
  moreover have "leads_back sn' (up b q) y" using m(8) up by (cases q; cases "hd q") auto
  ultimately show ?thesis using m(1-3) t3(1) ma(1) ND(4)
    by (intro exI [of _ t1] exI [of _ ?t2] exI [of _ t3] exI [of _ sn'] exI [of _ "the (m a)"]) simp
qed

lemma delete_inner:
  assumes r: "rep s sn par out t (plug (q @ Frame ToRight a k c l # p) (Bin Tip b kb cb y))"
    and ok: "rb_ok (plug (q @ Frame ToRight a k c l # p) (Bin Tip b kb cb y))"
    and pick: "delete_pick fuel t a = Inr (b, addr s y)" and f: "length (q @ Frame ToRight a k c l # p) < fuel"
  shows "\<exists>t' sn' tr n. rbtree_delete fuel t a = Inr t' \<and> rep s sn' par (out(a \<mapsto> wiped n)) t' tr \<and> rb_ok tr
    \<and> nodes tr = nodes (plug (q @ Frame ToRight b kb c l # p) y)"
proof -
  let ?P = "q @ Frame ToRight a k c l # p" and ?Q = "q @ Frame ToRight b kb c l # p"
  have b: "bin ToRight y b kb cb Tip = Bin Tip b kb cb y" by simp
  obtain t1 t2 t3 sn' n where s: "relink ToLeft t b (addr s y) = Inr t1" "parent t1 b = Inr (up a q)"
    "set_parent t1 (addr s y) (if up a q = a then b else up a q) = Inr t2" "take_place t2 a b = Inr t3"
    and t3: "rep s sn' par (out(a \<mapsto> n)) t3 (plug ?Q y)" "leads_back sn' (up b q) y" "a \<noteq> b"
    using swap_in [OF r] by blast
  have u: "if cb then rb_ok (plug ?Q y) else short ?Q y"
    using unlinked [of ?P ToRight y b kb cb] ok unlinked_renamed [of cb q ToRight a k c l p y b kb] by simp
  have "leads_back sn' (up par ?Q) y" using t3(2) by (simp add: up_append)
  moreover have "length ?Q < fuel" using f by simp
  ultimately obtain t' tr where t': "bindE (wipe t3 a) (\<lambda>t. if cb then Inr t else delete_fix fuel t (addr s y)) = Inr t'"
    "rep s sn' par (out(a \<mapsto> wiped n)) t' tr" "rb_ok tr" "nodes tr = nodes (plug ?Q y)"
    using delete_finish [OF t3(1) _ _ u, of a n fuel] by auto
  have "rep s sn par out t (plug ?P (bin ToRight y b kb cb Tip))" using r unfolding b .
  from rep_bin(3,4) [OF this] have "is_red t b = Inr cb" "rb_root t \<noteq> b" by simp_all
  then have "rbtree_delete fuel t a = Inr t'" using pick s t'(1) t3(3) by (simp add: rbtree_delete_def)
  with t' show ?thesis by blast
qed

lemma delete_focus:
  assumes r: "rep s sn par out t (plug p (Bin l a k c x))" and ok: "rb_ok (plug p (Bin l a k c x))"
    and f: "height (plug p (Bin l a k c x)) \<le> fuel"
  shows "\<exists>t' sn' par' tr n. rbtree_delete fuel t a = Inr t' \<and> rep s sn' par' (out(a \<mapsto> wiped n)) t' tr \<and> rb_ok tr
    \<and> nodes tr = side_nodes ToLeft p @ nodes l @ nodes x @ side_nodes ToRight p"
proof (cases "l = Tip \<or> x = Tip")
  case True
  then obtain d y where b: "Bin l a k c x = bin d y a k c Tip" and y: "d = ToLeft \<Longrightarrow> y \<noteq> Tip" "nodes y = nodes l @ nodes x"
  proof (cases "l = Tip")
    case True
    then show thesis using that [of ToRight x] by simp
  next
    case False
    then show thesis using that [of ToLeft l] \<open>l = Tip \<or> x = Tip\<close> by simp
  qed
  note rb = r [unfolded b] and okb = ok [unfolded b]
  have pick: "delete_pick fuel t a = Inr (a, addr s y)" using delete_pick_single [OF rb y(1)] .
  show ?thesis
  proof (cases "p = []")
    case True
    then show ?thesis using delete_single_root [of s sn par out t d y a k c fuel] rb okb pick y(2) by fastforce
  next
    case False
    have "length p < fuel" using length_path [of p "Bin l a k c x"] f by simp
    moreover have "nodes (plug p y) = side_nodes ToLeft p @ nodes l @ nodes x @ side_nodes ToRight p" using y(2) by (simp add: nodes_plug)
    ultimately show ?thesis using delete_single [OF rb okb False pick] by metis
  qed
next
  case False
  have "height x \<le> fuel" using length_path [of p "Bin l a k c x"] f by simp
  then obtain q b kb cb y where q: "delete_pick fuel t a = Inr (b, addr s y)" "x = plug q (Bin Tip b kb cb y)" "side_nodes ToLeft q = []"
    using delete_pick_inner [OF r] False by blast
  have e: "plug p (Bin l a k c x) = plug (q @ Frame ToRight a k c l # p) (Bin Tip b kb cb y)" using q(2) by (simp add: plug_append)
  have "length (q @ Frame ToRight a k c l # p) < fuel"
    using length_path [of "q @ Frame ToRight a k c l # p" "Bin Tip b kb cb y"] f unfolding e by simp
  moreover have "nodes (plug (q @ Frame ToRight b kb c l # p) y) = side_nodes ToLeft p @ nodes l @ nodes x @ side_nodes ToRight p"
    using q(2,3) by (simp add: nodes_plug)
  ultimately show ?thesis using delete_inner [OF r [unfolded e] ok [unfolded e] q(1)] by metis
qed

lemma locate:
  assumes "(a, k) \<in> set (nodes tr)"
  obtains p l c r where "tr = plug p (Bin l a k c r)"
  using assms
proof (induction tr arbitrary: thesis)
  case (Bin l b k' c r)
  then consider "a = b" "k = k'" | "(a, k) \<in> set (nodes l)" | "(a, k) \<in> set (nodes r)" by auto
  then show ?case
  proof cases
    case 1
    then show ?thesis using Bin.prems(1) [of "[]"] by simp
  next
    case 2
    then obtain p x c' y where "l = plug p (Bin x a k c' y)" using Bin.IH(1) by blast
    then show ?thesis using Bin.prems(1) [of "p @ [Frame ToLeft b k' c r]"] by (simp add: plug_append)
  next
    case 3
    then obtain p x c' y where "r = plug p (Bin x a k c' y)" using Bin.IH(2) by blast
    then show ?thesis using Bin.prems(1) [of "p @ [Frame ToRight b k' c l]"] by (simp add: plug_append)
  qed
qed simp

text \<open>
  C18.  Deleting a node of a red-black tree takes exactly this node out of the order, restores the
  red-black property, clears the fields of the node, and changes no other node outside the tree;
  its loops, too, take at most \<open>2 * m\<close> turns.
\<close>

theorem rbtree_delete_removes:
  assumes "rb_tree rank s out t (xs @ (a, k) # ys)" and "length xs + length ys + 2 < 2 ^ m"
  shows "\<exists>t' n. rbtree_delete (2 * m) t a = Inr t' \<and> rb_tree rank s (out(a \<mapsto> wiped n)) t' (xs @ ys)"
proof -
  obtain sn par tr where r: "rep s sn par out t tr" "rb_ok tr" "nodes tr = xs @ (a, k) # ys"
    and so: "sorted (map (rank \<circ> snd) (xs @ (a, k) # ys))" using assms(1) by (auto simp: rb_tree_def)
  obtain p l c x where tr: "tr = plug p (Bin l a k c x)" by (rule locate [of a k tr]) (use r(3) in auto)
  have d: "distinct (map fst (xs @ (a, k) # ys))" using r(1,3) by (simp add: rep_def)
  then have "(a, k) \<notin> set xs" "(a, k) \<notin> set ys" by force+
  moreover have "xs @ (a, k) # ys = (side_nodes ToLeft p @ nodes l) @ (a, k) # nodes x @ side_nodes ToRight p"
    using r(3) tr by (simp add: nodes_plug)
  ultimately have n: "xs = side_nodes ToLeft p @ nodes l" "ys = nodes x @ side_nodes ToRight p"
    using append_Cons_eq_iff [of "(a, k)" xs ys] by blast+
  have "height (plug p (Bin l a k c x)) \<le> 2 * m" using rb_ok_height [OF r(2), of m] assms(2) r(3) tr by simp
  from delete_focus [OF r(1) [unfolded tr] r(2) [unfolded tr] this] obtain t' sn' par' tr' n' where
    "rbtree_delete (2 * m) t a = Inr t'" "rep s sn' par' (out(a \<mapsto> wiped n')) t' tr'" "rb_ok tr'" "nodes tr' = xs @ ys"
    using n by auto
  moreover have "sorted (map (rank \<circ> snd) (xs @ ys))" using so by (auto simp: sorted_append)
  ultimately show ?thesis unfolding rb_tree_def by blast
qed

theorem rbtree_delete_removes_witness:
  "\<exists>t' n. rbtree_delete 4 (sample_rbtree 7 9) 16 = Inr t' \<and> rb_tree unat 8 [24 \<mapsto> sample_node 9, 16 \<mapsto> wiped n] t' []"
  using rbtree_delete_removes [of unat 8 "[24 \<mapsto> sample_node 9]" "sample_rbtree 7 9" "[]" 16 7 "[]" 2] sample_rb_tree by simp

end
