(* ===== verification/Spec2Isabelle.thy ===== *)
theory Spec2Isabelle
  imports Queue2_Monitor Dungeon_Faults Imp_Race Run_Order Maintainer Room_Dumb Room_Echo Room_Httpd Room_Init
    Room_Loading Hasht_Report Cas_Queue Log Conf Monitor Keeper Timespec Memvec Bitmap Rbtree_Delete
begin

text \<open>
  A verification development for \<open>dungeon\<close>, a server that runs many cooperative state machines
  (\<open>imps\<close>) on a few worker threads.

  The program.  \<open>main.c\<close> reads a JSON configuration (\<open>conf.c\<close>, \<open>cJSON.c\<close>), raises the limit of
  open files and calls \<open>dungeon_init\<close> (\<open>dungeon.c\<close>), which creates two bounded queues
  (\<open>ds_queue2.c\<close>), the threads and the rooms.  An imp (\<open>imp.c\<close>) owns a body with an epoll, a timer
  and an event descriptor (\<open>imp_body.c\<close>) and a list of requested events (\<open>ds_llist.c\<close>); its soul
  belongs to a room (\<open>modules/*/mod.c\<close>), a shared object that \<open>module_handler.c\<close> loads.  A worker
  thread (\<open>thr_worker.c\<close>) takes an imp from the run queue and drives its soul once; the soul asks to
  run again, to terminate, or to wait for events, and the driver arms what it requested.  The epoll
  thread wakes sleeping imps, the maintainer (\<open>thr_maintainer.c\<close>) dismisses the terminated ones, and
  the monitor (\<open>thr_monitor.c\<close>) sends a report to whoever connects.  The souls move bytes with
  \<open>util_conn_tcp.c\<close>, which receives into and sends from a buffer of blocks (\<open>ds_bufferlist.c\<close>).
  \<open>ds_hasht.c\<close> is a hash table of items that carry their own keys, \<open>ds_rbtree.c\<close> a red-black tree,
  \<open>util_log.c\<close> the log.

  Undefined behaviour is a value.  A function that can leave the C language returns \<open>Inl\<close> of a
  \<open>ub\<close> or \<open>Inr\<close> of its result; error codes are ordinary results.  What the kernel, \<open>malloc\<close> and
  a soul answer are arguments.  Indices of queues are 32-bit words, pointers 64-bit words and
  hashes 32-bit words; an \<open>int\<close> whose overflow matters is an \<open>int\<close> with the overflow as \<open>ub\<close>.

  Theories, from the bottom:
  \<^item> \<open>Prelude\<close>: machine types, undefined behaviour and its binding, errno, lemmas on lists.
  \<^item> \<open>Queue_Interface\<close>, \<open>Buffer_Interface\<close>: locales for a FIFO source, a bounded queue and a
    buffer of chunks, with the facts their clients use.
  \<^item> \<open>Queue2\<close> (\<open>ds_queue2.c\<close>): the ring buffer and every operation; it refines a bounded FIFO, and
    the condition under which the unique enqueue reads past the bucket.
  \<^item> \<open>Queue2_Monitor\<close>: the blocking operations with their lock and two condition variables as a step
    relation; no lost wakeup, and FIFO order over every interleaving.
  \<^item> \<open>Cas_Queue\<close> (\<open>ds_queue.c\<close>): the older lock-free queue, one step for each access to its indices and
    cells.  Alone it is another bounded queue; between one producer and one consumer it is a FIFO over
    every interleaving; with two consumers it can return an item twice and lose another.
  \<^item> \<open>Llist\<close> (\<open>ds_llist.c\<close>): a heap of nodes; appending and fetching refine a bounded list, the
    loops end, and what matching does to the list.
  \<^item> \<open>Bufferlist\<close> (\<open>ds_bufferlist.c\<close>): blocks on top of the list, the stream they hold, reading and
    writing, and the error paths.
  \<^item> \<open>ConnTcp\<close> (\<open>util_conn_tcp.c\<close>): vectored sending and receiving against arbitrary kernels.
  \<^item> \<open>Imp\<close> (\<open>imp.c\<close>, \<open>imp_body.c\<close>): bodies and timers, summoning, driving, waking, dismissing.
  \<^item> \<open>Dungeon\<close> (\<open>dungeon.c\<close>, \<open>thr_worker.c\<close>, \<open>thr_maintainer.c\<close>): the turns of the threads, start and
    end; the invariant that every imp is in one place.  A turn is one step here, and \<open>action_ok\<close> says
    what the environment is assumed to do.  \<open>Dungeon_Safety\<close> holds what follows for all
    reachable states: placement, what becomes of imps that are driven, woken and killed, and the
    shutdown.  \<open>Dungeon_Faults\<close> drops \<open>action_ok\<close>: allocations fail where the code does not look, souls
    set their timer and terminate, descriptors stay open, dead imps are killed; placement survives,
    and every undefined behaviour a turn can then run into is listed with its cause.  \<open>Run_Order\<close>
    shows that no queued imp is overtaken.  \<open>Imp_Race\<close> takes the driver apart into steps that
    another thread can interrupt, and finds a use after free that no whole turn shows.
  \<^item> \<open>Maintainer\<close> (\<open>thr_maintainer.c\<close>): its mutex, condition variable and flags as a step relation
    against any number of terminating threads; no termination is forgotten, and it ends when told.
  \<^item> \<open>Worker_Threads\<close> (\<open>thr_worker.c\<close>): creating, binding to processors, stopping and listing the
    workers.
  \<^item> \<open>Room_Interface\<close>, \<open>Room_Dumb\<close>, \<open>Room_Echo\<close>, \<open>Room_Httpd\<close> (\<open>modules/\<close>): what the dungeon expects
    of a soul as a locale, and the three rooms as its instances.  \<open>Room_Config\<close> and \<open>Room_Init\<close> hold
    their configuration, \<open>mod_init\<close> and \<open>mod_destroy\<close>, with what becomes of the listener when the
    dungeon is deleted.
  \<^item> \<open>Room_Loading\<close> (\<open>module_handler.c\<close>, \<open>dungeon.c\<close>): loading the rooms a configuration describes and
    unloading them, whatever their code does; the files that stay open (\<open>rooms_balance\<close> in \<open>Room_Init\<close>,
    with the room \<open>echo\<close> as its instance).
  \<^item> \<open>Hasht\<close> (\<open>ds_hasht.c\<close>): the hash function, buckets and every operation; it refines a bag of
    items, and where it loses an item or a lock.  \<open>State_Dict\<close> (\<open>ds_state_dict.c\<close>) is its client, a
    dictionary of servers by name: what it finds and changes, and what it does once destroyed.
    \<open>Hasht_Report\<close> holds the dumps of both: a dump that ends has come across every item once.
  \<^item> \<open>Cjson\<close>, \<open>Cjson_Io\<close>, \<open>Cjson_Text\<close>, \<open>Cjson_Roundtrip\<close> (\<open>cJSON.c\<close>): items as trees, JSON
    strings, documents over a descriptor, parsing and printing, and that parsing inverts printing.
  \<^item> \<open>Conf\<close> (\<open>conf.c\<close>): loading, reloading and asking the configuration; it stays typed.
  \<^item> \<open>Monitor\<close> (\<open>thr_monitor.c\<close>, \<open>dungeon_serialize\<close>): the report, whose text parses back to what the
    dungeon holds, and the start of the monitor.
  \<^item> \<open>Log\<close> (\<open>util_log.c\<close>): the targets of the log and their streams over every history of calls.
  \<^item> \<open>Rbtree\<close> (\<open>ds_rbtree.c\<close>): the red-black tree with parent pointers, over the memory of its nodes.
    \<open>Rbtree_Memory\<close> says which tree the memory holds and what painting and rotating do to it;
    \<open>Rbtree_Insert\<close> and \<open>Rbtree_Delete\<close> prove both operations with their repairs, the first for any
    comparison that is an order on the keys in use (locale \<open>rb_order\<close>), as the two of the source are.
  \<^item> \<open>Timespec\<close> (\<open>util_misc.c\<close>), \<open>Memvec\<close> (\<open>ds_memvec.c\<close>, \<open>ds_string.c\<close>), \<open>Bitmap\<close> (\<open>ds_bmap.c\<close>): small
    data types, each with what it computes and where it goes wrong.
  \<^item> \<open>Startup\<close> (\<open>main.c\<close>): from the command line to the dungeon, and the search for the limit of
    open files.  \<open>Keeper\<close> holds the rest: the parent that replaces a broken dungeon as a step
    relation, the signals, the exit and the initial targets of the log.  This theory adds how the
    configured number of workers is bound to processors.

  Bounds and fuel.  \<open>arm_loop\<close> has fuel 1001, as the list of requested events holds at most 1000.
  \<open>queue_travel\<close> of the lock-free queue has as many turns as there are cells, and a call that nobody
  interrupts has at most five accesses.  The draining loops of \<open>dungeon_delete\<close> have one turn more
  than the capacity of their queue.
  The loops of the red-black tree have fuel: twice the logarithm of the number of nodes is enough.
  The loops of \<open>conn_tcp_sendv_nb\<close> and \<open>conn_tcp_recvv_nb\<close> end by a measure.  \<open>cJSON_Parse\<close> has twice
  the length of the text plus two as fuel, and \<open>parse_ends\<close> shows that it never runs out.  The loops of \<open>llist_travel\<close>
  and \<open>llist_delete\<close> may run for ever in the source and are partial functions.

  Not modelled.  Floating point: what \<open>cJSON.c\<close> makes of a fraction, an exponent or an integer
  outside the range of an \<open>int\<close> is an argument of the parser, and only integers are printed; the
  rate in \<open>hasht_info_cjson\<close>, a fraction, is an argument too.  JSON items that share children, and
  failing allocations inside \<open>cJSON.c\<close>.  A signal arrives between turns only (\<open>daemon_exit\<close> is not
  run inside another function); only \<open>imp_driver\<close>, the maintainer and the queues are interleaved below
  the turn, and the loop of \<open>thr_epoller\<close> over its events is one step; priorities of threads, the text of log lines, name resolution.  A
  worker is cancelled between its turns only.
  The report is taken at one moment, although the code reads the counters without a lock.
  \<open>util_conn_udp.c\<close> is an unfinished copy of \<open>util_conn_tcp.c\<close> that does not compile; the Makefile
  does not build it.
\<close>

section \<open>From the configuration to the workers\<close>

lemma conf_get_workers_wants:
  "conf_get_workers \<lparr>global_conf = Some c, conf_live = m\<rparr> n = Inr (fst (wants c n))"
  by (auto simp: conf_get_workers_def conf_get_workers_internal_def GetObjectItem_first wants_def split: option.splits)

text \<open>
  C29.  The number of workers \<open>main\<close> hands to \<open>dungeon_init\<close>, and what \<open>thr_worker_create\<close> does with it
  when every thread can be created.  Without a number in the configuration there is one worker for
  each processor the process may use, each bound to its own, in increasing order; with a larger
  number the processor of the first worker too many is read from memory nobody has set, unless the
  very last processor of a \<open>cpu_set_t\<close> is among the allowed.
\<close>

theorem configured_workers:
  assumes "affinity sys = Some cpus" and "\<forall>i p. create i p" and "0 \<le> fst (wants c (cpus_of sys))"
  shows "\<exists>n. conf_get_workers \<lparr>global_conf = Some c, conf_live = m\<rparr> (cpus_of sys) = Inr n
     \<and> (first_member c ''Workers'' = None \<and> filter cpus [0..<1024] \<noteq> [] \<longrightarrow> n = int (length (filter cpus [0..<1024])))
     \<and> (if n \<le> int (length (filter cpus [0..<1024]))
        then \<exists>w'. thr_worker_create n cpus True True create w = Inr (n, w') \<and> num_thr w' = nat n
               \<and> map cpubind (the (info_thr w')) = map Some (take (nat n) (filter cpus [0..<1024]))
        else cpus 1023 \<or> thr_worker_create n cpus True True create w = Inl Uninitialised)"
proof -
  let ?n = "fst (wants c (cpus_of sys))"
  have "filter cpus [0..<1024] = allowed cpus 0" by (simp add: allowed_def)
  moreover have "first_member c ''Workers'' = None \<Longrightarrow> filter cpus [0..<1024] \<noteq> []
      \<Longrightarrow> ?n = int (length (filter cpus [0..<1024]))"
    using assms(1) by (simp add: wants_def cpus_of_def get_nrcpu_def)
  ultimately show ?thesis using workers_bound [OF assms(2,3), of cpus w] conf_get_workers_wants
    by (intro exI [of _ ?n]) simp
qed

lemma filter_upt_below:
  assumes "k \<le> n" and "\<And>p. k \<le> p \<Longrightarrow> \<not> P p"
  shows "filter P [0..<n] = filter P [0..<k]"
proof -
  have "[0..<n] = [0..<k] @ [k..<n]" using upt_add_eq_append [of 0 k "n - k"] assms(1) by simp
  moreover have "filter P [k..<n] = []" using assms(2) by (auto simp: filter_empty_conv)
  ultimately show ?thesis by simp
qed

theorem configured_workers_witness:
  "\<exists>w'. thr_worker_create 2 (\<lambda>p. p \<in> {1, 3}) True True (\<lambda>i p. True) workers_start = Inr (2, w')
     \<and> map cpubind (the (info_thr w')) = [Some 1, Some 3]"
proof -
  let ?sys = "\<lparr>affinity = Some (\<lambda>p. p \<in> {1, 3}), sys_setrlimit = lower_only, sys_kernel = 4096\<rparr>"
  have "filter (\<lambda>p :: nat. p \<in> {1, 3}) [0..<1024] = filter (\<lambda>p. p \<in> {1, 3}) [0..<4]"
    by (rule filter_upt_below) auto
  also have "\<dots> = [1, 3]" by code_simp
  finally have cpus: "filter (\<lambda>p :: nat. p \<in> {1, 3}) [0..<1024] = [1, 3]" .
  have members: "first_member cJSON_CreateObject ''Workers'' = None" by code_simp
  have "0 \<le> fst (wants cJSON_CreateObject (cpus_of ?sys))"
    by (simp add: wants_def members cpus_of_def get_nrcpu_def del: upt_rec_numeral)
  then show ?thesis
    using configured_workers [of ?sys "\<lambda>p. p \<in> {1, 3}" "\<lambda>i p. True" cJSON_CreateObject 0 workers_start]
    unfolding cpus by (auto simp: members)
qed

end
